(* ===== verification/Prelude.thy ===== *)
theory Prelude
  imports Main "HOL-Library.Word"
begin

text \<open>
  Shared vocabulary of the development: machine integers at the widths the C code uses,
  the outcome of a C call, the sequencing ``call, and return early unless it returned true'',
  little-endian words, and the flat byte memory the message structs live in.
  The target is the 64-bit little-endian iOS build of the pods, so \<open>size_t\<close> and pointers
  are 64 bits wide.
\<close>

unbundle bit_operations_syntax

type_synonym u8 = "8 word"
type_synonym u32 = "32 word"
type_synonym u64 = "64 word"
type_synonym addr = "64 word"
type_synonym mem = "addr \<Rightarrow> u8"

named_theorems chk_simps \<open>evaluation of sequenced calls\<close>
named_theorems stream_simps \<open>evaluation of stream operations\<close>

section \<open>Outcomes of a call\<close>

text \<open>
  A C function returning \<open>bool\<close> ends in one of four ways: it returns \<open>true\<close> (\<open>Ok\<close>),
  it returns \<open>false\<close> (\<open>Fail\<close>), it has not returned within the fuel given to the model
  (\<open>Diverge\<close>), or it has executed an operation whose behaviour C leaves undefined, such
  as a read past the end of an array or a call through a null pointer (\<open>Undef\<close>).
\<close>

datatype status = Ok | Fail | Diverge | Undef

text \<open>The idiom \<open>if (!f(...)) return false;\<close> followed by the rest of the function.\<close>

definition chk :: "status \<times> 's \<Rightarrow> ('s \<Rightarrow> status \<times> 's) \<Rightarrow> status \<times> 's" where
  "chk r k = (case r of (st, s) \<Rightarrow> if st = Ok then k s else (st, s))"

lemma chk_Ok [simp, chk_simps]: "chk (Ok, s) k = k s"
  by (simp add: chk_def)

lemma chk_not_Ok [simp, chk_simps]: "st \<noteq> Ok \<Longrightarrow> chk (st, s) k = (st, s)"
  by (simp add: chk_def)

lemma chk_return [simp]: "chk r (\<lambda>s. (Ok, s)) = r"
  by (cases r) (simp add: chk_def)

lemma chk_assoc: "chk (chk r k) l = chk r (\<lambda>s. chk (k s) l)"
  by (cases r) (simp add: chk_def)

lemma fst_chk_not_Ok: "fst r \<noteq> Ok \<Longrightarrow> fst (chk r k) = fst r"
  by (cases r) simp

lemma chk_eq_Ok: "chk r k = (Ok, t) \<longleftrightarrow> (\<exists>s. r = (Ok, s) \<and> k s = (Ok, t))"
  by (cases r) (auto simp: chk_def)

lemma chk_cases:
  obtains (ok) s where "r = (Ok, s)" "chk r k = k s"
  | (early) st s where "r = (st, s)" "st \<noteq> Ok" "chk r k = (st, s)"
  by (cases r) (metis chk_Ok chk_not_Ok)

section \<open>Little-endian words\<close>

fun le_word :: "u8 list \<Rightarrow> 'a::len word" where
  "le_word [] = 0"
| "le_word (b # bs) = ucast b OR push_bit 8 (le_word bs)"

fun le_bytes :: "nat \<Rightarrow> 'a::len word \<Rightarrow> u8 list" where
  "le_bytes 0 w = []"
| "le_bytes (Suc n) w = ucast w # le_bytes n (drop_bit 8 w)"

lemma length_le_bytes [simp]: "length (le_bytes n w) = n"
  by (induction n arbitrary: w) auto

lemma bit_le_word:
  "bit (le_word bs :: 'a::len word) k \<longleftrightarrow>
     k < LENGTH('a) \<and> k div 8 < length bs \<and> bit (bs ! (k div 8)) (k mod 8)"
proof (induction bs arbitrary: k)
  case Nil
  then show ?case by simp
next
  case (Cons b bs)
  show ?case
  proof (cases "k < 8")
    case True
    then show ?thesis by (auto simp: bit_simps)
  next
    case False
    then obtain j where k: "k = 8 + j" by (metis le_iff_add linorder_not_less)
    have "\<not> bit b k" using False by (simp add: bit_word.rep_eq)
    moreover have "k div 8 = Suc (j div 8)" "k mod 8 = j mod 8" by (simp_all add: k)
    ultimately show ?thesis
      using Cons.IH [of j] by (auto simp: bit_simps k)
  qed
qed

lemma nth_le_bytes: "i < n \<Longrightarrow> le_bytes n w ! i = ucast (drop_bit (8 * i) w)"
proof (induction n arbitrary: i w)
  case (Suc n)
  then show ?case by (cases i) (auto simp: ac_simps)
qed simp

lemma le_word_le_bytes:
  fixes w :: "'a::len word"
  assumes "LENGTH('a) \<le> 8 * n"
  shows "le_word (le_bytes n w) = w"
proof (rule bit_word_eqI)
  fix k assume k: "k < LENGTH('a)"
  then have "k div 8 < n" using assms by auto
  then show "bit (le_word (le_bytes n w) :: 'a word) k = bit w k"
    using k by (simp add: bit_le_word nth_le_bytes bit_simps)
qed

lemma le_bytes_le_word:
  assumes "length bs = n" "8 * n \<le> LENGTH('a)"
  shows "le_bytes n (le_word bs :: 'a::len word) = bs"
proof (rule nth_equalityI)
  fix i assume i: "i < length (le_bytes n (le_word bs :: 'a word))"
  show "le_bytes n (le_word bs :: 'a word) ! i = bs ! i"
  proof (rule bit_word_eqI)
    fix k assume k: "k < LENGTH(8)"
    then have "8 * i + k < LENGTH('a)" using i assms by auto
    moreover have "(8 * i + k) div 8 = i" "(8 * i + k) mod 8 = k" using k by auto
    ultimately show "bit (le_bytes n (le_word bs :: 'a word) ! i) k = bit (bs ! i) k"
      using i k assms by (simp add: nth_le_bytes bit_simps bit_le_word)
  qed
qed (use assms in simp)

section \<open>Byte memory\<close>

text \<open>
  Memory is a total map from addresses to bytes, as on the machine: pointer arithmetic
  wraps, and a struct is the bytes at its address. A write of a run of bytes replaces
  exactly the addresses \<open>p, p + 1, \<dots>\<close> of the run.
\<close>

definition load_bytes :: "mem \<Rightarrow> addr \<Rightarrow> nat \<Rightarrow> u8 list" where
  "load_bytes m p n = map (\<lambda>i. m (p + of_nat i)) [0..<n]"

definition store_bytes :: "mem \<Rightarrow> addr \<Rightarrow> u8 list \<Rightarrow> mem" where
  "store_bytes m p bs = (\<lambda>a. let i = unat (a - p) in if i < length bs then bs ! i else m a)"

definition load8 :: "mem \<Rightarrow> addr \<Rightarrow> u8" where
  "load8 m p = m p"

definition load16 :: "mem \<Rightarrow> addr \<Rightarrow> 16 word" where
  "load16 m p = le_word (load_bytes m p 2)"

definition load32 :: "mem \<Rightarrow> addr \<Rightarrow> u32" where
  "load32 m p = le_word (load_bytes m p 4)"

definition load64 :: "mem \<Rightarrow> addr \<Rightarrow> u64" where
  "load64 m p = le_word (load_bytes m p 8)"

lemma length_load_bytes [simp]: "length (load_bytes m p n) = n"
  by (simp add: load_bytes_def)

lemma nth_load_bytes: "i < n \<Longrightarrow> load_bytes m p n ! i = m (p + of_nat i)"
  by (simp add: load_bytes_def)

lemma load_store_bytes:
  assumes "length bs \<le> 2 ^ 64"
  shows "load_bytes (store_bytes m p bs) p (length bs) = bs"
proof (rule nth_equalityI)
  fix i assume i: "i < length (load_bytes (store_bytes m p bs) p (length bs))"
  then have "unat (of_nat i :: addr) = i" using assms by (simp add: unat_of_nat)
  then show "load_bytes (store_bytes m p bs) p (length bs) ! i = bs ! i"
    using i by (simp add: nth_load_bytes store_bytes_def)
qed simp

lemma store_bytes_outside: "length bs \<le> unat (a - p) \<Longrightarrow> store_bytes m p bs a = m a"
  by (simp add: store_bytes_def)

lemma store_bytes_Nil [simp]: "store_bytes m p [] = m"
  by (simp add: store_bytes_def)

lemma unat_drop_bit: "unat (drop_bit n (w :: 'a::len word)) = unat w div 2 ^ n"
  using unsigned_less [of w]
  by (subst unsigned_drop_bit_eq) (simp add: take_bit_nat_eq_self drop_bit_eq_div)

lemma unat_ucast_up:
  fixes w :: "'a::len word"
  assumes "LENGTH('a) \<le> LENGTH('b)"
  shows "unat (ucast w :: 'b::len word) = unat w"
proof -
  have "unat w < 2 ^ LENGTH('b)"
    using unsigned_less [of w] power_increasing [OF assms, of "2 :: nat"]
    by (metis le_trans less_le_trans one_le_numeral order_less_le_trans)
  then show ?thesis by (simp add: unsigned_ucast_eq take_bit_nat_eq_self)
qed

lemma unat_of_nat_lt: "n < 2 ^ LENGTH('a) \<Longrightarrow> unat (of_nat n :: 'a::len word) = n"
  by (simp add: unat_of_nat)

end
