(* ===== verification/PbTypes.thy ===== *)
theory PbTypes
  imports Prelude
begin

text \<open>
  The data declarations of \<open>pb.h\<close>: the field type byte and its three sub-fields, field
  descriptors, the macros that fill descriptors in, wire types, and the layout of the
  structs the library reads from message memory.  The pods are built with
  \<open>PB_FIELD_32BIT\<close>, so \<open>pb_size_t\<close> is 32 bits wide.
\<close>

section \<open>The field type byte\<close>

datatype pb_ltype = LTYPE_VARINT | LTYPE_UVARINT | LTYPE_SVARINT | LTYPE_FIXED32
  | LTYPE_FIXED64 | LTYPE_BYTES | LTYPE_STRING | LTYPE_SUBMESSAGE | LTYPE_EXTENSION
  | LTYPE_FIXED_LENGTH_BYTES | LTYPE_INVALID

datatype pb_htype = HTYPE_REQUIRED | HTYPE_OPTIONAL | HTYPE_REPEATED | HTYPE_ONEOF

datatype pb_atype = ATYPE_STATIC | ATYPE_POINTER | ATYPE_CALLBACK | ATYPE_INVALID

definition PB_LTYPE :: "u8 \<Rightarrow> pb_ltype" where
  "PB_LTYPE x = (let l = x AND 0x0F in
     if l = 0x00 then LTYPE_VARINT else if l = 0x01 then LTYPE_UVARINT
     else if l = 0x02 then LTYPE_SVARINT else if l = 0x03 then LTYPE_FIXED32
     else if l = 0x04 then LTYPE_FIXED64 else if l = 0x05 then LTYPE_BYTES
     else if l = 0x06 then LTYPE_STRING else if l = 0x07 then LTYPE_SUBMESSAGE
     else if l = 0x08 then LTYPE_EXTENSION else if l = 0x09 then LTYPE_FIXED_LENGTH_BYTES
     else LTYPE_INVALID)"

definition PB_HTYPE :: "u8 \<Rightarrow> pb_htype" where
  "PB_HTYPE x = (let h = x AND 0x30 in
     if h = 0x00 then HTYPE_REQUIRED else if h = 0x10 then HTYPE_OPTIONAL
     else if h = 0x20 then HTYPE_REPEATED else HTYPE_ONEOF)"

definition PB_ATYPE :: "u8 \<Rightarrow> pb_atype" where
  "PB_ATYPE x = (let a = x AND 0xC0 in
     if a = 0x00 then ATYPE_STATIC else if a = 0x80 then ATYPE_POINTER
     else if a = 0x40 then ATYPE_CALLBACK else ATYPE_INVALID)"

fun ltype_bits :: "pb_ltype \<Rightarrow> u8" where
  "ltype_bits LTYPE_VARINT = 0x00"
| "ltype_bits LTYPE_UVARINT = 0x01"
| "ltype_bits LTYPE_SVARINT = 0x02"
| "ltype_bits LTYPE_FIXED32 = 0x03"
| "ltype_bits LTYPE_FIXED64 = 0x04"
| "ltype_bits LTYPE_BYTES = 0x05"
| "ltype_bits LTYPE_STRING = 0x06"
| "ltype_bits LTYPE_SUBMESSAGE = 0x07"
| "ltype_bits LTYPE_EXTENSION = 0x08"
| "ltype_bits LTYPE_FIXED_LENGTH_BYTES = 0x09"
| "ltype_bits LTYPE_INVALID = 0x0F"

fun htype_bits :: "pb_htype \<Rightarrow> u8" where
  "htype_bits HTYPE_REQUIRED = 0x00"
| "htype_bits HTYPE_OPTIONAL = 0x10"
| "htype_bits HTYPE_REPEATED = 0x20"
| "htype_bits HTYPE_ONEOF = 0x30"

fun atype_bits :: "pb_atype \<Rightarrow> u8" where
  "atype_bits ATYPE_STATIC = 0x00"
| "atype_bits ATYPE_POINTER = 0x80"
| "atype_bits ATYPE_CALLBACK = 0x40"
| "atype_bits ATYPE_INVALID = 0xC0"

definition pb_type :: "pb_atype \<Rightarrow> pb_htype \<Rightarrow> pb_ltype \<Rightarrow> u8" where
  "pb_type a h l = atype_bits a OR htype_bits h OR ltype_bits l"

lemma PB_ATYPE_pb_type [simp]: "PB_ATYPE (pb_type a h l) = a"
  by (cases a; cases h; cases l) (simp_all add: PB_ATYPE_def pb_type_def)

lemma PB_HTYPE_pb_type [simp]: "PB_HTYPE (pb_type a h l) = h"
  by (cases a; cases h; cases l) (simp_all add: PB_HTYPE_def pb_type_def)

lemma PB_LTYPE_pb_type [simp]: "PB_LTYPE (pb_type a h l) = l"
  by (cases a; cases h; cases l) (simp_all add: PB_LTYPE_def pb_type_def)

text \<open>\<open>PB_LTYPE(type) <= PB_LTYPE_LAST_PACKABLE\<close>.\<close>

fun packable :: "pb_ltype \<Rightarrow> bool" where
  "packable LTYPE_VARINT = True"
| "packable LTYPE_UVARINT = True"
| "packable LTYPE_SVARINT = True"
| "packable LTYPE_FIXED32 = True"
| "packable LTYPE_FIXED64 = True"
| "packable _ = False"

lemma packable_iff:
  "packable l \<longleftrightarrow> l \<in> {LTYPE_VARINT, LTYPE_UVARINT, LTYPE_SVARINT, LTYPE_FIXED32, LTYPE_FIXED64}"
  by (cases l) auto

section \<open>Field descriptors\<close>

text \<open>
  \<open>size_offset\<close> is a signed 32-bit value and is sign extended where it is added to a
  pointer. \<open>ptr\<close> is the address of the submessage descriptors or of the default value.
  A descriptor array is the list of its entries before \<open>PB_LAST_FIELD\<close>; reading at or
  after the end of the list yields the terminator.
\<close>

record pb_field =
  tag :: u32
  ftype :: u8
  data_offset :: u32
  size_offset :: u32
  data_size :: u32
  array_size :: u32
  ptr :: addr

definition PB_LAST_FIELD :: pb_field where
  "PB_LAST_FIELD = \<lparr>tag = 0, ftype = 0, data_offset = 0, size_offset = 0,
     data_size = 0, array_size = 0, ptr = 0\<rparr>"

definition field_at :: "pb_field list \<Rightarrow> nat \<Rightarrow> pb_field" where
  "field_at fs i = (if i < length fs then fs ! i else PB_LAST_FIELD)"

definition PB_SIZE_MAX :: u32 where
  "PB_SIZE_MAX = - 1"

abbreviation ltype :: "pb_field \<Rightarrow> pb_ltype" where
  "ltype f \<equiv> PB_LTYPE (ftype f)"

abbreviation htype :: "pb_field \<Rightarrow> pb_htype" where
  "htype f \<equiv> PB_HTYPE (ftype f)"

abbreviation atype :: "pb_field \<Rightarrow> pb_atype" where
  "atype f \<equiv> PB_ATYPE (ftype f)"

text \<open>
  The descriptor macros, over the offsets and sizes the compiler computes for the struct:
  \<open>fd\<close> is the data offset, \<open>so\<close> the delta of the companion member (\<open>has_\<close>,
  \<open>_count\<close> or \<open>which_\<close>), \<open>sz\<close> the member or item size, \<open>n\<close> the array length.
\<close>

definition mk_field :: "u32 \<Rightarrow> u8 \<Rightarrow> u32 \<Rightarrow> u32 \<Rightarrow> u32 \<Rightarrow> u32 \<Rightarrow> addr \<Rightarrow> pb_field" where
  "mk_field t ty fd so sz n p = \<lparr>tag = t, ftype = ty, data_offset = fd, size_offset = so,
     data_size = sz, array_size = n, ptr = p\<rparr>"

definition PB_REQUIRED_STATIC :: "u32 \<Rightarrow> u32 \<Rightarrow> u32 \<Rightarrow> pb_ltype \<Rightarrow> addr \<Rightarrow> pb_field" where
  "PB_REQUIRED_STATIC t fd sz l p =
     mk_field t (pb_type ATYPE_STATIC HTYPE_REQUIRED l) fd 0 sz 0 p"

definition PB_OPTIONAL_STATIC :: "u32 \<Rightarrow> u32 \<Rightarrow> u32 \<Rightarrow> u32 \<Rightarrow> pb_ltype \<Rightarrow> addr \<Rightarrow> pb_field" where
  "PB_OPTIONAL_STATIC t fd so sz l p =
     mk_field t (pb_type ATYPE_STATIC HTYPE_OPTIONAL l) fd so sz 0 p"

definition PB_SINGULAR_STATIC :: "u32 \<Rightarrow> u32 \<Rightarrow> u32 \<Rightarrow> pb_ltype \<Rightarrow> addr \<Rightarrow> pb_field" where
  "PB_SINGULAR_STATIC t fd sz l p =
     mk_field t (pb_type ATYPE_STATIC HTYPE_OPTIONAL l) fd 0 sz 0 p"

definition PB_REPEATED_STATIC ::
    "u32 \<Rightarrow> u32 \<Rightarrow> u32 \<Rightarrow> u32 \<Rightarrow> u32 \<Rightarrow> pb_ltype \<Rightarrow> addr \<Rightarrow> pb_field" where
  "PB_REPEATED_STATIC t fd so sz n l p =
     mk_field t (pb_type ATYPE_STATIC HTYPE_REPEATED l) fd so sz n p"

definition PB_REQUIRED_POINTER :: "u32 \<Rightarrow> u32 \<Rightarrow> u32 \<Rightarrow> pb_ltype \<Rightarrow> addr \<Rightarrow> pb_field" where
  "PB_REQUIRED_POINTER t fd sz l p =
     mk_field t (pb_type ATYPE_POINTER HTYPE_REQUIRED l) fd 0 sz 0 p"

definition PB_OPTIONAL_POINTER :: "u32 \<Rightarrow> u32 \<Rightarrow> u32 \<Rightarrow> pb_ltype \<Rightarrow> addr \<Rightarrow> pb_field" where
  "PB_OPTIONAL_POINTER t fd sz l p =
     mk_field t (pb_type ATYPE_POINTER HTYPE_OPTIONAL l) fd 0 sz 0 p"

definition PB_REPEATED_POINTER ::
    "u32 \<Rightarrow> u32 \<Rightarrow> u32 \<Rightarrow> u32 \<Rightarrow> pb_ltype \<Rightarrow> addr \<Rightarrow> pb_field" where
  "PB_REPEATED_POINTER t fd so sz l p =
     mk_field t (pb_type ATYPE_POINTER HTYPE_REPEATED l) fd so sz 0 p"

definition PB_OPTIONAL_CALLBACK :: "u32 \<Rightarrow> u32 \<Rightarrow> u32 \<Rightarrow> pb_ltype \<Rightarrow> addr \<Rightarrow> pb_field" where
  "PB_OPTIONAL_CALLBACK t fd sz l p =
     mk_field t (pb_type ATYPE_CALLBACK HTYPE_OPTIONAL l) fd 0 sz 0 p"

definition PB_OPTEXT_STATIC :: "u32 \<Rightarrow> u32 \<Rightarrow> pb_ltype \<Rightarrow> addr \<Rightarrow> pb_field" where
  "PB_OPTEXT_STATIC t sz l p =
     mk_field t (pb_type ATYPE_STATIC HTYPE_REQUIRED l) 0 0 sz 0 p"

definition PB_REPEATED_FIXED_COUNT ::
    "u32 \<Rightarrow> u32 \<Rightarrow> u32 \<Rightarrow> u32 \<Rightarrow> pb_ltype \<Rightarrow> addr \<Rightarrow> pb_field" where
  "PB_REPEATED_FIXED_COUNT t fd sz n l p =
     mk_field t (pb_type ATYPE_STATIC HTYPE_REPEATED l) fd 0 sz n p"

definition PB_ONEOF_STATIC :: "u32 \<Rightarrow> u32 \<Rightarrow> u32 \<Rightarrow> u32 \<Rightarrow> pb_ltype \<Rightarrow> addr \<Rightarrow> pb_field" where
  "PB_ONEOF_STATIC t fd so sz l p =
     mk_field t (pb_type ATYPE_STATIC HTYPE_ONEOF l) fd so sz 0 p"

definition PB_ONEOF_POINTER :: "u32 \<Rightarrow> u32 \<Rightarrow> u32 \<Rightarrow> u32 \<Rightarrow> pb_ltype \<Rightarrow> addr \<Rightarrow> pb_field" where
  "PB_ONEOF_POINTER t fd so sz l p =
     mk_field t (pb_type ATYPE_POINTER HTYPE_ONEOF l) fd so sz 0 p"

lemmas pb_field_macros = mk_field_def PB_REQUIRED_STATIC_def PB_OPTIONAL_STATIC_def
  PB_SINGULAR_STATIC_def PB_REPEATED_STATIC_def PB_REQUIRED_POINTER_def
  PB_OPTIONAL_POINTER_def PB_REPEATED_POINTER_def PB_OPTIONAL_CALLBACK_def
  PB_OPTEXT_STATIC_def PB_REPEATED_FIXED_COUNT_def PB_ONEOF_STATIC_def PB_ONEOF_POINTER_def

text \<open>
  Two kinds of companion member share one field: \<open>_count\<close> of a repeated field with no
  counter member is marked by \<open>size_offset = 0\<close>.
\<close>

lemma tag_PB_LAST_FIELD [simp]: "tag PB_LAST_FIELD = 0"
  by (simp add: PB_LAST_FIELD_def)

lemma field_at_nonterminal: "tag (field_at fs i) \<noteq> 0 \<Longrightarrow> i < length fs"
  by (auto simp: field_at_def split: if_splits)

section \<open>Wire types\<close>

text \<open>\<open>PB_WT_OTHER\<close> stands for the values that the cast in the decoder can produce
  outside the enumeration.\<close>

datatype pb_wire_type = PB_WT_VARINT | PB_WT_64BIT | PB_WT_STRING | PB_WT_32BIT | PB_WT_OTHER u32

fun wire_type_code :: "pb_wire_type \<Rightarrow> u32" where
  "wire_type_code PB_WT_VARINT = 0"
| "wire_type_code PB_WT_64BIT = 1"
| "wire_type_code PB_WT_STRING = 2"
| "wire_type_code PB_WT_32BIT = 5"
| "wire_type_code (PB_WT_OTHER w) = w"

definition wire_type_of :: "u32 \<Rightarrow> pb_wire_type" where
  "wire_type_of w = (if w = 0 then PB_WT_VARINT else if w = 1 then PB_WT_64BIT
     else if w = 2 then PB_WT_STRING else if w = 5 then PB_WT_32BIT else PB_WT_OTHER w)"

lemma wire_type_code_of [simp]: "wire_type_code (wire_type_of w) = w"
  by (simp add: wire_type_of_def)

section \<open>Structs in message memory\<close>

text \<open>
  \<open>pb_bytes_array_t\<close> is a 4-byte size followed by the bytes; \<open>pb_callback_t\<close> is the
  function pointer followed by \<open>arg\<close>; \<open>pb_extension_t\<close> is \<open>type\<close>, \<open>dest\<close>, \<open>next\<close>
  and \<open>found\<close>; \<open>pb_extension_type_t\<close> is \<open>decode\<close>, \<open>encode\<close> and \<open>arg\<close>.
\<close>

definition PB_BYTES_ARRAY_T_ALLOCSIZE :: "u64 \<Rightarrow> u64" where
  "PB_BYTES_ARRAY_T_ALLOCSIZE n = n + 4"

definition bytes_size :: "mem \<Rightarrow> addr \<Rightarrow> u32" where
  "bytes_size m p = load32 m p"

definition bytes_data :: "addr \<Rightarrow> addr" where
  "bytes_data p = p + 4"

definition callback_fun :: "mem \<Rightarrow> addr \<Rightarrow> addr" where
  "callback_fun m p = load64 m p"

definition callback_arg :: "addr \<Rightarrow> addr" where
  "callback_arg p = p + 8"

definition ext_type :: "mem \<Rightarrow> addr \<Rightarrow> addr" where
  "ext_type m e = load64 m e"

definition ext_dest :: "addr \<Rightarrow> addr" where
  "ext_dest e = e + 8"

definition ext_next :: "mem \<Rightarrow> addr \<Rightarrow> addr" where
  "ext_next m e = load64 m (e + 16)"

definition ext_found :: "addr \<Rightarrow> addr" where
  "ext_found e = e + 24"

definition ext_type_decode :: "mem \<Rightarrow> addr \<Rightarrow> addr" where
  "ext_type_decode m t = load64 m t"

definition ext_type_encode :: "mem \<Rightarrow> addr \<Rightarrow> addr" where
  "ext_type_encode m t = load64 m (t + 8)"

definition ext_type_arg :: "mem \<Rightarrow> addr \<Rightarrow> addr" where
  "ext_type_arg m t = load64 m (t + 16)"

end
