(* ===== verification/PbCommon.thy ===== *)
theory PbCommon
  imports PbTypes
begin

text \<open>
  \<open>pb_common.c\<close>: the field iterator shared by the encoder and the decoder.
\<close>

section \<open>The iterator\<close>

text \<open>\<open>pos\<close> points into the descriptor array \<open>start\<close>: it is an index here.\<close>

record pb_field_iter =
  start :: "pb_field list"
  pos :: nat
  required_field_index :: u32
  dest_struct :: addr
  pData :: addr
  pSize :: addr

definition iter_field :: "pb_field_iter \<Rightarrow> pb_field" where
  "iter_field it = field_at (start it) (pos it)"

definition pb_field_iter_begin :: "pb_field list \<Rightarrow> addr \<Rightarrow> bool \<times> pb_field_iter" where
  "pb_field_iter_begin fs dest =
     (let f = field_at fs 0;
          d = dest + ucast (data_offset f)
      in (tag f \<noteq> 0,
          \<lparr>start = fs, pos = 0, required_field_index = 0, dest_struct = dest,
           pData = d, pSize = d + scast (size_offset f)\<rparr>))"

definition pb_field_iter_next :: "pb_field_iter \<Rightarrow> bool \<times> pb_field_iter" where
  "pb_field_iter_next it =
     (let prev_field = iter_field it in
      if tag prev_field = 0 then (False, it)
      else
        let it1 = it\<lparr>pos := pos it + 1\<rparr>; f = iter_field it1 in
        if tag f = 0 then (False, snd (pb_field_iter_begin (start it) (dest_struct it)))
        else if htype prev_field = HTYPE_ONEOF \<and> htype f = HTYPE_ONEOF
                \<and> data_offset f = PB_SIZE_MAX
        then (True, it1)
        else
          let prev_size :: u64 =
                (if atype prev_field = ATYPE_STATIC \<and> htype prev_field = HTYPE_REPEATED
                 then ucast (data_size prev_field) * ucast (array_size prev_field)
                 else if atype prev_field = ATYPE_POINTER then 8
                 else ucast (data_size prev_field));
              r = (if htype prev_field = HTYPE_REQUIRED
                   then required_field_index it + 1 else required_field_index it);
              d = pData it + prev_size + ucast (data_offset f)
          in (True, it1\<lparr>required_field_index := r, pData := d,
                         pSize := d + scast (size_offset f)\<rparr>))"

text \<open>
  The search loop of \<open>pb_field_iter_find\<close> stops when it is back at the position it
  started from; the first argument bounds the number of rounds, and one round per
  descriptor is enough (\<open>iter_find_correct\<close>).
\<close>

fun iter_find_loop :: "nat \<Rightarrow> nat \<Rightarrow> u32 \<Rightarrow> pb_field_iter \<Rightarrow> status \<times> pb_field_iter" where
  "iter_find_loop 0 from t it = (Diverge, it)"
| "iter_find_loop (Suc k) from t it =
     (if tag (iter_field it) = t \<and> ltype (iter_field it) \<noteq> LTYPE_EXTENSION then (Ok, it)
      else let it' = snd (pb_field_iter_next it) in
        if pos it' \<noteq> from then iter_find_loop k from t it' else (Fail, it'))"

definition pb_field_iter_find :: "pb_field_iter \<Rightarrow> u32 \<Rightarrow> status \<times> pb_field_iter" where
  "pb_field_iter_find it t = iter_find_loop (Suc (length (start it))) (pos it) t it"

section \<open>Walking a descriptor array\<close>

definition n_fields :: "pb_field list \<Rightarrow> nat" where
  "n_fields fs = length (takeWhile (\<lambda>f. tag f \<noteq> 0) fs)"

text \<open>The iterator after \<open>i\<close> steps from the beginning.\<close>

fun iter_at :: "pb_field list \<Rightarrow> addr \<Rightarrow> nat \<Rightarrow> pb_field_iter" where
  "iter_at fs p 0 = snd (pb_field_iter_begin fs p)"
| "iter_at fs p (Suc i) = snd (pb_field_iter_next (iter_at fs p i))"

declare iter_at.simps(2) [simp del]

lemma begin_simps [simp]:
  "start (snd (pb_field_iter_begin fs p)) = fs"
  "pos (snd (pb_field_iter_begin fs p)) = 0"
  "dest_struct (snd (pb_field_iter_begin fs p)) = p"
  by (simp_all add: pb_field_iter_begin_def Let_def)

lemma n_fields_le: "n_fields fs \<le> length fs"
  by (simp add: n_fields_def length_takeWhile_le)

lemma tag_below_n_fields: "i < n_fields fs \<Longrightarrow> tag (field_at fs i) \<noteq> 0"
proof -
  assume i: "i < n_fields fs"
  have "tag (fs ! i) \<noteq> 0"
    using set_takeWhileD [OF nth_mem [OF i [unfolded n_fields_def]]] i
    by (simp add: n_fields_def takeWhile_nth)
  moreover have "i < length fs" using i n_fields_le [of fs] by simp
  ultimately show ?thesis by (simp add: field_at_def)
qed

lemma tag_at_n_fields: "tag (field_at fs (n_fields fs)) = 0"
proof (cases "n_fields fs < length fs")
  case True
  then show ?thesis
    using nth_length_takeWhile [of "\<lambda>f. tag f \<noteq> 0" fs] by (simp add: n_fields_def field_at_def)
next
  case False
  then show ?thesis by (simp add: field_at_def)
qed

lemma n_fields_eq_0: "n_fields fs = 0 \<longleftrightarrow> tag (field_at fs 0) = 0"
  using tag_below_n_fields [of 0 fs] tag_at_n_fields [of fs] by (cases "n_fields fs") auto

lemma next_step:
  assumes "tag (iter_field it) \<noteq> 0" "tag (field_at (start it) (Suc (pos it))) \<noteq> 0"
  shows "fst (pb_field_iter_next it)" "pos (snd (pb_field_iter_next it)) = Suc (pos it)"
    "start (snd (pb_field_iter_next it)) = start it"
    "dest_struct (snd (pb_field_iter_next it)) = dest_struct it"
  using assms by (simp_all add: pb_field_iter_next_def iter_field_def Let_def)

lemma next_wrap:
  assumes "tag (iter_field it) \<noteq> 0" "tag (field_at (start it) (Suc (pos it))) = 0"
  shows "pb_field_iter_next it = (False, iter_at (start it) (dest_struct it) 0)"
  using assms by (simp add: pb_field_iter_next_def iter_field_def Let_def)

lemma next_TrueD:
  assumes "pb_field_iter_next it = (True, it')"
  shows "pos it' = Suc (pos it)" "start it' = start it" "Suc (pos it) < length (start it)"
    "dest_struct it' = dest_struct it" "tag (iter_field it') \<noteq> 0"
proof -
  have t: "tag (iter_field it) \<noteq> 0" "tag (field_at (start it) (Suc (pos it))) \<noteq> 0"
    using assms by (auto simp: pb_field_iter_next_def iter_field_def Let_def split: if_splits)
  show "pos it' = Suc (pos it)" "start it' = start it" "dest_struct it' = dest_struct it"
    using next_step [OF t] assms by simp_all
  then show "tag (iter_field it') \<noteq> 0" using t by (simp add: iter_field_def)
  show "Suc (pos it) < length (start it)" using t(2) by (rule field_at_nonterminal)
qed

lemma iter_at_simps [simp]:
  assumes "i < n_fields fs"
  shows "pos (iter_at fs p i) = i" "start (iter_at fs p i) = fs"
    "dest_struct (iter_at fs p i) = p" "iter_field (iter_at fs p i) = field_at fs i"
proof -
  have "i < n_fields fs \<Longrightarrow> pos (iter_at fs p i) = i \<and> start (iter_at fs p i) = fs
      \<and> dest_struct (iter_at fs p i) = p"
  proof (induction i)
    case (Suc i)
    then show ?case
      using next_step [of "iter_at fs p i"] tag_below_n_fields [of i fs]
        tag_below_n_fields [of "Suc i" fs] by (simp add: iter_field_def iter_at.simps)
  qed simp
  then show "pos (iter_at fs p i) = i" "start (iter_at fs p i) = fs"
    "dest_struct (iter_at fs p i) = p" "iter_field (iter_at fs p i) = field_at fs i"
    using assms by (simp_all add: iter_field_def)
qed

lemma next_iter_at:
  assumes "i < n_fields fs"
  shows "pb_field_iter_next (iter_at fs p i) =
    (if Suc i < n_fields fs then (True, iter_at fs p (Suc i)) else (False, iter_at fs p 0))"
proof (cases "Suc i < n_fields fs")
  case True
  then have "fst (pb_field_iter_next (iter_at fs p i))"
    using next_step(1) [of "iter_at fs p i"] assms tag_below_n_fields [of i fs]
      tag_below_n_fields [of "Suc i" fs] by simp
  then show ?thesis using True by (simp add: prod_eq_iff iter_at.simps)
next
  case False
  then have "Suc i = n_fields fs" using assms by simp
  then have "tag (field_at fs (Suc i)) = 0" using tag_at_n_fields [of fs] by simp
  then show ?thesis
    using False assms next_wrap [of "iter_at fs p i"] tag_below_n_fields [of i fs] by simp
qed

section \<open>The search\<close>

definition matches :: "pb_field list \<Rightarrow> u32 \<Rightarrow> nat \<Rightarrow> bool" where
  "matches fs t i \<longleftrightarrow> tag (field_at fs i) = t \<and> ltype (field_at fs i) \<noteq> LTYPE_EXTENSION"

lemma next_mod:
  assumes "i < n_fields fs"
  shows "snd (pb_field_iter_next (iter_at fs p i)) = iter_at fs p (Suc i mod n_fields fs)"
proof (cases "Suc i < n_fields fs")
  case False
  then have "Suc i mod n_fields fs = 0" using assms by (metis Suc_lessI mod_self)
  then show ?thesis using False assms by (simp add: next_iter_at)
next
  case True
  then show ?thesis using assms by (simp add: next_iter_at)
qed

lemma mod_back_iff:
  fixes i r n :: nat
  assumes "i < n" "r < n"
  shows "(i + Suc r) mod n = i \<longleftrightarrow> Suc r = n"
proof (cases "i + Suc r < n")
  case True
  then show ?thesis by simp
next
  case False
  then have "(i + Suc r) mod n = (i + Suc r - n) mod n" using le_mod_geq [of n "i + Suc r"] by simp
  also have "\<dots> = i + Suc r - n" using assms by simp
  finally show ?thesis using False by auto
qed

lemma iter_find_loop_from:
  assumes "i < n_fields fs" "r < n_fields fs" "n_fields fs \<le> k + r"
    "\<forall>r' < r. \<not> matches fs t ((i + r') mod n_fields fs)"
  shows "case iter_find_loop k i t (iter_at fs p ((i + r) mod n_fields fs)) of
      (st, it') \<Rightarrow>
        (if \<exists>j < n_fields fs. matches fs t j
         then st = Ok \<and> (\<exists>s < n_fields fs. it' = iter_at fs p ((i + s) mod n_fields fs)
                \<and> matches fs t ((i + s) mod n_fields fs)
                \<and> (\<forall>r' < s. \<not> matches fs t ((i + r') mod n_fields fs)))
         else st = Fail \<and> it' = iter_at fs p i)"
  using assms
proof (induction k arbitrary: r)
  case 0
  then show ?case by simp
next
  case (Suc k)
  let ?n = "n_fields fs" and ?c = "(i + r) mod n_fields fs"
  have c: "?c < ?n" using Suc.prems(1) by simp
  have step: "(Suc ?c) mod ?n = (i + Suc r) mod ?n" by (simp add: mod_simps)
  show ?case
  proof (cases "matches fs t ?c")
    case True
    then show ?thesis using c Suc.prems by (auto simp: matches_def)
  next
    case nm: False
    then have upto: "\<forall>r' < Suc r. \<not> matches fs t ((i + r') mod ?n)"
      using Suc.prems(4) by (auto simp: less_Suc_eq)
    have nxt: "snd (pb_field_iter_next (iter_at fs p ?c)) = iter_at fs p ((i + Suc r) mod ?n)"
      using next_mod [OF c] step by simp
    show ?thesis
    proof (cases "Suc r = ?n")
      case True
      then have wrap: "(i + Suc r) mod ?n = i" using mod_back_iff Suc.prems(1,2) by blast
      have none: "\<not> (\<exists>j < ?n. matches fs t j)"
      proof
        assume "\<exists>j < ?n. matches fs t j"
        then obtain j where j: "j < ?n" "matches fs t j" by blast
        have "\<exists>r' < ?n. (i + r') mod ?n = j"
        proof (cases "i \<le> j")
          case True
          then show ?thesis using j(1) by (intro exI [of _ "j - i"]) simp
        next
          case False
          then have "(i + (?n - i + j)) mod ?n = j" using j(1) Suc.prems(1) by simp
          then show ?thesis using False j(1) Suc.prems(1)
            by (intro exI [of _ "?n - i + j"]) simp
        qed
        then show False using upto True j(2) by auto
      qed
      have "pos (iter_at fs p i) = i" using Suc.prems(1) by simp
      moreover have "snd (pb_field_iter_next (iter_at fs p ?c)) = iter_at fs p i"
        using nxt wrap by simp
      ultimately have "iter_find_loop (Suc k) i t (iter_at fs p ?c) = (Fail, iter_at fs p i)"
        using nm c by (auto simp: matches_def Let_def)
      then show ?thesis using none by simp
    next
      case False
      then have r: "Suc r < ?n" using Suc.prems(2) by simp
      have ne: "(i + Suc r) mod ?n \<noteq> i" using False mod_back_iff Suc.prems(1,2) by blast
      have "pos (iter_at fs p ((i + Suc r) mod ?n)) = (i + Suc r) mod ?n"
        using Suc.prems(1) by simp
      then have "iter_find_loop (Suc k) i t (iter_at fs p ?c) =
          iter_find_loop k i t (iter_at fs p ((i + Suc r) mod ?n))"
        using nm c nxt ne by (auto simp: matches_def Let_def)
      then show ?thesis using Suc.IH [OF Suc.prems(1) r _ upto] Suc.prems(3) by simp
    qed
  qed
qed

lemma iter_find_at:
  assumes "i < n_fields fs"
  shows "case pb_field_iter_find (iter_at fs p i) t of
      (st, it') \<Rightarrow>
        (if \<exists>j < n_fields fs. matches fs t j
         then st = Ok \<and> (\<exists>s < n_fields fs. it' = iter_at fs p ((i + s) mod n_fields fs)
                \<and> matches fs t ((i + s) mod n_fields fs)
                \<and> (\<forall>r' < s. \<not> matches fs t ((i + r') mod n_fields fs)))
         else st = Fail \<and> it' = iter_at fs p i)"
proof -
  have "n_fields fs \<le> Suc (length fs) + 0" using n_fields_le [of fs] by simp
  then show ?thesis
    using iter_find_loop_from [of i fs 0 "Suc (length fs)" t p] assms
    by (simp add: pb_field_iter_find_def)
qed

section \<open>The loop over all fields\<close>

text \<open>
  \<open>do { body } while (pb_field_iter_next(&iter))\<close>, where the body returns from the
  enclosing function as soon as a call in it does not return true.
\<close>

function iter_do ::
    "(pb_field_iter \<Rightarrow> 'x \<Rightarrow> status \<times> 'x) \<Rightarrow> pb_field_iter \<Rightarrow> 'x \<Rightarrow> status \<times> 'x" where
  "iter_do body it x = chk (body it x)
     (\<lambda>x'. case pb_field_iter_next it of
        (go, it') \<Rightarrow> if go then iter_do body it' x' else (Ok, x'))"
  by pat_completeness auto
termination
proof (relation "measure (\<lambda>(body, it, x). length (start it) - pos it)", simp)
  fix body :: "pb_field_iter \<Rightarrow> 'x \<Rightarrow> status \<times> 'x"
  fix it :: pb_field_iter and x x' :: 'x and go it'
  assume "(go, it') = pb_field_iter_next it" and go
  then have n: "pb_field_iter_next it = (True, it')" by simp
  show "((body, it', x'), body, it, x)
      \<in> measure (\<lambda>(body, it, x). length (start it) - pos it)"
    using next_TrueD [OF n] by simp
qed

declare iter_do.simps [simp del]

lemma iter_do_unfold:
  "iter_do body it x = chk (body it x)
     (\<lambda>x'. if fst (pb_field_iter_next it) then iter_do body (snd (pb_field_iter_next it)) x'
           else (Ok, x'))"
  by (subst iter_do.simps) (simp add: case_prod_beta)

text \<open>Descriptors that contain no field: the loop is never entered.\<close>

lemma begin_empty_iff: "fst (pb_field_iter_begin fs p) \<longleftrightarrow> 0 < n_fields fs"
  using n_fields_eq_0 [of fs] by (auto simp: pb_field_iter_begin_def Let_def)

end
