(* ===== verification/PbOstream.thy ===== *)
theory PbOstream
  imports PbTypes
begin

text \<open>
  Output streams (\<open>pb_ostream_t\<close> of \<open>pb_encode.h\<close>, \<open>pb_write\<close> and \<open>buf_write\<close> of
  \<open>pb_encode.c\<close>), and the contract under which encoders are verified: what an encoder
  does on a sizing stream and on a stream that writes to a sink with enough room.
\<close>

section \<open>The stream\<close>

text \<open>
  \<open>callback\<close> is the function pointer (\<open>None\<close> is \<open>NULL\<close>, a sizing stream); it
  receives \<open>state\<close> (\<open>None\<close> is a null pointer) and the bytes, and returns its result
  and the new \<open>state\<close>.
\<close>

record 's pb_ostream =
  callback :: "('s option \<Rightarrow> u8 list \<Rightarrow> status \<times> 's option) option"
  state :: "'s option"
  max_size :: u64
  bytes_written :: u64
  errmsg :: "string option"

definition PB_OSTREAM_SIZING :: "'s pb_ostream" where
  "PB_OSTREAM_SIZING = \<lparr>callback = None, state = None, max_size = 0, bytes_written = 0,
     errmsg = None\<rparr>"

definition PB_SET_ERROR :: "'s pb_ostream \<Rightarrow> string \<Rightarrow> 's pb_ostream" where
  "PB_SET_ERROR s msg =
     s\<lparr>errmsg := (case errmsg s of None \<Rightarrow> Some msg | Some e \<Rightarrow> Some e)\<rparr>"

definition PB_RETURN_ERROR :: "'s pb_ostream \<Rightarrow> string \<Rightarrow> status \<times> 's pb_ostream" where
  "PB_RETURN_ERROR s msg = (Fail, PB_SET_ERROR s msg)"

lemma fst_PB_RETURN_ERROR [simp]: "fst (PB_RETURN_ERROR s msg) = Fail"
  by (simp add: PB_RETURN_ERROR_def)

text \<open>
  \<open>pb_write\<close> compares in \<open>size_t\<close>, where the sum may wrap. The callback reads
  \<open>count\<close> bytes at \<open>buf\<close>; a null \<open>buf\<close> is the empty list.
\<close>

definition pb_write :: "'s pb_ostream \<Rightarrow> u8 list \<Rightarrow> u64 \<Rightarrow> status \<times> 's pb_ostream" where
  "pb_write s buf count =
     (case callback s of
        None \<Rightarrow> (Ok, s\<lparr>bytes_written := bytes_written s + count\<rparr>)
      | Some cb \<Rightarrow>
          if bytes_written s + count > max_size s then PB_RETURN_ERROR s ''stream full''
          else if length buf < unat count then (Undef, s)
          else case cb (state s) (take (unat count) buf) of (st, state') \<Rightarrow>
            let s1 = s\<lparr>state := state'\<rparr> in
            if st = Ok then (Ok, s1\<lparr>bytes_written := bytes_written s1 + count\<rparr>)
            else if st = Fail then PB_RETURN_ERROR s1 ''io error''
            else (st, s1))"

section \<open>Memory buffers\<close>

text \<open>
  The pointer \<open>state\<close> of a memory-buffer stream: the cells of the object it points into
  and the offset in it. Writing outside the cells is undefined.
\<close>

record out_buf =
  cells :: "u8 list"
  offset :: nat

fun copy_loop :: "u8 list \<Rightarrow> nat \<Rightarrow> u8 list \<Rightarrow> u8 list" where
  "copy_loop dest i [] = dest"
| "copy_loop dest i (b # bs) = copy_loop (dest[i := b]) (Suc i) bs"

definition buf_write :: "out_buf option \<Rightarrow> u8 list \<Rightarrow> status \<times> out_buf option" where
  "buf_write st buf =
     (case st of
        None \<Rightarrow> (if buf = [] then (Ok, None) else (Undef, None))
      | Some b \<Rightarrow>
          if buf = [] \<or> offset b + length buf \<le> length (cells b)
          then (Ok, Some (b\<lparr>cells := copy_loop (cells b) (offset b) buf,
                            offset := offset b + length buf\<rparr>))
          else (Undef, Some b))"

definition pb_ostream_from_buffer :: "u8 list \<Rightarrow> u64 \<Rightarrow> out_buf pb_ostream" where
  "pb_ostream_from_buffer buf bufsize =
     \<lparr>callback = Some buf_write, state = Some \<lparr>cells = buf, offset = 0\<rparr>,
      max_size = bufsize, bytes_written = 0, errmsg = None\<rparr>"

lemma length_copy_loop [simp]: "length (copy_loop dest i bs) = length dest"
  by (induction bs arbitrary: dest i) auto

lemma copy_loop_eq:
  "i + length bs \<le> length dest \<Longrightarrow>
   copy_loop dest i bs = take i dest @ bs @ drop (i + length bs) dest"
proof (induction bs arbitrary: dest i)
  case (Cons b bs)
  then have "copy_loop (dest[i := b]) (Suc i) bs =
      take (Suc i) (dest[i := b]) @ bs @ drop (Suc i + length bs) (dest[i := b])"
    by simp
  moreover have "take (Suc i) (dest[i := b]) = take i dest @ [b]"
    using Cons.prems by (simp add: take_Suc_conv_app_nth)
  ultimately show ?case using Cons.prems by simp
qed simp

section \<open>Sinks\<close>

text \<open>
  What the encoder relies on in the write callback of a stream: a write that fits the room
  the sink has left succeeds, appends the bytes, and uses up the room.
\<close>

locale output_sink =
  fixes wr :: "'s option \<Rightarrow> u8 list \<Rightarrow> status \<times> 's option"
    and out :: "'s option \<Rightarrow> u8 list"
    and rest :: "'s option \<Rightarrow> u8 list"
  assumes wr_within: "length bs \<le> length (rest st) \<Longrightarrow>
    \<exists>st'. wr st bs = (Ok, st') \<and> out st' = out st @ bs \<and> rest st' = drop (length bs) (rest st)"

definition out_bytes :: "out_buf option \<Rightarrow> u8 list" where
  "out_bytes st = (case st of None \<Rightarrow> [] | Some b \<Rightarrow> take (offset b) (cells b))"

text \<open>The cells the sink has not written yet.\<close>

definition out_rest :: "out_buf option \<Rightarrow> u8 list" where
  "out_rest st = (case st of None \<Rightarrow> [] | Some b \<Rightarrow> drop (offset b) (cells b))"

lemma buf_write_within:
  assumes "length bs \<le> length (out_rest st)"
  shows "\<exists>st'. buf_write st bs = (Ok, st') \<and> out_bytes st' = out_bytes st @ bs
    \<and> out_rest st' = drop (length bs) (out_rest st)"
proof (cases st)
  case None
  then show ?thesis using assms by (simp add: buf_write_def out_bytes_def out_rest_def)
next
  case (Some b)
  show ?thesis
  proof (cases "bs = []")
    case True
    then show ?thesis using Some
      by (auto simp: buf_write_def out_bytes_def out_rest_def)
  next
    case False
    then have "offset b + length bs \<le> length (cells b)"
      using assms Some by (cases "offset b \<le> length (cells b)") (auto simp: out_rest_def)
    then show ?thesis using Some False
      by (simp add: buf_write_def out_bytes_def out_rest_def copy_loop_eq add.commute)
  qed
qed

section \<open>The contract of an encoder\<close>

text \<open>
  A stream on a sink: its callback is the sink's, it has not overrun its limit, and the
  sink has room for what the limit still allows. The limit is below \<open>2 ^ 63\<close>, so that the
  additions in \<open>size_t\<close> do not wrap.
\<close>

definition space :: "'s pb_ostream \<Rightarrow> nat" where
  "space s = unat (max_size s) - unat (bytes_written s)"

definition stream_inv ::
    "('s option \<Rightarrow> u8 list \<Rightarrow> status \<times> 's option) \<Rightarrow> ('s option \<Rightarrow> u8 list) \<Rightarrow> 's pb_ostream \<Rightarrow> bool" where
  "stream_inv wr rest s \<longleftrightarrow> callback s = Some wr \<and> bytes_written s \<le> max_size s
     \<and> unat (max_size s) < 2 ^ 63 \<and> space s \<le> length (rest (state s))"

text \<open>
  \<open>conforms wr out rest e (st, bs)\<close>: the encoder \<open>e\<close> writes \<open>bs\<close> and ends with \<open>st\<close>.
  On a sizing stream it counts the bytes; on a sink it appends exactly \<open>bs\<close> when they
  fit, and otherwise fails with nothing undefined. The bound on \<open>bs\<close> is the address space.
\<close>

definition conforms ::
    "('s option \<Rightarrow> u8 list \<Rightarrow> status \<times> 's option) \<Rightarrow> ('s option \<Rightarrow> u8 list) \<Rightarrow> ('s option \<Rightarrow> u8 list) \<Rightarrow>
     ('s pb_ostream \<Rightarrow> status \<times> 's pb_ostream) \<Rightarrow> status \<times> u8 list \<Rightarrow> bool" where
  "conforms wr out rest e v \<longleftrightarrow> (case v of (st, bs) \<Rightarrow> length bs < 2 ^ 63 \<longrightarrow>
     (\<forall>s. callback s = None \<longrightarrow>
        (if st = Ok
         then e s = (Ok, s\<lparr>bytes_written := bytes_written s + of_nat (length bs)\<rparr>)
         else fst (e s) = st)) \<and>
     (\<forall>s. stream_inv wr rest s \<longrightarrow>
        (if st = Ok \<and> length bs \<le> space s
         then \<exists>st' em. e s = (Ok, s\<lparr>state := st',
                bytes_written := bytes_written s + of_nat (length bs), errmsg := em\<rparr>)
              \<and> out st' = out (state s) @ bs \<and> rest st' = drop (length bs) (rest (state s))
         else fst (e s) = Fail \<or> (st \<noteq> Ok \<and> fst (e s) = st))))"

lemma conforms_sizing:
  assumes "conforms wr out rest e (st, bs)" "length bs < 2 ^ 63" "callback s = None"
  shows "if st = Ok then e s = (Ok, s\<lparr>bytes_written := bytes_written s + of_nat (length bs)\<rparr>)
         else fst (e s) = st"
  using assms by (simp add: conforms_def)

lemma conforms_sink:
  assumes "conforms wr out rest e (st, bs)" "length bs < 2 ^ 63" "stream_inv wr rest s"
  shows "if st = Ok \<and> length bs \<le> space s
         then \<exists>st' em. e s = (Ok, s\<lparr>state := st',
                bytes_written := bytes_written s + of_nat (length bs), errmsg := em\<rparr>)
              \<and> out st' = out (state s) @ bs \<and> rest st' = drop (length bs) (rest (state s))
         else fst (e s) = Fail \<or> (st \<noteq> Ok \<and> fst (e s) = st)"
  using assms unfolding conforms_def prod.case by blast

lemma conformsI:
  assumes "\<And>s. length bs < 2 ^ 63 \<Longrightarrow> callback s = None \<Longrightarrow>
      if st = Ok then e s = (Ok, s\<lparr>bytes_written := bytes_written s + of_nat (length bs)\<rparr>)
      else fst (e s) = st"
    and "\<And>s. length bs < 2 ^ 63 \<Longrightarrow> stream_inv wr rest s \<Longrightarrow>
      if st = Ok \<and> length bs \<le> space s
      then \<exists>st' em. e s = (Ok, s\<lparr>state := st',
             bytes_written := bytes_written s + of_nat (length bs), errmsg := em\<rparr>)
           \<and> out st' = out (state s) @ bs \<and> rest st' = drop (length bs) (rest (state s))
      else fst (e s) = Fail \<or> (st \<noteq> Ok \<and> fst (e s) = st)"
  shows "conforms wr out rest e (st, bs)"
  using assms unfolding conforms_def prod.case by blast

lemma unat_bytes_written_add:
  assumes "stream_inv wr rest s" "n \<le> space s"
  shows "unat (bytes_written s + of_nat n) = unat (bytes_written s) + n"
proof -
  have "unat (bytes_written s) \<le> unat (max_size s)"
    using assms(1) by (simp add: stream_inv_def word_le_nat_alt)
  then have "unat (bytes_written s) + n \<le> unat (max_size s)"
    using assms(2) by (simp add: space_def)
  moreover have "unat (max_size s) < 2 ^ 63" using assms(1) by (simp add: stream_inv_def)
  ultimately show ?thesis
    by (simp add: unat_word_ariths unat_of_nat)
qed

lemma stream_inv_advance:
  assumes "stream_inv wr rest s" "n \<le> space s" "rest st' = drop n (rest (state s))"
  shows "stream_inv wr rest (s\<lparr>state := st', bytes_written := bytes_written s + of_nat n, errmsg := em\<rparr>)"
    "space (s\<lparr>state := st', bytes_written := bytes_written s + of_nat n, errmsg := em\<rparr>) = space s - n"
proof -
  note u = unat_bytes_written_add [OF assms(1,2)]
  show sp: "space (s\<lparr>state := st', bytes_written := bytes_written s + of_nat n, errmsg := em\<rparr>) = space s - n"
    by (simp add: space_def u)
  have "unat (bytes_written s) + n \<le> unat (max_size s)"
    using assms(1,2) by (auto simp: stream_inv_def space_def word_le_nat_alt)
  then show "stream_inv wr rest (s\<lparr>state := st', bytes_written := bytes_written s + of_nat n, errmsg := em\<rparr>)"
    using assms sp by (simp add: stream_inv_def word_le_nat_alt u diff_le_mono)
qed

lemma exceeds_iff:
  assumes "stream_inv wr rest s" "n < 2 ^ 63"
  shows "max_size s < bytes_written s + of_nat n \<longleftrightarrow> space s < n"
proof -
  have b: "unat (bytes_written s) \<le> unat (max_size s)" "unat (max_size s) < 2 ^ 63"
    using assms(1) by (simp_all add: stream_inv_def word_le_nat_alt)
  then have "unat (bytes_written s + of_nat n) = unat (bytes_written s) + n"
    using assms(2) by (simp add: unat_word_ariths unat_of_nat)
  then show ?thesis using b by (auto simp: word_less_nat_alt space_def)
qed

text \<open>An encoder that returns early without touching a good stream.\<close>

lemma conforms_const:
  assumes "st \<noteq> Ok" "\<And>s. callback s = None \<or> stream_inv wr rest s \<Longrightarrow> fst (e s) = st"
  shows "conforms wr out rest e (st, bs)"
  using assms by (simp add: conforms_def)

lemma conforms_nothing: "conforms wr out rest (\<lambda>s. (Ok, s)) (Ok, [])"
proof -
  have "\<exists>st' em. s = s\<lparr>state := st', errmsg := em\<rparr> \<and> out st' = out (state s)
      \<and> rest st' = rest (state s)" for s :: "'a pb_ostream"
    by (rule exI [of _ "state s"], rule exI [of _ "errmsg s"]) simp
  then show ?thesis by (simp add: conforms_def)
qed

lemma conforms_error: "conforms wr out rest (\<lambda>s. PB_RETURN_ERROR s msg) (Fail, bs)"
  by (rule conforms_const) auto

lemma conforms_weaken:
  assumes "conforms wr out rest e (st, bs)" "st \<noteq> Ok"
    "length bs' < 2 ^ 63 \<Longrightarrow> length bs < 2 ^ 63"
  shows "conforms wr out rest e (st, bs')"
  using assms by (simp add: conforms_def)

text \<open>What one encoder writes, then what the next writes.\<close>

fun then_out :: "status \<times> 'b list \<Rightarrow> status \<times> 'b list \<Rightarrow> status \<times> 'b list" where
  "then_out (st1, b1) (st2, b2) = (if st1 = Ok then (st2, b1 @ b2) else (st1, b1))"

lemma conforms_chk:
  assumes e1: "conforms wr out rest e1 (st1, b1)"
    and e2: "st1 = Ok \<Longrightarrow> conforms wr out rest e2 (st2, b2)"
  shows "conforms wr out rest (\<lambda>s. chk (e1 s) e2) (then_out (st1, b1) (st2, b2))"
proof (cases "st1 = Ok")
  case False
  have sz: "fst (chk (e1 s) e2) = st1" if "length b1 < 2 ^ 63" "callback s = None" for s
    using conforms_sizing [OF e1 that] False by (simp add: fst_chk_not_Ok)
  have sk: "fst (chk (e1 s) e2) = Fail \<or> fst (chk (e1 s) e2) = st1"
    if "length b1 < 2 ^ 63" "stream_inv wr rest s" for s
    using conforms_sink [OF e1 that] False by (auto simp: fst_chk_not_Ok)
  show ?thesis using False sz sk by (auto simp: conforms_def)
next
  case True
  note e2' = e2 [OF True]
  have "conforms wr out rest (\<lambda>s. chk (e1 s) e2) (st2, b1 @ b2)"
  proof (rule conformsI)
    fix s :: "'a pb_ostream"
    assume len: "length (b1 @ b2) < 2 ^ 63"
    then have l: "length b1 < 2 ^ 63" "length b2 < 2 ^ 63" by simp_all
    let ?n1 = "of_nat (length b1) :: u64" and ?n2 = "of_nat (length b2) :: u64"
    show "if st2 = Ok then chk (e1 s) e2 =
          (Ok, s\<lparr>bytes_written := bytes_written s + of_nat (length (b1 @ b2))\<rparr>)
        else fst (chk (e1 s) e2) = st2" if c: "callback s = None"
    proof -
      let ?s1 = "s\<lparr>bytes_written := bytes_written s + ?n1\<rparr>"
      have "e1 s = (Ok, ?s1)" using conforms_sizing [OF e1 l(1) c] True by simp
      moreover have "callback ?s1 = None" using c by simp
      note conforms_sizing [OF e2' l(2) this]
      ultimately show ?thesis by (simp add: ac_simps)
    qed
    show "if st2 = Ok \<and> length (b1 @ b2) \<le> space s
        then \<exists>st' em. chk (e1 s) e2 = (Ok, s\<lparr>state := st',
               bytes_written := bytes_written s + of_nat (length (b1 @ b2)), errmsg := em\<rparr>)
             \<and> out st' = out (state s) @ b1 @ b2
             \<and> rest st' = drop (length (b1 @ b2)) (rest (state s))
        else fst (chk (e1 s) e2) = Fail \<or> (st2 \<noteq> Ok \<and> fst (chk (e1 s) e2) = st2)"
      if inv: "stream_inv wr rest s"
    proof (cases "length b1 \<le> space s")
      case False
      then show ?thesis
        using conforms_sink [OF e1 l(1) inv] True by (auto simp: fst_chk_not_Ok)
    next
      case fits: True
      obtain st' em where st': "e1 s = (Ok, s\<lparr>state := st',
              bytes_written := bytes_written s + ?n1, errmsg := em\<rparr>)"
        "out st' = out (state s) @ b1" "rest st' = drop (length b1) (rest (state s))"
        using conforms_sink [OF e1 l(1) inv] True fits by auto
      note adv = stream_inv_advance [OF inv fits st'(3), of em]
      show ?thesis
        using conforms_sink [OF e2' l(2) adv(1)] st' adv(2) fits
        by (fastforce simp: ac_simps split: if_splits)
    qed
  qed
  then show ?thesis using True by simp
qed

lemma conforms_chk_Ok:
  assumes "conforms wr out rest e1 (Ok, b1)" "conforms wr out rest e2 (st2, b2)"
  shows "conforms wr out rest (\<lambda>s. chk (e1 s) e2) (st2, b1 @ b2)"
  using conforms_chk [OF assms] by simp

lemma conforms_guard:
  assumes "length bs < 2 ^ 63 \<Longrightarrow> conforms wr out rest e (st, bs)"
  shows "conforms wr out rest e (st, bs)"
  using assms unfolding conforms_def prod.case by blast

text \<open>\<open>if (!f(...)) PB_RETURN_ERROR(stream, msg);\<close>\<close>

definition fail_with :: "status \<times> 's pb_ostream \<Rightarrow> string \<Rightarrow> status \<times> 's pb_ostream" where
  "fail_with r msg = (case r of (st, s) \<Rightarrow> if st = Fail then PB_RETURN_ERROR s msg else (st, s))"

lemma fst_fail_with [simp]: "fst (fail_with r msg) = fst r"
  by (cases r) (simp add: fail_with_def)

lemma fail_with_Ok [simp]: "fail_with (Ok, s) msg = (Ok, s)"
  by (simp add: fail_with_def)

lemma conforms_fail_with:
  assumes "conforms wr out rest e (st, bs)"
  shows "conforms wr out rest (\<lambda>s. fail_with (e s) msg) (st, bs)"
proof (rule conformsI)
  fix s :: "'a pb_ostream"
  assume len: "length bs < 2 ^ 63"
  show "if st = Ok then fail_with (e s) msg =
          (Ok, s\<lparr>bytes_written := bytes_written s + of_nat (length bs)\<rparr>)
        else fst (fail_with (e s) msg) = st" if "callback s = None"
    using conforms_sizing [OF assms len that] by simp
  show "if st = Ok \<and> length bs \<le> space s
      then \<exists>st' em. fail_with (e s) msg = (Ok, s\<lparr>state := st',
             bytes_written := bytes_written s + of_nat (length bs), errmsg := em\<rparr>)
           \<and> out st' = out (state s) @ bs \<and> rest st' = drop (length bs) (rest (state s))
      else fst (fail_with (e s) msg) = Fail \<or> (st \<noteq> Ok \<and> fst (fail_with (e s) msg) = st)"
    if "stream_inv wr rest s"
  proof (cases "st = Ok \<and> length bs \<le> space s")
    case True
    then show ?thesis using conforms_sink [OF assms len that] by fastforce
  next
    case False
    then show ?thesis using conforms_sink [OF assms len that] by auto
  qed
qed

context output_sink
begin

lemma wr_Ok:
  assumes "length bs \<le> length (rest st)"
  obtains st' where "wr st bs = (Ok, st')" "out st' = out st @ bs"
    "rest st' = drop (length bs) (rest st)"
  using wr_within [OF assms] by blast

text \<open>A write of the whole buffer.\<close>

lemma write_conforms:
  assumes "unat n = length bs"
  shows "conforms wr out rest (\<lambda>s. pb_write s bs n) (Ok, bs)"
proof (rule conformsI)
  have n: "of_nat (length bs) = n" by (simp flip: assms)
  fix s :: "'s pb_ostream"
  assume len: "length bs < 2 ^ 63"
  show "if Ok = Ok then pb_write s bs n =
          (Ok, s\<lparr>bytes_written := bytes_written s + of_nat (length bs)\<rparr>)
        else fst (pb_write s bs n) = Ok" if "callback s = None"
    using that by (simp add: pb_write_def n)
  show "if Ok = Ok \<and> length bs \<le> space s
      then \<exists>st' em. pb_write s bs n = (Ok, s\<lparr>state := st',
             bytes_written := bytes_written s + of_nat (length bs), errmsg := em\<rparr>)
           \<and> out st' = out (state s) @ bs \<and> rest st' = drop (length bs) (rest (state s))
      else fst (pb_write s bs n) = Fail \<or> (Ok \<noteq> Ok \<and> fst (pb_write s bs n) = Ok)"
    if inv: "stream_inv wr rest s"
  proof (cases "length bs \<le> space s")
    case fits: True
    have cb: "callback s = Some wr" using inv by (simp add: stream_inv_def)
    from fits have "length bs \<le> length (rest (state s))" using inv by (simp add: stream_inv_def)
    then obtain st' where st': "wr (state s) bs = (Ok, st')" "out st' = out (state s) @ bs"
      "rest st' = drop (length bs) (rest (state s))" by (rule wr_Ok)
    have "\<not> max_size s < bytes_written s + n"
      using exceeds_iff [OF inv len] fits by (simp add: n)
    then have eq: "pb_write s bs n = (Ok, s\<lparr>state := st',
        bytes_written := bytes_written s + of_nat (length bs), errmsg := errmsg s\<rparr>)"
      using cb st'(1) assms by (simp add: pb_write_def n)
    show ?thesis
      unfolding if_P [OF conjI [OF refl fits]]
      by (intro exI conjI) (rule eq, rule st'(2), rule st'(3))
  next
    case False
    then have "max_size s < bytes_written s + n"
      using exceeds_iff [OF inv len] by (simp add: n)
    moreover have "callback s = Some wr" using inv by (simp add: stream_inv_def)
    ultimately show ?thesis using False by (simp add: pb_write_def)
  qed
qed

lemma write_prefix_conforms:
  assumes "unat n \<le> length buf" "bs = take (unat n) buf"
  shows "conforms wr out rest (\<lambda>s. pb_write s buf n) (Ok, bs)"
proof -
  have "(\<lambda>s :: 's pb_ostream. pb_write s buf n) = (\<lambda>s. pb_write s bs n)"
    using assms by (simp add: pb_write_def fun_eq_iff split: option.splits)
  then show ?thesis using write_conforms [of n bs] assms by simp
qed

end

interpretation buf: output_sink buf_write out_bytes out_rest
  by unfold_locales (rule buf_write_within)

lemma stream_inv_from_buffer:
  assumes "unat n \<le> length buf" "unat n < 2 ^ 63"
  shows "stream_inv buf_write out_rest (pb_ostream_from_buffer buf n)"
    "space (pb_ostream_from_buffer buf n) = unat n"
  using assms by (simp_all add: stream_inv_def pb_ostream_from_buffer_def space_def out_rest_def)

end
