(* ===== verification/Varint.thy ===== *)
theory Varint
  imports Prelude
begin

text \<open>
  Base-128 numbers, the variable-length integers of protocol buffers and of LevelDB: seven
  bits to a byte, least significant first, the top bit set on all bytes but the last.
\<close>

section \<open>Bits of a byte\<close>

lemma and_7F: "(v :: 'a::len word) AND 0x7F = take_bit 7 v"
  by (simp add: take_bit_eq_mask mask_eq_exp_minus_1)

lemma bit_0x80: "bit (0x80 :: u8) n \<longleftrightarrow> n = 7"
  using bit_exp_iff [of 7 n, where 'a = "8 word"] by auto

lemma or_80: "take_bit 7 (x::u8) OR 0x80 = 0x80 + take_bit 7 x"
proof -
  have "0x80 AND take_bit 7 x = 0"
    by (rule bit_word_eqI) (simp only: bit_and_iff bit_take_bit_iff bit_0x80, simp)
  then show ?thesis by (metis disjunctive_add_eq_or or.commute)
qed

lemma unat_take7: "unat (take_bit 7 (x::'a::len word)) = unat x mod 128"
  by (subst unsigned_take_bit_eq) (simp add: take_bit_eq_mod)

lemma cont_byte: "(ucast ((v AND 0x7F) OR 0x80) :: u8) = of_nat (128 + unat (v::u64) mod 128)"
proof -
  have "(ucast ((v AND 0x7F) OR 0x80) :: u8) = ucast (v AND 0x7F) OR 0x80"
    by (simp add: unsigned_or_eq)
  also have "ucast (v AND 0x7F) = (take_bit 7 (ucast v) :: u8)"
    by (rule bit_word_eqI) (auto simp: bit_simps and_7F)
  also have "take_bit 7 (ucast v) OR 0x80 = 0x80 + (take_bit 7 (ucast v) :: u8)" by (rule or_80)
  also have "take_bit 7 (ucast v) = (ucast (take_bit 7 v) :: u8)"
    by (rule bit_word_eqI) (auto simp: bit_simps)
  also have "(ucast (take_bit 7 v) :: u8) = of_nat (unat (take_bit 7 v))"
    by (simp only: of_nat_unat)
  finally show ?thesis by (simp add: unat_take7)
qed

lemma low_byte: "of_nat (128 + n mod 128) AND (0x7F :: u8) = of_nat (n mod 128)"
proof -
  have "unat (of_nat (128 + n mod 128) :: u8) = 128 + n mod 128"
    by (rule unat_of_nat_lt) simp
  moreover have "unat (of_nat (n mod 128) :: u8) = n mod 128"
    by (rule unat_of_nat_lt) (simp add: order.strict_trans [of _ 128])
  ultimately show ?thesis
    by (simp add: and_7F word_unat_eq_iff unat_take7 del: of_nat_add)
qed

lemma bit_ge_unat: assumes "unat (w::'a::len word) < 2 ^ n" "n \<le> k" shows "\<not> bit w k"
proof -
  have "unat w < 2 ^ k"
    using assms by (meson less_le_trans one_le_numeral power_increasing)
  then have "\<not> bit (unat w) k" by (simp add: bit_iff_odd)
  then show ?thesis by (simp add: bit_unsigned_iff)
qed

section \<open>The encoding\<close>

text \<open>Base 128, least significant group first, top bit set on all groups but the last.\<close>

fun varint_bytes :: "nat \<Rightarrow> u8 list" where
  "varint_bytes n =
     (if n < 128 then [of_nat n] else of_nat (128 + n mod 128) # varint_bytes (n div 128))"

declare varint_bytes.simps [simp del]

fun cont_bytes :: "nat \<Rightarrow> u8 list" where
  "cont_bytes n = (if n = 0 then [] else of_nat (128 + n mod 128) # cont_bytes (n div 128))"

declare cont_bytes.simps [simp del]

lemma cont_bytes_0 [simp]: "cont_bytes 0 = []"
  by (simp add: cont_bytes.simps)

lemma cont_bytes_pos:
  "0 < n \<Longrightarrow> cont_bytes n = of_nat (128 + n mod 128) # cont_bytes (n div 128)"
  by (subst cont_bytes.simps) simp

lemma cont_bytes_nonempty: "0 < n \<Longrightarrow> cont_bytes n \<noteq> []"
  by (simp add: cont_bytes_pos)

lemma length_cont_bytes: "n < 128 ^ k \<Longrightarrow> length (cont_bytes n) \<le> k"
proof (induction k arbitrary: n)
  case (Suc k)
  show ?case
  proof (cases "n = 0")
    case False
    have "n div 128 < 128 ^ k" using Suc.prems by (simp add: less_mult_imp_div_less mult.commute)
    then show ?thesis using Suc.IH False by (simp add: cont_bytes_pos)
  qed simp
qed simp

lemma varint_bytes_cont:
  "0 < n \<Longrightarrow> varint_bytes n = (cont_bytes n)[length (cont_bytes n) - 1 := last (cont_bytes n) AND 0x7F]"
proof (induction n rule: varint_bytes.induct)
  case (1 n)
  show ?case
  proof (cases "n < 128")
    case True
    then have "n div 128 = 0" by simp
    then show ?thesis
      using True 1(2) low_byte [of n]
      by (simp add: varint_bytes.simps [of n] cont_bytes_pos del: of_nat_add)
  next
    case False
    then have "0 < n div 128" by (simp add: div_greater_zero_iff)
    then show ?thesis
      using 1 False cont_bytes_nonempty [of "n div 128"]
      by (cases "cont_bytes (n div 128)")
         (simp_all add: varint_bytes.simps [of n] cont_bytes_pos [of n] del: of_nat_add)
  qed
qed

lemma varint_bytes_nonempty: "varint_bytes n \<noteq> []"
  by (simp add: varint_bytes.simps)

lemma length_varint_bytes: "n < 128 ^ k \<Longrightarrow> 0 < k \<Longrightarrow> length (varint_bytes n) \<le> k"
  using length_cont_bytes [of n k] varint_bytes_cont [of n]
  by (cases "n = 0") (simp_all add: varint_bytes.simps [of 0])

lemma length_varint_bytes_u64: "length (varint_bytes (unat (v :: u64))) \<le> 10"
proof -
  have "unat v < 2 ^ 64" using unsigned_less [of v] by simp
  then have "unat v < 128 ^ 10" by simp
  then show ?thesis by (rule length_varint_bytes) simp
qed

lemma length_varint_bytes_lt: "n < 2 ^ 63 \<Longrightarrow> length (varint_bytes n) \<le> 10"
  using length_varint_bytes [of n 10] by simp

lemma unat_lt32: "unat (v :: u32) < 2 ^ 32"
  using unsigned_less [of v] by simp

section \<open>Runs of bytes that end with a clear top bit\<close>

text \<open>A run of bytes that ends with the first one whose top bit is clear, and its value.\<close>

fun is_varint :: "u8 list \<Rightarrow> bool" where
  "is_varint [] = False"
| "is_varint (b # bs) = (if unat b < 128 then bs = [] else is_varint bs)"

fun group_value :: "u8 list \<Rightarrow> nat" where
  "group_value [] = 0"
| "group_value (b # bs) = unat b mod 128 + 128 * group_value bs"

lemma unat_u8: "unat (b :: u8) < 256"
  using unsigned_less [of b] by simp

lemma cont_iff: "(b :: u8) AND 0x80 = 0 \<longleftrightarrow> unat b < 128"
proof -
  have "b AND 0x80 = 0 \<longleftrightarrow> \<not> bit b 7"
  proof
    assume "b AND 0x80 = 0"
    then have "\<not> bit (b AND 0x80) 7" by simp
    then show "\<not> bit b 7" by (simp only: bit_and_iff bit_0x80 simp_thms)
  next
    assume *: "\<not> bit b 7"
    have "\<not> bit (b AND 0x80) k" for k
      using * by (cases "k = 7") (simp_all only: bit_and_iff bit_0x80 simp_thms)
    then show "b AND 0x80 = 0" by (auto intro!: bit_word_eqI)
  qed
  also have "bit b 7 \<longleftrightarrow> odd (unat b div 128)"
  proof -
    have "bit (unat b) 7 \<longleftrightarrow> bit b 7" by (simp add: bit_unsigned_iff)
    then show ?thesis by (simp add: bit_iff_odd)
  qed
  finally show ?thesis using unat_u8 [of b] by (cases "unat b < 128") (auto simp: le_div_geq not_less)
qed

lemma is_varint_nonempty: "is_varint bs \<Longrightarrow> bs \<noteq> []"
  by auto

lemma is_varint_varint_bytes: "is_varint (varint_bytes n)"
proof (induction n rule: varint_bytes.induct)
  case (1 n)
  have "unat (of_nat (128 + n mod 128) :: u8) = 128 + n mod 128"
    by (rule unat_of_nat_lt) simp
  then show ?case
    using 1 unat_of_nat_lt [of n, where 'a = 8]
    by (cases "n < 128") (simp_all add: varint_bytes.simps [of n] del: of_nat_add)
qed

lemma group_value_varint_bytes: "group_value (varint_bytes n) = n"
proof (induction n rule: varint_bytes.induct)
  case (1 n)
  have "unat (of_nat (128 + n mod 128) :: u8) = 128 + n mod 128"
    by (rule unat_of_nat_lt) simp
  then show ?case
    using 1 unat_of_nat_lt [of n, where 'a = 8]
    by (cases "n < 128") (simp_all add: varint_bytes.simps [of n] del: of_nat_add)
qed

lemma group_step:
  "ucast (b AND (0x7F :: u8)) OR push_bit 7 (of_nat g) = (of_nat (unat b mod 128 + 128 * g) :: 'a::len word)"
proof -
  have low: "ucast (b AND (0x7F :: u8)) = (of_nat (unat b mod 128) :: 'a word)"
    by (metis and_7F of_nat_unat unat_take7)
  have "(ucast (b AND (0x7F :: u8)) :: 'a word) AND push_bit 7 (of_nat g) = 0"
    by (rule bit_word_eqI) (auto simp: bit_simps and_7F)
  then have "ucast (b AND (0x7F :: u8)) OR push_bit 7 (of_nat g) =
      (ucast (b AND (0x7F :: u8)) :: 'a word) + push_bit 7 (of_nat g)"
    by (simp add: disjunctive_add_eq_or)
  then show ?thesis by (simp add: low push_bit_eq_mult mult.commute)
qed

lemma group_push:
  "push_bit n (ucast (b AND (0x7F :: u8))) OR push_bit (n + 7) (of_nat g) =
   (push_bit n (of_nat (unat b mod 128 + 128 * g)) :: 'a::len word)"
  unfolding group_step [symmetric] push_bit_or push_bit_push_bit ..


lemma group_value_append:
  "group_value (cs @ ds) = group_value cs + 128 ^ length cs * group_value ds"
  by (induction cs) (simp_all add: algebra_simps)

lemma group_or_append:
  "of_nat (group_value cs) OR push_bit (7 * length cs) (of_nat (group_value ds)) =
   (of_nat (group_value (cs @ ds)) :: 'a::len word)"
proof (induction cs)
  case (Cons c cs)
  have "of_nat (group_value (c # cs)) OR push_bit (7 * length (c # cs)) (of_nat (group_value ds)) =
      (ucast (c AND 0x7F) OR push_bit 7 (of_nat (group_value cs) OR
         push_bit (7 * length cs) (of_nat (group_value ds))) :: 'a word)"
    by (simp only: group_value.simps group_step [symmetric] push_bit_or push_bit_push_bit
        or.assoc length_Cons mult_Suc_right)
  then show ?case by (simp only: Cons.IH group_step append_Cons group_value.simps)
qed simp

lemma is_varint_split:
  "is_varint bs \<Longrightarrow> \<exists>cs b. bs = cs @ [b] \<and> (\<forall>c\<in>set cs. 128 \<le> unat c) \<and> unat b < 128"
proof (induction bs)
  case (Cons c bs)
  show ?case
  proof (cases "unat c < 128")
    case True
    then show ?thesis using Cons.prems by (intro exI [of _ "[]"] exI [of _ c]) simp
  next
    case False
    then obtain cs b where "bs = cs @ [b]" "\<forall>c\<in>set cs. 128 \<le> unat c" "unat b < 128"
      using Cons by auto
    then show ?thesis using False by (intro exI [of _ "c # cs"] exI [of _ b]) simp
  qed
qed simp

end
