(* ===== verification/PbEncPrim.thy ===== *)
theory PbEncPrim
  imports PbOstream Varint
begin

text \<open>
  The value encoders of \<open>pb_encode.c\<close> (varint, zigzag, fixed width, tag, string) and the
  protobuf encodings they implement.
\<close>

section \<open>Arithmetic of the bit operations\<close>

lemma and_FF: "(v :: 'a::len word) AND 0xFF = take_bit 8 v"
  by (simp add: take_bit_eq_mask mask_eq_exp_minus_1)

lemma unat_tag_word: assumes "unat (w::u32) < 8"
  shows "unat (push_bit 3 (ucast (t::u32) :: u64) OR ucast w) = unat t * 8 + unat w"
proof -
  have b: "\<And>k. bit w k \<Longrightarrow> k < 3" using bit_ge_unat [of w 3] assms
    by (metis linorder_not_less numeral_2_eq_2 numeral_3_eq_3 power_Suc power_0 mult_2 one_add_one numeral_Bit0 mult.commute mult_1)
  have "push_bit 3 (ucast t :: u64) AND ucast w = 0"
    by (rule bit_word_eqI) (auto simp: bit_simps dest: b)
  then have "push_bit 3 (ucast t :: u64) OR ucast w = push_bit 3 (ucast t) + ucast w"
    by (simp add: disjunctive_add_eq_or)
  moreover have "unat t < 2 ^ 32" using unsigned_less [of t] by simp
  ultimately show ?thesis using assms
    by (simp add: push_bit_eq_mult unat_word_ariths unsigned_ucast_eq take_bit_eq_mod)
qed

lemma unat_zigzag_word: "unat (if (v::u64) <s 0 then NOT (push_bit 1 v) else push_bit 1 v)
   = nat (if sint v < 0 then - 2 * sint v - 1 else 2 * sint v)"
proof (cases "v <s 0")
  case True
  then have n: "sint v < 0" by (simp add: word_sless_alt)
  have ge: "- (2 ^ 63) \<le> sint v" using sint_ge [of v] by simp
  have "NOT (push_bit 1 v) = - (2 * v) - 1"
    by (simp add: not_eq_complement push_bit_eq_mult mult.commute)
  also have "\<dots> = of_int (- 2 * sint v - 1)" by simp
  finally have "uint (NOT (push_bit 1 v)) = - 2 * sint v - 1"
    using n ge by (simp add: uint_word_of_int del: of_int_diff of_int_mult of_int_minus)
  then show ?thesis using True n by (simp flip: nat_uint_eq)
next
  case False
  then have n: "\<not> sint v < 0" by (simp add: word_sless_alt)
  have lt: "sint v < 2 ^ 63" using sint_lt [of v] by simp
  have "push_bit 1 v = of_int (2 * sint v)" by (simp add: push_bit_eq_mult mult.commute)
  then have "uint (push_bit 1 v) = 2 * sint v"
    using n lt by (simp add: uint_word_of_int del: of_int_mult)
  then show ?thesis using False n by (simp flip: nat_uint_eq)
qed


section \<open>The encodings\<close>

definition zigzag :: "int \<Rightarrow> nat" where
  "zigzag i = nat (if i < 0 then - 2 * i - 1 else 2 * i)"

definition tag_number :: "u32 \<Rightarrow> pb_wire_type \<Rightarrow> nat" where
  "tag_number t wt = unat t * 8 + unat (wire_type_code wt)"

definition tag_bytes :: "u32 \<Rightarrow> pb_wire_type \<Rightarrow> u8 list" where
  "tag_bytes t wt = varint_bytes (tag_number t wt)"

definition string_bytes :: "u8 list \<Rightarrow> u8 list" where
  "string_bytes bs = varint_bytes (length bs) @ bs"

section \<open>The value encoders\<close>

text \<open>
  The loop of \<open>pb_encode_varint\<close> fills \<open>buffer\<close>; an index outside the ten cells would be a
  write past the array and is \<open>None\<close>.
\<close>

function varint_loop :: "u64 \<Rightarrow> u8 list \<Rightarrow> nat \<Rightarrow> (u8 list \<times> nat) option" where
  "varint_loop v buffer i =
     (if v = 0 then Some (buffer, i)
      else if i < length buffer
      then varint_loop (drop_bit 7 v) (buffer[i := ucast ((v AND 0x7F) OR 0x80)]) (Suc i)
      else None)"
  by pat_completeness auto
termination
  by (relation "measure (\<lambda>(v, buffer, i). length buffer - i)") auto

declare varint_loop.simps [simp del]

definition pb_encode_varint :: "'s pb_ostream \<Rightarrow> u64 \<Rightarrow> status \<times> 's pb_ostream" where
  "pb_encode_varint s v =
     (if v \<le> 0x7F then pb_write s [ucast v] 1
      else case varint_loop v (replicate 10 0) 0 of
          None \<Rightarrow> (Undef, s)
        | Some (buffer, i) \<Rightarrow>
            pb_write s (buffer[i - 1 := buffer ! (i - 1) AND 0x7F]) (of_nat i))"

text \<open>\<open>pb_int64_t\<close> is the word read as two's complement.\<close>

definition pb_encode_svarint :: "'s pb_ostream \<Rightarrow> u64 \<Rightarrow> status \<times> 's pb_ostream" where
  "pb_encode_svarint s v =
     pb_encode_varint s (if v <s 0 then NOT (push_bit 1 v) else push_bit 1 v)"

definition pb_encode_fixed32 :: "mem \<Rightarrow> 's pb_ostream \<Rightarrow> addr \<Rightarrow> status \<times> 's pb_ostream" where
  "pb_encode_fixed32 m s p =
     (let val = load32 m p in
      pb_write s [ucast (val AND 0xFF), ucast (drop_bit 8 val AND 0xFF),
                  ucast (drop_bit 16 val AND 0xFF), ucast (drop_bit 24 val AND 0xFF)] 4)"

definition pb_encode_fixed64 :: "mem \<Rightarrow> 's pb_ostream \<Rightarrow> addr \<Rightarrow> status \<times> 's pb_ostream" where
  "pb_encode_fixed64 m s p =
     (let val = load64 m p in
      pb_write s [ucast (val AND 0xFF), ucast (drop_bit 8 val AND 0xFF),
                  ucast (drop_bit 16 val AND 0xFF), ucast (drop_bit 24 val AND 0xFF),
                  ucast (drop_bit 32 val AND 0xFF), ucast (drop_bit 40 val AND 0xFF),
                  ucast (drop_bit 48 val AND 0xFF), ucast (drop_bit 56 val AND 0xFF)] 8)"

definition pb_encode_tag ::
    "'s pb_ostream \<Rightarrow> pb_wire_type \<Rightarrow> u32 \<Rightarrow> status \<times> 's pb_ostream" where
  "pb_encode_tag s wiretype field_number =
     pb_encode_varint s (push_bit 3 (ucast field_number) OR ucast (wire_type_code wiretype))"

fun wiretype_of_ltype :: "pb_ltype \<Rightarrow> pb_wire_type option" where
  "wiretype_of_ltype LTYPE_VARINT = Some PB_WT_VARINT"
| "wiretype_of_ltype LTYPE_UVARINT = Some PB_WT_VARINT"
| "wiretype_of_ltype LTYPE_SVARINT = Some PB_WT_VARINT"
| "wiretype_of_ltype LTYPE_FIXED32 = Some PB_WT_32BIT"
| "wiretype_of_ltype LTYPE_FIXED64 = Some PB_WT_64BIT"
| "wiretype_of_ltype LTYPE_BYTES = Some PB_WT_STRING"
| "wiretype_of_ltype LTYPE_STRING = Some PB_WT_STRING"
| "wiretype_of_ltype LTYPE_SUBMESSAGE = Some PB_WT_STRING"
| "wiretype_of_ltype LTYPE_FIXED_LENGTH_BYTES = Some PB_WT_STRING"
| "wiretype_of_ltype _ = None"

definition pb_encode_tag_for_field ::
    "'s pb_ostream \<Rightarrow> pb_field \<Rightarrow> status \<times> 's pb_ostream" where
  "pb_encode_tag_for_field s field =
     (case wiretype_of_ltype (ltype field) of
        None \<Rightarrow> PB_RETURN_ERROR s ''invalid field type''
      | Some wiretype \<Rightarrow> pb_encode_tag s wiretype (tag field))"

definition pb_encode_string ::
    "'s pb_ostream \<Rightarrow> u8 list \<Rightarrow> u64 \<Rightarrow> status \<times> 's pb_ostream" where
  "pb_encode_string s buffer n =
     chk (pb_encode_varint s n) (\<lambda>s. pb_write s buffer n)"

section \<open>The loop computes base 128\<close>

lemma varint_loop_eq:
  "i + length (cont_bytes (unat v)) \<le> length buffer \<Longrightarrow>
   varint_loop v buffer i =
     Some (take i buffer @ cont_bytes (unat v) @ drop (i + length (cont_bytes (unat v))) buffer,
           i + length (cont_bytes (unat v)))"
proof (induction v buffer i rule: varint_loop.induct)
  case (1 v buffer i)
  show ?case
  proof (cases "v = 0")
    case True
    then show ?thesis by (simp add: varint_loop.simps [of 0])
  next
    case False
    then have pos: "0 < unat v" by (simp add: unat_gt_0)
    have "unat (drop_bit 7 v) = unat v div 128"
      using unat_drop_bit [of 7 v] by simp
    then have c: "cont_bytes (unat v) =
        of_nat (128 + unat v mod 128) # cont_bytes (unat (drop_bit 7 v))"
      by (simp only: cont_bytes_pos [OF pos])
    have i: "i < length buffer" using 1(2) c by (simp del: of_nat_add)
    let ?b = "of_nat (128 + unat v mod 128) :: u8"
    have "take (Suc i) (buffer[i := ?b]) = take i buffer @ [?b]"
      using i by (simp add: take_Suc_conv_app_nth)
    moreover have "varint_loop v buffer i =
        varint_loop (drop_bit 7 v) (buffer[i := ?b]) (Suc i)"
      using False i by (simp add: varint_loop.simps [of v] cont_byte del: of_nat_add)
    ultimately show ?thesis
      using 1(1) [OF False i] 1(2) c cont_byte [of v] by (simp del: of_nat_add)
  qed
qed

text \<open>
  The ten cells of the buffer are enough, and what reaches \<open>pb_write\<close> is the base-128
  encoding of the value.
\<close>

lemma pb_encode_varint_eq:
  obtains buf n where "\<And>s. pb_encode_varint s v = pb_write s buf n"
    "unat n \<le> length buf" "take (unat n) buf = varint_bytes (unat v)"
proof (cases "v \<le> 0x7F")
  case True
  then have "varint_bytes (unat v) = [ucast v]"
    by (simp add: varint_bytes.simps word_le_nat_alt)
  then show ?thesis
    using True that [of "[ucast v]" 1] by (simp add: pb_encode_varint_def)
next
  case False
  let ?c = "cont_bytes (unat v)"
  let ?buf = "?c @ drop (length ?c) (replicate 10 0)"
  have pos: "0 < unat v" using False by (simp add: word_le_nat_alt)
  have "unat v < 2 ^ 64" using unsigned_less [of v] by simp
  then have len: "length ?c \<le> 10" using length_cont_bytes [of "unat v" 10] by simp
  then have loop: "varint_loop v (replicate 10 0) 0 = Some (?buf, length ?c)"
    using varint_loop_eq [of 0 v "replicate 10 0"] by simp
  let ?i = "length ?c - 1"
  have ne: "?c \<noteq> []" using cont_bytes_nonempty [OF pos] .
  have last: "?buf ! ?i = last ?c" using ne by (simp add: nth_append last_conv_nth)
  have n: "unat (of_nat (length ?c) :: u64) = length ?c"
    using len by (simp add: unat_of_nat_lt)
  have "take (length ?c) (?buf[?i := last ?c AND 0x7F]) = varint_bytes (unat v)"
    using ne by (simp add: varint_bytes_cont [OF pos] list_update_append)
  moreover have "length ?c \<le> length (?buf[?i := last ?c AND 0x7F])" by simp
  moreover have "pb_encode_varint s v =
      pb_write s (?buf[?i := last ?c AND 0x7F]) (of_nat (length ?c))" for s :: "'a pb_ostream"
    using False by (simp add: pb_encode_varint_def loop last del: drop_replicate One_nat_def)
  ultimately show ?thesis using that n by metis
qed

lemma fixed32_le: "[ucast (v AND 0xFF), ucast (drop_bit 8 v AND 0xFF),
    ucast (drop_bit 16 v AND 0xFF), ucast (drop_bit 24 v AND 0xFF)] = le_bytes 4 (v :: u32)"
proof -
  have *: "(ucast (x AND 0xFF) :: u8) = ucast x" for x :: u32
    by (rule bit_word_eqI) (auto simp: bit_simps and_FF)
  show ?thesis by (simp add: numeral_eq_Suc * )
qed

lemma fixed64_le: "[ucast (v AND 0xFF), ucast (drop_bit 8 v AND 0xFF),
    ucast (drop_bit 16 v AND 0xFF), ucast (drop_bit 24 v AND 0xFF),
    ucast (drop_bit 32 v AND 0xFF), ucast (drop_bit 40 v AND 0xFF),
    ucast (drop_bit 48 v AND 0xFF), ucast (drop_bit 56 v AND 0xFF)] = le_bytes 8 (v :: u64)"
proof -
  have *: "(ucast (x AND 0xFF) :: u8) = ucast x" for x :: u64
    by (rule bit_word_eqI) (auto simp: bit_simps and_FF)
  show ?thesis by (simp add: numeral_eq_Suc * )
qed

section \<open>Each value encoder writes its encoding\<close>

context output_sink
begin

lemma varint_conforms: "conforms wr out rest (\<lambda>s. pb_encode_varint s v) (Ok, varint_bytes (unat v))"
proof -
  obtain buf n where "\<And>s :: 's pb_ostream. pb_encode_varint s v = pb_write s buf n"
    "unat n \<le> length buf" "take (unat n) buf = varint_bytes (unat v)"
    by (rule pb_encode_varint_eq [where v = v]) blast
  then show ?thesis using write_prefix_conforms [of n buf "varint_bytes (unat v)"] by simp
qed

lemma svarint_conforms:
  "conforms wr out rest (\<lambda>s. pb_encode_svarint s v) (Ok, varint_bytes (zigzag (sint v)))"
  using varint_conforms [of "if v <s 0 then NOT (push_bit 1 v) else push_bit 1 v"]
  by (simp only: pb_encode_svarint_def unat_zigzag_word zigzag_def)

lemma fixed32_conforms:
  "conforms wr out rest (\<lambda>s. pb_encode_fixed32 m s p) (Ok, le_bytes 4 (load32 m p))"
  unfolding pb_encode_fixed32_def Let_def fixed32_le by (rule write_conforms) simp

lemma fixed64_conforms:
  "conforms wr out rest (\<lambda>s. pb_encode_fixed64 m s p) (Ok, le_bytes 8 (load64 m p))"
  unfolding pb_encode_fixed64_def Let_def fixed64_le by (rule write_conforms) simp

lemma tag_conforms:
  assumes "unat (wire_type_code wt) < 8"
  shows "conforms wr out rest (\<lambda>s. pb_encode_tag s wt t) (Ok, tag_bytes t wt)"
  unfolding pb_encode_tag_def tag_bytes_def tag_number_def unat_tag_word [OF assms, symmetric]
  by (rule varint_conforms)

lemma string_conforms:
  assumes "unat n = length bs"
  shows "conforms wr out rest (\<lambda>s. pb_encode_string s bs n) (Ok, string_bytes bs)"
  unfolding pb_encode_string_def string_bytes_def
  by (rule conforms_chk_Ok) (use varint_conforms [of n] write_conforms [OF assms] assms in auto)

lemma tag_for_field_conforms:
  "conforms wr out rest (\<lambda>s. pb_encode_tag_for_field s f)
     (case wiretype_of_ltype (ltype f) of None \<Rightarrow> (Fail, []) | Some wt \<Rightarrow> (Ok, tag_bytes (tag f) wt))"
  by (cases "ltype f")
     (simp_all add: pb_encode_tag_for_field_def conforms_error tag_conforms)

end

end
