(* ===== verification/PbEncode.thy ===== *)
theory PbEncode
  imports PbCommon PbEncPrim
begin

text \<open>
  The message encoder of \<open>pb_encode.c\<close>.  Message memory is read only.  Descriptor arrays,
  and the functions that function pointers in memory stand for, are the fields of an
  environment.  The encoders are mutually recursive through submessages: every function
  below takes the message encoder for submessages as an argument (\<open>rec\<close>), and \<open>pb_encode\<close>
  ties the knot with fuel, one unit per level of nesting.
\<close>

section \<open>Environment\<close>

type_synonym 's field_func = "'s pb_ostream \<Rightarrow> pb_field \<Rightarrow> addr \<Rightarrow> status \<times> 's pb_ostream"
type_synonym 's msg_func = "'s pb_ostream \<Rightarrow> pb_field list \<Rightarrow> addr \<Rightarrow> status \<times> 's pb_ostream"

record 's enc_env =
  fields_at :: "addr \<Rightarrow> pb_field list"
  field_encoder :: "addr \<Rightarrow> 's field_func"
  ext_encoder :: "addr \<Rightarrow> 's pb_ostream \<Rightarrow> addr \<Rightarrow> status \<times> 's pb_ostream"

section \<open>Field encoders\<close>

text \<open>Integer fields are read at their declared size and sign extended.\<close>

definition pb_enc_varint :: "mem \<Rightarrow> 's field_func" where
  "pb_enc_varint m s field src =
     (if data_size field = 1 then pb_encode_varint s (scast (load8 m src))
      else if data_size field = 2 then pb_encode_varint s (scast (load16 m src))
      else if data_size field = 4 then pb_encode_varint s (scast (load32 m src))
      else if data_size field = 8 then pb_encode_varint s (load64 m src)
      else PB_RETURN_ERROR s ''invalid data_size'')"

definition pb_enc_uvarint :: "mem \<Rightarrow> 's field_func" where
  "pb_enc_uvarint m s field src =
     (if data_size field = 1 then pb_encode_varint s (ucast (load8 m src))
      else if data_size field = 2 then pb_encode_varint s (ucast (load16 m src))
      else if data_size field = 4 then pb_encode_varint s (ucast (load32 m src))
      else if data_size field = 8 then pb_encode_varint s (load64 m src)
      else PB_RETURN_ERROR s ''invalid data_size'')"

definition pb_enc_svarint :: "mem \<Rightarrow> 's field_func" where
  "pb_enc_svarint m s field src =
     (if data_size field = 1 then pb_encode_svarint s (scast (load8 m src))
      else if data_size field = 2 then pb_encode_svarint s (scast (load16 m src))
      else if data_size field = 4 then pb_encode_svarint s (scast (load32 m src))
      else if data_size field = 8 then pb_encode_svarint s (load64 m src)
      else PB_RETURN_ERROR s ''invalid data_size'')"

definition pb_enc_fixed32 :: "mem \<Rightarrow> 's field_func" where
  "pb_enc_fixed32 m s field src = pb_encode_fixed32 m s src"

definition pb_enc_fixed64 :: "mem \<Rightarrow> 's field_func" where
  "pb_enc_fixed64 m s field src = pb_encode_fixed64 m s src"

definition pb_enc_bytes :: "mem \<Rightarrow> 's field_func" where
  "pb_enc_bytes m s field src =
     (if src = 0 then pb_encode_string s [] 0
      else if atype field = ATYPE_STATIC
        \<and> PB_BYTES_ARRAY_T_ALLOCSIZE (ucast (bytes_size m src)) > ucast (data_size field)
      then PB_RETURN_ERROR s ''bytes size exceeded''
      else pb_encode_string s (load_bytes m (bytes_data src) (unat (bytes_size m src)))
             (ucast (bytes_size m src)))"

text \<open>\<open>while (size < max_size && *p != '\0') { size++; p++; }\<close>\<close>

function strnlen_loop :: "mem \<Rightarrow> addr \<Rightarrow> u64 \<Rightarrow> u64 \<Rightarrow> u64" where
  "strnlen_loop m p max_sz sz =
     (if sz < max_sz \<and> m p \<noteq> 0 then strnlen_loop m (p + 1) max_sz (sz + 1) else sz)"
  by pat_completeness auto
termination
proof (relation "measure (\<lambda>(m, p, max_sz, sz). unat max_sz - unat sz)", simp)
  fix m :: mem and p :: addr and max_sz sz :: u64
  assume "sz < max_sz \<and> m p \<noteq> 0"
  then have lt: "unat sz < unat max_sz" by (simp add: word_less_nat_alt)
  have "unat max_sz < 2 ^ 64" using unsigned_less [of max_sz] by simp
  then have "Suc (unat sz) < 2 ^ 64" using lt by simp
  then have "unat (sz + 1) = Suc (unat sz)" by (simp add: unat_word_ariths)
  then show "((m, p + 1, max_sz, sz + 1), m, p, max_sz, sz)
      \<in> measure (\<lambda>(m, p, max_sz, sz). unat max_sz - unat sz)" using lt by simp
qed

declare strnlen_loop.simps [simp del]

definition pb_enc_string :: "mem \<Rightarrow> 's field_func" where
  "pb_enc_string m s field src =
     (let max_sz = (if atype field = ATYPE_POINTER then - 1 else ucast (data_size field));
          sz = (if src = 0 then 0 else strnlen_loop m src max_sz 0)
      in pb_encode_string s (load_bytes m src (unat sz)) sz)"

definition pb_enc_fixed_length_bytes :: "mem \<Rightarrow> 's field_func" where
  "pb_enc_fixed_length_bytes m s field src =
     pb_encode_string s (load_bytes m src (unat (data_size field))) (ucast (data_size field))"

text \<open>
  A submessage is encoded twice: on a sizing stream to learn its length, and then into the
  stream, through a substream that may write exactly that many bytes.
\<close>

definition pb_encode_submessage :: "'s msg_func \<Rightarrow> 's msg_func" where
  "pb_encode_submessage rec s fs src =
     (case rec PB_OSTREAM_SIZING fs src of (st, sub) \<Rightarrow>
        if st \<noteq> Ok then (st, s\<lparr>errmsg := errmsg sub\<rparr>)
        else
          let sz = bytes_written sub in
          chk (pb_encode_varint s sz) (\<lambda>s.
            case callback s of
              None \<Rightarrow> pb_write s [] sz
            | Some cb \<Rightarrow>
                if bytes_written s + sz > max_size s then PB_RETURN_ERROR s ''stream full''
                else
                  case rec \<lparr>callback = Some cb, state = state s, max_size = sz,
                            bytes_written = 0, errmsg = None\<rparr> fs src of (st, sub) \<Rightarrow>
                    let s1 = s\<lparr>bytes_written := bytes_written s + bytes_written sub,
                               state := state sub, errmsg := errmsg sub\<rparr> in
                    if st = Diverge \<or> st = Undef then (st, s1)
                    else if bytes_written sub \<noteq> sz
                    then PB_RETURN_ERROR s1 ''submsg size changed''
                    else (st, s1)))"

definition pb_enc_submessage :: "'s enc_env \<Rightarrow> 's msg_func \<Rightarrow> 's field_func" where
  "pb_enc_submessage env rec s field src =
     (if ptr field = 0 then PB_RETURN_ERROR s ''invalid field descriptor''
      else pb_encode_submessage rec s (fields_at env (ptr field)) src)"

text \<open>
  The table of field encoders. \<open>None\<close> is an index past the table; the null entry for
  extensions is \<open>Some None\<close>, and calling it is undefined.
\<close>

fun PB_ENCODERS :: "'s enc_env \<Rightarrow> mem \<Rightarrow> 's msg_func \<Rightarrow> pb_ltype \<Rightarrow> 's field_func option option" where
  "PB_ENCODERS env m rec LTYPE_VARINT = Some (Some (pb_enc_varint m))"
| "PB_ENCODERS env m rec LTYPE_UVARINT = Some (Some (pb_enc_uvarint m))"
| "PB_ENCODERS env m rec LTYPE_SVARINT = Some (Some (pb_enc_svarint m))"
| "PB_ENCODERS env m rec LTYPE_FIXED32 = Some (Some (pb_enc_fixed32 m))"
| "PB_ENCODERS env m rec LTYPE_FIXED64 = Some (Some (pb_enc_fixed64 m))"
| "PB_ENCODERS env m rec LTYPE_BYTES = Some (Some (pb_enc_bytes m))"
| "PB_ENCODERS env m rec LTYPE_STRING = Some (Some (pb_enc_string m))"
| "PB_ENCODERS env m rec LTYPE_SUBMESSAGE = Some (Some (pb_enc_submessage env rec))"
| "PB_ENCODERS env m rec LTYPE_EXTENSION = Some None"
| "PB_ENCODERS env m rec LTYPE_FIXED_LENGTH_BYTES = Some (Some (pb_enc_fixed_length_bytes m))"
| "PB_ENCODERS env m rec LTYPE_INVALID = None"

definition call_func :: "'s field_func option \<Rightarrow> 's field_func" where
  "call_func func s field src = (case func of None \<Rightarrow> (Undef, s) | Some f \<Rightarrow> f s field src)"

section \<open>Arrays\<close>

fun packed_loop :: "'s field_func option \<Rightarrow> pb_field \<Rightarrow> nat \<Rightarrow> 's pb_ostream \<Rightarrow> addr
    \<Rightarrow> status \<times> 's pb_ostream" where
  "packed_loop func field 0 s p = (Ok, s)"
| "packed_loop func field (Suc n) s p =
     chk (call_func func s field p)
       (\<lambda>s. packed_loop func field n s (p + ucast (data_size field)))"

definition array_item :: "mem \<Rightarrow> pb_field \<Rightarrow> addr \<Rightarrow> addr" where
  "array_item m field p =
     (if atype field = ATYPE_POINTER \<and> (ltype field = LTYPE_STRING \<or> ltype field = LTYPE_BYTES)
      then load64 m p else p)"

fun unpacked_loop :: "mem \<Rightarrow> 's field_func option \<Rightarrow> pb_field \<Rightarrow> nat \<Rightarrow> 's pb_ostream \<Rightarrow> addr
    \<Rightarrow> status \<times> 's pb_ostream" where
  "unpacked_loop m func field 0 s p = (Ok, s)"
| "unpacked_loop m func field (Suc n) s p =
     chk (pb_encode_tag_for_field s field)
       (\<lambda>s. chk (call_func func s field (array_item m field p))
         (\<lambda>s. unpacked_loop m func field n s (p + ucast (data_size field))))"

text \<open>The part of \<open>encode_array\<close> after the size of the packed data is known.\<close>

definition packed_data :: "'s field_func option \<Rightarrow> pb_field \<Rightarrow> nat \<Rightarrow> addr \<Rightarrow> u64 \<Rightarrow> 's pb_ostream
    \<Rightarrow> status \<times> 's pb_ostream" where
  "packed_data func field n src sz s =
     chk (pb_encode_varint s sz) (\<lambda>s.
       case callback s of
         None \<Rightarrow> pb_write s [] sz
       | Some _ \<Rightarrow> packed_loop func field n s src)"

definition encode_array :: "mem \<Rightarrow> 's pb_ostream \<Rightarrow> pb_field \<Rightarrow> addr \<Rightarrow> u64 \<Rightarrow> 's field_func option
    \<Rightarrow> status \<times> 's pb_ostream" where
  "encode_array m s field src count func =
     (if count = 0 then (Ok, s)
      else if atype field \<noteq> ATYPE_POINTER \<and> count > ucast (array_size field)
      then PB_RETURN_ERROR s ''array max size exceeded''
      else if packable (ltype field) then
        chk (pb_encode_tag s PB_WT_STRING (tag field)) (\<lambda>s.
          if ltype field = LTYPE_FIXED32
          then packed_data func field (unat count) src (4 * count) s
          else if ltype field = LTYPE_FIXED64
          then packed_data func field (unat count) src (8 * count) s
          else case packed_loop func field (unat count) PB_OSTREAM_SIZING src of
              (st, sizestream) \<Rightarrow>
                if st = Ok
                then packed_data func field (unat count) src (bytes_written sizestream) s
                else (st, s))
      else unpacked_loop m func field (unat count) s src)"

section \<open>The proto3 default check\<close>

text \<open>\<open>Ok\<close> is \<open>true\<close> (the field holds its zero value) and \<open>Fail\<close> is \<open>false\<close>.\<close>

definition check_proto3_body ::
    "'s enc_env \<Rightarrow> mem \<Rightarrow> (pb_field \<Rightarrow> addr \<Rightarrow> status) \<Rightarrow> pb_field \<Rightarrow> addr \<Rightarrow> status" where
  "check_proto3_body env m rec field p =
     (let sz = p + scast (size_offset field) in
      if htype field = HTYPE_REQUIRED then Fail
      else if htype field = HTYPE_REPEATED then (if load32 m sz = 0 then Ok else Fail)
      else if htype field = HTYPE_ONEOF then (if load32 m sz = 0 then Ok else Fail)
      else if htype field = HTYPE_OPTIONAL \<and> size_offset field \<noteq> 0
      then (if load8 m sz = 0 then Ok else Fail)
      else if atype field = ATYPE_STATIC \<and> ltype field = LTYPE_BYTES
      then (if bytes_size m p = 0 then Ok else Fail)
      else if atype field = ATYPE_STATIC \<and> ltype field = LTYPE_STRING
      then (if load8 m p = 0 then Ok else Fail)
      else if atype field = ATYPE_STATIC \<and> ltype field = LTYPE_FIXED_LENGTH_BYTES
      then (if data_size field = 0 then Ok else Fail)
      else if atype field = ATYPE_STATIC \<and> ltype field = LTYPE_SUBMESSAGE
      then (case pb_field_iter_begin (fields_at env (ptr field)) p of (go, it) \<Rightarrow>
              if go then fst (iter_do (\<lambda>it _. (rec (iter_field it) (pData it), ())) it ())
              else Ok)
      else if list_all (\<lambda>b. b = 0) (load_bytes m p (unat (data_size field))) then Ok else Fail)"

primrec pb_check_proto3_default_value ::
    "nat \<Rightarrow> 's enc_env \<Rightarrow> mem \<Rightarrow> pb_field \<Rightarrow> addr \<Rightarrow> status" where
  "pb_check_proto3_default_value 0 env m = (\<lambda>field p. Diverge)"
| "pb_check_proto3_default_value (Suc n) env m =
     check_proto3_body env m (pb_check_proto3_default_value n env m)"

section \<open>Single fields\<close>

text \<open>
  What \<open>*(bool* )pSize\<close> is for an optional field: the \<open>has_\<close> member if there is one,
  otherwise \<open>implicit_has\<close>. A pointer field has a value when its pointer is not null.
\<close>

definition optional_has :: "nat \<Rightarrow> 's enc_env \<Rightarrow> mem \<Rightarrow> pb_field \<Rightarrow> addr \<Rightarrow> status" where
  "optional_has n env m field p =
     (if size_offset field \<noteq> 0
      then (if load8 m (p + scast (size_offset field)) \<noteq> 0 then Ok else Fail)
      else case pb_check_proto3_default_value n env m field p of
          Ok \<Rightarrow> if atype field = ATYPE_POINTER \<and> load64 m p \<noteq> 0 then Ok else Fail
        | Fail \<Rightarrow> if atype field = ATYPE_POINTER \<and> load64 m p = 0 then Fail else Ok
        | st \<Rightarrow> st)"

definition tagged :: "'s field_func option \<Rightarrow> 's field_func" where
  "tagged func s field src =
     chk (pb_encode_tag_for_field s field) (\<lambda>s. call_func func s field src)"

definition encode_basic_field ::
    "nat \<Rightarrow> 's enc_env \<Rightarrow> mem \<Rightarrow> 's msg_func \<Rightarrow> 's field_func" where
  "encode_basic_field n env m rec s field p =
     (case PB_ENCODERS env m rec (ltype field) of
        None \<Rightarrow> (Undef, s)
      | Some func \<Rightarrow>
          let sz = p + scast (size_offset field);
              src = (if atype field = ATYPE_POINTER then load64 m p else p)
          in case htype field of
            HTYPE_REQUIRED \<Rightarrow>
              if src = 0 then PB_RETURN_ERROR s ''missing required field''
              else tagged func s field src
          | HTYPE_OPTIONAL \<Rightarrow>
              (case optional_has n env m field p of
                 Ok \<Rightarrow> tagged func s field src
               | Fail \<Rightarrow> (Ok, s)
               | st \<Rightarrow> (st, s))
          | HTYPE_REPEATED \<Rightarrow>
              encode_array m s field src
                (if size_offset field \<noteq> 0 then ucast (load32 m sz) else ucast (array_size field))
                func
          | HTYPE_ONEOF \<Rightarrow>
              if size_offset field = 0 then (Undef, s)
              else if load32 m sz = tag field then tagged func s field src
              else (Ok, s))"

definition encode_callback_field :: "'s enc_env \<Rightarrow> mem \<Rightarrow> 's field_func" where
  "encode_callback_field env m s field p =
     (if callback_fun m p \<noteq> 0
      then fail_with (field_encoder env (callback_fun m p) s field (callback_arg p))
             ''callback error''
      else (Ok, s))"

definition encode_field :: "nat \<Rightarrow> 's enc_env \<Rightarrow> mem \<Rightarrow> 's msg_func \<Rightarrow> 's field_func" where
  "encode_field n env m rec s field p =
     (case atype field of
        ATYPE_STATIC \<Rightarrow> encode_basic_field n env m rec s field p
      | ATYPE_POINTER \<Rightarrow> encode_basic_field n env m rec s field p
      | ATYPE_CALLBACK \<Rightarrow> encode_callback_field env m s field p
      | ATYPE_INVALID \<Rightarrow> PB_RETURN_ERROR s ''invalid field type'')"

section \<open>Extensions\<close>

definition ext_desc :: "'s enc_env \<Rightarrow> mem \<Rightarrow> addr \<Rightarrow> pb_field" where
  "ext_desc env m e = field_at (fields_at env (ext_type_arg m (ext_type m e))) 0"

definition default_extension_encoder ::
    "nat \<Rightarrow> 's enc_env \<Rightarrow> mem \<Rightarrow> 's msg_func \<Rightarrow> 's pb_ostream \<Rightarrow> addr \<Rightarrow> status \<times> 's pb_ostream" where
  "default_extension_encoder n env m rec s e =
     (let field = ext_desc env m e in
      if atype field = ATYPE_POINTER then encode_field n env m rec s field (ext_dest e)
      else encode_field n env m rec s field (load64 m (ext_dest e)))"

text \<open>The linked list of extensions; its length is bounded by the first argument.\<close>

fun encode_extensions ::
    "nat \<Rightarrow> nat \<Rightarrow> 's enc_env \<Rightarrow> mem \<Rightarrow> 's msg_func \<Rightarrow> 's pb_ostream \<Rightarrow> addr \<Rightarrow> status \<times> 's pb_ostream" where
  "encode_extensions 0 n env m rec s e = (if e = 0 then (Ok, s) else (Diverge, s))"
| "encode_extensions (Suc k) n env m rec s e =
     (if e = 0 then (Ok, s)
      else chk (if ext_type_encode m (ext_type m e) \<noteq> 0
                then ext_encoder env (ext_type_encode m (ext_type m e)) s e
                else default_extension_encoder n env m rec s e)
             (\<lambda>s. encode_extensions k n env m rec s (ext_next m e)))"

definition encode_extension_field ::
    "nat \<Rightarrow> 's enc_env \<Rightarrow> mem \<Rightarrow> 's msg_func \<Rightarrow> 's pb_ostream \<Rightarrow> addr \<Rightarrow> status \<times> 's pb_ostream" where
  "encode_extension_field n env m rec s p = encode_extensions n n env m rec s (load64 m p)"

section \<open>Messages\<close>

definition pb_encode_body :: "nat \<Rightarrow> 's enc_env \<Rightarrow> mem \<Rightarrow> 's msg_func \<Rightarrow> 's msg_func" where
  "pb_encode_body n env m rec s fs src =
     (case pb_field_iter_begin fs src of (go, it) \<Rightarrow>
        if \<not> go then (Ok, s)
        else iter_do (\<lambda>it s.
               if ltype (iter_field it) = LTYPE_EXTENSION
               then encode_extension_field n env m rec s (pData it)
               else encode_field n env m rec s (iter_field it) (pData it)) it s)"

primrec pb_encode :: "nat \<Rightarrow> 's enc_env \<Rightarrow> mem \<Rightarrow> 's msg_func" where
  "pb_encode 0 env m = (\<lambda>s fs src. (Diverge, s))"
| "pb_encode (Suc n) env m = pb_encode_body n env m (pb_encode n env m)"

definition pb_encode_delimited :: "nat \<Rightarrow> 's enc_env \<Rightarrow> mem \<Rightarrow> 's msg_func" where
  "pb_encode_delimited n env m s fs src = pb_encode_submessage (pb_encode n env m) s fs src"

definition pb_encode_nullterminated :: "nat \<Rightarrow> 's enc_env \<Rightarrow> mem \<Rightarrow> 's msg_func" where
  "pb_encode_nullterminated n env m s fs src =
     chk (pb_encode n env m s fs src) (\<lambda>s. pb_write s [0] 1)"

text \<open>The size is the second component when the call returns true.\<close>

definition pb_get_encoded_size ::
    "nat \<Rightarrow> 's enc_env \<Rightarrow> mem \<Rightarrow> pb_field list \<Rightarrow> addr \<Rightarrow> status \<times> u64 option" where
  "pb_get_encoded_size n env m fs src =
     (case pb_encode n env m PB_OSTREAM_SIZING fs src of (st, s) \<Rightarrow>
        if st = Ok then (Ok, Some (bytes_written s)) else (st, None))"

end
