(* ===== verification/PbWire.thy ===== *)
theory PbWire
  imports PbEncPrim
begin

text \<open>
  The protobuf wire format, abstractly: a message is a list of numbered values, and its
  bytes are the concatenation of a key and a payload per value.
\<close>

datatype wire_value = VVarint u64 | V64 u64 | VBytes "u8 list" | V32 u32

type_synonym wire_field = "u32 \<times> wire_value"

fun value_wt :: "wire_value \<Rightarrow> pb_wire_type" where
  "value_wt (VVarint v) = PB_WT_VARINT"
| "value_wt (V64 v) = PB_WT_64BIT"
| "value_wt (VBytes bs) = PB_WT_STRING"
| "value_wt (V32 v) = PB_WT_32BIT"

fun payload_bytes :: "wire_value \<Rightarrow> u8 list" where
  "payload_bytes (VVarint v) = varint_bytes (unat v)"
| "payload_bytes (V64 v) = le_bytes 8 v"
| "payload_bytes (VBytes bs) = string_bytes bs"
| "payload_bytes (V32 v) = le_bytes 4 v"

definition field_bytes :: "wire_field \<Rightarrow> u8 list" where
  "field_bytes w = tag_bytes (fst w) (value_wt (snd w)) @ payload_bytes (snd w)"

definition message_bytes :: "wire_field list \<Rightarrow> u8 list" where
  "message_bytes ws = concat (map field_bytes ws)"

lemma message_bytes_Nil [simp]: "message_bytes [] = []"
  by (simp add: message_bytes_def)

lemma message_bytes_Cons [simp]: "message_bytes (w # ws) = field_bytes w @ message_bytes ws"
  by (simp add: message_bytes_def)

lemma message_bytes_append [simp]: "message_bytes (us @ ws) = message_bytes us @ message_bytes ws"
  by (simp add: message_bytes_def)

text \<open>Outcome and bytes of a partial message, and of one value.\<close>

definition msg_out :: "status \<times> wire_field list \<Rightarrow> status \<times> u8 list" where
  "msg_out v = (fst v, message_bytes (snd v))"

definition val_out :: "status \<times> wire_value \<Rightarrow> status \<times> u8 list" where
  "val_out v = (fst v, payload_bytes (snd v))"

lemma msg_out_then [simp]: "msg_out (then_out u v) = then_out (msg_out u) (msg_out v)"
  by (cases u; cases v) (simp add: msg_out_def)

lemma msg_out_pair [simp]: "msg_out (st, ws) = (st, message_bytes ws)"
  by (simp add: msg_out_def)

lemma val_out_pair [simp]: "val_out (st, v) = (st, payload_bytes v)"
  by (simp add: val_out_def)

lemma fst_msg_out [simp]: "fst (msg_out v) = fst v"
  by (simp add: msg_out_def)

lemma wire_type_code_small [simp]: "unat (wire_type_code (value_wt v)) < 8"
  by (cases v) simp_all

lemma then_out_Ok [simp]: "then_out (Ok, b1) v = (fst v, b1 @ snd v)"
  by (cases v) simp

lemma then_out_not_Ok [simp]: "st \<noteq> Ok \<Longrightarrow> then_out (st, b1) v = (st, b1)"
  by (cases v) simp

lemma then_out_Nil [simp]: "then_out u (Ok, []) = u"
  by (cases u) simp

lemma then_out_eq: "then_out u v = (if fst u = Ok then (fst v, snd u @ snd v) else u)"
  by (cases u; cases v) simp

end
