(* ===== verification/PbEncodeSpec.thy ===== *)
theory PbEncodeSpec
  imports PbEncode PbWire
begin

text \<open>
  What the message encoder means: the view of a struct in memory as a wire message
  (\<open>message_view\<close>), and the proof that every function of the encoder writes exactly the
  bytes of its view, on a sizing stream and on any sink with room.
\<close>

section \<open>The view of a struct\<close>

definition int_view :: "(16 word \<Rightarrow> u64) \<Rightarrow> (u8 \<Rightarrow> u64) \<Rightarrow> (u32 \<Rightarrow> u64) \<Rightarrow> (u64 \<Rightarrow> u64) \<Rightarrow>
    mem \<Rightarrow> pb_field \<Rightarrow> addr \<Rightarrow> status \<times> wire_value" where
  "int_view ext16 ext8 ext32 conv m field src =
     (if data_size field = 1 then (Ok, VVarint (conv (ext8 (load8 m src))))
      else if data_size field = 2 then (Ok, VVarint (conv (ext16 (load16 m src))))
      else if data_size field = 4 then (Ok, VVarint (conv (ext32 (load32 m src))))
      else if data_size field = 8 then (Ok, VVarint (conv (load64 m src)))
      else (Fail, VVarint 0))"

definition zigzag_word :: "u64 \<Rightarrow> u64" where
  "zigzag_word v = of_nat (zigzag (sint v))"

definition string_len :: "mem \<Rightarrow> pb_field \<Rightarrow> addr \<Rightarrow> u64" where
  "string_len m field src =
     (if src = 0 then 0
      else strnlen_loop m src
        (if atype field = ATYPE_POINTER then - 1 else ucast (data_size field)) 0)"

fun ltype_view :: "pb_ltype \<Rightarrow> (addr \<Rightarrow> pb_field list) \<Rightarrow> mem \<Rightarrow>
    (pb_field list \<Rightarrow> addr \<Rightarrow> status \<times> wire_field list) \<Rightarrow> pb_field \<Rightarrow> addr \<Rightarrow> status \<times> wire_value" where
  "ltype_view LTYPE_VARINT desc m sub field src = int_view scast scast scast id m field src"
| "ltype_view LTYPE_UVARINT desc m sub field src = int_view ucast ucast ucast id m field src"
| "ltype_view LTYPE_SVARINT desc m sub field src =
     int_view scast scast scast zigzag_word m field src"
| "ltype_view LTYPE_FIXED32 desc m sub field src = (Ok, V32 (load32 m src))"
| "ltype_view LTYPE_FIXED64 desc m sub field src = (Ok, V64 (load64 m src))"
| "ltype_view LTYPE_BYTES desc m sub field src =
     (if src = 0 then (Ok, VBytes [])
      else if atype field = ATYPE_STATIC
        \<and> PB_BYTES_ARRAY_T_ALLOCSIZE (ucast (bytes_size m src)) > ucast (data_size field)
      then (Fail, VBytes [])
      else (Ok, VBytes (load_bytes m (bytes_data src) (unat (bytes_size m src)))))"
| "ltype_view LTYPE_STRING desc m sub field src =
     (Ok, VBytes (load_bytes m src (unat (string_len m field src))))"
| "ltype_view LTYPE_SUBMESSAGE desc m sub field src =
     (if ptr field = 0 then (Fail, VBytes [])
      else case sub (desc (ptr field)) src of (st, ws) \<Rightarrow> (st, VBytes (message_bytes ws)))"
| "ltype_view LTYPE_EXTENSION desc m sub field src = (Fail, VBytes [])"
| "ltype_view LTYPE_FIXED_LENGTH_BYTES desc m sub field src =
     (Ok, VBytes (load_bytes m src (unat (data_size field))))"
| "ltype_view LTYPE_INVALID desc m sub field src = (Undef, VBytes [])"

abbreviation value_view :: "(addr \<Rightarrow> pb_field list) \<Rightarrow> mem \<Rightarrow>
    (pb_field list \<Rightarrow> addr \<Rightarrow> status \<times> wire_field list) \<Rightarrow> pb_field \<Rightarrow> addr \<Rightarrow> status \<times> wire_value" where
  "value_view desc m sub field src \<equiv> ltype_view (ltype field) desc m sub field src"

definition single_view :: "pb_field \<Rightarrow> status \<times> wire_value \<Rightarrow> status \<times> wire_field list" where
  "single_view field v = (fst v, [(tag field, snd v)])"

fun packed_view :: "(addr \<Rightarrow> status \<times> wire_value) \<Rightarrow> pb_field \<Rightarrow> nat \<Rightarrow> addr \<Rightarrow> status \<times> u8 list" where
  "packed_view val field 0 p = (Ok, [])"
| "packed_view val field (Suc n) p =
     then_out (val_out (val p)) (packed_view val field n (p + ucast (data_size field)))"

fun unpacked_view :: "mem \<Rightarrow> (addr \<Rightarrow> status \<times> wire_value) \<Rightarrow> pb_field \<Rightarrow> nat \<Rightarrow> addr
    \<Rightarrow> status \<times> wire_field list" where
  "unpacked_view m val field 0 p = (Ok, [])"
| "unpacked_view m val field (Suc n) p =
     then_out (single_view field (val (array_item m field p)))
       (unpacked_view m val field n (p + ucast (data_size field)))"

definition array_view :: "mem \<Rightarrow> (addr \<Rightarrow> status \<times> wire_value) \<Rightarrow> pb_field \<Rightarrow> addr \<Rightarrow> u64
    \<Rightarrow> status \<times> wire_field list" where
  "array_view m val field src count =
     (if count = 0 then (Ok, [])
      else if atype field \<noteq> ATYPE_POINTER \<and> count > ucast (array_size field) then (Fail, [])
      else if packable (ltype field)
      then case packed_view val field (unat count) src of (st, bs) \<Rightarrow> (st, [(tag field, VBytes bs)])
      else unpacked_view m val field (unat count) src)"

definition basic_view :: "nat \<Rightarrow> 's enc_env \<Rightarrow> mem \<Rightarrow>
    (pb_field list \<Rightarrow> addr \<Rightarrow> status \<times> wire_field list) \<Rightarrow> pb_field \<Rightarrow> addr \<Rightarrow> status \<times> wire_field list" where
  "basic_view n env m sub field p =
     (if ltype field = LTYPE_INVALID then (Undef, [])
      else
        let sz = p + scast (size_offset field);
            src = (if atype field = ATYPE_POINTER then load64 m p else p);
            val = value_view (fields_at env) m sub field
        in case htype field of
          HTYPE_REQUIRED \<Rightarrow> if src = 0 then (Fail, []) else single_view field (val src)
        | HTYPE_OPTIONAL \<Rightarrow>
            (case optional_has n env m field p of
               Ok \<Rightarrow> single_view field (val src)
             | Fail \<Rightarrow> (Ok, [])
             | st \<Rightarrow> (st, []))
        | HTYPE_REPEATED \<Rightarrow>
            array_view m val field src
              (if size_offset field \<noteq> 0 then ucast (load32 m sz) else ucast (array_size field))
        | HTYPE_ONEOF \<Rightarrow>
            if size_offset field = 0 then (Undef, [])
            else if load32 m sz = tag field then single_view field (val src)
            else (Ok, []))"

text \<open>
  Callback fields and extensions with their own encoder are seen through \<open>cbv\<close> and \<open>exv\<close>,
  which say what the user's function writes.
\<close>

type_synonym cb_view = "addr \<Rightarrow> pb_field \<Rightarrow> addr \<Rightarrow> status \<times> wire_field list"
type_synonym ext_view = "addr \<Rightarrow> addr \<Rightarrow> status \<times> wire_field list"

definition field_view :: "nat \<Rightarrow> 's enc_env \<Rightarrow> mem \<Rightarrow> cb_view \<Rightarrow>
    (pb_field list \<Rightarrow> addr \<Rightarrow> status \<times> wire_field list) \<Rightarrow> pb_field \<Rightarrow> addr \<Rightarrow> status \<times> wire_field list" where
  "field_view n env m cbv sub field p =
     (case atype field of
        ATYPE_STATIC \<Rightarrow> basic_view n env m sub field p
      | ATYPE_POINTER \<Rightarrow> basic_view n env m sub field p
      | ATYPE_CALLBACK \<Rightarrow>
          if callback_fun m p \<noteq> 0 then cbv (callback_fun m p) field (callback_arg p) else (Ok, [])
      | ATYPE_INVALID \<Rightarrow> (Fail, []))"

fun extensions_view :: "nat \<Rightarrow> nat \<Rightarrow> 's enc_env \<Rightarrow> mem \<Rightarrow> cb_view \<Rightarrow> ext_view \<Rightarrow>
    (pb_field list \<Rightarrow> addr \<Rightarrow> status \<times> wire_field list) \<Rightarrow> addr \<Rightarrow> status \<times> wire_field list" where
  "extensions_view 0 n env m cbv exv sub e = (if e = 0 then (Ok, []) else (Diverge, []))"
| "extensions_view (Suc k) n env m cbv exv sub e =
     (if e = 0 then (Ok, [])
      else then_out
        (if ext_type_encode m (ext_type m e) \<noteq> 0
         then exv (ext_type_encode m (ext_type m e)) e
         else field_view n env m cbv sub (ext_desc env m e)
                (if atype (ext_desc env m e) = ATYPE_POINTER then ext_dest e
                 else load64 m (ext_dest e)))
        (extensions_view k n env m cbv exv sub (ext_next m e)))"

definition iter_view :: "(pb_field_iter \<Rightarrow> status \<times> wire_field list) \<Rightarrow> pb_field_iter
    \<Rightarrow> status \<times> wire_field list" where
  "iter_view v it = iter_do (\<lambda>it ws. (fst (v it), ws @ snd (v it))) it []"

definition message_view_body :: "nat \<Rightarrow> 's enc_env \<Rightarrow> mem \<Rightarrow> cb_view \<Rightarrow> ext_view \<Rightarrow>
    (pb_field list \<Rightarrow> addr \<Rightarrow> status \<times> wire_field list) \<Rightarrow>
    pb_field list \<Rightarrow> addr \<Rightarrow> status \<times> wire_field list" where
  "message_view_body n env m cbv exv sub fs src =
     (case pb_field_iter_begin fs src of (go, it) \<Rightarrow>
        if \<not> go then (Ok, [])
        else iter_view (\<lambda>it.
               if ltype (iter_field it) = LTYPE_EXTENSION
               then extensions_view n n env m cbv exv sub (load64 m (pData it))
               else field_view n env m cbv sub (iter_field it) (pData it)) it)"

primrec message_view :: "nat \<Rightarrow> 's enc_env \<Rightarrow> mem \<Rightarrow> cb_view \<Rightarrow> ext_view \<Rightarrow>
    pb_field list \<Rightarrow> addr \<Rightarrow> status \<times> wire_field list" where
  "message_view 0 env m cbv exv = (\<lambda>fs src. (Diverge, []))"
| "message_view (Suc n) env m cbv exv =
     message_view_body n env m cbv exv (message_view n env m cbv exv)"

text \<open>The contract of the user's functions: they write what \<open>cbv\<close> and \<open>exv\<close> say, always.\<close>

definition callbacks_conform :: "('s option \<Rightarrow> u8 list \<Rightarrow> status \<times> 's option) \<Rightarrow>
    ('s option \<Rightarrow> u8 list) \<Rightarrow> ('s option \<Rightarrow> u8 list) \<Rightarrow> 's enc_env \<Rightarrow> cb_view \<Rightarrow> ext_view \<Rightarrow> bool" where
  "callbacks_conform wr out rest env cbv exv \<longleftrightarrow>
     (\<forall>f field arg. conforms wr out rest (\<lambda>s. field_encoder env f s field arg)
        (msg_out (cbv f field arg))) \<and>
     (\<forall>f e. conforms wr out rest (\<lambda>s. ext_encoder env f s e) (msg_out (exv f e)))"

lemma conforms_chk_msg:
  assumes "conforms wr out rest e1 (msg_out u)" "conforms wr out rest e2 (msg_out v)"
  shows "conforms wr out rest (\<lambda>s. chk (e1 s) e2) (msg_out (then_out u v))"
  using conforms_chk [of wr out rest e1 "fst u" "message_bytes (snd u)" e2 "fst v"
      "message_bytes (snd v)"] assms by (simp add: msg_out_def then_out_eq split: if_splits)

section \<open>Iteration\<close>

lemma iter_do_append:
  "iter_do (\<lambda>it ws. (fst (v it), ws @ snd (v it))) it acc =
     (fst (iter_view v it), acc @ snd (iter_view v it))"
proof (induction it arbitrary: acc rule: measure_induct_rule [of "\<lambda>it. length (start it) - pos it"])
  case (less it)
  let ?b = "\<lambda>it ws. (fst (v it), ws @ snd (v it))"
  show ?case
  proof (cases "fst (v it) = Ok \<and> fst (pb_field_iter_next it)")
    case True
    let ?it = "snd (pb_field_iter_next it)"
    have n: "pb_field_iter_next it = (True, ?it)" using True by (metis prod.collapse)
    have "length (start ?it) - pos ?it < length (start it) - pos it"
      using next_TrueD [OF n] by simp
    note IH = less.IH [OF this]
    have 1: "iter_do ?b it xs = iter_do ?b ?it (xs @ snd (v it))" for xs
      by (subst iter_do_unfold) (use True in simp)
    show ?thesis
      unfolding iter_view_def [of v it] 1 [of acc] 1 [of "[]"] IH by simp
  next
    case False
    have 1: "iter_do ?b it xs = (fst (v it), xs @ snd (v it))" for xs
      by (subst iter_do_unfold) (use False in \<open>cases "fst (v it) = Ok"; simp\<close>)
    show ?thesis unfolding iter_view_def 1 by simp
  qed
qed

lemma iter_view_unfold:
  "iter_view v it =
     (if fst (pb_field_iter_next it)
      then then_out (v it) (iter_view v (snd (pb_field_iter_next it))) else v it)"
proof -
  obtain st ws where v: "v it = (st, ws)" by fastforce
  have "iter_view v it = chk (fst (v it), snd (v it))
     (\<lambda>ws. if fst (pb_field_iter_next it)
            then iter_do (\<lambda>it ws. (fst (v it), ws @ snd (v it))) (snd (pb_field_iter_next it)) ws
            else (Ok, ws))"
    unfolding iter_view_def by (subst iter_do_unfold) simp
  then show ?thesis by (cases "st = Ok") (auto simp: v iter_do_append then_out_eq)
qed

lemma iter_do_conforms:
  assumes "\<And>it. conforms wr out rest (body it) (msg_out (v it))"
  shows "conforms wr out rest (\<lambda>s. iter_do body it s) (msg_out (iter_view v it))"
proof (induction it rule: measure_induct_rule [of "\<lambda>it. length (start it) - pos it"])
  case (less it)
  let ?it = "snd (pb_field_iter_next it)"
  obtain st ws where v: "v it = (st, ws)" by fastforce
  note c = assms [of it, unfolded v]
  show ?case
  proof (cases "fst (pb_field_iter_next it)")
    case True
    have n: "pb_field_iter_next it = (True, ?it)" using True by (metis prod.collapse)
    have "length (start ?it) - pos ?it < length (start it) - pos it"
      using next_TrueD [OF n] by simp
    note IH = less.IH [OF this]
    have "conforms wr out rest (\<lambda>s. chk (body it s) (\<lambda>s. iter_do body ?it s))
        (msg_out (iter_view v it))"
      using conforms_chk_msg [OF assms [of it] IH] True by (simp only: iter_view_unfold [of v it] if_True)
    moreover have "iter_do body it s = chk (body it s) (\<lambda>s. iter_do body ?it s)" for s
      by (subst iter_do_unfold) (simp add: True)
    ultimately show ?thesis by simp
  next
    case False
    have "iter_do body it s = body it s" for s
      by (subst iter_do_unfold) (simp add: False)
    then show ?thesis using c False by (simp add: iter_view_unfold [of v it] v)
  qed
qed

section \<open>The encoder writes its view\<close>

lemma value_view_wt:
  "wiretype_of_ltype (ltype f) = Some wt \<Longrightarrow>
   value_wt (snd (value_view desc m sub f src)) = wt"
  by (cases "ltype f") (auto simp: int_view_def split: prod.splits)

lemma unat_zigzag [simp]: "unat (zigzag_word v) = zigzag (sint v)"
proof -
  have "zigzag (sint v) < 2 ^ 64"
    unfolding zigzag_def unat_zigzag_word [of v, symmetric]
    using unsigned_less [of "if v <s 0 then NOT (push_bit 1 v) else push_bit 1 v"] by simp
  then show ?thesis unfolding zigzag_word_def by (simp add: unat_of_nat_lt)
qed

lemma length_string_bytes_lt: "length (string_bytes bs) < n \<Longrightarrow> length bs < n"
  by (simp add: string_bytes_def)

lemma packed_view_width:
  assumes "\<And>p. \<exists>b. val_out (val p) = (Ok, b) \<and> length b = w"
  shows "fst (packed_view val f n p) = Ok \<and> length (snd (packed_view val f n p)) = w * n"
proof (induction n arbitrary: p)
  case (Suc n)
  obtain b where "val_out (val p) = (Ok, b)" "length b = w" using assms by blast
  then show ?case using Suc by simp
qed simp

context output_sink
begin

lemma sized_conforms:
  assumes n: "unat n = length bs" and e: "conforms wr out rest e (Ok, bs)"
  shows "conforms wr out rest
    (\<lambda>s. case callback s of None \<Rightarrow> pb_write s [] n | Some cb \<Rightarrow> e s) (Ok, bs)"
proof (rule conformsI)
  have n': "of_nat (length bs) = n" by (simp flip: n)
  fix s :: "'s pb_ostream"
  assume len: "length bs < 2 ^ 63"
  let ?r = "case callback s of None \<Rightarrow> pb_write s [] n | Some cb \<Rightarrow> e s"
  show "if Ok = Ok then ?r = (Ok, s\<lparr>bytes_written := bytes_written s + of_nat (length bs)\<rparr>)
      else fst ?r = Ok" if "callback s = None"
    using that by (simp add: pb_write_def n')
  show "if Ok = Ok \<and> length bs \<le> space s
      then \<exists>st' em. ?r = (Ok, s\<lparr>state := st',
             bytes_written := bytes_written s + of_nat (length bs), errmsg := em\<rparr>)
           \<and> out st' = out (state s) @ bs \<and> rest st' = drop (length bs) (rest (state s))
      else fst ?r = Fail \<or> (Ok \<noteq> Ok \<and> fst ?r = Ok)" if inv: "stream_inv wr rest s"
  proof -
    have eq: "?r = e s" using inv by (simp add: stream_inv_def)
    show ?thesis unfolding eq by (rule conforms_sink [OF e len inv])
  qed
qed

text \<open>The second pass, through a substream that may write exactly the measured size.\<close>

lemma second_pass_conforms:
  assumes n: "unat sz = length bs" and rec: "conforms wr out rest (\<lambda>s. rec s fs src) (Ok, bs)"
  shows "conforms wr out rest (\<lambda>s.
     case callback s of
       None \<Rightarrow> pb_write s [] sz
     | Some cb \<Rightarrow>
         if bytes_written s + sz > max_size s then PB_RETURN_ERROR s ''stream full''
         else case rec \<lparr>callback = Some cb, state = state s, max_size = sz,
                        bytes_written = 0, errmsg = None\<rparr> fs src of (st, sub) \<Rightarrow>
           let s1 = s\<lparr>bytes_written := bytes_written s + bytes_written sub,
                      state := state sub, errmsg := errmsg sub\<rparr> in
           if st = Diverge \<or> st = Undef then (st, s1)
           else if bytes_written sub \<noteq> sz then PB_RETURN_ERROR s1 ''submsg size changed''
           else (st, s1)) (Ok, bs)"
    (is "conforms _ _ _ ?e _")
proof (rule conformsI)
  have n': "of_nat (length bs) = sz" by (simp flip: n)
  fix s :: "'s pb_ostream"
  assume len: "length bs < 2 ^ 63"
  show "if Ok = Ok then ?e s = (Ok, s\<lparr>bytes_written := bytes_written s + of_nat (length bs)\<rparr>)
      else fst (?e s) = Ok" if "callback s = None"
    using that by (simp add: pb_write_def n')
  show "if Ok = Ok \<and> length bs \<le> space s
      then \<exists>st' em. ?e s = (Ok, s\<lparr>state := st',
             bytes_written := bytes_written s + of_nat (length bs), errmsg := em\<rparr>)
           \<and> out st' = out (state s) @ bs \<and> rest st' = drop (length bs) (rest (state s))
      else fst (?e s) = Fail \<or> (Ok \<noteq> Ok \<and> fst (?e s) = Ok)" if inv: "stream_inv wr rest s"
  proof (cases "length bs \<le> space s")
    case False
    then show ?thesis
      using exceeds_iff [OF inv len] inv by (simp add: n' stream_inv_def)
  next
    case fits: True
    have cb: "callback s = Some wr" and rm: "space s \<le> length (rest (state s))"
      using inv by (simp_all add: stream_inv_def)
    let ?sub = "\<lparr>callback = Some wr, state = state s, max_size = sz,
                 bytes_written = 0, errmsg = None\<rparr>"
    have sub: "space ?sub = length bs" by (simp add: space_def n)
    then have sinv: "stream_inv wr rest ?sub"
      using fits rm len n by (simp add: stream_inv_def)
    obtain st' em where r: "rec ?sub fs src = (Ok, ?sub\<lparr>state := st',
            bytes_written := bytes_written ?sub + of_nat (length bs), errmsg := em\<rparr>)"
      and o: "out st' = out (state s) @ bs" "rest st' = drop (length bs) (rest (state s))"
      using conforms_sink [OF rec len sinv] sub by auto
    have "\<not> max_size s < bytes_written s + sz"
      using exceeds_iff [OF inv len] fits by (simp add: n')
    then have eq: "?e s = (Ok, s\<lparr>state := st',
        bytes_written := bytes_written s + of_nat (length bs), errmsg := em\<rparr>)"
      using r cb by (simp add: n')
    show ?thesis
      unfolding if_P [OF conjI [OF refl fits]]
      by (intro exI conjI) (rule eq, rule o(1), rule o(2))
  qed
qed

lemma submessage_conforms:
  assumes rec: "conforms wr out rest (\<lambda>s. rec s fs src) (st, bs)"
  shows "conforms wr out rest (\<lambda>s. pb_encode_submessage rec s fs src) (st, string_bytes bs)"
proof (rule conforms_guard)
  assume "length (string_bytes bs) < 2 ^ 63"
  then have len: "length bs < 2 ^ 63" by (rule length_string_bytes_lt)
  let ?sub = "PB_OSTREAM_SIZING :: 's pb_ostream"
  have "callback ?sub = None" by (simp add: PB_OSTREAM_SIZING_def)
  note sizing = conforms_sizing [OF rec len this]
  show ?thesis
  proof (cases "st = Ok")
    case False
    then have "fst (pb_encode_submessage rec s fs src) = st" for s
      using sizing by (simp add: pb_encode_submessage_def case_prod_beta)
    then show ?thesis using False by (intro conforms_const)
  next
    case True
    let ?sz = "of_nat (length bs) :: u64"
    have n: "unat ?sz = length bs" using len by (simp add: unat_of_nat_lt)
    have "rec ?sub fs src = (Ok, ?sub\<lparr>bytes_written := ?sz\<rparr>)"
      using sizing True by (simp add: PB_OSTREAM_SIZING_def)
    then show ?thesis
      using conforms_chk_Ok [OF varint_conforms [of ?sz] second_pass_conforms
          [where rec = rec, OF n rec [unfolded True]]] True
      by (simp add: pb_encode_submessage_def string_bytes_def n, simp only: Let_def)
  qed
qed

lemma value_conforms:
  assumes rec: "\<And>fs src. conforms wr out rest (\<lambda>s. rec s fs src) (msg_out (sub fs src))"
    and f: "PB_ENCODERS env m rec (ltype f) = Some (Some g)"
  shows "conforms wr out rest (\<lambda>s. g s f src)
    (val_out (value_view (fields_at env) m sub f src))"
proof (cases "ltype f")
  case LTYPE_SUBMESSAGE
  obtain st ws where sub: "sub (fields_at env (ptr f)) src = (st, ws)" by fastforce
  have g: "g = pb_enc_submessage env rec" using f LTYPE_SUBMESSAGE by simp
  show ?thesis
  proof (cases "ptr f = 0")
    case True
    then show ?thesis using LTYPE_SUBMESSAGE g
      by (simp add: pb_enc_submessage_def conforms_error)
  next
    case False
    have "conforms wr out rest (\<lambda>s. pb_encode_submessage rec s (fields_at env (ptr f)) src)
        (st, string_bytes (message_bytes ws))"
      by (rule submessage_conforms) (use rec [of "fields_at env (ptr f)" src] sub in simp)
    then show ?thesis using False LTYPE_SUBMESSAGE g sub by (simp add: pb_enc_submessage_def)
  qed
next
  case LTYPE_BYTES
  have "conforms wr out rest (\<lambda>s. pb_encode_string s [] 0) (Ok, string_bytes [])"
    by (rule string_conforms) simp
  moreover have "conforms wr out rest
      (\<lambda>s. pb_encode_string s (load_bytes m (bytes_data src) (unat (bytes_size m src)))
             (ucast (bytes_size m src)))
      (Ok, string_bytes (load_bytes m (bytes_data src) (unat (bytes_size m src))))"
    by (rule string_conforms) (simp add: unat_ucast_up)
  ultimately show ?thesis using f LTYPE_BYTES
    by (auto simp: pb_enc_bytes_def conforms_error)
next
  case LTYPE_STRING
  have "conforms wr out rest
      (\<lambda>s. pb_encode_string s (load_bytes m src (unat (string_len m f src))) (string_len m f src))
      (Ok, string_bytes (load_bytes m src (unat (string_len m f src))))"
    by (rule string_conforms) simp
  then show ?thesis using f LTYPE_STRING
    by (auto simp: pb_enc_string_def string_len_def Let_def)
next
  case LTYPE_FIXED_LENGTH_BYTES
  have "conforms wr out rest
      (\<lambda>s. pb_encode_string s (load_bytes m src (unat (data_size f))) (ucast (data_size f)))
      (Ok, string_bytes (load_bytes m src (unat (data_size f))))"
    by (rule string_conforms) (simp add: unat_ucast_up)
  then show ?thesis using f LTYPE_FIXED_LENGTH_BYTES
    by (auto simp: pb_enc_fixed_length_bytes_def)
next
  case LTYPE_VARINT
  then show ?thesis using f
    by (auto simp: pb_enc_varint_def int_view_def varint_conforms conforms_error)
next
  case LTYPE_UVARINT
  then show ?thesis using f
    by (auto simp: pb_enc_uvarint_def int_view_def varint_conforms conforms_error)
next
  case LTYPE_SVARINT
  then show ?thesis using f
    by (auto simp: pb_enc_svarint_def int_view_def svarint_conforms conforms_error)
next
  case LTYPE_FIXED32
  then show ?thesis using f fixed32_conforms by (auto simp: pb_enc_fixed32_def)
next
  case LTYPE_FIXED64
  then show ?thesis using f fixed64_conforms by (auto simp: pb_enc_fixed64_def)
qed (use f in simp_all)

lemma call_conforms:
  assumes "\<And>fs src. conforms wr out rest (\<lambda>s. rec s fs src) (msg_out (sub fs src))"
    and "PB_ENCODERS env m rec (ltype f) = Some func" "ltype f \<noteq> LTYPE_EXTENSION"
  shows "conforms wr out rest (\<lambda>s. call_func func s f src)
    (val_out (value_view (fields_at env) m sub f src))"
proof -
  obtain g where g: "func = Some g" using assms(2,3) by (cases "ltype f") auto
  show ?thesis
    using value_conforms [where env = env and m = m and f = f and g = g, OF assms(1)] assms(2) by (simp add: g call_func_def)
qed

lemma tagged_conforms:
  assumes rec: "\<And>fs src. conforms wr out rest (\<lambda>s. rec s fs src) (msg_out (sub fs src))"
    and f: "PB_ENCODERS env m rec (ltype f) = Some func"
  shows "conforms wr out rest (\<lambda>s. tagged func s f src)
    (msg_out (single_view f (value_view (fields_at env) m sub f src)))"
proof (cases "wiretype_of_ltype (ltype f)")
  case None
  then have "ltype f = LTYPE_EXTENSION" using f by (cases "ltype f") auto
  then show ?thesis using None
    by (simp add: tagged_def pb_encode_tag_for_field_def single_view_def
        PB_RETURN_ERROR_def conforms_const)
next
  case (Some wt)
  let ?v = "value_view (fields_at env) m sub f src"
  have "ltype f \<noteq> LTYPE_EXTENSION" using Some by auto
  note call = call_conforms [OF rec f this, of src]
  have "conforms wr out rest (\<lambda>s. pb_encode_tag_for_field s f) (Ok, tag_bytes (tag f) wt)"
    using tag_for_field_conforms [of f] Some by simp
  from conforms_chk_Ok [OF this call [unfolded val_out_def]] show ?thesis
    using value_view_wt [OF Some] by (simp add: tagged_def single_view_def field_bytes_def)
qed

lemma packed_loop_conforms:
  assumes "\<And>p. conforms wr out rest (\<lambda>s. call_func func s f p) (val_out (val p))"
  shows "conforms wr out rest (\<lambda>s. packed_loop func f n s p) (packed_view val f n p)"
proof (induction n arbitrary: p)
  case 0
  then show ?case by (simp add: conforms_nothing)
next
  case (Suc n)
  let ?q = "p + ucast (data_size f)"
  show ?case
    using conforms_chk [of wr out rest "\<lambda>s. call_func func s f p" "fst (val p)"
        "payload_bytes (snd (val p))" "\<lambda>s. packed_loop func f n s ?q"
        "fst (packed_view val f n ?q)" "snd (packed_view val f n ?q)"] assms [of p] Suc [of ?q]
    by (simp add: val_out_def)
qed

lemma unpacked_loop_conforms:
  assumes "\<And>p. conforms wr out rest (\<lambda>s. tagged func s f p) (msg_out (single_view f (val p)))"
  shows "conforms wr out rest (\<lambda>s. unpacked_loop m func f n s p)
    (msg_out (unpacked_view m val f n p))"
proof (induction n arbitrary: p)
  case 0
  then show ?case by (simp add: conforms_nothing)
next
  case (Suc n)
  let ?q = "p + ucast (data_size f)" and ?i = "array_item m f p"
  have "unpacked_loop m func f (Suc n) s p =
      chk (tagged func s f ?i) (\<lambda>s. unpacked_loop m func f n s ?q)" for s
    by (simp add: tagged_def chk_assoc)
  then show ?case
    using conforms_chk_msg [OF assms [of ?i] Suc [of ?q]] by simp
qed

lemma packed_data_conforms:
  assumes "\<And>p. conforms wr out rest (\<lambda>s. call_func func s f p) (val_out (val p))"
    and "packed_view val f n p = (Ok, bs)" "unat sz = length bs"
  shows "conforms wr out rest (packed_data func f n p sz) (Ok, string_bytes bs)"
proof -
  have "conforms wr out rest (\<lambda>s. packed_loop func f n s p) (Ok, bs)"
    using packed_loop_conforms [where func = func and val = val, OF assms(1)] assms(2) by metis
  from conforms_chk_Ok [OF varint_conforms [of sz] sized_conforms [OF assms(3) this]] show ?thesis
    by (simp add: packed_data_def [abs_def] string_bytes_def assms(3))
qed

lemma array_conforms:
  assumes call: "ltype f \<noteq> LTYPE_EXTENSION \<Longrightarrow>
      \<forall>p. conforms wr out rest (\<lambda>s. call_func func s f p) (val_out (val p))"
    and tagged: "\<And>p. conforms wr out rest (\<lambda>s. tagged func s f p) (msg_out (single_view f (val p)))"
    and fixed32: "ltype f = LTYPE_FIXED32 \<Longrightarrow> \<forall>p. \<exists>v. val p = (Ok, V32 v)"
    and fixed64: "ltype f = LTYPE_FIXED64 \<Longrightarrow> \<forall>p. \<exists>v. val p = (Ok, V64 v)"
    and count: "unat count < 2 ^ 32"
  shows "conforms wr out rest (\<lambda>s. encode_array m s f src count func)
    (msg_out (array_view m val f src count))"
proof -
  consider (none) "count = 0"
    | (over) "count \<noteq> 0" "atype f \<noteq> ATYPE_POINTER \<and> count > ucast (array_size f)"
    | (packed) "count \<noteq> 0" "\<not> (atype f \<noteq> ATYPE_POINTER \<and> count > ucast (array_size f))"
        "packable (ltype f)"
    | (plain) "count \<noteq> 0" "\<not> (atype f \<noteq> ATYPE_POINTER \<and> count > ucast (array_size f))"
        "\<not> packable (ltype f)"
    by blast
  then show ?thesis
  proof cases
    case none
    then show ?thesis by (simp add: encode_array_def array_view_def conforms_nothing)
  next
    case over
    then show ?thesis by (simp add: encode_array_def array_view_def conforms_error)
  next
    case plain
    have "encode_array m s f src count func = unpacked_loop m func f (unat count) s src"
      for s :: "'s pb_ostream" using plain by (auto simp: encode_array_def)
    moreover have "array_view m val f src count = unpacked_view m val f (unat count) src"
      using plain by (auto simp: array_view_def)
    ultimately show ?thesis
      using unpacked_loop_conforms [where func = func and val = val and m = m and n = "unat count"
          and p = src, OF tagged] by simp
  next
    case packed
    let ?n = "unat count"
    obtain st bs where v: "packed_view val f ?n src = (st, bs)" by fastforce
    have call': "\<And>p. conforms wr out rest (\<lambda>s. call_func func s f p) (val_out (val p))"
      using call packed(3) by (cases "ltype f") auto
    let ?data = "\<lambda>s. if ltype f = LTYPE_FIXED32 then packed_data func f ?n src (4 * count) s
        else if ltype f = LTYPE_FIXED64 then packed_data func f ?n src (8 * count) s
        else case packed_loop func f ?n PB_OSTREAM_SIZING src of (st, sizestream) \<Rightarrow>
          if st = Ok then packed_data func f ?n src (bytes_written sizestream) s else (st, s)"
    have data: "conforms wr out rest ?data (st, string_bytes bs)"
    proof (rule conforms_guard)
      assume "length (string_bytes bs) < 2 ^ 63"
      then have len: "length bs < 2 ^ 63" by (rule length_string_bytes_lt)
      show "conforms wr out rest ?data (st, string_bytes bs)"
      proof (cases "ltype f = LTYPE_FIXED32 \<or> ltype f = LTYPE_FIXED64")
        case True
        have w: "st = Ok \<and> length bs = 4 * ?n" if F: "ltype f = LTYPE_FIXED32"
        proof -
          have "\<exists>b. val_out (val p) = (Ok, b) \<and> length b = 4" for p
            using fixed32 [OF F] by (metis length_le_bytes payload_bytes.simps(4) val_out_pair)
          from packed_view_width [of val 4, OF this] show ?thesis using v by (metis fst_conv snd_conv)
        qed
        have x: "st = Ok \<and> length bs = 8 * ?n" if F: "ltype f = LTYPE_FIXED64"
        proof -
          have "\<exists>b. val_out (val p) = (Ok, b) \<and> length b = 8" for p
            using fixed64 [OF F] by (metis length_le_bytes payload_bytes.simps(2) val_out_pair)
          from packed_view_width [of val 8, OF this] show ?thesis using v by (metis fst_conv snd_conv)
        qed
        have "unat (4 * count) = 4 * ?n" "unat (8 * count) = 8 * ?n"
          using count by (simp_all add: unat_word_ariths)
        then show ?thesis
          using True w x packed_data_conforms [where func = func and val = val, OF call' , of ?n src bs]
            v by auto
      next
        case False
        let ?sub = "PB_OSTREAM_SIZING :: 's pb_ostream"
        have none: "callback ?sub = None" by (simp add: PB_OSTREAM_SIZING_def)
        note loop = packed_loop_conforms [where func = func and val = val and n = ?n and p = src, OF call', unfolded v]
        note sizing = conforms_sizing [OF loop len none]
        show ?thesis
        proof (cases "st = Ok")
          case st: True
          have n: "unat (of_nat (length bs) :: u64) = length bs"
            using len by (simp add: unat_of_nat_lt)
          have eq: "packed_loop func f ?n ?sub src =
              (Ok, ?sub\<lparr>bytes_written := of_nat (length bs)\<rparr>)"
            using sizing st by (simp add: PB_OSTREAM_SIZING_def)
          show ?thesis
            using packed_data_conforms [where func = func and val = val, OF call' , of ?n src bs
                "of_nat (length bs)"] v st n False eq by simp
        next
          case st: False
          then have "fst (?data s) = st" for s :: "'s pb_ostream"
            using sizing False by (simp add: case_prod_beta)
          then show ?thesis using st by (intro conforms_const)
        qed
      qed
    qed
    have "encode_array m s f src count func =
        chk (pb_encode_tag s PB_WT_STRING (tag f)) ?data" for s :: "'s pb_ostream"
      using packed by (auto simp: encode_array_def)
    moreover have "array_view m val f src count = (st, [(tag f, VBytes bs)])"
      using packed v by (auto simp: array_view_def)
    ultimately show ?thesis
      using conforms_chk_Ok [OF tag_conforms [of PB_WT_STRING "tag f"] data]
      by (simp add: field_bytes_def)
  qed
qed

lemma basic_conforms:
  assumes rec: "\<And>fs src. conforms wr out rest (\<lambda>s. rec s fs src) (msg_out (sub fs src))"
  shows "conforms wr out rest (\<lambda>s. encode_basic_field n env m rec s f p)
    (msg_out (basic_view n env m sub f p))"
proof (cases "PB_ENCODERS env m rec (ltype f)")
  case None
  then have "ltype f = LTYPE_INVALID" by (cases "ltype f") auto
  then show ?thesis by (simp add: encode_basic_field_def basic_view_def conforms_const)
next
  case (Some func)
  then have valid: "ltype f \<noteq> LTYPE_INVALID" by auto
  note tagged = tagged_conforms [where rec = rec and sub = sub, OF rec Some]
  let ?val = "value_view (fields_at env) m sub f"
  have array: "conforms wr out rest (\<lambda>s. encode_array m s f src (ucast (c :: u32)) func)
      (msg_out (array_view m ?val f src (ucast c)))" for src c
  proof (rule array_conforms)
    show "unat (ucast c :: u64) < 2 ^ 32"
      using unsigned_less [of c] by (simp add: unat_ucast_up)
  qed (use tagged call_conforms [where rec = rec and sub = sub, OF rec Some] in auto)
  show ?thesis
  proof (cases "htype f")
    case HTYPE_REQUIRED
    then show ?thesis using tagged valid
      by (simp add: encode_basic_field_def basic_view_def Some conforms_error Let_def)
  next
    case HTYPE_OPTIONAL
    then show ?thesis using tagged valid
      by (cases "optional_has n env m f p")
         (simp_all add: encode_basic_field_def basic_view_def Some conforms_nothing conforms_const Let_def)
  next
    case HTYPE_REPEATED
    then show ?thesis using array valid
      by (cases "size_offset f = 0") (simp_all add: encode_basic_field_def basic_view_def Some Let_def)
  next
    case HTYPE_ONEOF
    then show ?thesis using tagged valid
      by (simp add: encode_basic_field_def basic_view_def Some conforms_nothing conforms_const Let_def)
  qed
qed

lemma field_conforms:
  assumes rec: "\<And>fs src. conforms wr out rest (\<lambda>s. rec s fs src) (msg_out (sub fs src))"
    and cb: "callbacks_conform wr out rest env cbv exv"
  shows "conforms wr out rest (\<lambda>s. encode_field n env m rec s f p)
    (msg_out (field_view n env m cbv sub f p))"
proof (cases "atype f")
  case ATYPE_CALLBACK
  then show ?thesis
    using cb conforms_fail_with [of wr out rest _ "fst (cbv (callback_fun m p) f (callback_arg p))"
        "message_bytes (snd (cbv (callback_fun m p) f (callback_arg p)))"]
    by (simp add: encode_field_def field_view_def encode_callback_field_def conforms_nothing
        callbacks_conform_def msg_out_def)
qed (use basic_conforms [where rec = rec and sub = sub, OF rec]
      in \<open>simp_all add: encode_field_def field_view_def conforms_error\<close>)

lemma extensions_conform:
  assumes rec: "\<And>fs src. conforms wr out rest (\<lambda>s. rec s fs src) (msg_out (sub fs src))"
    and cb: "callbacks_conform wr out rest env cbv exv"
  shows "conforms wr out rest (\<lambda>s. encode_extensions k n env m rec s e)
    (msg_out (extensions_view k n env m cbv exv sub e))"
proof (induction k arbitrary: e)
  case 0
  then show ?case by (simp add: conforms_nothing conforms_const)
next
  case (Suc k)
  let ?enc = "\<lambda>s. if ext_type_encode m (ext_type m e) \<noteq> 0
      then ext_encoder env (ext_type_encode m (ext_type m e)) s e
      else default_extension_encoder n env m rec s e"
  let ?v = "if ext_type_encode m (ext_type m e) \<noteq> 0
      then exv (ext_type_encode m (ext_type m e)) e
      else field_view n env m cbv sub (ext_desc env m e)
             (if atype (ext_desc env m e) = ATYPE_POINTER then ext_dest e
              else load64 m (ext_dest e))"
  have "conforms wr out rest ?enc (msg_out ?v)"
    using cb field_conforms [where rec = rec and sub = sub, OF rec cb]
    by (simp add: callbacks_conform_def default_extension_encoder_def Let_def)
  then show ?case
    using conforms_chk_msg [OF _ Suc [of "ext_next m e"], of ?enc ?v] conforms_nothing [of wr out rest]
    by (cases "e = 0") (simp_all only: encode_extensions.simps extensions_view.simps
        msg_out_pair message_bytes_Nil if_True if_False simp_thms)
qed

lemma body_conforms:
  assumes rec: "\<And>fs src. conforms wr out rest (\<lambda>s. rec s fs src) (msg_out (sub fs src))"
    and cb: "callbacks_conform wr out rest env cbv exv"
  shows "conforms wr out rest (\<lambda>s. pb_encode_body n env m rec s fs src)
    (msg_out (message_view_body n env m cbv exv sub fs src))"
proof -
  let ?body = "\<lambda>it s. if ltype (iter_field it) = LTYPE_EXTENSION
      then encode_extension_field n env m rec s (pData it)
      else encode_field n env m rec s (iter_field it) (pData it)"
  let ?v = "\<lambda>it. if ltype (iter_field it) = LTYPE_EXTENSION
      then extensions_view n n env m cbv exv sub (load64 m (pData it))
      else field_view n env m cbv sub (iter_field it) (pData it)"
  have "conforms wr out rest (?body it) (msg_out (?v it))" for it
    using extensions_conform [where rec = rec and sub = sub, OF rec cb]
      field_conforms [where rec = rec and sub = sub, OF rec cb]
    by (simp add: encode_extension_field_def)
  note iter = iter_do_conforms [of wr out rest ?body ?v, OF this]
  show ?thesis
  proof (cases "fst (pb_field_iter_begin fs src)")
    case True
    then show ?thesis using iter [of "snd (pb_field_iter_begin fs src)"]
      by (simp add: pb_encode_body_def message_view_body_def case_prod_beta)
  next
    case False
    then show ?thesis
      by (simp add: pb_encode_body_def message_view_body_def case_prod_beta conforms_nothing)
  qed
qed

lemma encode_conforms:
  assumes "callbacks_conform wr out rest env cbv exv"
  shows "conforms wr out rest (\<lambda>s. pb_encode n env m s fs src)
    (msg_out (message_view n env m cbv exv fs src))"
proof (induction n arbitrary: fs src)
  case 0
  then show ?case by (simp add: conforms_const)
next
  case (Suc n)
  then show ?case using body_conforms [where rec = "pb_encode n env m", OF _ assms] by simp
qed

lemma delimited_conforms:
  assumes "callbacks_conform wr out rest env cbv exv"
    and "message_view n env m cbv exv fs src = (st, ws)"
  shows "conforms wr out rest (\<lambda>s. pb_encode_delimited n env m s fs src)
    (st, string_bytes (message_bytes ws))"
  unfolding pb_encode_delimited_def
  by (rule submessage_conforms) (use encode_conforms [OF assms(1), of n m fs src] assms(2) in simp)

lemma nullterminated_conforms:
  assumes "callbacks_conform wr out rest env cbv exv"
    and "message_view n env m cbv exv fs src = (Ok, ws)"
  shows "conforms wr out rest (\<lambda>s. pb_encode_nullterminated n env m s fs src)
    (Ok, message_bytes ws @ [0])"
  unfolding pb_encode_nullterminated_def
  by (rule conforms_chk_Ok)
     (use encode_conforms [OF assms(1), of n m fs src] assms(2) write_conforms [of 1 "[0]"] in auto)

end

end
