(* ===== verification/PbCommonProps.thy ===== *)
theory PbCommonProps
  imports PbCommon
begin

text \<open>
  The properties of the field iterator: it visits every descriptor once, in order, at the
  address of its member, and its search finds a field if there is one.
\<close>

section \<open>The loop over the fields\<close>

fun run_all :: "('a \<Rightarrow> 'x \<Rightarrow> status \<times> 'x) \<Rightarrow> 'a list \<Rightarrow> 'x \<Rightarrow> status \<times> 'x" where
  "run_all f [] x = (Ok, x)"
| "run_all f (a # as) x = chk (f a x) (run_all f as)"

lemma iter_do_from:
  "i < n_fields fs \<Longrightarrow>
   iter_do body (iter_at fs p i) x = run_all body (map (iter_at fs p) [i..<n_fields fs]) x"
proof (induction "n_fields fs - i" arbitrary: i x)
  case (Suc k)
  have u: "[i..<n_fields fs] = i # [Suc i..<n_fields fs]" using Suc.prems by (rule upt_conv_Cons)
  show ?case
  proof (cases "Suc i < n_fields fs")
    case True
    have "iter_do body (iter_at fs p (Suc i)) y =
        run_all body (map (iter_at fs p) [Suc i..<n_fields fs]) y" for y
      by (rule Suc.hyps) (use True Suc.hyps in auto)
    moreover have "iter_do body (iter_at fs p i) x =
        chk (body (iter_at fs p i) x) (\<lambda>y. iter_do body (iter_at fs p (Suc i)) y)"
      by (subst iter_do_unfold) (simp add: next_iter_at Suc.prems True)
    ultimately show ?thesis by (simp add: u)
  next
    case False
    then have e: "[Suc i..<n_fields fs] = []" by simp
    have "iter_do body (iter_at fs p i) x = body (iter_at fs p i) x"
      by (subst iter_do_unfold) (simp add: next_iter_at Suc.prems False)
    moreover have "run_all body [] = (\<lambda>x. (Ok, x))" by (simp add: fun_eq_iff)
    ultimately show ?thesis by (simp only: u e list.map run_all.simps(2) chk_return)
  qed
qed simp

text \<open>
  A loop \<open>do ... while (pb_field_iter_next(&iter))\<close> over a descriptor array with
  at least one field runs its body on every field before the terminator, once each and in
  order, and stops at the first call that does not return true.
\<close>

theorem iter_visits_all_fields:
  assumes "0 < n_fields fs"
  shows "fst (pb_field_iter_begin fs p)
    \<and> iter_do body (snd (pb_field_iter_begin fs p)) x =
        run_all body (map (iter_at fs p) [0..<n_fields fs]) x
    \<and> (\<forall>i < n_fields fs. iter_field (iter_at fs p i) = fs ! i)"
proof -
  have "iter_field (iter_at fs p i) = fs ! i" if "i < n_fields fs" for i
    using that n_fields_le [of fs] by (simp add: field_at_def)
  then show ?thesis
    using assms iter_do_from [of 0 fs body p x] by (simp add: begin_empty_iff)
qed

text \<open>Two fields of eight bytes and a terminator.\<close>

definition ex_descriptors :: "pb_field list" where
  "ex_descriptors = [PB_REQUIRED_STATIC 1 0 8 LTYPE_UVARINT 0, PB_REQUIRED_STATIC 5 4 8 LTYPE_SVARINT 0]"

lemma n_fields_ex: "n_fields ex_descriptors = 2"
  by (simp add: n_fields_def ex_descriptors_def pb_field_macros)

theorem iter_visits_all_fields_witness:
  "iter_do (\<lambda>it ts. (Ok, tag (iter_field it) # ts)) (snd (pb_field_iter_begin ex_descriptors 64)) [] =
   run_all (\<lambda>it ts. (Ok, tag (iter_field it) # ts)) (map (iter_at ex_descriptors 64) [0..<2]) []"
  using iter_visits_all_fields [of ex_descriptors 64 "\<lambda>it ts. (Ok, tag (iter_field it) # ts)" "[]"]
  by (simp add: n_fields_ex)

section \<open>Addresses\<close>

text \<open>
  \<open>pb_membersize\<close> of the member a descriptor is for.
\<close>

definition member_size :: "pb_field \<Rightarrow> nat" where
  "member_size f =
     (if atype f = ATYPE_STATIC \<and> htype f = HTYPE_REPEATED then unat (data_size f) * unat (array_size f)
      else if atype f = ATYPE_POINTER then 8 else unat (data_size f))"

text \<open>
  The descriptors are built by the macros for members at offsets \<open>off\<close>: the first by
  \<open>PB_DATAOFFSET_FIRST\<close>, the others by \<open>PB_DATAOFFSET_OTHER\<close>, or \<open>PB_DATAOFFSET_UNION\<close> for
  the further members of a union.
\<close>

definition in_union :: "pb_field list \<Rightarrow> nat \<Rightarrow> bool" where
  "in_union fs i \<longleftrightarrow> htype (fs ! i) = HTYPE_ONEOF \<and> htype (fs ! Suc i) = HTYPE_ONEOF
     \<and> data_offset (fs ! Suc i) = PB_SIZE_MAX"

definition laid_out :: "pb_field list \<Rightarrow> (nat \<Rightarrow> nat) \<Rightarrow> bool" where
  "laid_out fs off \<longleftrightarrow> unat (data_offset (fs ! 0)) = off 0 \<and>
     (\<forall>i. Suc i < n_fields fs \<longrightarrow>
        (if in_union fs i then off (Suc i) = off i
         else off i + member_size (fs ! i) \<le> off (Suc i)
           \<and> unat (data_offset (fs ! Suc i)) = off (Suc i) - (off i + member_size (fs ! i))))"

lemma pData_next:
  assumes "Suc i < n_fields fs"
  shows "pData (iter_at fs p (Suc i)) =
    (if in_union fs i then pData (iter_at fs p i)
     else pData (iter_at fs p i) + of_nat (member_size (fs ! i)) + of_nat (unat (data_offset (fs ! Suc i))))"
    "\<not> in_union fs i \<Longrightarrow> pSize (iter_at fs p (Suc i)) =
      pData (iter_at fs p (Suc i)) + scast (size_offset (fs ! Suc i))"
proof -
  let ?it = "iter_at fs p i"
  have i: "i < n_fields fs" and l: "i < length fs" "Suc i < length fs"
    using assms n_fields_le [of fs] by simp_all
  have f: "iter_field ?it = fs ! i" "field_at fs (Suc i) = fs ! Suc i"
    using i l by (simp_all add: field_at_def)
  have t: "tag (fs ! i) \<noteq> 0" "tag (fs ! Suc i) \<noteq> 0"
    using tag_below_n_fields [OF i] tag_below_n_fields [OF assms] l by (simp_all add: field_at_def)
  have g: "iter_field (?it\<lparr>pos := Suc i\<rparr>) = fs ! Suc i"
    using i f(2) by (simp add: iter_field_def)
  have "(of_nat (unat (data_size (fs ! i)) * unat (array_size (fs ! i))) :: u64) =
      ucast (data_size (fs ! i)) * ucast (array_size (fs ! i))" by simp
  then show "pData (iter_at fs p (Suc i)) =
    (if in_union fs i then pData ?it
     else pData ?it + of_nat (member_size (fs ! i)) + of_nat (unat (data_offset (fs ! Suc i))))"
    using t i by (simp add: iter_at.simps pb_field_iter_next_def Let_def f(1) g in_union_def member_size_def)
  show "\<not> in_union fs i \<Longrightarrow> pSize (iter_at fs p (Suc i)) =
      pData (iter_at fs p (Suc i)) + scast (size_offset (fs ! Suc i))"
    using t i by (auto simp: iter_at.simps pb_field_iter_next_def Let_def f(1) g in_union_def)
qed

lemma iter_pData:
  assumes "laid_out fs off" "i < n_fields fs"
  shows "pData (iter_at fs p i) = p + of_nat (off i)"
  using assms(2)
proof (induction i)
  case 0
  then have "0 < length fs" using n_fields_le [of fs] by linarith
  then have "pData (iter_at fs p 0) = p + of_nat (unat (data_offset (fs ! 0)))"
    by (simp add: pb_field_iter_begin_def field_at_def Let_def)
  then show ?case using assms(1) by (simp only: laid_out_def)
next
  case (Suc i)
  have IH: "pData (iter_at fs p i) = p + of_nat (off i)" using Suc by simp
  show ?case
  proof (cases "in_union fs i")
    case True
    then show ?thesis using pData_next(1) [OF Suc.prems, of p] IH assms(1) Suc.prems
      by (simp add: laid_out_def)
  next
    case False
    then have "off (Suc i) = off i + member_size (fs ! i) + unat (data_offset (fs ! Suc i))"
      using assms(1) Suc.prems by (auto simp: laid_out_def)
    then have "(of_nat (off (Suc i)) :: u64) =
        of_nat (off i) + of_nat (member_size (fs ! i)) + of_nat (unat (data_offset (fs ! Suc i)))"
      by (simp only: of_nat_add)
    then show ?thesis using pData_next(1) [OF Suc.prems, of p] False IH by (simp only: if_False add.assoc)
  qed
qed

text \<open>
  C38: For descriptors made by the macros, the iterator is at the member of its field: \<open>pData\<close>
  is the address of the struct plus the offset of the member, for every field, whatever
  the types of the fields before it.
\<close>

theorem iter_addresses:
  assumes "laid_out fs off" "i < n_fields fs"
  shows "pData (iter_at fs p i) = p + of_nat (off i)"
  by (rule iter_pData [OF assms])

text \<open>Two 64-bit members at offsets 0 and 12, in a struct at address 64.\<close>

theorem iter_addresses_witness: "pData (iter_at ex_descriptors 64 1) = 76"
proof -
  have "laid_out ex_descriptors (\<lambda>i. 12 * i)"
    by (simp add: laid_out_def n_fields_ex in_union_def member_size_def less_Suc_eq numeral_2_eq_2)
       (simp add: ex_descriptors_def pb_field_macros)
  from iter_addresses [OF this, of 1 64] show ?thesis by (simp add: n_fields_ex)
qed

section \<open>The search\<close>

text \<open>
  C39: \<open>pb_field_iter_find\<close> returns true exactly when some field of the array has the tag and
  is not an extension range, wherever the iterator was; it is then at the first such field
  in cyclic order. Otherwise the iterator is back where it was.
\<close>

theorem iter_find_correct:
  assumes "i < n_fields fs"
  shows "case pb_field_iter_find (iter_at fs p i) t of
      (st, it') \<Rightarrow>
        (if \<exists>j < n_fields fs. matches fs t j
         then st = Ok \<and> (\<exists>s < n_fields fs. it' = iter_at fs p ((i + s) mod n_fields fs)
                \<and> matches fs t ((i + s) mod n_fields fs)
                \<and> (\<forall>r' < s. \<not> matches fs t ((i + r') mod n_fields fs)))
         else st = Fail \<and> it' = iter_at fs p i)"
  by (rule iter_find_at [OF assms])

theorem iter_find_correct_witness:
  "pb_field_iter_find (iter_at ex_descriptors 64 1) 7 = (Fail, iter_at ex_descriptors 64 1)"
proof -
  have "\<not> matches ex_descriptors 7 0" "\<not> matches ex_descriptors 7 1"
    by (simp_all add: matches_def field_at_def ex_descriptors_def pb_field_macros)
  then have "\<not> (\<exists>j < n_fields ex_descriptors. matches ex_descriptors 7 j)"
    unfolding n_fields_ex by (metis One_nat_def less_2_cases)
  then show ?thesis
    using iter_find_correct [where i = 1 and fs = ex_descriptors and p = 64 and t = 7]
    by (simp add: n_fields_ex case_prod_beta prod_eq_iff del: iter_at.simps)
qed

end
