(* ===== verification/PbEncodeProps.thy ===== *)
theory PbEncodeProps
  imports PbEncodeSpec PbCommonProps
begin

text \<open>
  The properties of the encoder on the two streams the library provides: a memory buffer
  and a sizing stream.
\<close>

section \<open>Conforming encoders on a buffer\<close>

text \<open>
  The stream on \<open>buf\<close> after \<open>bs\<close> has been written: the cells up to the write position are
  \<open>bs\<close> and the others are as they were.
\<close>

definition written :: "u8 list \<Rightarrow> u8 list \<Rightarrow> out_buf pb_ostream \<Rightarrow> bool" where
  "written buf bs s \<longleftrightarrow> bytes_written s = of_nat (length bs)
     \<and> out_bytes (state s) = bs \<and> out_rest (state s) = drop (length bs) buf"

lemma conforms_buffer:
  assumes c: "conforms buf_write out_bytes out_rest e (Ok, bs)"
    and room: "length bs \<le> unat n" "unat n \<le> length buf" "unat n < 2 ^ 63"
  shows "\<exists>s'. e (pb_ostream_from_buffer buf n) = (Ok, s') \<and> written buf bs s'"
proof -
  let ?s = "pb_ostream_from_buffer buf n"
  note inv = stream_inv_from_buffer [OF room(2,3)]
  have "length bs < 2 ^ 63" using room by simp
  from conforms_sink [OF c this inv(1)] inv(2) room(1)
  obtain st' em where r: "e ?s = (Ok, ?s\<lparr>state := st',
      bytes_written := bytes_written ?s + of_nat (length bs), errmsg := em\<rparr>)"
    "out_bytes st' = out_bytes (state ?s) @ bs" "out_rest st' = drop (length bs) (out_rest (state ?s))"
    by auto
  have "out_bytes (state ?s) = []" "out_rest (state ?s) = buf" "bytes_written ?s = 0"
    by (simp_all add: pb_ostream_from_buffer_def out_bytes_def out_rest_def)
  with r show ?thesis by (simp add: written_def)
qed

lemma conforms_full:
  assumes c: "conforms buf_write out_bytes out_rest e (Ok, bs)" and len: "length bs < 2 ^ 63"
    and room: "unat n < length bs" "unat n \<le> length buf"
  shows "fst (e (pb_ostream_from_buffer buf n)) = Fail"
proof -
  have "unat n < 2 ^ 63" using room(1) len by simp
  note inv = stream_inv_from_buffer [OF room(2) this]
  show ?thesis using conforms_sink [OF c len inv(1)] inv(2) room(1) by auto
qed

lemma conforms_count:
  assumes "conforms buf_write out_bytes out_rest e (Ok, bs)" "length bs < 2 ^ 63"
  shows "\<exists>s'. e PB_OSTREAM_SIZING = (Ok, s') \<and> bytes_written s' = of_nat (length bs)"
  using conforms_sizing [OF assms, of PB_OSTREAM_SIZING] by (simp add: PB_OSTREAM_SIZING_def)

abbreviation user_functions_conform :: "out_buf enc_env \<Rightarrow> cb_view \<Rightarrow> ext_view \<Rightarrow> bool" where
  "user_functions_conform env cbv exv \<equiv> callbacks_conform buf_write out_bytes out_rest env cbv exv"

section \<open>An example\<close>

text \<open>A struct of one \<open>uint32\<close> at address 8 that holds 150.\<close>

definition ex_env :: "out_buf enc_env" where
  "ex_env = \<lparr>fields_at = \<lambda>_. [], field_encoder = \<lambda>f s field arg. (Ok, s),
     ext_encoder = \<lambda>f s e. (Ok, s)\<rparr>"

definition ex_mem :: mem where
  "ex_mem = (\<lambda>a. if a = 8 then 150 else 0)"

definition ex_fields :: "pb_field list" where
  "ex_fields = [PB_REQUIRED_STATIC 1 0 4 LTYPE_UVARINT 0]"

lemma ex_conforms: "user_functions_conform ex_env (\<lambda>_ _ _. (Ok, [])) (\<lambda>_ _. (Ok, []))"
  by (simp add: callbacks_conform_def ex_env_def conforms_nothing)

lemma ex_view:
  "message_view 1 ex_env ex_mem (\<lambda>_ _ _. (Ok, [])) (\<lambda>_ _. (Ok, [])) ex_fields 8 = (Ok, [(1, VVarint 150)])"
  by code_simp

lemma ex_bytes: "message_bytes [(1, VVarint 150)] = [8, 150, 1]"
  by (simp add: field_bytes_def tag_bytes_def tag_number_def varint_bytes.simps)

section \<open>Messages\<close>

text \<open>
  C4: \<open>pb_encode\<close> to a buffer with room for the message returns true, having written the wire
  message the struct stands for, its fields in descriptor order, to the start of the buffer;
  the rest of the buffer is not touched.
\<close>

theorem encode_to_buffer:
  assumes "user_functions_conform env cbv exv"
    and "message_view n env m cbv exv fs src = (Ok, ws)"
    and "length (message_bytes ws) \<le> unat sz" "unat sz \<le> length buf" "unat sz < 2 ^ 63"
  shows "\<exists>s'. pb_encode n env m (pb_ostream_from_buffer buf sz) fs src = (Ok, s')
    \<and> written buf (message_bytes ws) s'"
  by (rule conforms_buffer [OF _ assms(3-5)])
     (use buf.encode_conforms [OF assms(1), of n m fs src] assms(2) in simp)

theorem encode_to_buffer_witness:
  "\<exists>s'. pb_encode 1 ex_env ex_mem (pb_ostream_from_buffer [9, 9, 9, 9, 9] 4) ex_fields 8 = (Ok, s')
    \<and> written [9, 9, 9, 9, 9] [8, 150, 1] s'"
  by (rule encode_to_buffer [OF ex_conforms ex_view, unfolded ex_bytes]) simp_all

text \<open>
  C19: When the message does not fit, \<open>pb_encode\<close> returns false. In particular nothing was
  written past the buffer, since that would be undefined.
\<close>

theorem encode_buffer_full:
  assumes "user_functions_conform env cbv exv"
    and "message_view n env m cbv exv fs src = (Ok, ws)" "length (message_bytes ws) < 2 ^ 63"
    and "unat sz < length (message_bytes ws)" "unat sz \<le> length buf"
  shows "fst (pb_encode n env m (pb_ostream_from_buffer buf sz) fs src) = Fail"
  by (rule conforms_full [OF _ assms(3-5)])
     (use buf.encode_conforms [OF assms(1), of n m fs src] assms(2) in simp)

theorem encode_buffer_full_witness:
  "fst (pb_encode 1 ex_env ex_mem (pb_ostream_from_buffer [9, 9, 9] 2) ex_fields 8) = Fail"
  by (rule encode_buffer_full [OF ex_conforms ex_view, unfolded ex_bytes]) simp_all

text \<open>
  C33: \<open>pb_get_encoded_size\<close> returns the length of the message, and a buffer of that size is
  enough for \<open>pb_encode\<close>.
\<close>

theorem encoded_size_enough:
  assumes "user_functions_conform env cbv exv"
    and "message_view n env m cbv exv fs src = (Ok, ws)" "length (message_bytes ws) < 2 ^ 63"
  shows "\<exists>sz. pb_get_encoded_size n env m fs src = (Ok, Some sz)
    \<and> unat sz = length (message_bytes ws)
    \<and> (\<forall>buf. length buf = unat sz \<longrightarrow>
         (\<exists>s'. pb_encode n env m (pb_ostream_from_buffer buf sz) fs src = (Ok, s')
           \<and> out_bytes (state s') = message_bytes ws))"
proof -
  let ?n = "of_nat (length (message_bytes ws)) :: u64"
  have c: "conforms buf_write out_bytes out_rest (\<lambda>s. pb_encode n env m s fs src) (Ok, message_bytes ws)"
    using buf.encode_conforms [OF assms(1), of n m fs src] assms(2) by simp
  have n: "unat ?n = length (message_bytes ws)" using assms(3) by (simp add: unat_of_nat_lt)
  have "pb_get_encoded_size n env m fs src = (Ok, Some ?n)"
    using conforms_count [OF c assms(3)] by (auto simp: pb_get_encoded_size_def)
  moreover have "\<exists>s'. pb_encode n env m (pb_ostream_from_buffer buf ?n) fs src = (Ok, s')
      \<and> out_bytes (state s') = message_bytes ws" if "length buf = unat ?n" for buf
    using conforms_buffer [OF c, of ?n buf] that n assms(3) by (auto simp: written_def)
  ultimately show ?thesis using n by blast
qed

theorem encoded_size_enough_witness:
  "\<exists>sz. pb_get_encoded_size 1 ex_env ex_mem ex_fields 8 = (Ok, Some sz) \<and> unat sz = length [8 :: u8, 150, 1]
    \<and> (\<forall>buf. length buf = unat sz \<longrightarrow>
         (\<exists>s'. pb_encode 1 ex_env ex_mem (pb_ostream_from_buffer buf sz) ex_fields 8 = (Ok, s')
           \<and> out_bytes (state s') = [8, 150, 1]))"
  using encoded_size_enough [OF ex_conforms ex_view] unfolding ex_bytes by simp

text \<open>
  What \<open>pb_encode_delimited\<close> writes is the length of the message as a varint and then the
  message; the two passes of \<open>pb_encode_submessage\<close> agree on the length.
\<close>

theorem delimited_to_buffer:
  assumes "user_functions_conform env cbv exv"
    and "message_view n env m cbv exv fs src = (Ok, ws)"
    and "length (string_bytes (message_bytes ws)) \<le> unat sz" "unat sz \<le> length buf" "unat sz < 2 ^ 63"
  shows "\<exists>s'. pb_encode_delimited n env m (pb_ostream_from_buffer buf sz) fs src = (Ok, s')
    \<and> written buf (string_bytes (message_bytes ws)) s'"
  by (rule conforms_buffer [OF buf.delimited_conforms [OF assms(1,2)] assms(3-5)])

theorem delimited_to_buffer_witness:
  "\<exists>s'. pb_encode_delimited 1 ex_env ex_mem (pb_ostream_from_buffer [9, 9, 9, 9, 9] 5) ex_fields 8 = (Ok, s')
    \<and> written [9, 9, 9, 9, 9] [3, 8, 150, 1] s'"
proof -
  have "string_bytes [8, 150, 1] = [3, 8, 150, 1]" by (simp add: string_bytes_def varint_bytes.simps)
  then show ?thesis
    using delimited_to_buffer [OF ex_conforms ex_view, of 5 "[9, 9, 9, 9, 9]"]
    unfolding ex_bytes by simp
qed

text \<open>\<open>pb_encode_nullterminated\<close> writes the message and then a zero byte.\<close>

theorem nullterminated_to_buffer:
  assumes "user_functions_conform env cbv exv"
    and "message_view n env m cbv exv fs src = (Ok, ws)"
    and "length (message_bytes ws @ [0]) \<le> unat sz" "unat sz \<le> length buf" "unat sz < 2 ^ 63"
  shows "\<exists>s'. pb_encode_nullterminated n env m (pb_ostream_from_buffer buf sz) fs src = (Ok, s')
    \<and> written buf (message_bytes ws @ [0]) s'"
  by (rule conforms_buffer [OF buf.nullterminated_conforms [OF assms(1,2)] assms(3-5)])

theorem nullterminated_to_buffer_witness:
  "\<exists>s'. pb_encode_nullterminated 1 ex_env ex_mem (pb_ostream_from_buffer [9, 9, 9, 9, 9] 4) ex_fields 8
      = (Ok, s') \<and> written [9, 9, 9, 9, 9] [8, 150, 1, 0] s'"
  using nullterminated_to_buffer [OF ex_conforms ex_view, of 4 "[9, 9, 9, 9, 9]"]
  unfolding ex_bytes by simp

text \<open>
  C40: An encoder that fails on the struct (a missing required field, an array beyond its
  size, a bad descriptor, a user function) is never reported as a success, on whatever
  buffer.
\<close>

theorem encode_failure_reported:
  assumes "user_functions_conform env cbv exv"
    and "message_view n env m cbv exv fs src = (st, ws)" "st \<noteq> Ok" "length (message_bytes ws) < 2 ^ 63"
    and "unat sz \<le> length buf" "unat sz < 2 ^ 63"
  shows "fst (pb_encode n env m (pb_ostream_from_buffer buf sz) fs src) \<noteq> Ok"
proof -
  have c: "conforms buf_write out_bytes out_rest (\<lambda>s. pb_encode n env m s fs src) (st, message_bytes ws)"
    using buf.encode_conforms [OF assms(1), of n m fs src] assms(2) by simp
  show ?thesis
    using conforms_sink [OF c assms(4) stream_inv_from_buffer(1) [OF assms(5,6)]] assms(3) by auto
qed

text \<open>A required pointer field that is null.\<close>

theorem encode_failure_reported_witness:
  "fst (pb_encode 1 ex_env ex_mem (pb_ostream_from_buffer [9, 9, 9] 3)
     [PB_REQUIRED_POINTER 1 24 4 LTYPE_UVARINT 0] 8) \<noteq> Ok"
proof -
  have "message_view 1 ex_env ex_mem (\<lambda>_ _ _. (Ok, [])) (\<lambda>_ _. (Ok, []))
      [PB_REQUIRED_POINTER 1 24 4 LTYPE_UVARINT 0] 8 = (Fail, [])"
    by code_simp
  from encode_failure_reported [OF ex_conforms this, of 3 "[9, 9, 9]"] show ?thesis by simp
qed

section \<open>Field by field\<close>

definition encode_one :: "nat \<Rightarrow> 's enc_env \<Rightarrow> mem \<Rightarrow> 's msg_func \<Rightarrow> pb_field_iter \<Rightarrow> 's pb_ostream \<Rightarrow> status \<times> 's pb_ostream" where
  "encode_one n env m rec it s =
     (if ltype (iter_field it) = LTYPE_EXTENSION then encode_extension_field n env m rec s (pData it)
      else encode_field n env m rec s (iter_field it) (pData it))"

lemma encode_run_all:
  "pb_encode (Suc n) env m s fs src =
     run_all (encode_one n env m (pb_encode n env m)) (map (iter_at fs src) [0..<n_fields fs]) s"
proof (cases "0 < n_fields fs")
  case True
  have "pb_encode (Suc n) env m s fs src =
      iter_do (encode_one n env m (pb_encode n env m)) (iter_at fs src 0) s"
    using True begin_empty_iff [of fs src]
    by (simp add: pb_encode_body_def case_prod_beta encode_one_def [abs_def])
  then show ?thesis using iter_do_from [OF True] by simp
next
  case False
  then show ?thesis
    using begin_empty_iff [of fs src] by (simp add: pb_encode_body_def case_prod_beta)
qed

text \<open>
  \<open>pb_encode\<close> encodes each field of the descriptor array once, in order, and stops at
  the first one that does not return true; submessages use one unit of fuel less.
\<close>

theorem encode_field_by_field:
  "pb_encode (Suc n) env m s fs src =
     run_all (encode_one n env m (pb_encode n env m)) (map (iter_at fs src) [0..<n_fields fs]) s"
  by (rule encode_run_all)

text \<open>The view of a message is built the same way.\<close>

definition view_one :: "nat \<Rightarrow> 's enc_env \<Rightarrow> mem \<Rightarrow> cb_view \<Rightarrow> ext_view \<Rightarrow>
    (pb_field list \<Rightarrow> addr \<Rightarrow> status \<times> wire_field list) \<Rightarrow> pb_field_iter \<Rightarrow> status \<times> wire_field list" where
  "view_one n env m cbv exv sub it =
     (if ltype (iter_field it) = LTYPE_EXTENSION
      then extensions_view n n env m cbv exv sub (load64 m (pData it))
      else field_view n env m cbv sub (iter_field it) (pData it))"

lemma iter_view_all_Ok:
  assumes "\<And>j. i \<le> j \<Longrightarrow> j < n_fields fs \<Longrightarrow> v (iter_at fs p j) = (Ok, ws j)" "i < n_fields fs"
  shows "iter_view v (iter_at fs p i) = (Ok, concat (map ws [i..<n_fields fs]))"
  using assms
proof (induction "n_fields fs - i" arbitrary: i)
  case (Suc k)
  have u: "[i..<n_fields fs] = i # [Suc i..<n_fields fs]" using Suc.prems(2) by (rule upt_conv_Cons)
  have vi: "v (iter_at fs p i) = (Ok, ws i)" using Suc.prems by simp
  show ?case
  proof (cases "Suc i < n_fields fs")
    case True
    have "iter_view v (iter_at fs p (Suc i)) = (Ok, concat (map ws [Suc i..<n_fields fs]))"
      by (rule Suc.hyps) (use True Suc in auto)
    then show ?thesis
      by (subst iter_view_unfold) (simp add: next_iter_at Suc.prems(2) True vi u)
  next
    case False
    then have e: "[Suc i..<n_fields fs] = []" by simp
    have "iter_view v (iter_at fs p i) = (Ok, ws i)"
      by (subst iter_view_unfold) (simp add: next_iter_at Suc.prems(2) False vi)
    then show ?thesis by (simp only: u e list.map concat.simps append_Nil2)
  qed
qed simp

lemma message_view_all_Ok:
  assumes "\<And>i. i < n_fields fs \<Longrightarrow>
      view_one n env m cbv exv (message_view n env m cbv exv) (iter_at fs src i) = (Ok, ws i)"
  shows "message_view (Suc n) env m cbv exv fs src = (Ok, concat (map ws [0..<n_fields fs]))"
proof (cases "0 < n_fields fs")
  case True
  have "message_view (Suc n) env m cbv exv fs src =
      iter_view (view_one n env m cbv exv (message_view n env m cbv exv)) (iter_at fs src 0)"
    using True begin_empty_iff [of fs src]
    by (simp add: message_view_body_def case_prod_beta view_one_def [abs_def])
  then show ?thesis using iter_view_all_Ok [OF _ True] assms by simp
next
  case False
  then show ?thesis
    using begin_empty_iff [of fs src] by (simp add: message_view_body_def case_prod_beta)
qed

section \<open>Structs of scalars\<close>

text \<open>
  Required scalar members: \<open>uint64\<close>, \<open>int32\<close>, \<open>sint32\<close>, \<open>fixed32\<close> and \<open>fixed64\<close>, and the
  protobuf value of such a member at address \<open>a\<close>.
\<close>

definition scalar_field :: "pb_field \<Rightarrow> bool" where
  "scalar_field f \<longleftrightarrow> atype f = ATYPE_STATIC \<and> htype f = HTYPE_REQUIRED \<and>
     (ltype f, data_size f) \<in> {(LTYPE_UVARINT, 8), (LTYPE_VARINT, 4), (LTYPE_SVARINT, 4),
       (LTYPE_FIXED32, 4), (LTYPE_FIXED64, 8)}"

definition scalar_value :: "mem \<Rightarrow> pb_field \<Rightarrow> addr \<Rightarrow> wire_value" where
  "scalar_value m f a =
     (if ltype f = LTYPE_UVARINT then VVarint (load64 m a)
      else if ltype f = LTYPE_VARINT then VVarint (of_int (sint (load32 m a)))
      else if ltype f = LTYPE_SVARINT then VVarint (of_nat (zigzag (sint (load32 m a))))
      else if ltype f = LTYPE_FIXED32 then V32 (load32 m a)
      else V64 (load64 m a))"

lemma scalar_view:
  assumes "scalar_field f" "a \<noteq> 0"
  shows "field_view n env m cbv sub f a = (Ok, [(tag f, scalar_value m f a)])"
proof -
  have "(scast w :: u64) = of_int (sint w)" for w :: u32 by simp
  moreover have "sint (scast w :: u64) = sint w" for w :: u32
    by (simp add: sint_up_scast is_up)
  ultimately show ?thesis
    using assms
    by (auto simp: field_view_def basic_view_def single_view_def scalar_field_def scalar_value_def
        int_view_def zigzag_word_def Let_def)
qed

lemma scalars_encoded:
  assumes "user_functions_conform env cbv exv"
    and "laid_out fs off" "\<forall>i < n_fields fs. scalar_field (fs ! i) \<and> src + of_nat (off i) \<noteq> 0"
    and "ws = map (\<lambda>i. (tag (fs ! i), scalar_value m (fs ! i) (src + of_nat (off i)))) [0..<n_fields fs]"
    and "length (message_bytes ws) \<le> unat sz" "unat sz \<le> length buf" "unat sz < 2 ^ 63"
  shows "\<exists>s'. pb_encode (Suc n) env m (pb_ostream_from_buffer buf sz) fs src = (Ok, s')
    \<and> written buf (message_bytes ws) s'"
proof -
  have "view_one n env m cbv exv (message_view n env m cbv exv) (iter_at fs src i) =
      (Ok, [(tag (fs ! i), scalar_value m (fs ! i) (src + of_nat (off i)))])"
    if i: "i < n_fields fs" for i
  proof -
    have "iter_field (iter_at fs src i) = fs ! i"
      using i n_fields_le [of fs] by (simp add: field_at_def)
    moreover have "ltype (fs ! i) \<noteq> LTYPE_EXTENSION" using assms(3) i by (auto simp: scalar_field_def)
    ultimately show ?thesis
      using iter_pData [OF assms(2) i] scalar_view [of "fs ! i" "src + of_nat (off i)"] assms(3) i
      by (simp add: view_one_def)
  qed
  from message_view_all_Ok [OF this]
  have "message_view (Suc n) env m cbv exv fs src = (Ok, ws)"
    using assms(4) by (simp add: concat_map_singleton)
  then show ?thesis
    using conforms_buffer [OF _ assms(5-7)] buf.encode_conforms [OF assms(1), of "Suc n" m fs src]
    by simp
qed



section \<open>Presence\<close>

text \<open>
  A proto3 scalar field, which has no \<open>has_\<close> member, is left out of the message exactly
  when all bytes of its member are zero; otherwise its key and value are written.
\<close>

theorem proto3_scalar_presence:
  assumes "f = PB_SINGULAR_STATIC t fd sz l q" "packable l"
  shows "encode_field (Suc n) env m rec s f p =
    (if \<forall>i < unat sz. m (p + of_nat i) = 0 then (Ok, s)
     else chk (pb_encode_tag_for_field s f)
            (\<lambda>s. call_func (the (PB_ENCODERS env m rec l)) s f p))"
proof -
  have f: "ltype f = l" "htype f = HTYPE_OPTIONAL" "atype f = ATYPE_STATIC" "size_offset f = 0"
    "data_size f = sz"
    by (simp_all add: assms(1) pb_field_macros)
  define Z where "Z \<longleftrightarrow> (\<forall>i < unat sz. m (p + of_nat i) = 0)"
  have z: "list_all (\<lambda>b. b = 0) (load_bytes m p (unat sz)) \<longleftrightarrow> Z"
    by (simp add: Z_def list_all_length nth_load_bytes)
  have "pb_check_proto3_default_value (Suc n) env m f p = (if Z then Ok else Fail)"
    using assms(2) by (cases l) (simp_all add: check_proto3_body_def f z Let_def)
  then show ?thesis
    using assms(2)
    unfolding Z_def [symmetric] by (cases Z; cases l)
       (simp_all add: encode_field_def encode_basic_field_def optional_has_def f tagged_def
        Let_def del: pb_check_proto3_default_value.simps)
qed

theorem proto3_scalar_presence_witness:
  "encode_field 1 ex_env ex_mem (pb_encode 0 ex_env ex_mem) PB_OSTREAM_SIZING (PB_SINGULAR_STATIC 1 0 4 LTYPE_UVARINT 0) 12
    = (Ok, PB_OSTREAM_SIZING)"
proof -
  have "ex_mem (12 + of_nat i) = 0" if "i < 4" for i
  proof -
    from that consider "i = 0" | "i = 1" | "i = 2" | "i = 3" by linarith
    then show ?thesis by cases (simp_all add: ex_mem_def)
  qed
  then have "\<forall>i < unat (4 :: u32). ex_mem (12 + of_nat i) = 0" by simp
  then show ?thesis
    using proto3_scalar_presence [OF refl, of LTYPE_UVARINT 0 ex_env ex_mem _ PB_OSTREAM_SIZING 1 0 4 0 12] by simp
qed

text \<open>
  A member of a oneof is written exactly when the \<open>which_\<close> member holds its tag.
\<close>

theorem oneof_presence:
  assumes "f = PB_ONEOF_STATIC t fd so sz l q" "so \<noteq> 0" "PB_ENCODERS env m rec l = Some func"
  shows "encode_field n env m rec s f p =
    (if load32 m (p + scast so) = t
     then chk (pb_encode_tag_for_field s f) (\<lambda>s. call_func func s f p) else (Ok, s))"
proof -
  have f: "ltype f = l" "htype f = HTYPE_ONEOF" "atype f = ATYPE_STATIC" "size_offset f = so" "tag f = t"
    by (simp_all add: assms(1) pb_field_macros)
  show ?thesis
    using assms(2,3) by (simp add: encode_field_def encode_basic_field_def f tagged_def Let_def)
qed

theorem oneof_presence_witness:
  "encode_field 1 ex_env ex_mem (pb_encode 0 ex_env ex_mem) PB_OSTREAM_SIZING (PB_ONEOF_STATIC 3 4 (- 4) 4 LTYPE_UVARINT 0) 12
    = (Ok, PB_OSTREAM_SIZING)"
proof -
  have "load32 ex_mem (12 + scast (- 4 :: u32)) = 150" by code_simp
  then show ?thesis
    using oneof_presence [OF refl, of "- 4" ex_env ex_mem "pb_encode 0 ex_env ex_mem" LTYPE_UVARINT
        "Some (pb_enc_uvarint ex_mem)" 1 PB_OSTREAM_SIZING 3 4 4 0 12] by simp
qed

end
