(* ===== verification/PbEncodeTotal.thy ===== *)
theory PbEncodeTotal
  imports PbEncodeProps
begin

text \<open>
  Termination of the encoder: fuel one more than the nesting depth of the descriptors is
  enough, for every struct in memory and every stream.
\<close>

section \<open>Calls that return\<close>

definition quiet :: "'s pb_ostream \<Rightarrow> bool" where
  "quiet s \<longleftrightarrow> (case callback s of None \<Rightarrow> True | Some cb \<Rightarrow> \<forall>st bs. fst (cb st bs) \<noteq> Diverge)"

definition returns :: "('s pb_ostream \<Rightarrow> status \<times> 's pb_ostream) \<Rightarrow> bool" where
  "returns e \<longleftrightarrow> (\<forall>s. quiet s \<longrightarrow> fst (e s) \<noteq> Diverge \<and> quiet (snd (e s)))"

lemma quiet_simps [simp]:
  "quiet (s\<lparr>bytes_written := x\<rparr>) = quiet s" "quiet (s\<lparr>state := y\<rparr>) = quiet s"
  "quiet (s\<lparr>errmsg := z\<rparr>) = quiet s" "quiet (PB_SET_ERROR s msg) = quiet s"
  "quiet PB_OSTREAM_SIZING"
  by (simp_all add: quiet_def PB_SET_ERROR_def PB_OSTREAM_SIZING_def)

lemma returns_const: "st \<noteq> Diverge \<Longrightarrow> returns (\<lambda>s. (st, s))"
  by (simp add: returns_def)

lemma returns_error: "returns (\<lambda>s. PB_RETURN_ERROR s msg)"
  by (simp add: returns_def PB_RETURN_ERROR_def)

lemma returns_chk:
  assumes "returns e" "returns f"
  shows "returns (\<lambda>s. chk (e s) f)"
  unfolding returns_def
proof (intro allI impI)
  fix s :: "'a pb_ostream" assume "quiet s"
  then show "fst (chk (e s) f) \<noteq> Diverge \<and> quiet (snd (chk (e s) f))"
    using assms by (cases "e s"; cases "fst (e s) = Ok") (auto simp: returns_def chk_def)
qed

lemma returns_if: "returns e \<Longrightarrow> returns f \<Longrightarrow> returns (\<lambda>s. if b then e s else f s)"
  by (simp add: returns_def)

lemma returns_fail_with: "returns e \<Longrightarrow> returns (\<lambda>s. fail_with (e s) msg)"
  by (auto simp: returns_def fail_with_def PB_RETURN_ERROR_def split: prod.splits)

lemma returns_write: "returns (\<lambda>s. pb_write s buf n)"
  by (auto simp: returns_def pb_write_def quiet_def PB_RETURN_ERROR_def PB_SET_ERROR_def Let_def
      split: option.splits prod.splits) (metis fst_conv)+

lemma returns_run_all: "(\<And>a. a \<in> set as \<Longrightarrow> returns (f a)) \<Longrightarrow> returns (run_all f as)"
proof (induction as)
  case Nil
  then show ?case by (simp add: returns_def)
next
  case (Cons a as)
  then have "returns (\<lambda>s. chk (f a s) (run_all f as))" by (intro returns_chk) auto
  then show ?case by (simp add: returns_def)
qed

section \<open>Value encoders return\<close>

lemma returns_varint: "returns (\<lambda>s. pb_encode_varint s v)"
proof -
  obtain buf n where "\<And>s :: 'a pb_ostream. pb_encode_varint s v = pb_write s buf n"
    by (rule pb_encode_varint_eq [where v = v]) blast
  then show ?thesis by (simp add: returns_write)
qed

lemma returns_string: "returns (\<lambda>s. pb_encode_string s buf n)"
  unfolding pb_encode_string_def by (rule returns_chk [OF returns_varint returns_write])

lemma returns_tag_for_field: "returns (\<lambda>s. pb_encode_tag_for_field s f)"
  by (cases "wiretype_of_ltype (ltype f)")
     (simp_all add: pb_encode_tag_for_field_def pb_encode_tag_def returns_error returns_varint)

lemmas returns_intros = returns_const returns_error returns_write returns_varint returns_string
  returns_tag_for_field returns_chk returns_if

lemma returns_submessage:
  assumes "returns (\<lambda>s. rec s fs src)"
  shows "returns (\<lambda>s. pb_encode_submessage rec s fs src)"
proof -
  obtain st sub where sub: "rec PB_OSTREAM_SIZING fs src = (st, sub)" "st \<noteq> Diverge"
    using assms by (metis returns_def quiet_simps(5) prod.collapse)
  show ?thesis
  proof (cases "st = Ok")
    case False
    then show ?thesis using sub by (simp add: pb_encode_submessage_def returns_def)
  next
    case True
    have "returns (\<lambda>s. case callback s of
              None \<Rightarrow> pb_write s [] sz
            | Some cb \<Rightarrow>
                if bytes_written s + sz > max_size s then PB_RETURN_ERROR s ''stream full''
                else
                  case rec \<lparr>callback = Some cb, state = state s, max_size = sz,
                            bytes_written = 0, errmsg = None\<rparr> fs src of (st, sub) \<Rightarrow>
                    let s1 = s\<lparr>bytes_written := bytes_written s + bytes_written sub,
                               state := state sub, errmsg := errmsg sub\<rparr> in
                    if st = Diverge \<or> st = Undef then (st, s1)
                    else if bytes_written sub \<noteq> sz
                    then PB_RETURN_ERROR s1 ''submsg size changed''
                    else (st, s1))" (is "returns ?e") for sz
      unfolding returns_def
    proof (intro allI impI)
      fix s :: "'a pb_ostream" assume q: "quiet s"
      let ?sub = "\<lambda>cb. \<lparr>callback = Some cb, state = state s, max_size = sz, bytes_written = 0, errmsg = None\<rparr>"
      have "quiet (?sub cb)" if "callback s = Some cb" for cb
        using q that by (simp add: quiet_def)
      then have "fst (rec (?sub cb) fs src) \<noteq> Diverge" if "callback s = Some cb" for cb
        using assms that by (simp add: returns_def)
      moreover have "fst (pb_write s [] sz) \<noteq> Diverge \<and> quiet (snd (pb_write s [] sz))"
        using returns_write q by (auto simp: returns_def)
      ultimately show "fst (?e s) \<noteq> Diverge \<and> quiet (snd (?e s))"
        using q by (cases "callback s")
          (auto simp: PB_RETURN_ERROR_def Let_def split: prod.splits)
    qed
    from returns_chk [OF returns_varint this] show ?thesis
      using True sub(1) by (simp add: pb_encode_submessage_def Let_def)
  qed
qed

section \<open>Nesting\<close>

text \<open>
  Submessages nest at most \<open>k\<close> deep, and there are no extension ranges (the number of
  extensions is not bounded by the descriptors but by a list in memory).
\<close>

fun nested_within :: "nat \<Rightarrow> (addr \<Rightarrow> pb_field list) \<Rightarrow> pb_field list \<Rightarrow> bool" where
  "nested_within 0 desc fs = False"
| "nested_within (Suc k) desc fs =
     (\<forall>f\<in>set fs. ltype f \<noteq> LTYPE_EXTENSION \<and>
        (ltype f = LTYPE_SUBMESSAGE \<longrightarrow> nested_within k desc (desc (ptr f))))"

definition field_within :: "nat \<Rightarrow> (addr \<Rightarrow> pb_field list) \<Rightarrow> pb_field \<Rightarrow> bool" where
  "field_within k desc f \<longleftrightarrow> ltype f \<noteq> LTYPE_EXTENSION \<and>
     (ltype f = LTYPE_SUBMESSAGE \<longrightarrow> nested_within k desc (desc (ptr f)))"

lemma nested_field:
  assumes "nested_within k desc fs" "i < n_fields fs"
  shows "\<exists>j. k = Suc j \<and> field_within j desc (iter_field (iter_at fs p i))"
proof -
  obtain j where k: "k = Suc j" using assms(1) by (cases k) auto
  have "iter_field (iter_at fs p i) \<in> set fs"
    using assms(2) n_fields_le [of fs] by (simp add: field_at_def)
  then show ?thesis using assms(1) k by (simp add: field_within_def)
qed

lemma proto3_returns:
  assumes "field_within k (fields_at env) f" "k < n"
  shows "pb_check_proto3_default_value n env m f p \<noteq> Diverge"
  using assms
proof (induction n arbitrary: k f p)
  case (Suc n)
  let ?fs = "fields_at env (ptr f)"
  let ?body = "\<lambda>it u. (pb_check_proto3_default_value n env m (iter_field it) (pData it), ())"
  have "fst (iter_do ?body (snd (pb_field_iter_begin ?fs p)) ()) \<noteq> Diverge"
    if sub: "ltype f = LTYPE_SUBMESSAGE" "fst (pb_field_iter_begin ?fs p)"
  proof -
    have nest: "nested_within k (fields_at env) ?fs" using Suc.prems sub by (simp add: field_within_def)
    have body: "fst (?body (iter_at ?fs p i) u) \<noteq> Diverge" if "i < n_fields ?fs" for i u
      using nested_field [OF nest that, of p] Suc.IH Suc.prems(2) by fastforce
    have "fst (run_all ?body its u) \<noteq> Diverge"
      if "\<forall>it\<in>set its. \<forall>u. fst (?body it u) \<noteq> Diverge" for its u
      using that by (induction its) (auto simp: chk_def)
    moreover have "0 < n_fields ?fs" using sub(2) begin_empty_iff by blast
    ultimately show ?thesis using iter_do_from [of 0 ?fs ?body p "()"] body by simp
  qed
  then show ?case
    by (auto simp: check_proto3_body_def Let_def case_prod_beta)
qed simp

lemma returns_call:
  assumes "\<And>fs src. returns_at fs \<Longrightarrow> returns (\<lambda>s. rec s fs src)"
    and "ltype f = LTYPE_SUBMESSAGE \<Longrightarrow> returns_at (fields_at env (ptr f))"
    and "PB_ENCODERS env m rec (ltype f) = Some func"
  shows "returns (\<lambda>s. call_func func s f src)"
proof -
  have "returns (\<lambda>s. pb_enc_submessage env rec s f src)" if "ltype f = LTYPE_SUBMESSAGE"
    using returns_submessage [where rec = rec and fs = "fields_at env (ptr f)" and src = src,
        OF assms(1) [OF assms(2) [OF that]]]
    by (cases "ptr f = 0") (simp_all add: pb_enc_submessage_def returns_error)
  moreover have "returns (\<lambda>s. pb_encode_fixed32 m s src)" "returns (\<lambda>s. pb_encode_fixed64 m s src)"
    by (simp_all add: pb_encode_fixed32_def pb_encode_fixed64_def Let_def returns_write)
  moreover have "returns (\<lambda>s. pb_encode_svarint s v)" for v
    by (simp add: pb_encode_svarint_def returns_varint)
  ultimately show ?thesis
    using assms(3)
    by (cases "ltype f")
       (auto simp: call_func_def pb_enc_varint_def pb_enc_uvarint_def pb_enc_svarint_def
          pb_enc_fixed32_def pb_enc_fixed64_def pb_enc_bytes_def pb_enc_string_def
          pb_enc_fixed_length_bytes_def Let_def intro!: returns_intros)
qed

section \<open>Fields return\<close>

lemma returns_packed:
  assumes "\<And>p. returns (\<lambda>s. call_func func s f p)"
  shows "returns (\<lambda>s. packed_loop func f k s p)"
proof (induction k arbitrary: p)
  case (Suc k)
  show ?case using returns_chk [OF assms Suc] by simp
qed (simp add: returns_const)

lemma returns_unpacked:
  assumes "\<And>p. returns (\<lambda>s. call_func func s f p)"
  shows "returns (\<lambda>s. unpacked_loop m func f k s p)"
proof (induction k arbitrary: p)
  case (Suc k)
  show ?case using returns_chk [OF returns_tag_for_field returns_chk [OF assms Suc]] by simp
qed (simp add: returns_const)

lemma returns_packed_data:
  assumes "\<And>p. returns (\<lambda>s. call_func func s f p)"
  shows "returns (packed_data func f k src sz)"
proof -
  have "returns (\<lambda>s. case callback s of None \<Rightarrow> pb_write s [] sz | Some _ \<Rightarrow> packed_loop func f k s src)"
    using returns_write [of "[]" sz] returns_packed [OF assms, of k src]
    by (auto simp: returns_def split: option.splits)
  from returns_chk [OF returns_varint this] show ?thesis by (simp add: packed_data_def [abs_def])
qed

lemma returns_array:
  assumes "\<And>p. returns (\<lambda>s. call_func func s f p)"
  shows "returns (\<lambda>s. encode_array m s f src c func)"
proof -
  have "returns (\<lambda>s. case packed_loop func f k PB_OSTREAM_SIZING src of
      (st, sizestream) \<Rightarrow> if st = Ok then packed_data func f k src (bytes_written sizestream) s else (st, s))" for k
  proof -
    obtain st z where "packed_loop func f k PB_OSTREAM_SIZING src = (st, z)" "st \<noteq> Diverge"
      using returns_packed [OF assms, of k src] by (metis returns_def quiet_simps(5) prod.collapse)
    then show ?thesis using returns_packed_data [OF assms] returns_const by (cases "st = Ok") simp_all
  qed
  moreover have "returns (\<lambda>s. pb_encode_tag s wt t)" for wt t
    by (simp add: pb_encode_tag_def returns_varint)
  ultimately show ?thesis
    unfolding encode_array_def
    by (intro returns_if returns_const returns_error returns_chk returns_packed_data [OF assms]
        returns_unpacked [OF assms]) simp_all
qed

lemma returns_tagged:
  assumes "returns (\<lambda>s. call_func func s f p)"
  shows "returns (\<lambda>s. tagged func s f p)"
  using returns_chk [OF returns_tag_for_field assms] by (simp add: tagged_def)

lemma returns_basic:
  assumes call: "\<And>func p. PB_ENCODERS env m rec (ltype f) = Some func \<Longrightarrow> returns (\<lambda>s. call_func func s f p)"
    and p3: "\<And>p. pb_check_proto3_default_value n env m f p \<noteq> Diverge"
  shows "returns (\<lambda>s. encode_basic_field n env m rec s f p)"
proof (cases "PB_ENCODERS env m rec (ltype f)")
  case None
  then show ?thesis by (simp add: encode_basic_field_def returns_const)
next
  case (Some func)
  note c = call [OF Some]
  have has: "optional_has n env m f p \<noteq> Diverge"
    using p3 [of p] by (auto simp: optional_has_def split: status.splits)
  show ?thesis
    using has returns_tagged [OF c] returns_array [OF c]
    by (cases "htype f"; cases "optional_has n env m f p")
       (simp_all add: encode_basic_field_def Some Let_def returns_const returns_error returns_if)
qed

lemma encode_returns:
  assumes user: "\<And>g f a. returns (\<lambda>s. field_encoder env g s f a)"
    and nest: "nested_within k (fields_at env) fs" "k < n"
  shows "returns (\<lambda>s. pb_encode n env m s fs src)"
  using nest
proof (induction n arbitrary: k fs src)
  case (Suc n)
  have one: "returns (encode_one n env m (pb_encode n env m) (iter_at fs src i))"
    if i: "i < n_fields fs" for i
  proof -
    let ?f = "iter_field (iter_at fs src i)" and ?p = "pData (iter_at fs src i)"
    obtain j where j: "k = Suc j" "field_within j (fields_at env) ?f"
      using nested_field [OF Suc.prems(1) i] by blast
    have jn: "j < n" using Suc.prems(2) j(1) by simp
    have rec: "returns (\<lambda>s. pb_encode n env m s fs' src')"
      if "nested_within j (fields_at env) fs'" for fs' src'
      using Suc.IH that jn by blast
    have "returns (\<lambda>s. call_func func s ?f p)"
      if "PB_ENCODERS env m (pb_encode n env m) (ltype ?f) = Some func" for func p
      by (rule returns_call [where rec = "pb_encode n env m"
            and returns_at = "nested_within j (fields_at env)", OF rec _ that])
         (use j(2) in \<open>simp_all add: field_within_def\<close>)
    then have "returns (\<lambda>s. encode_basic_field n env m (pb_encode n env m) s ?f ?p)"
      by (rule returns_basic) (use proto3_returns [OF j(2) jn] in simp_all)
    moreover have "returns (\<lambda>s. encode_callback_field env m s ?f ?p)"
      unfolding encode_callback_field_def
      by (intro returns_if returns_fail_with user returns_const) simp
    ultimately have "returns (\<lambda>s. encode_field n env m (pb_encode n env m) s ?f ?p)"
      by (cases "atype ?f") (simp_all add: encode_field_def returns_error)
    then show ?thesis
      using j(2) by (simp add: encode_one_def [abs_def] field_within_def)
  qed
  have "returns (run_all (encode_one n env m (pb_encode n env m)) (map (iter_at fs src) [0..<n_fields fs]))"
    by (rule returns_run_all) (use one in auto)
  then show ?case by (simp only: encode_run_all)
qed simp



end
