(* ===== verification/PbIstream.thy ===== *)
theory PbIstream
  imports PbTypes
begin

text \<open>
  Input streams (\<open>pb_istream_t\<close> of \<open>pb_decode.h\<close>, \<open>buf_read\<close>, \<open>pb_read\<close> and
  \<open>pb_readbyte\<close> of \<open>pb_decode.c\<close>), the contract of a read callback, and the two contracts
  decoders are verified against: what they read is what the bytes say (\<open>parses\<close>), and on
  any bytes they stay within the stream (\<open>safe\<close>).
\<close>

section \<open>Results that carry a value\<close>

text \<open>
  A decoder returns its value (\<open>Inr\<close>, the C function returned \<open>true\<close>) or how it stopped
  (\<open>Inl\<close>), and the new stream. \<open>dbind\<close> is \<open>if (!f(...)) return false;\<close> followed by the
  rest.
\<close>

definition dbind :: "(status + 'a) \<times> 's \<Rightarrow> ('a \<Rightarrow> 's \<Rightarrow> (status + 'b) \<times> 's) \<Rightarrow> (status + 'b) \<times> 's" where
  "dbind r k = (case r of (Inl st, s) \<Rightarrow> (Inl st, s) | (Inr a, s) \<Rightarrow> k a s)"

lemma dbind_Inr [simp]: "dbind (Inr a, s) k = k a s"
  by (simp add: dbind_def)

lemma dbind_Inl [simp]: "dbind (Inl st, s) k = (Inl st, s)"
  by (simp add: dbind_def)

lemma dbind_assoc: "dbind (dbind r k) l = dbind r (\<lambda>a s. dbind (k a s) l)"
  by (cases r; cases "fst r") auto

section \<open>The stream\<close>

text \<open>
  A read callback is asked for a number of bytes; it returns them, or \<open>None\<close> for an IO
  error, and its new state. \<open>callback\<close> and \<open>state\<close> of the C struct are one component: the
  callback \<open>buf_read\<close> with a pointer to the bytes up to the end of their object, or a
  user's callback with its state.
\<close>

type_synonym 's read_fn = "'s \<Rightarrow> nat \<Rightarrow> u8 list option \<times> 's"

datatype 's in_source = BufRead "u8 list" | UserRead "'s read_fn" 's

record 's pb_istream =
  source :: "'s in_source"
  bytes_left :: u64
  ierrmsg :: "string option"

definition i_set_error :: "'s pb_istream \<Rightarrow> string \<Rightarrow> 's pb_istream" where
  "i_set_error s msg =
     s\<lparr>ierrmsg := (case ierrmsg s of None \<Rightarrow> Some msg | Some e \<Rightarrow> Some e)\<rparr>"

definition i_error :: "'s pb_istream \<Rightarrow> string \<Rightarrow> (status + 'a) \<times> 's pb_istream" where
  "i_error s msg = (Inl Fail, i_set_error s msg)"

text \<open>Reading past the object is undefined: \<open>None\<close> here, and \<open>Undef\<close> in \<open>stream_callback\<close>.\<close>

definition buf_read :: "u8 list \<Rightarrow> nat \<Rightarrow> u8 list option \<times> u8 list" where
  "buf_read src count =
     (if count \<le> length src then (Some (take count src), drop count src) else (None, src))"

definition stream_callback :: "'s pb_istream \<Rightarrow> nat \<Rightarrow> (status + u8 list) \<times> 's pb_istream" where
  "stream_callback s count =
     (case source s of
        BufRead bs \<Rightarrow>
          (case buf_read bs count of
             (Some b, bs') \<Rightarrow> (Inr b, s\<lparr>source := BufRead bs'\<rparr>)
           | (None, _) \<Rightarrow> (Inl Undef, s))
      | UserRead f st \<Rightarrow>
          (case f st count of
             (Some b, st') \<Rightarrow> (Inr b, s\<lparr>source := UserRead f st'\<rparr>)
           | (None, st') \<Rightarrow> (Inl Fail, s\<lparr>source := UserRead f st'\<rparr>)))"

text \<open>\<open>pb_read\<close> into a buffer.\<close>

definition pb_read :: "'s pb_istream \<Rightarrow> u64 \<Rightarrow> (status + u8 list) \<times> 's pb_istream" where
  "pb_read s count =
     (if bytes_left s < count then i_error s ''end-of-stream''
      else case stream_callback s (unat count) of
          (Inr b, s1) \<Rightarrow> (Inr b, s1\<lparr>bytes_left := bytes_left s1 - count\<rparr>)
        | (Inl st, s1) \<Rightarrow> if st = Fail then i_error s1 ''io error'' else (Inl st, s1))"

text \<open>
  \<open>pb_read\<close> with a null buffer skips: at once on a memory buffer, in pieces of 16 bytes
  through a user's callback.
\<close>

function skip_loop :: "'s pb_istream \<Rightarrow> u64 \<Rightarrow> (status + unit) \<times> 's pb_istream" where
  "skip_loop s count =
     (if count > 16 then dbind (pb_read s 16) (\<lambda>_ s. skip_loop s (count - 16))
      else dbind (pb_read s count) (\<lambda>_ s. (Inr (), s)))"
  by pat_completeness auto
termination
proof (relation "measure (\<lambda>(s, count). unat count)", simp)
  fix s x :: "'s pb_istream" and count :: u64 and bs :: "u8 list"
  assume c: "16 < count"
  then have "unat (count - 16) = unat count - 16" by (simp add: unat_sub word_le_nat_alt word_less_nat_alt)
  moreover have "16 < unat count" using c by (simp add: word_less_nat_alt)
  ultimately show "((x, count - 16), s, count) \<in> measure (\<lambda>(s, count). unat count)" by simp
qed

declare skip_loop.simps [simp del]

definition pb_read_null :: "'s pb_istream \<Rightarrow> u64 \<Rightarrow> (status + unit) \<times> 's pb_istream" where
  "pb_read_null s count =
     (case source s of
        BufRead _ \<Rightarrow> dbind (pb_read s count) (\<lambda>_ s. (Inr (), s))
      | UserRead _ _ \<Rightarrow> skip_loop s count)"

text \<open>A callback that returns true without a byte would leave the byte uninitialised.\<close>

definition pb_readbyte :: "'s pb_istream \<Rightarrow> (status + u8) \<times> 's pb_istream" where
  "pb_readbyte s =
     (if bytes_left s = 0 then i_error s ''end-of-stream''
      else case stream_callback s 1 of
          (Inr (b # _), s1) \<Rightarrow> (Inr b, s1\<lparr>bytes_left := bytes_left s1 - 1\<rparr>)
        | (Inr [], s1) \<Rightarrow> (Inl Undef, s1)
        | (Inl st, s1) \<Rightarrow> if st = Fail then i_error s1 ''io error'' else (Inl st, s1))"

definition pb_istream_from_buffer :: "u8 list \<Rightarrow> u64 \<Rightarrow> 's pb_istream" where
  "pb_istream_from_buffer buf bufsize =
     \<lparr>source = BufRead buf, bytes_left = bufsize, ierrmsg = None\<rparr>"

lemma bytes_left_stream_callback [simp]:
  "bytes_left (snd (stream_callback s n)) = bytes_left s"
  by (simp add: stream_callback_def split: in_source.splits prod.splits option.splits)

lemma pb_readbyte_bytes_left:
  "pb_readbyte s = (Inr b, s1) \<Longrightarrow> bytes_left s \<noteq> 0 \<and> bytes_left s1 = bytes_left s - 1"
  using bytes_left_stream_callback [of s "Suc 0"]
  by (auto simp: pb_readbyte_def i_error_def simp del: bytes_left_stream_callback
      split: if_splits prod.splits sum.splits list.splits)

lemma unat_minus_1: "w \<noteq> 0 \<Longrightarrow> unat (w - 1) < unat (w :: 'a::len word)"
  by (simp add: unat_minus_one unat_gt_0)

lemma pb_readbyte_decreases:
  "pb_readbyte s = (Inr b, s1) \<Longrightarrow> unat (bytes_left s1) < unat (bytes_left s)"
  using pb_readbyte_bytes_left [of s b s1] unat_minus_1 [of "bytes_left s"] by simp

section \<open>The contract of a read callback\<close>

text \<open>
  \<open>content st\<close> are the bytes still to come: a read of that many bytes or fewer returns the
  next ones.
\<close>

locale input_source =
  fixes rd :: "'s read_fn"
    and content :: "'s \<Rightarrow> u8 list"
  assumes rd_within: "n \<le> length (content st) \<Longrightarrow>
    \<exists>st'. rd st n = (Some (take n (content st)), st') \<and> content st' = drop n (content st)"

interpretation memory: input_source buf_read "\<lambda>bs. bs"
  by unfold_locales (simp add: buf_read_def)

definition sourced :: "'s read_fn \<Rightarrow> 's pb_istream \<Rightarrow> bool" where
  "sourced rd s \<longleftrightarrow> (case source s of BufRead _ \<Rightarrow> True | UserRead f _ \<Rightarrow> f = rd)"

definition avail :: "('s \<Rightarrow> u8 list) \<Rightarrow> 's pb_istream \<Rightarrow> u8 list" where
  "avail content s = (case source s of BufRead bs \<Rightarrow> bs | UserRead _ st \<Rightarrow> content st)"

text \<open>\<open>s'\<close> is \<open>s\<close> after \<open>n\<close> bytes.\<close>

definition advanced :: "'s read_fn \<Rightarrow> ('s \<Rightarrow> u8 list) \<Rightarrow> 's pb_istream \<Rightarrow> nat \<Rightarrow> 's pb_istream \<Rightarrow> bool" where
  "advanced rd content s n s' \<longleftrightarrow> sourced rd s' \<and> avail content s' = drop n (avail content s)
     \<and> n \<le> unat (bytes_left s) \<and> bytes_left s' = bytes_left s - of_nat n"

lemma advanced_refl: "sourced rd s \<Longrightarrow> advanced rd content s 0 s"
  by (simp add: advanced_def)

lemma unat_bytes_left_advanced:
  "advanced rd content s n s' \<Longrightarrow> unat (bytes_left s') = unat (bytes_left s) - n"
proof -
  assume a: "advanced rd content s n s'"
  then have n: "n \<le> unat (bytes_left s)" by (simp add: advanced_def)
  moreover have "unat (bytes_left s) < 2 ^ 64" using unsigned_less [of "bytes_left s"] by simp
  ultimately have "unat (of_nat n :: u64) = n" by (simp add: unat_of_nat_lt)
  then show ?thesis using a n by (simp add: advanced_def unat_sub word_le_nat_alt)
qed

lemma advanced_trans:
  assumes "advanced rd content s n s1" "advanced rd content s1 k s2"
  shows "advanced rd content s (n + k) s2"
  using assms unat_bytes_left_advanced [OF assms(1)]
  by (auto simp: advanced_def add.commute)

lemma advanced_sourced: "advanced rd content s n s' \<Longrightarrow> sourced rd s'"
  by (simp add: advanced_def)

text \<open>
  \<open>parses d bs v\<close>: on a stream that starts with \<open>bs\<close>, \<open>d\<close> returns \<open>v\<close> and consumes
  exactly \<open>bs\<close>; the error message is left alone.
\<close>

definition parses :: "'s read_fn \<Rightarrow> ('s \<Rightarrow> u8 list) \<Rightarrow>
    ('s pb_istream \<Rightarrow> (status + 'a) \<times> 's pb_istream) \<Rightarrow> u8 list \<Rightarrow> 'a \<Rightarrow> bool" where
  "parses rd content d bs v \<longleftrightarrow>
     (\<forall>s. sourced rd s \<and> take (length bs) (avail content s) = bs
        \<and> length bs \<le> unat (bytes_left s) \<longrightarrow>
        (\<exists>s'. d s = (Inr v, s') \<and> advanced rd content s (length bs) s'
              \<and> ierrmsg s' = ierrmsg s))"

text \<open>
  \<open>safe d\<close>: on a stream whose limit is within the bytes that are there, \<open>d\<close> ends, never
  reads past them, and leaves such a stream, with as much beyond the limit as before; when
  it succeeds, the stream is the old one after some of the bytes the limit allows.
\<close>

definition within :: "'s read_fn \<Rightarrow> ('s \<Rightarrow> u8 list) \<Rightarrow> 's pb_istream \<Rightarrow> bool" where
  "within rd content s \<longleftrightarrow> sourced rd s \<and> unat (bytes_left s) \<le> length (avail content s)"

text \<open>
  \<open>kept s s'\<close>: the bytes that are there beyond the limit have not become fewer.
\<close>

definition kept :: "('s \<Rightarrow> u8 list) \<Rightarrow> 's pb_istream \<Rightarrow> 's pb_istream \<Rightarrow> bool" where
  "kept content s s' \<longleftrightarrow>
     length (avail content s) + unat (bytes_left s') \<le> length (avail content s') + unat (bytes_left s)"

lemma kept_refl [simp]: "kept content s s"
  by (simp add: kept_def)

lemma kept_trans: "kept content s s1 \<Longrightarrow> kept content s1 s2 \<Longrightarrow> kept content s s2"
  by (simp add: kept_def)

lemma kept_set_error [simp]: "kept content s (i_set_error s' msg) = kept content s s'"
  by (simp add: kept_def i_set_error_def avail_def)

lemma advanced_kept:
  assumes "advanced rd content s n s'"
  shows "kept content s s'"
proof -
  have "unat (bytes_left s') = unat (bytes_left s) - n" "n \<le> unat (bytes_left s)"
    using unat_bytes_left_advanced [OF assms] assms by (simp_all add: advanced_def)
  then show ?thesis using assms by (simp add: advanced_def kept_def)
qed

definition ends_well :: "'s read_fn \<Rightarrow> ('s \<Rightarrow> u8 list) \<Rightarrow> 's pb_istream \<Rightarrow>
    (status + 'a) \<times> 's pb_istream \<Rightarrow> bool" where
  "ends_well rd content s r \<longleftrightarrow> within rd content (snd r) \<and> kept content s (snd r) \<and>
     (case fst r of
        Inl st \<Rightarrow> st = Fail
      | Inr _ \<Rightarrow> \<exists>n. advanced rd content s n (snd r))"

definition safe :: "'s read_fn \<Rightarrow> ('s \<Rightarrow> u8 list) \<Rightarrow>
    ('s pb_istream \<Rightarrow> (status + 'a) \<times> 's pb_istream) \<Rightarrow> bool" where
  "safe rd content d \<longleftrightarrow> (\<forall>s. within rd content s \<longrightarrow> ends_well rd content s (d s))"

lemma within_advanced:
  "within rd content s \<Longrightarrow> advanced rd content s n s' \<Longrightarrow> within rd content s'"
  using unat_bytes_left_advanced [of rd content s n s']
  by (auto simp: within_def advanced_def intro: diff_le_mono)

lemma safeI: "(\<And>s. within rd content s \<Longrightarrow> ends_well rd content s (d s)) \<Longrightarrow> safe rd content d"
  by (simp add: safe_def)

lemma safeD: "safe rd content d \<Longrightarrow> within rd content s \<Longrightarrow> ends_well rd content s (d s)"
  by (simp add: safe_def)

lemma ends_well_Inr [simp]:
  "ends_well rd content s (Inr v, s') \<longleftrightarrow>
     within rd content s' \<and> (\<exists>n. advanced rd content s n s')"
  by (auto simp: ends_well_def dest: advanced_kept)

lemma ends_well_Inl [simp]:
  "ends_well rd content s (Inl st, s') \<longleftrightarrow>
     within rd content s' \<and> kept content s s' \<and> st = Fail"
  by (auto simp: ends_well_def)

lemma within_set_error [simp]:
  "within rd content (i_set_error s msg) = within rd content s"
  by (simp add: within_def i_set_error_def sourced_def avail_def)

lemma within_sourced: "within rd content s \<Longrightarrow> sourced rd s"
  by (simp add: within_def)

lemma ends_well_error [simp]:
  "ends_well rd content s (i_error s' msg) \<longleftrightarrow> within rd content s' \<and> kept content s s'"
  by (simp add: i_error_def)

lemma ends_well_here [simp]:
  "within rd content s \<Longrightarrow> ends_well rd content s (Inr v, s)"
  by (auto simp: within_def intro: advanced_refl)

lemma advanced_here [simp]: "within rd content s \<Longrightarrow> \<exists>n. advanced rd content s n s"
  by (auto simp: within_def intro: advanced_refl)

lemma safe_return: "safe rd content (\<lambda>s. (Inr v, s))"
  by (rule safeI) (auto simp: within_def intro: advanced_refl)

lemma safe_error: "safe rd content (\<lambda>s. i_error s msg)"
  by (rule safeI) simp

lemma ends_well_dbind:
  assumes r: "ends_well rd content s r"
    and k: "\<And>a s1. r = (Inr a, s1) \<Longrightarrow> within rd content s1 \<Longrightarrow> ends_well rd content s1 (k a s1)"
  shows "ends_well rd content s (dbind r k)"
proof -
  obtain x s1 where x: "r = (x, s1)" by fastforce
  show ?thesis
  proof (cases x)
    case (Inl st)
    then show ?thesis using r x by simp
  next
    case (Inr a)
    then obtain n where n: "advanced rd content s n s1" "within rd content s1"
      using r x by auto
    obtain y s2 where y: "k a s1 = (y, s2)" by fastforce
    have "ends_well rd content s1 (y, s2)" using k [of a s1] x Inr n(2) y by simp
    moreover note advanced_kept [OF n(1)]
    ultimately show ?thesis
      using x Inr y n advanced_trans [OF n(1)] kept_trans by (cases y) auto
  qed
qed

lemma safe_dbind:
  assumes d: "safe rd content d" and k: "\<And>a. safe rd content (k a)"
  shows "safe rd content (\<lambda>s. dbind (d s) k)"
  by (rule safeI) (rule ends_well_dbind, rule safeD [OF d], assumption, rule safeD [OF k])

lemma safe_if:
  "safe rd content d \<Longrightarrow> safe rd content e \<Longrightarrow> safe rd content (\<lambda>s. if b then d s else e s)"
  by (simp add: safe_def)

lemma parses_return: "parses rd content (\<lambda>s. (Inr v, s)) [] v"
  by (auto simp: parses_def intro: advanced_refl)

lemma parses_dbind:
  assumes d: "parses rd content d b1 v1" and k: "parses rd content (k v1) b2 v2"
  shows "parses rd content (\<lambda>s. dbind (d s) k) (b1 @ b2) v2"
  unfolding parses_def
proof (intro allI impI, elim conjE)
  fix s assume s: "sourced rd s"
    and t: "take (length (b1 @ b2)) (avail content s) = b1 @ b2"
    and l: "length (b1 @ b2) \<le> unat (bytes_left s)"
  have t1: "take (length b1) (avail content s) = b1"
    using t by (metis append_eq_conv_conj length_append min.absorb1 le_add1 take_take)
  obtain s1 where s1: "d s = (Inr v1, s1)" "advanced rd content s (length b1) s1"
      "ierrmsg s1 = ierrmsg s"
    using d s t1 l by (fastforce simp: parses_def)
  have "take (length b2) (avail content s1) = b2"
    using t s1(2) by (metis advanced_def add.commute append_eq_conv_conj length_append take_drop)
  moreover have "length b2 \<le> unat (bytes_left s1)"
    using unat_bytes_left_advanced [OF s1(2)] l by simp
  ultimately obtain s2 where "k v1 s1 = (Inr v2, s2)" "advanced rd content s1 (length b2) s2"
      "ierrmsg s2 = ierrmsg s1"
    using k advanced_sourced [OF s1(2)] by (fastforce simp: parses_def)
  then show "\<exists>s'. dbind (d s) k = (Inr v2, s')
      \<and> advanced rd content s (length (b1 @ b2)) s' \<and> ierrmsg s' = ierrmsg s"
    using s1 advanced_trans [OF s1(2)] by auto
qed

lemma parses_cong:
  assumes "parses rd content d bs v" "\<And>s. d' s = d s"
  shows "parses rd content d' bs v"
  using assms by (simp add: parses_def)

section \<open>Reading\<close>

context input_source
begin

lemma callback_within:
  assumes "sourced rd s" "n \<le> length (avail content s)"
  obtains s' where "stream_callback s n = (Inr (take n (avail content s)), s')"
    "sourced rd s'" "avail content s' = drop n (avail content s)"
    "bytes_left s' = bytes_left s" "ierrmsg s' = ierrmsg s"
proof (cases "source s")
  case (BufRead bs)
  then show ?thesis using that [of "s\<lparr>source := BufRead (drop n bs)\<rparr>"] assms
    by (simp add: stream_callback_def buf_read_def sourced_def avail_def)
next
  case (UserRead f st)
  then have "f = rd" "n \<le> length (content st)" using assms by (simp_all add: sourced_def avail_def)
  with rd_within obtain st' where
    "f st n = (Some (take n (content st)), st')" "content st' = drop n (content st)" by blast
  then show ?thesis using that [of "s\<lparr>source := UserRead f st'\<rparr>"] UserRead \<open>f = rd\<close>
    by (simp add: stream_callback_def sourced_def avail_def)
qed

lemma read_within:
  assumes "sourced rd s" "unat n \<le> length (avail content s)" "unat n \<le> unat (bytes_left s)"
  shows "\<exists>s'. pb_read s n = (Inr (take (unat n) (avail content s)), s')
    \<and> advanced rd content s (unat n) s' \<and> ierrmsg s' = ierrmsg s"
proof -
  obtain s1 where s1: "stream_callback s (unat n) = (Inr (take (unat n) (avail content s)), s1)"
    "sourced rd s1" "avail content s1 = drop (unat n) (avail content s)"
    "bytes_left s1 = bytes_left s" "ierrmsg s1 = ierrmsg s"
    by (rule callback_within [OF assms(1,2)])
  have "\<not> bytes_left s < n" using assms(3) by (simp add: word_less_nat_alt)
  then show ?thesis
    using s1 assms(3) by (simp add: pb_read_def advanced_def sourced_def avail_def)
qed

lemma read_parses: "unat n = length bs \<Longrightarrow> parses rd content (\<lambda>s. pb_read s n) bs bs"
  unfolding parses_def
  using read_within [where n = n] by (metis length_take min.cobounded1 nat_le_linear take_all)

lemma read_safe: "safe rd content (\<lambda>s. pb_read s n)"
proof (rule safeI)
  fix s assume w: "within rd content s"
  show "ends_well rd content s (pb_read s n)"
  proof (cases "bytes_left s < n")
    case True
    then show ?thesis using w by (simp add: pb_read_def)
  next
    case False
    then have n: "unat n \<le> unat (bytes_left s)" by (simp add: word_less_nat_alt)
    moreover have "unat n \<le> length (avail content s)" using n w by (simp add: within_def)
    ultimately show ?thesis
      using read_within [of s n] w within_advanced [OF w] within_sourced [OF w] by auto
  qed
qed

text \<open>Reading into the null buffer.\<close>

lemma skip_loop_parses: "unat n = length bs \<Longrightarrow> parses rd content (\<lambda>s. skip_loop s n) bs ()"
proof (induction "unat n" arbitrary: n bs rule: less_induct)
  case less
  show ?case
  proof (cases "16 < n")
    case True
    then have n: "16 < unat n" "unat (n - 16) = unat n - 16"
      by (simp_all add: unat_sub word_le_nat_alt word_less_nat_alt)
    have "parses rd content (\<lambda>s. pb_read s 16) (take 16 bs) (take 16 bs)"
      by (rule read_parses) (use less.prems n in simp)
    moreover have "parses rd content (\<lambda>s. skip_loop s (n - 16)) (drop 16 bs) ()"
      by (rule less.hyps) (use less.prems n in simp_all)
    ultimately have "parses rd content (\<lambda>s. dbind (pb_read s 16) (\<lambda>_ s. skip_loop s (n - 16)))
        (take 16 bs @ drop 16 bs) ()" by (rule parses_dbind)
    then show ?thesis using True by (simp add: skip_loop.simps [of _ n])
  next
    case False
    have "parses rd content (\<lambda>s. dbind (pb_read s n) (\<lambda>_ s. (Inr (), s))) (bs @ []) ()"
      by (rule parses_dbind [OF read_parses [OF less.prems] parses_return])
    then show ?thesis using False by (simp add: skip_loop.simps [of _ n])
  qed
qed

lemma skip_loop_safe: "safe rd content (\<lambda>s. skip_loop s n)"
proof (induction "unat n" arbitrary: n rule: less_induct)
  case less
  show ?case
  proof (cases "16 < n")
    case True
    then have "unat (n - 16) < unat n" by (simp add: unat_sub word_le_nat_alt word_less_nat_alt)
    from less [OF this] show ?thesis
      using True by (simp add: skip_loop.simps [of _ n] safe_dbind [OF read_safe])
  next
    case False
    then show ?thesis
      by (simp add: skip_loop.simps [of _ n] safe_dbind [OF read_safe] safe_return)
  qed
qed

lemma read_null_parses:
  assumes "unat n = length bs"
  shows "parses rd content (\<lambda>s. pb_read_null s n) bs ()"
proof -
  have "parses rd content (\<lambda>s. dbind (pb_read s n) (\<lambda>_ s. (Inr (), s))) (bs @ []) ()"
    by (rule parses_dbind [OF read_parses [OF assms] parses_return])
  then show ?thesis
    using skip_loop_parses [OF assms] unfolding parses_def pb_read_null_def
    by (auto split: in_source.splits)
qed

lemma read_null_safe: "safe rd content (\<lambda>s. pb_read_null s n)"
proof -
  have "safe rd content (\<lambda>s. dbind (pb_read s n) (\<lambda>_ s. (Inr (), s)))"
    by (rule safe_dbind [OF read_safe safe_return])
  then show ?thesis
    using skip_loop_safe [of n] by (auto simp: safe_def pb_read_null_def split: in_source.splits)
qed

lemma readbyte_within:
  assumes "sourced rd s" "avail content s \<noteq> []" "bytes_left s \<noteq> 0"
  shows "\<exists>s'. pb_readbyte s = (Inr (hd (avail content s)), s')
    \<and> advanced rd content s 1 s' \<and> ierrmsg s' = ierrmsg s"
proof -
  have "1 \<le> length (avail content s)" using assms(2) by (cases "avail content s") auto
  then obtain s1 where s1: "stream_callback s 1 = (Inr (take 1 (avail content s)), s1)"
    "sourced rd s1" "avail content s1 = drop 1 (avail content s)"
    "bytes_left s1 = bytes_left s" "ierrmsg s1 = ierrmsg s"
    by (rule callback_within [OF assms(1)])
  have "take 1 (avail content s) = [hd (avail content s)]"
    using assms(2) by (cases "avail content s") auto
  moreover have "1 \<le> unat (bytes_left s)" using assms(3) by (simp add: Suc_le_eq unat_gt_0)
  ultimately show ?thesis
    using s1 assms(3) by (simp add: pb_readbyte_def advanced_def sourced_def avail_def)
qed

lemma readbyte_parses: "parses rd content pb_readbyte [b] b"
  unfolding parses_def
proof (intro allI impI, elim conjE)
  fix s assume s: "sourced rd s" and t: "take (length [b]) (avail content s) = [b]"
    and l: "length [b] \<le> unat (bytes_left s)"
  have "avail content s \<noteq> []" "hd (avail content s) = b" using t by (cases "avail content s"; simp)+
  moreover have "bytes_left s \<noteq> 0" using l by auto
  ultimately show "\<exists>s'. pb_readbyte s = (Inr b, s') \<and> advanced rd content s (length [b]) s'
      \<and> ierrmsg s' = ierrmsg s"
    using readbyte_within [OF s] by simp
qed

lemma readbyte_safe: "safe rd content pb_readbyte"
proof (rule safeI)
  fix s assume w: "within rd content s"
  show "ends_well rd content s (pb_readbyte s)"
  proof (cases "bytes_left s = 0")
    case True
    then show ?thesis using w by (simp add: pb_readbyte_def)
  next
    case False
    then have "0 < unat (bytes_left s)" by (simp add: unat_gt_0)
    then have "avail content s \<noteq> []" using w by (auto simp: within_def)
    then show ?thesis
      using readbyte_within [of s] False within_advanced [OF w] within_sourced [OF w] by auto
  qed
qed

end

end
