(* ===== verification/PbDecPrim.thy ===== *)
theory PbDecPrim
  imports PbIstream PbWire
begin

text \<open>
  The readers of \<open>pb_decode.c\<close> that work on the wire format: varints, tags, skipping,
  raw values and length-delimited substreams. Each is shown safe on any bytes, and to read
  back what the encoders of \<open>PbEncPrim\<close> write.
\<close>

section \<open>Varints\<close>

text \<open>
  The \<open>do\<close> loop of \<open>pb_decode_varint32_eof\<close>, from \<open>bitpos\<close> and \<open>result\<close>; it ends with the
  final \<open>result\<close>, \<open>bitpos\<close> and the last \<open>byte\<close>. \<open>bitpos\<close> is a \<open>uint_fast8_t\<close>, eight bits
  wide on the target, and wraps.
\<close>

function varint32_loop ::
    "'s pb_istream \<Rightarrow> u8 \<Rightarrow> u32 \<Rightarrow> (status + u32 \<times> u8 \<times> u8) \<times> 's pb_istream" where
  "varint32_loop s bitpos result =
     (case pb_readbyte s of
        (Inl st, s1) \<Rightarrow> (Inl st, s1)
      | (Inr b, s1) \<Rightarrow>
          let sign_extension = (if bitpos < 63 then 0xFF else 0x01);
              result' = (if bitpos \<ge> 32 then result
                         else result OR push_bit (unat bitpos) (ucast (b AND 0x7F)))
          in if bitpos \<ge> 32 \<and> b AND 0x7F \<noteq> 0 \<and>
                (drop_bit 31 result = 0 \<or> b \<noteq> sign_extension)
             then i_error s1 ''varint overflow''
             else if b AND 0x80 \<noteq> 0 then varint32_loop s1 (bitpos + 7) result'
             else (Inr (result', bitpos + 7, b), s1))"
  by pat_completeness auto
termination
  by (relation "measure (\<lambda>(s, _). unat (bytes_left s))") (auto dest!: pb_readbyte_decreases [OF sym])

declare varint32_loop.simps [simp del]

text \<open>The second component is the value left in \<open>*eof\<close> if it was \<open>false\<close> before.\<close>

definition pb_decode_varint32_eof ::
    "'s pb_istream \<Rightarrow> ((status + u32) \<times> 's pb_istream) \<times> bool" where
  "pb_decode_varint32_eof s =
     (case pb_readbyte s of
        (Inl st, s1) \<Rightarrow> ((Inl st, s1), st = Fail \<and> bytes_left s1 = 0)
      | (Inr b, s1) \<Rightarrow>
          (if b AND 0x80 = 0 then (Inr (ucast b), s1)
           else dbind (varint32_loop s1 7 (ucast (b AND 0x7F)))
             (\<lambda>(result, bitpos, b) s2.
                if bitpos = 35 \<and> b AND 0x70 \<noteq> 0 then i_error s2 ''varint overflow''
                else (Inr result, s2)), False))"

definition pb_decode_varint32 :: "'s pb_istream \<Rightarrow> (status + u32) \<times> 's pb_istream" where
  "pb_decode_varint32 s = fst (pb_decode_varint32_eof s)"

function varint64_loop :: "'s pb_istream \<Rightarrow> u8 \<Rightarrow> u64 \<Rightarrow> (status + u64) \<times> 's pb_istream" where
  "varint64_loop s bitpos result =
     (if bitpos \<ge> 64 then i_error s ''varint overflow''
      else case pb_readbyte s of
          (Inl st, s1) \<Rightarrow> (Inl st, s1)
        | (Inr b, s1) \<Rightarrow>
            let result' = result OR push_bit (unat bitpos) (ucast (b AND 0x7F))
            in if b AND 0x80 \<noteq> 0 then varint64_loop s1 (bitpos + 7) result'
               else (Inr result', s1))"
  by pat_completeness auto
termination
  by (relation "measure (\<lambda>(s, _). unat (bytes_left s))") (auto dest!: pb_readbyte_decreases [OF sym])

declare varint64_loop.simps [simp del]

definition pb_decode_varint :: "'s pb_istream \<Rightarrow> (status + u64) \<times> 's pb_istream" where
  "pb_decode_varint s = varint64_loop s 0 0"

lemma pb_read_decreases:
  assumes "pb_read s n = (Inr b, s1)" "n \<noteq> 0"
  shows "unat (bytes_left s1) < unat (bytes_left s)"
proof -
  have "\<not> bytes_left s < n" "bytes_left s1 = bytes_left s - n"
    using assms bytes_left_stream_callback [of s "unat n"]
    by (auto simp: pb_read_def i_error_def simp del: bytes_left_stream_callback
        split: if_splits prod.splits sum.splits)
  moreover have "0 < unat n" using assms(2) by (simp add: unat_gt_0)
  ultimately show ?thesis by (simp add: unat_sub word_le_nat_alt word_less_nat_alt)
qed

text \<open>One byte of \<open>pb_read\<close>; a callback that returned none would leave it uninitialised.\<close>

definition read1 :: "'s pb_istream \<Rightarrow> (status + u8) \<times> 's pb_istream" where
  "read1 s = dbind (pb_read s 1) (\<lambda>bs s. case bs of [] \<Rightarrow> (Inl Undef, s) | b # _ \<Rightarrow> (Inr b, s))"

lemma read1_decreases:
  assumes "read1 s = (Inr b, s1)"
  shows "unat (bytes_left s1) < unat (bytes_left s)"
proof -
  obtain x t where x: "pb_read s 1 = (x, t)" by fastforce
  then obtain bs where "x = Inr bs" "t = s1" using assms
    by (cases x) (auto simp: read1_def split: list.splits)
  then show ?thesis using pb_read_decreases [of s 1 bs s1] x by simp
qed

function pb_skip_varint :: "'s pb_istream \<Rightarrow> (status + unit) \<times> 's pb_istream" where
  "pb_skip_varint s =
     (case read1 s of
        (Inl st, s1) \<Rightarrow> (Inl st, s1)
      | (Inr b, s1) \<Rightarrow> if b AND 0x80 \<noteq> 0 then pb_skip_varint s1 else (Inr (), s1))"
  by pat_completeness auto
termination
  by (relation "measure (\<lambda>s. unat (bytes_left s))") (auto dest!: read1_decreases [OF sym])

declare pb_skip_varint.simps [simp del]

section \<open>Tags and skipping\<close>

definition pb_skip_string :: "'s pb_istream \<Rightarrow> (status + unit) \<times> 's pb_istream" where
  "pb_skip_string s =
     dbind (pb_decode_varint32 s) (\<lambda>n s. pb_read_null s (ucast n))"

text \<open>
  A wire type without a constant (3, 4, 6 or 7) is \<open>PB_WT_OTHER\<close>; the \<open>switch\<close>es send it to
  \<open>default\<close>. The second component is \<open>*eof\<close>.
\<close>

definition pb_decode_tag ::
    "'s pb_istream \<Rightarrow> ((status + pb_wire_type \<times> u32) \<times> 's pb_istream) \<times> bool" where
  "pb_decode_tag s =
     (case pb_decode_varint32_eof s of
        ((Inl st, s1), eof) \<Rightarrow> ((Inl st, s1), eof)
      | ((Inr temp, s1), eof) \<Rightarrow>
          if temp = 0 then ((Inl Fail, s1), True)
          else ((Inr (wire_type_of (temp AND 7), drop_bit 3 temp), s1), eof))"

definition pb_skip_field :: "'s pb_istream \<Rightarrow> pb_wire_type \<Rightarrow> (status + unit) \<times> 's pb_istream" where
  "pb_skip_field s wire_type =
     (case wire_type of
        PB_WT_VARINT \<Rightarrow> pb_skip_varint s
      | PB_WT_64BIT \<Rightarrow> pb_read_null s 8
      | PB_WT_STRING \<Rightarrow> pb_skip_string s
      | PB_WT_32BIT \<Rightarrow> pb_read_null s 4
      | PB_WT_OTHER _ \<Rightarrow> i_error s ''invalid wire_type'')"

text \<open>\<open>raw_varint s k\<close> has room for \<open>k\<close> more bytes in \<open>buf\<close>.\<close>

fun raw_varint :: "'s pb_istream \<Rightarrow> nat \<Rightarrow> (status + u8 list) \<times> 's pb_istream" where
  "raw_varint s 0 = (Inl Fail, s)"
| "raw_varint s (Suc k) =
     dbind (read1 s) (\<lambda>b s.
       if b AND 0x80 \<noteq> 0 then dbind (raw_varint s k) (\<lambda>bs s. (Inr (b # bs), s))
       else (Inr [b], s))"

definition read_raw_value ::
    "'s pb_istream \<Rightarrow> pb_wire_type \<Rightarrow> nat \<Rightarrow> (status + u8 list) \<times> 's pb_istream" where
  "read_raw_value s wire_type room =
     (case wire_type of
        PB_WT_VARINT \<Rightarrow> raw_varint s room
      | PB_WT_64BIT \<Rightarrow>
          if 8 \<le> room then pb_read s 8 else dbind (pb_read s 8) (\<lambda>_ s. (Inl Undef, s))
      | PB_WT_32BIT \<Rightarrow>
          if 4 \<le> room then pb_read s 4 else dbind (pb_read s 4) (\<lambda>_ s. (Inl Undef, s))
      | _ \<Rightarrow> i_error s ''invalid wire_type'')"

section \<open>Substreams\<close>

text \<open>The value is \<open>*substream\<close>.\<close>

definition pb_make_string_substream ::
    "'s pb_istream \<Rightarrow> (status + 's pb_istream) \<times> 's pb_istream" where
  "pb_make_string_substream s =
     dbind (pb_decode_varint32 s) (\<lambda>n s.
       if bytes_left s < ucast n then i_error s ''parent stream too short''
       else (Inr (s\<lparr>bytes_left := ucast n\<rparr>), s\<lparr>bytes_left := bytes_left s - ucast n\<rparr>))"

definition pb_close_string_substream ::
    "'s pb_istream \<Rightarrow> 's pb_istream \<Rightarrow> (status + unit) \<times> 's pb_istream" where
  "pb_close_string_substream s sub =
     (case (if bytes_left sub \<noteq> 0 then pb_read_null sub (bytes_left sub) else (Inr (), sub)) of
        (Inl st, _) \<Rightarrow> (Inl st, s)
      | (Inr _, sub') \<Rightarrow> (Inr (), s\<lparr>source := source sub', ierrmsg := ierrmsg sub'\<rparr>))"

section \<open>Scalar values\<close>

definition pb_decode_svarint :: "'s pb_istream \<Rightarrow> (status + u64) \<times> 's pb_istream" where
  "pb_decode_svarint s =
     dbind (pb_decode_varint s) (\<lambda>v s.
       (Inr (if v AND 1 \<noteq> 0 then NOT (drop_bit 1 v) else drop_bit 1 v), s))"

definition pb_decode_fixed32 :: "'s pb_istream \<Rightarrow> (status + u32) \<times> 's pb_istream" where
  "pb_decode_fixed32 s =
     dbind (pb_read s 4) (\<lambda>bs s.
       if length bs < 4 then (Inl Undef, s)
       else (Inr (push_bit 0 (ucast (bs ! 0)) OR push_bit 8 (ucast (bs ! 1)) OR
                  push_bit 16 (ucast (bs ! 2)) OR push_bit 24 (ucast (bs ! 3))), s))"

definition pb_decode_fixed64 :: "'s pb_istream \<Rightarrow> (status + u64) \<times> 's pb_istream" where
  "pb_decode_fixed64 s =
     dbind (pb_read s 8) (\<lambda>bs s.
       if length bs < 8 then (Inl Undef, s)
       else (Inr (push_bit 0 (ucast (bs ! 0)) OR push_bit 8 (ucast (bs ! 1)) OR
                  push_bit 16 (ucast (bs ! 2)) OR push_bit 24 (ucast (bs ! 3)) OR
                  push_bit 32 (ucast (bs ! 4)) OR push_bit 40 (ucast (bs ! 5)) OR
                  push_bit 48 (ucast (bs ! 6)) OR push_bit 56 (ucast (bs ! 7))), s))"


section \<open>The loops accumulate base 128\<close>

lemma varint64_loop_dbind:
  "\<not> 64 \<le> bitpos \<Longrightarrow> varint64_loop s bitpos result =
     dbind (pb_readbyte s) (\<lambda>b s1.
       let result' = result OR push_bit (unat bitpos) (ucast (b AND 0x7F))
       in if b AND 0x80 \<noteq> 0 then varint64_loop s1 (bitpos + 7) result' else (Inr result', s1))"
  by (subst varint64_loop.simps) (simp add: dbind_def)

lemma varint32_loop_dbind:
  "varint32_loop s bitpos result =
     dbind (pb_readbyte s) (\<lambda>b s1.
       let sign_extension = (if bitpos < 63 then 0xFF else 0x01);
           result' = (if bitpos \<ge> 32 then result
                      else result OR push_bit (unat bitpos) (ucast (b AND 0x7F)))
       in if bitpos \<ge> 32 \<and> b AND 0x7F \<noteq> 0 \<and>
             (drop_bit 31 result = 0 \<or> b \<noteq> sign_extension)
          then i_error s1 ''varint overflow''
          else if b AND 0x80 \<noteq> 0 then varint32_loop s1 (bitpos + 7) result'
          else (Inr (result', bitpos + 7, b), s1))"
  by (subst varint32_loop.simps) (simp only: dbind_def)

lemma pb_decode_varint32_dbind:
  "pb_decode_varint32 s =
     dbind (pb_readbyte s) (\<lambda>b s1.
       if b AND 0x80 = 0 then (Inr (ucast b), s1)
       else dbind (varint32_loop s1 7 (ucast (b AND 0x7F)))
         (\<lambda>(result, bitpos, b) s2.
            if bitpos = 35 \<and> b AND 0x70 \<noteq> 0 then i_error s2 ''varint overflow''
            else (Inr result, s2)))"
  by (simp add: pb_decode_varint32_def pb_decode_varint32_eof_def dbind_def
      split: prod.splits sum.splits)

lemma pb_skip_varint_dbind:
  "pb_skip_varint s =
     dbind (read1 s) (\<lambda>b s1. if b AND 0x80 \<noteq> 0 then pb_skip_varint s1 else (Inr (), s1))"
  by (subst pb_skip_varint.simps) (simp add: dbind_def)

lemma unat_bitpos_step: "unat (p :: u8) = 7 * k \<Longrightarrow> k < 36 \<Longrightarrow> unat (p + 7) = 7 * Suc k"
  by (simp add: unat_word_ariths)

context input_source
begin

lemma parses_step:
  assumes "parses rd content (k b) bs v"
  shows "parses rd content (\<lambda>s. dbind (pb_readbyte s) k) (b # bs) v"
  using parses_dbind [where d = pb_readbyte and k = k, OF readbyte_parses [of b] assms] by simp

lemma varint64_loop_parses:
  assumes "is_varint bs" "unat p = 7 * k" "k + length bs \<le> 10"
  shows "parses rd content (\<lambda>s. varint64_loop s p r) bs
    (r OR push_bit (unat p) (of_nat (group_value bs)))"
  using assms
proof (induction bs arbitrary: p k r)
  case (Cons b bs)
  let ?r = "r OR push_bit (unat p) (ucast (b AND 0x7F))"
  have "unat p < 64" using Cons.prems by simp
  then have p: "\<not> 64 \<le> p" by (simp add: word_le_nat_alt)
  show ?case
    unfolding varint64_loop_dbind [OF p]
  proof (rule parses_step)
    show "parses rd content (\<lambda>s1. let result' = ?r
       in if b AND 0x80 \<noteq> 0 then varint64_loop s1 (p + 7) result' else (Inr result', s1)) bs
       (r OR push_bit (unat p) (of_nat (group_value (b # bs))))"
    proof (cases "unat b < 128")
      case True
      then have "bs = []" using Cons.prems by simp
      have "push_bit (unat p) (ucast (b AND 0x7F)) = (push_bit (unat p) (of_nat (unat b mod 128)) :: u64)"
        using group_step [of b 0, where 'a = 64] by simp
      then show ?thesis
        using True parses_return [of rd content ?r] \<open>bs = []\<close> by (simp add: cont_iff)
    next
      case False
      then have "is_varint bs" using Cons.prems by simp
      moreover have "unat (p + 7) = 7 * Suc k" using Cons.prems by (intro unat_bitpos_step) simp_all
      ultimately have "parses rd content (\<lambda>s. varint64_loop s (p + 7) ?r) bs
          (?r OR push_bit (unat (p + 7)) (of_nat (group_value bs)))"
        using Cons.prems by (intro Cons.IH [where k = "Suc k"]) simp_all
      moreover have "?r OR push_bit (unat (p + 7)) (of_nat (group_value bs)) =
          r OR push_bit (unat p) (of_nat (group_value (b # bs)))"
      proof -
        have "unat (p + 7) = unat p + 7" using \<open>unat (p + 7) = 7 * Suc k\<close> Cons.prems by simp
        then show ?thesis by (simp only: group_push group_value.simps or.assoc)
      qed
      ultimately show ?thesis using False by (simp only: cont_iff Let_def not_False_eq_True if_True)
    qed
  qed
qed simp

lemma varint_group_parses:
  assumes "is_varint bs" "length bs \<le> 10"
  shows "parses rd content pb_decode_varint bs (of_nat (group_value bs))"
  using varint64_loop_parses [OF assms(1), of 0 0 0] assms(2)
  by (simp add: pb_decode_varint_def [abs_def])

lemma varint_parses: "parses rd content pb_decode_varint (varint_bytes (unat v)) v"
  using varint_group_parses [OF is_varint_varint_bytes length_varint_bytes_u64 [of v]]
  by (simp add: group_value_varint_bytes)

lemma varint64_loop_safe: "safe rd content (\<lambda>s. varint64_loop s p r)"
proof (rule safeI)
  fix s assume "within rd content s"
  then show "ends_well rd content s (varint64_loop s p r)"
  proof (induction s p r rule: varint64_loop.induct)
    case (1 s p r)
    show ?case
    proof (cases "64 \<le> p")
      case True
      then show ?thesis using 1(2) by (simp add: varint64_loop.simps [of s])
    next
      case False
      show ?thesis
        unfolding varint64_loop_dbind [OF False]
        by (rule ends_well_dbind [OF safeD [OF readbyte_safe 1(2)]])
           (use 1(1) [OF False] in \<open>auto simp: Let_def\<close>)
    qed
  qed
qed

lemma varint_safe: "safe rd content pb_decode_varint"
  using varint64_loop_safe by (simp add: pb_decode_varint_def [abs_def])

lemma varint32_loop_safe: "safe rd content (\<lambda>s. varint32_loop s p r)"
proof (rule safeI)
  fix s assume "within rd content s"
  then show "ends_well rd content s (varint32_loop s p r)"
  proof (induction s p r rule: varint32_loop.induct)
    case (1 s p r)
    show ?case
      by (subst varint32_loop_dbind, rule ends_well_dbind [OF safeD [OF readbyte_safe 1(2)]])
         (use 1(1) in \<open>auto simp: Let_def\<close>)
  qed
qed

lemma varint32_safe: "safe rd content pb_decode_varint32"
  unfolding pb_decode_varint32_dbind [abs_def]
  by (intro safe_dbind readbyte_safe safe_if safe_return varint32_loop_safe)
     (auto split: prod.splits intro: safe_if safe_error safe_return)

text \<open>The loop below \<open>bitpos = 35\<close>: continuation bytes, then the rest.\<close>

lemma varint32_loop_cont:
  assumes "\<And>b. b \<in> set cs \<Longrightarrow> 128 \<le> unat b" "unat p = 7 * k" "k + length cs \<le> 5"
    and "\<And>q. unat q = 7 * (k + length cs) \<Longrightarrow> parses rd content
      (\<lambda>s. varint32_loop s q (r OR push_bit (unat p) (of_nat (group_value cs)))) ds v"
  shows "parses rd content (\<lambda>s. varint32_loop s p r) (cs @ ds) v"
  using assms
proof (induction cs arbitrary: p k r)
  case Nil
  then show ?case by simp
next
  case (Cons b cs)
  let ?r = "r OR push_bit (unat p) (ucast (b AND 0x7F))"
  have "unat p < 32" using Cons.prems by simp
  then have p: "\<not> 32 \<le> p" by (simp add: word_le_nat_alt)
  have b: "b AND 0x80 \<noteq> 0" using Cons.prems(1) [of b] by (simp add: cont_iff)
  have p7: "unat (p + 7) = 7 * Suc k" "unat (p + 7) = unat p + 7"
    using unat_bitpos_step [of p k] Cons.prems by simp_all
  have "parses rd content (\<lambda>s. varint32_loop s (p + 7) ?r) (cs @ ds) v"
  proof (rule Cons.IH [where k = "Suc k"])
    fix q :: u8
    assume "unat q = 7 * (Suc k + length cs)"
    moreover have "?r OR push_bit (unat (p + 7)) (of_nat (group_value cs)) =
        r OR push_bit (unat p) (of_nat (group_value (b # cs)))"
      by (simp only: p7(2) group_push group_value.simps or.assoc)
    ultimately show "parses rd content (\<lambda>s. varint32_loop s q
        (?r OR push_bit (unat (p + 7)) (of_nat (group_value cs)))) ds v"
      using Cons.prems(4) [of q] by simp
  qed (use Cons.prems p7 in simp_all)
  then show ?case
    unfolding varint32_loop_dbind [of _ p] append_Cons
    by (intro parses_step) (simp add: p b Let_def)
qed

lemma varint32_loop_last:
  assumes "unat b < 128" "unat p = 7 * k" "k < 5"
  shows "parses rd content (\<lambda>s. varint32_loop s p r) [b]
    (r OR push_bit (unat p) (ucast b), p + 7, b)"
proof -
  have "unat p < 32" using assms by simp
  then have p: "\<not> 32 \<le> p" by (simp add: word_le_nat_alt)
  have "b AND 0x80 = 0" using assms(1) by (simp add: cont_iff)
  moreover have "ucast (b AND 0x7F) = (ucast b :: u32)"
    using assms(1) by (simp add: and_7F word_unat_eq_iff unat_take7 unat_ucast_up)
  ultimately show ?thesis
    unfolding varint32_loop_dbind [of _ p]
    using parses_return by (intro parses_step) (simp add: p)
qed

end

text \<open>The top group of a five-byte varint below \<open>2 ^ 32\<close> has four bits.\<close>

lemma and_70: "unat (b :: u8) < 16 \<Longrightarrow> b AND 0x70 = 0"
proof -
  assume b: "unat b < 16"
  have "\<not> bit (b AND 0x70) k" for k
  proof (cases "k < 4")
    case True
    have "(0x70 :: u8) = push_bit 4 7" by (simp add: push_bit_eq_mult)
    then show ?thesis using True by (simp only: bit_and_iff bit_push_bit_iff) simp
  next
    case False
    then show ?thesis using bit_ge_unat [of b 4 k] b by (simp add: bit_and_iff)
  qed
  then show ?thesis by (auto intro!: bit_word_eqI)
qed

context input_source
begin

lemma varint32_group_parses:
  assumes "is_varint bs" "length bs \<le> 5" "group_value bs < 2 ^ 32"
  shows "parses rd content pb_decode_varint32 bs (of_nat (group_value bs))"
proof -
  obtain ds z where bs: "bs = ds @ [z]" "\<forall>c\<in>set ds. 128 \<le> unat c" "unat z < 128"
    using is_varint_split [OF assms(1)] by blast
  have z: "(ucast z :: u32) = of_nat (group_value [z])" using bs(3) by simp
  show ?thesis
  proof (cases ds)
    case Nil
    then have "bs = [z]" "(ucast z :: u32) = of_nat (group_value bs)" using bs(1) z by simp_all
    then show ?thesis
      using bs(3) parses_return [of rd content "ucast z :: u32"]
      unfolding pb_decode_varint32_dbind [abs_def] by (auto simp: cont_iff intro!: parses_step)
  next
    case (Cons b cs)
    let ?r = "ucast (b AND 0x7F) :: u32"
    let ?v = "of_nat (group_value bs) :: u32" and ?q = "of_nat (7 * length bs) :: u8"
    have len: "length cs \<le> 3" "length bs = Suc (Suc (length cs))" using assms(2) bs(1) Cons by simp_all
    have b: "b AND 0x80 \<noteq> 0" using bs Cons by (simp add: cont_iff)
    have loop: "parses rd content (\<lambda>s. varint32_loop s 7 ?r) (cs @ [z]) (?v, ?q, z)"
    proof (rule varint32_loop_cont [where k = 1])
      fix q :: u8 assume uq: "unat q = 7 * (1 + length cs)"
      have "?r OR push_bit (unat (7::u8)) (of_nat (group_value cs)) = of_nat (group_value (b # cs))"
        by (simp only: group_value.simps group_step [symmetric]) simp
      then have v: "(?r OR push_bit (unat (7::u8)) (of_nat (group_value cs))) OR push_bit (unat q) (ucast z) = ?v"
        using group_or_append [of "b # cs" "[z]", where 'a = 32] uq bs(1) Cons z by simp
      have q: "q + 7 = ?q"
        using uq len by (simp add: word_unat_eq_iff unat_word_ariths unat_of_nat)
      have "1 + length cs < 5" using len by simp
      from varint32_loop_last [OF bs(3) uq this] show "parses rd content (\<lambda>s. varint32_loop s q
          (?r OR push_bit (unat (7::u8)) (of_nat (group_value cs)))) [z] (?v, ?q, z)"
        by (metis q v)
    qed (use bs len Cons in simp_all)
    have fin: "\<not> (?q = 35 \<and> z AND 0x70 \<noteq> 0)"
    proof (cases "length bs = 5")
      case True
      then have "length ds = 4" using bs(1) by simp
      then have "128 ^ 4 * unat z \<le> group_value bs"
        using bs(1,3) by (simp add: group_value_append)
      then have "unat z < 16" using assms(3) by simp
      then show ?thesis by (simp add: and_70)
    next
      case False
      have "unat ?q = 7 * length bs" by (rule unat_of_nat_lt) (use len in simp)
      then have "unat ?q \<noteq> unat (35 :: u8)" using False by (simp del: of_nat_mult)
      then show ?thesis by metis
    qed
    have "parses rd content (\<lambda>s. dbind (varint32_loop s 7 ?r) (\<lambda>(result, bitpos, b) s2.
            if bitpos = 35 \<and> b AND 0x70 \<noteq> 0 then i_error s2 ''varint overflow''
            else (Inr result, s2))) ((cs @ [z]) @ []) ?v"
      by (rule parses_dbind [OF loop]) (simp only: prod.case fin if_False parses_return)
    then have "parses rd content pb_decode_varint32 (b # cs @ [z]) ?v"
      unfolding pb_decode_varint32_dbind [abs_def] by (intro parses_step) (simp add: b)
    then show ?thesis using bs(1) Cons by simp
  qed
qed

lemma varint32_parses: "n < 2 ^ 32 \<Longrightarrow> parses rd content pb_decode_varint32 (varint_bytes n) (of_nat n)"
  using varint32_group_parses [OF is_varint_varint_bytes, of n] length_varint_bytes [of n 5]
  by (simp add: group_value_varint_bytes)

lemma read1_parses: "parses rd content read1 [b] b"
proof -
  have "parses rd content (\<lambda>s. dbind (pb_read s 1)
      (\<lambda>bs s. case bs of [] \<Rightarrow> (Inl Undef, s) | b # _ \<Rightarrow> (Inr b, s))) ([b] @ []) b"
    by (rule parses_dbind [OF read_parses]) (simp_all add: parses_return)
  then show ?thesis by (simp add: read1_def [abs_def])
qed

lemma read1_within:
  assumes "within rd content s" "read1 s = (Inl st, s1)"
  shows "st = Fail \<and> within rd content s1 \<and> kept content s s1"
proof (cases "bytes_left s < 1")
  case True
  then show ?thesis using assms by (auto simp: read1_def pb_read_def i_error_def)
next
  case False
  then have "unat (1 :: u64) \<le> unat (bytes_left s)" by (simp add: word_less_nat_alt)
  moreover have "unat (1 :: u64) \<le> length (avail content s)"
    using calculation assms(1) by (simp add: within_def)
  ultimately obtain s2 where "pb_read s 1 = (Inr (take 1 (avail content s)), s2)"
    using read_within [of s 1] assms(1) by (auto simp: within_def)
  moreover have "take 1 (avail content s) \<noteq> []"
    using \<open>unat (1 :: u64) \<le> length (avail content s)\<close> by auto
  ultimately show ?thesis using assms(2) by (auto simp: read1_def split: list.splits)
qed

lemma ends_well_read1:
  assumes "within rd content s"
  shows "ends_well rd content s (read1 s)"
proof (cases "read1 s")
  case (Pair x s1)
  show ?thesis
  proof (cases x)
    case (Inl st)
    then show ?thesis using read1_within [OF assms] Pair by simp
  next
    case (Inr b)
    have "safe rd content (\<lambda>s. dbind (pb_read s 1) (\<lambda>bs s. (Inr bs, s)))"
      by (rule safe_dbind [OF read_safe safe_return])
    moreover obtain bs where "pb_read s 1 = (Inr bs, s1)"
      using Pair Inr by (cases "pb_read s 1"; cases "fst (pb_read s 1)")
        (auto simp: read1_def split: list.splits)
    ultimately show ?thesis using safeD [OF read_safe [of 1] assms] Pair Inr by simp
  qed
qed

lemma skip_varint_parses: "is_varint bs \<Longrightarrow> parses rd content pb_skip_varint bs ()"
proof (induction bs)
  case (Cons b bs)
  have "parses rd content (\<lambda>s. if b AND 0x80 \<noteq> 0 then pb_skip_varint s else (Inr (), s)) bs ()"
    using Cons parses_return by (auto simp: cont_iff split: if_splits)
  from parses_dbind [where k = "\<lambda>b s. if b AND 0x80 \<noteq> 0 then pb_skip_varint s else (Inr (), s)",
      OF read1_parses [of b] this]
  show ?case by (simp add: pb_skip_varint_dbind [abs_def])
qed simp

lemma skip_varint_safe: "safe rd content pb_skip_varint"
proof (rule safeI)
  fix s assume "within rd content s"
  then show "ends_well rd content s (pb_skip_varint s)"
  proof (induction s rule: pb_skip_varint.induct)
    case (1 s)
    show ?case
      by (subst pb_skip_varint_dbind, rule ends_well_dbind [OF ends_well_read1 [OF 1(2)]])
         (use 1(1) in \<open>auto\<close>)
  qed
qed

text \<open>A length-delimited payload, read by its length.\<close>

lemma length_word:
  assumes "length bs < 2 ^ 32"
  shows "unat (ucast (of_nat (length bs) :: u32) :: u64) = length bs"
  using assms by (simp add: unat_ucast_up unat_of_nat_lt)

lemma skip_string_parses:
  "length bs < 2 ^ 32 \<Longrightarrow> parses rd content pb_skip_string (string_bytes bs) ()"
  unfolding pb_skip_string_def [abs_def] string_bytes_def
  by (rule parses_dbind [OF varint32_parses]) (simp_all add: read_null_parses length_word)

lemma skip_string_safe: "safe rd content pb_skip_string"
  unfolding pb_skip_string_def [abs_def] by (rule safe_dbind [OF varint32_safe read_null_safe])

end

text \<open>The shifts of \<open>pb_decode_fixed32\<close> and \<open>pb_decode_fixed64\<close>.\<close>

lemma le_word_nth4:
  assumes "length bs = 4"
  shows "le_word bs = push_bit 0 (ucast (bs ! 0)) OR push_bit 8 (ucast (bs ! 1)) OR
    push_bit 16 (ucast (bs ! 2)) OR (push_bit 24 (ucast (bs ! 3)) :: 'a::len word)"
proof -
  obtain a b c d where "bs = [a, b, c, d]"
    using assms by (auto simp: eval_nat_numeral length_Suc_conv)
  then show ?thesis by (simp add: push_bit_or push_bit_push_bit del: push_bit_numeral)
qed

lemma le_word_nth8:
  assumes "length bs = 8"
  shows "le_word bs = push_bit 0 (ucast (bs ! 0)) OR push_bit 8 (ucast (bs ! 1)) OR
    push_bit 16 (ucast (bs ! 2)) OR push_bit 24 (ucast (bs ! 3)) OR
    push_bit 32 (ucast (bs ! 4)) OR push_bit 40 (ucast (bs ! 5)) OR
    push_bit 48 (ucast (bs ! 6)) OR (push_bit 56 (ucast (bs ! 7)) :: 'a::len word)"
proof -
  obtain a b c d e f g h where "bs = [a, b, c, d, e, f, g, h]"
    using assms by (auto simp: eval_nat_numeral length_Suc_conv)
  then show ?thesis by (simp add: push_bit_or push_bit_push_bit)
qed

lemma unzigzag_zigzag:
  fixes v :: u64
  defines "w \<equiv> if v <s 0 then NOT (push_bit 1 v) else push_bit 1 v"
  shows "(if w AND 1 \<noteq> 0 then NOT (drop_bit 1 w) else drop_bit 1 w) = v"
proof -
  have top: "v <s 0 \<longleftrightarrow> bit v 63" using bit_last_iff [of v] by (simp add: word_sless_alt)
  have odd: "w AND 1 \<noteq> 0 \<longleftrightarrow> bit w 0" by (simp add: and_one_eq bit_0 odd_iff_mod_2_eq_one)
  have low: "bit w 0 \<longleftrightarrow> v <s 0"
    by (cases "v <s 0") (simp_all only: w_def if_True if_False bit_not_iff bit_push_bit_iff, simp_all)
  have "(if v <s 0 then NOT (drop_bit 1 w) else drop_bit 1 w) = v"
  proof (rule bit_word_eqI)
    fix k assume k: "k < LENGTH(64)"
    then have "k = 63 \<or> k < 63" by auto
    moreover have "bit w (1 + k) \<longleftrightarrow> k < 63 \<and> (bit v k \<noteq> (v <s 0))"
      by (cases "v <s 0") (simp_all only: w_def if_True if_False bit_not_iff bit_push_bit_iff
          possible_bit_word, auto)
    ultimately show "bit (if v <s 0 then NOT (drop_bit 1 w) else drop_bit 1 w) k = bit v k"
      using top k by (auto simp: bit_not_iff bit_drop_bit_eq)
  qed
  then show ?thesis by (simp only: odd low)
qed

text \<open>The payloads a decoder can take: lengths are read as 32-bit varints.\<close>

fun small :: "wire_value \<Rightarrow> bool" where
  "small (VBytes bs) = (length bs < 2 ^ 32)"
| "small _ = True"

context input_source
begin

lemma skip_field_parses:
  "small v \<Longrightarrow> parses rd content (\<lambda>s. pb_skip_field s (value_wt v)) (payload_bytes v) ()"
  by (cases v) (simp_all add: pb_skip_field_def skip_varint_parses is_varint_varint_bytes
      read_null_parses skip_string_parses)

lemma skip_field_safe: "safe rd content (\<lambda>s. pb_skip_field s wt)"
  by (cases wt) (simp_all add: pb_skip_field_def skip_varint_safe read_null_safe
      skip_string_safe safe_error)

lemma svarint_parses: "parses rd content pb_decode_svarint (varint_bytes (zigzag (sint v))) v"
proof -
  let ?w = "if v <s 0 then NOT (push_bit 1 v) else push_bit 1 v"
  have w: "(if ?w AND 1 \<noteq> 0 then NOT (drop_bit 1 ?w) else drop_bit 1 ?w) = v"
    by (rule unzigzag_zigzag)
  have "parses rd content pb_decode_svarint (varint_bytes (unat ?w) @ []) v"
    unfolding pb_decode_svarint_def [abs_def]
    by (rule parses_dbind [OF varint_parses]) (simp only: w parses_return)
  then show ?thesis by (simp only: unat_zigzag_word zigzag_def append_Nil2)
qed

lemma svarint_safe: "safe rd content pb_decode_svarint"
  unfolding pb_decode_svarint_def [abs_def] by (rule safe_dbind [OF varint_safe safe_return])

lemma fixed32_parses: "parses rd content pb_decode_fixed32 (le_bytes 4 v) v"
proof -
  have w: "le_word (le_bytes 4 v) = v" by (rule le_word_le_bytes) simp
  have "parses rd content pb_decode_fixed32 (le_bytes 4 v @ []) v"
    unfolding pb_decode_fixed32_def [abs_def]
    by (rule parses_dbind [OF read_parses]) (simp_all only: length_le_bytes less_irrefl if_False
        le_word_nth4 [symmetric] w parses_return, simp_all)
  then show ?thesis by simp
qed

lemma read_length:
  assumes "within rd content s" "pb_read s n = (Inr bs, s1)"
  shows "length bs = unat n"
proof -
  have "\<not> bytes_left s < n" using assms(2) by (auto simp: pb_read_def i_error_def split: if_splits)
  then have "unat n \<le> unat (bytes_left s)" by (simp add: word_less_nat_alt)
  then show ?thesis using read_within [of s n] assms by (auto simp: within_def)
qed

lemma fixed32_safe: "safe rd content pb_decode_fixed32"
  unfolding pb_decode_fixed32_def [abs_def]
  by (rule safeI, rule ends_well_dbind [OF safeD [OF read_safe]], assumption)
     (auto dest: read_length)

lemma fixed64_safe: "safe rd content pb_decode_fixed64"
  unfolding pb_decode_fixed64_def [abs_def]
  by (rule safeI, rule ends_well_dbind [OF safeD [OF read_safe]], assumption)
     (auto dest: read_length)

lemma fixed64_parses: "parses rd content pb_decode_fixed64 (le_bytes 8 v) v"
proof -
  have w: "le_word (le_bytes 8 v) = v" by (rule le_word_le_bytes) simp
  have "parses rd content pb_decode_fixed64 (le_bytes 8 v @ []) v"
    unfolding pb_decode_fixed64_def [abs_def]
    by (rule parses_dbind [OF read_parses]) (simp_all only: length_le_bytes less_irrefl if_False
        le_word_nth8 [symmetric] w parses_return, simp_all)
  then show ?thesis by simp
qed

end

lemma wire_type_of_value [simp]: "wire_type_of (wire_type_code (value_wt v)) = value_wt v"
  by (cases v) (simp_all add: wire_type_of_def)

lemma eof_False: "fst (pb_decode_varint32_eof s) = (Inr v, s1) \<Longrightarrow> \<not> snd (pb_decode_varint32_eof s)"
  by (auto simp: pb_decode_varint32_eof_def split: prod.splits sum.splits)

text \<open>The tag word, taken apart.\<close>

lemma tag_word:
  assumes "unat t < 2 ^ 29"
  shows "tag_number t (value_wt v) < 2 ^ 32"
    "wire_type_of (of_nat (tag_number t (value_wt v)) AND 7) = value_wt v"
    "drop_bit 3 (of_nat (tag_number t (value_wt v)) :: u32) = t"
    "of_nat (tag_number t (value_wt v)) = (0 :: u32) \<longleftrightarrow> t = 0 \<and> value_wt v = PB_WT_VARINT"
proof -
  let ?n = "tag_number t (value_wt v)" and ?c = "wire_type_code (value_wt v)"
  have c: "unat ?c < 8" by simp
  show n: "?n < 2 ^ 32" using assms c by (simp add: tag_number_def del: wire_type_code_small)
  then have u: "unat (of_nat ?n :: u32) = ?n" by (simp add: unat_of_nat_lt)
  have m: "?n mod 8 = unat ?c" "?n div 8 = unat t"
    using c by (simp_all add: tag_number_def del: wire_type_code_small)
  have power3_8: "(2 :: nat) ^ 3 = 8" by simp
  have "(of_nat ?n :: u32) AND 7 = take_bit 3 (of_nat ?n)"
    by (simp add: take_bit_eq_mask mask_eq_exp_minus_1)
  moreover have "unat (take_bit 3 (of_nat ?n :: u32)) = unat ?c"
    by (subst unsigned_take_bit_eq) (simp only: u m take_bit_eq_mod power3_8)
  ultimately have "(of_nat ?n :: u32) AND 7 = ?c" by (simp only: word_unat_eq_iff)
  then show "wire_type_of (of_nat ?n AND 7) = value_wt v" by simp
  have "unat (drop_bit 3 (of_nat ?n :: u32)) = unat t"
    by (simp only: unat_drop_bit u m power3_8)
  then show "drop_bit 3 (of_nat ?n :: u32) = t" by (rule word_unat_eq_iff [THEN iffD2])
  have "of_nat ?n = (0 :: u32) \<longleftrightarrow> ?n = 0" by (simp only: word_unat_eq_iff u unsigned_0)
  also have "\<dots> \<longleftrightarrow> t = 0 \<and> ?c = 0" by (simp add: tag_number_def unat_eq_0)
  also have "?c = 0 \<longleftrightarrow> value_wt v = PB_WT_VARINT" by (cases v) simp_all
  finally show "of_nat ?n = (0 :: u32) \<longleftrightarrow> t = 0 \<and> value_wt v = PB_WT_VARINT" .
qed

context input_source
begin

lemma tag_reads:
  assumes "unat t < 2 ^ 29" "t \<noteq> 0" "sourced rd s"
    "take (length (tag_bytes t (value_wt v))) (avail content s) = tag_bytes t (value_wt v)"
    "length (tag_bytes t (value_wt v)) \<le> unat (bytes_left s)"
  shows "\<exists>s'. pb_decode_tag s = ((Inr (value_wt v, t), s'), False)
    \<and> advanced rd content s (length (tag_bytes t (value_wt v))) s' \<and> ierrmsg s' = ierrmsg s"
proof -
  note w = tag_word [OF assms(1), of v]
  let ?n = "tag_number t (value_wt v)"
  obtain s' where s': "pb_decode_varint32 s = (Inr (of_nat ?n), s')"
    "advanced rd content s (length (tag_bytes t (value_wt v))) s'" "ierrmsg s' = ierrmsg s"
    using varint32_parses [OF w(1)] assms unfolding tag_bytes_def parses_def by blast
  then have "pb_decode_varint32_eof s = ((Inr (of_nat ?n), s'), False)"
    using eof_False [of s] by (cases "pb_decode_varint32_eof s") (simp add: pb_decode_varint32_def)
  moreover have "of_nat ?n \<noteq> (0 :: u32)" using w(4) assms(2) by simp
  ultimately show ?thesis
    using s'(2,3) w(2,3) by (simp add: pb_decode_tag_def del: of_nat_mult of_nat_add)
qed

lemma tag_safe: "safe rd content (\<lambda>s. fst (pb_decode_tag s))"
proof -
  have "(\<lambda>s :: 's pb_istream. fst (pb_decode_tag s)) =
      (\<lambda>s. dbind (pb_decode_varint32 s) (\<lambda>temp s. if temp = 0 then (Inl Fail, s)
        else (Inr (wire_type_of (temp AND 7), drop_bit 3 temp), s)))"
    by (simp add: fun_eq_iff pb_decode_tag_def pb_decode_varint32_def dbind_def
        split: prod.splits sum.splits)
  moreover have "safe rd content (\<lambda>s :: 's pb_istream. (Inl Fail :: status + 'c, s))"
    by (rule safeI) simp
  ultimately show ?thesis
    by (simp only:) (intro safe_dbind varint32_safe safe_if safe_return)
qed

end

section \<open>Reading through a substream\<close>

text \<open>
  How \<open>pb_dec_submessage\<close> and \<open>pb_decode_delimited\<close> use a substream: open it, decode in
  it, close it.
\<close>

definition in_substream ::
    "('s pb_istream \<Rightarrow> (status + 'a) \<times> 's pb_istream) \<Rightarrow> 's pb_istream \<Rightarrow> (status + 'a) \<times> 's pb_istream" where
  "in_substream d s =
     dbind (pb_make_string_substream s) (\<lambda>sub s.
       case d sub of
         (Inl st, _) \<Rightarrow> (Inl st, s)
       | (Inr v, sub') \<Rightarrow> dbind (pb_close_string_substream s sub') (\<lambda>_ s. (Inr v, s)))"

text \<open>The part after the length.\<close>

definition substream_body ::
    "('s pb_istream \<Rightarrow> (status + 'a) \<times> 's pb_istream) \<Rightarrow> u32 \<Rightarrow> 's pb_istream \<Rightarrow> (status + 'a) \<times> 's pb_istream" where
  "substream_body d n s =
     (if bytes_left s < ucast n then i_error s ''parent stream too short''
      else case d (s\<lparr>bytes_left := ucast n\<rparr>) of
          (Inl st, _) \<Rightarrow> (Inl st, s\<lparr>bytes_left := bytes_left s - ucast n\<rparr>)
        | (Inr v, sub') \<Rightarrow>
            dbind (pb_close_string_substream (s\<lparr>bytes_left := bytes_left s - ucast n\<rparr>) sub')
              (\<lambda>_ s. (Inr v, s)))"

lemma in_substream_eq:
  "in_substream d s = dbind (pb_decode_varint32 s) (\<lambda>n. substream_body d n)"
proof -
  have "dbind (if bytes_left s < ucast n then i_error s ''parent stream too short''
       else (Inr (s\<lparr>bytes_left := ucast n\<rparr>), s\<lparr>bytes_left := bytes_left s - ucast n\<rparr>))
      (\<lambda>sub s. case d sub of (Inl st, _) \<Rightarrow> (Inl st, s)
       | (Inr v, sub') \<Rightarrow> dbind (pb_close_string_substream s sub') (\<lambda>_ s. (Inr v, s))) =
    substream_body d n s" for n s
    by (simp add: substream_body_def i_error_def)
  then show ?thesis
    by (simp add: in_substream_def pb_make_string_substream_def dbind_assoc)
qed

context input_source
begin

text \<open>
  A successful decoder leaves a substream from which closing goes on to the end of the
  substream's bytes.
\<close>

lemma substream_body_Inr:
  assumes "sourced rd s" "unat (ucast n :: u64) \<le> unat (bytes_left s)"
    "unat (ucast n :: u64) \<le> length (avail content s)"
    "d (s\<lparr>bytes_left := ucast n\<rparr>) = (Inr v, sub')"
    "advanced rd content (s\<lparr>bytes_left := ucast n\<rparr>) k sub'"
  shows "\<exists>s'. substream_body d n s = (Inr v, s') \<and> ierrmsg s' = ierrmsg sub'
    \<and> advanced rd content s (unat (ucast n :: u64)) s'"
proof -
  let ?n = "unat (ucast n :: u64)"
  let ?s1 = "s\<lparr>bytes_left := bytes_left s - ucast n\<rparr>"
  have nlt: "\<not> bytes_left s < ucast n" using assms(2) by (simp add: word_less_nat_alt)
  have left: "unat (bytes_left sub') = ?n - k" "k \<le> ?n"
    using unat_bytes_left_advanced [OF assms(5)] assms(5) by (simp_all add: advanced_def)
  have av: "avail content sub' = drop k (avail content s)" "sourced rd sub'"
    using assms(5) by (simp_all add: advanced_def avail_def)
  have "\<exists>sub''. (if bytes_left sub' \<noteq> 0 then pb_read_null sub' (bytes_left sub') else (Inr (), sub'))
      = (Inr (), sub'') \<and> advanced rd content sub' (?n - k) sub'' \<and> ierrmsg sub'' = ierrmsg sub'"
  proof (cases "bytes_left sub' = 0")
    case True
    then show ?thesis using left av advanced_refl [of rd sub'] by simp
  next
    case False
    let ?b = "take (?n - k) (avail content sub')"
    have "length ?b = ?n - k" using av(1) assms(3) left(2) by simp
    then show ?thesis
      using False read_null_parses [of "bytes_left sub'" ?b] left av(2)
      unfolding parses_def by auto
  qed
  then obtain sub'' where sub'':
    "(if bytes_left sub' \<noteq> 0 then pb_read_null sub' (bytes_left sub') else (Inr (), sub')) = (Inr (), sub'')"
    "advanced rd content sub' (?n - k) sub''" "ierrmsg sub'' = ierrmsg sub'" by blast
  let ?s' = "?s1\<lparr>source := source sub'', ierrmsg := ierrmsg sub''\<rparr>"
  have "substream_body d n s = (Inr v, ?s')"
    using nlt assms(4) by (simp add: substream_body_def pb_close_string_substream_def sub''(1))
  moreover have "advanced rd content s ?n ?s'"
    using sub''(2) av(1) left(2) assms(2) by (simp add: advanced_def sourced_def avail_def)
  ultimately show ?thesis using sub''(3) by auto
qed

lemma substream_parses:
  assumes d: "parses rd content d bs v" and len: "length (bs @ junk) < 2 ^ 32"
  shows "parses rd content (in_substream d) (string_bytes (bs @ junk)) v"
proof -
  let ?n = "of_nat (length (bs @ junk)) :: u32"
  have n: "unat (ucast ?n :: u64) = length (bs @ junk)" using len by (rule length_word)
  have "parses rd content (substream_body d ?n) (bs @ junk) v"
    unfolding parses_def
  proof (intro allI impI, elim conjE)
    fix s assume s: "sourced rd s" and t: "take (length (bs @ junk)) (avail content s) = bs @ junk"
      and l: "length (bs @ junk) \<le> unat (bytes_left s)"
    let ?sub = "s\<lparr>bytes_left := ucast ?n\<rparr>"
    have "sourced rd ?sub" "avail content ?sub = avail content s" "ierrmsg ?sub = ierrmsg s"
      "bytes_left ?sub = ucast ?n"
      using s by (simp_all add: sourced_def avail_def)
    moreover have "take (length bs) (avail content s) = bs"
      using t by (metis append_eq_conv_conj length_append min.absorb1 le_add1 take_take)
    ultimately obtain sub' where sub': "d ?sub = (Inr v, sub')"
      "advanced rd content ?sub (length bs) sub'" "ierrmsg sub' = ierrmsg s"
      using d n unfolding parses_def by (metis le_add1 length_append)
    have "unat (ucast ?n :: u64) \<le> length (avail content s)"
      using t n by (metis length_take min.cobounded1)
    then show "\<exists>s'. substream_body d ?n s = (Inr v, s')
        \<and> advanced rd content s (length (bs @ junk)) s' \<and> ierrmsg s' = ierrmsg s"
      using substream_body_Inr [of s ?n d v sub' "length bs"] s sub' n l by auto
  qed
  then show ?thesis
    unfolding in_substream_eq [abs_def] string_bytes_def
    by (rule parses_dbind [OF varint32_parses [OF len]])
qed

lemma substream_safe:
  assumes d: "safe rd content d"
  shows "safe rd content (in_substream d)"
proof -
  have "safe rd content (substream_body d n)" for n
  proof (rule safeI)
    fix s assume w: "within rd content s"
    let ?sub = "s\<lparr>bytes_left := ucast n\<rparr>"
    show "ends_well rd content s (substream_body d n s)"
    proof (cases "bytes_left s < ucast n")
      case True
      then show ?thesis using w by (simp add: substream_body_def)
    next
      case False
      then have n: "unat (ucast n :: u64) \<le> unat (bytes_left s)" by (simp add: word_less_nat_alt)
      then have le: "unat (ucast n :: u64) \<le> length (avail content s)" using w by (simp add: within_def)
      have "within rd content ?sub" using w le by (simp add: within_def sourced_def avail_def)
      then have e: "ends_well rd content ?sub (d ?sub)" by (rule safeD [OF d])
      obtain r sub' where r: "d ?sub = (r, sub')" by fastforce
      show ?thesis
      proof (cases r)
        case (Inl st)
        have "unat (bytes_left s - ucast n) \<le> unat (bytes_left s)"
          using n by (simp add: unat_sub word_le_nat_alt)
        then have "within rd content (s\<lparr>bytes_left := bytes_left s - ucast n\<rparr>)"
          using w by (simp add: within_def sourced_def avail_def)
        moreover have "kept content s (s\<lparr>bytes_left := bytes_left s - ucast n\<rparr>)"
          using \<open>unat (bytes_left s - ucast n) \<le> unat (bytes_left s)\<close>
          by (simp add: kept_def avail_def)
        ultimately show ?thesis using False r Inl e by (simp add: substream_body_def)
      next
        case (Inr v)
        then obtain k where "advanced rd content ?sub k sub'" using e r by auto
        then show ?thesis
          using substream_body_Inr [of s n d v sub' k] w n le r Inr within_advanced [OF w]
          by (auto simp: within_def)
      qed
    qed
  qed
  then show ?thesis
    unfolding in_substream_eq [abs_def] by (intro safe_dbind varint32_safe)
qed

end

text \<open>Ten continuation bytes overflow \<open>pb_decode_varint\<close>.\<close>

context input_source
begin

lemma varint64_loop_overflow:
  assumes "\<forall>b\<in>set bs. 128 \<le> unat b" "unat p = 7 * k" "k + length bs = 10"
    "sourced rd s" "take (length bs) (avail content s) = bs" "length bs \<le> unat (bytes_left s)"
  shows "fst (varint64_loop s p r) = Inl Fail"
  using assms
proof (induction bs arbitrary: s p k r)
  case Nil
  then have "64 \<le> p" by (simp add: word_le_nat_alt)
  then show ?case by (simp add: varint64_loop.simps [of s] i_error_def)
next
  case (Cons b bs)
  have "unat p < 64" using Cons.prems by simp
  then have p: "\<not> 64 \<le> p" by (simp add: word_le_nat_alt)
  have b: "b AND 0x80 \<noteq> 0" using Cons.prems(1) by (simp add: cont_iff)
  have ne: "avail content s \<noteq> []" "hd (avail content s) = b"
    using Cons.prems(5) by (cases "avail content s"; simp)+
  moreover have "bytes_left s \<noteq> 0" using Cons.prems(6) by auto
  ultimately obtain s1 where s1: "pb_readbyte s = (Inr b, s1)" "advanced rd content s 1 s1"
    using readbyte_within [OF Cons.prems(4)] by blast
  have av: "avail content s1 = tl (avail content s)" "sourced rd s1"
    using s1(2) by (simp_all add: advanced_def drop_Suc)
  have "fst (varint64_loop s1 (p + 7) (r OR push_bit (unat p) (ucast (b AND 0x7F)))) = Inl Fail"
  proof (rule Cons.IH [where k = "Suc k"])
    show "unat (p + 7) = 7 * Suc k" using Cons.prems by (intro unat_bitpos_step) simp_all
    show "take (length bs) (avail content s1) = bs"
      using Cons.prems(5) ne(1) av(1) by (cases "avail content s") simp_all
    show "length bs \<le> unat (bytes_left s1)"
      using unat_bytes_left_advanced [OF s1(2)] Cons.prems(6) by simp
  qed (use Cons.prems av in simp_all)
  then show ?case using s1(1) b by (simp add: varint64_loop_dbind [OF p])
qed

end

end
