(* ===== verification/PbDecProps.thy ===== *)
theory PbDecProps
  imports PbEncodeProps PbDecPrim
begin

text \<open>
  The properties of the wire-level readers: they read back what the encoders write, they
  are safe on any bytes, and where \<open>pb_decode_varint32\<close> does not check what it means to.
\<close>

section \<open>Round trips through a buffer\<close>

abbreviation mem_parses :: "(u8 list pb_istream \<Rightarrow> (status + 'a) \<times> u8 list pb_istream) \<Rightarrow> u8 list \<Rightarrow> 'a \<Rightarrow> bool" where
  "mem_parses \<equiv> parses buf_read (\<lambda>bs. bs)"

abbreviation memory_istream :: "u8 list \<Rightarrow> u64 \<Rightarrow> u8 list pb_istream" where
  "memory_istream \<equiv> pb_istream_from_buffer"

text \<open>The bytes a stream on memory has not read yet.\<close>

abbreviation unread :: "u8 list pb_istream \<Rightarrow> u8 list" where
  "unread \<equiv> avail (\<lambda>bs. bs)"

lemma from_buffer_simps [simp]:
  "sourced buf_read (memory_istream bs n)" "unread (memory_istream bs n) = bs"
  "bytes_left (memory_istream bs n) = n" "ierrmsg (memory_istream bs n) = None"
  by (simp_all add: pb_istream_from_buffer_def sourced_def avail_def)

lemma parses_buffer:
  assumes "mem_parses d bs v" "length bs \<le> unat n"
  shows "\<exists>s'. d (memory_istream (bs @ rest) n) = (Inr v, s') \<and> unread s' = rest
    \<and> bytes_left s' = n - of_nat (length bs)"
  using assms unfolding parses_def
  by (auto simp: advanced_def dest!: spec [of _ "memory_istream (bs @ rest) n"])

lemma roundtrip:
  assumes e: "conforms buf_write out_bytes out_rest e (Ok, bs)" and d: "mem_parses d bs v"
    and room: "length bs \<le> unat n" "unat n \<le> length buf" "unat n < 2 ^ 63"
  shows "\<exists>s s'. e (pb_ostream_from_buffer buf n) = (Ok, s)
    \<and> d (memory_istream (out_bytes (state s)) (bytes_written s)) = (Inr v, s')
    \<and> bytes_left s' = 0"
proof -
  obtain s where s: "e (pb_ostream_from_buffer buf n) = (Ok, s)" "written buf bs s"
    using conforms_buffer [OF e room] by blast
  have l: "unat (of_nat (length bs) :: u64) = length bs" using room by (simp add: unat_of_nat_lt)
  show ?thesis
    using s parses_buffer [OF d, of "of_nat (length bs)" "[]"] l by (auto simp: written_def)
qed

text \<open>
  C34: Every 64-bit value survives \<open>pb_encode_varint\<close> and \<open>pb_decode_varint\<close>, in at most ten
  bytes.
\<close>

theorem varint_roundtrip:
  assumes "10 \<le> unat n" "unat n \<le> length buf" "unat n < 2 ^ 63"
  shows "\<exists>s s'. pb_encode_varint (pb_ostream_from_buffer buf n) v = (Ok, s) \<and> bytes_written s \<le> 10
    \<and> pb_decode_varint (memory_istream (out_bytes (state s)) (bytes_written s)) = (Inr v, s')
    \<and> bytes_left s' = 0"
proof -
  let ?bs = "varint_bytes (unat v)"
  have l: "length ?bs \<le> 10" by (rule length_varint_bytes_u64)
  then have room: "length ?bs \<le> unat n" using assms(1) by simp
  obtain s s' where s: "pb_encode_varint (pb_ostream_from_buffer buf n) v = (Ok, s)"
    "pb_decode_varint (memory_istream (out_bytes (state s)) (bytes_written s)) = (Inr v, s')"
    "bytes_left s' = 0"
    using roundtrip [OF buf.varint_conforms memory.varint_parses room assms(2,3)] by blast
  obtain s1 where "pb_encode_varint (pb_ostream_from_buffer buf n) v = (Ok, s1)" "written buf ?bs s1"
    using conforms_buffer [OF buf.varint_conforms room assms(2,3)] by blast
  then have "bytes_written s = of_nat (length ?bs)" using s(1) by (simp add: written_def)
  moreover have "of_nat (length ?bs) \<le> (10 :: u64)"
    using l by (simp add: word_le_nat_alt unat_of_nat_lt)
  ultimately show ?thesis using s by auto
qed

text \<open>The largest value.\<close>

theorem varint_roundtrip_witness:
  "\<exists>s s'. pb_encode_varint (pb_ostream_from_buffer [0, 0, 0, 0, 0, 0, 0, 0, 0, 0] 10) (- 1) = (Ok, s)
    \<and> bytes_written s \<le> 10
    \<and> pb_decode_varint (memory_istream (out_bytes (state s)) (bytes_written s)) = (Inr (- 1), s')
    \<and> bytes_left s' = 0"
  by (rule varint_roundtrip) simp_all

text \<open>So does every signed 64-bit value through the zigzag encoding.\<close>

theorem svarint_roundtrip:
  assumes "10 \<le> unat n" "unat n \<le> length buf" "unat n < 2 ^ 63"
  shows "\<exists>s s'. pb_encode_svarint (pb_ostream_from_buffer buf n) v = (Ok, s)
    \<and> written buf (varint_bytes (zigzag (sint v))) s
    \<and> pb_decode_svarint (memory_istream (out_bytes (state s)) (bytes_written s)) = (Inr v, s')
    \<and> bytes_left s' = 0"
proof -
  let ?bs = "varint_bytes (zigzag (sint v))"
  have "length ?bs \<le> 10"
    using length_varint_bytes_u64 [of "zigzag_word v"] by simp
  then have room: "length ?bs \<le> unat n" using assms(1) by simp
  show ?thesis
    using roundtrip [OF buf.svarint_conforms memory.svarint_parses room assms(2,3)]
      conforms_buffer [OF buf.svarint_conforms [of v] room assms(2,3)] by auto
qed

theorem svarint_roundtrip_witness:
  "\<exists>s s'. pb_encode_svarint (pb_ostream_from_buffer [0, 0, 0, 0, 0, 0, 0, 0, 0, 0] 10) (- 3) = (Ok, s)
    \<and> written [0, 0, 0, 0, 0, 0, 0, 0, 0, 0] (varint_bytes (zigzag (sint (- 3 :: u64)))) s
    \<and> pb_decode_svarint (memory_istream (out_bytes (state s)) (bytes_written s)) = (Inr (- 3), s')
    \<and> bytes_left s' = 0"
  by (rule svarint_roundtrip) simp_all

text \<open>
  \<open>pb_encode_fixed32\<close> and \<open>pb_encode_fixed64\<close> write the value at the given address in
  little-endian order, and the decoders read it back.
\<close>

theorem fixed_roundtrip:
  assumes "8 \<le> unat n" "unat n \<le> length buf" "unat n < 2 ^ 63"
  shows "(\<exists>s s'. pb_encode_fixed32 m (pb_ostream_from_buffer buf n) p = (Ok, s)
      \<and> written buf (load_bytes m p 4) s
      \<and> pb_decode_fixed32 (memory_istream (out_bytes (state s)) (bytes_written s)) = (Inr (load32 m p), s'))
    \<and> (\<exists>s s'. pb_encode_fixed64 m (pb_ostream_from_buffer buf n) p = (Ok, s)
      \<and> written buf (load_bytes m p 8) s
      \<and> pb_decode_fixed64 (memory_istream (out_bytes (state s)) (bytes_written s)) = (Inr (load64 m p), s'))"
proof -
  have r4: "length (le_bytes 4 (load32 m p)) \<le> unat n" and r8: "length (le_bytes 8 (load64 m p)) \<le> unat n"
    using assms(1) by simp_all
  have "le_bytes 4 (load32 m p) = load_bytes m p 4" "le_bytes 8 (load64 m p) = load_bytes m p 8"
    by (simp_all add: load32_def load64_def le_bytes_le_word)
  then show ?thesis
    using roundtrip [OF buf.fixed32_conforms memory.fixed32_parses r4 assms(2,3)]
      conforms_buffer [OF buf.fixed32_conforms [of m p] r4 assms(2,3)]
      roundtrip [OF buf.fixed64_conforms memory.fixed64_parses r8 assms(2,3)]
      conforms_buffer [OF buf.fixed64_conforms [of m p] r8 assms(2,3)] by auto
qed

theorem fixed_roundtrip_witness:
  "\<exists>s. pb_encode_fixed32 ex_mem (pb_ostream_from_buffer [0, 0, 0, 0, 0, 0, 0, 0] 8) 8 = (Ok, s)
    \<and> written [0, 0, 0, 0, 0, 0, 0, 0] (load_bytes ex_mem 8 4) s"
  using fixed_roundtrip [of 8 "[0, 0, 0, 0, 0, 0, 0, 0]" ex_mem 8] by auto

section \<open>Varints from any source\<close>

text \<open>
  \<open>pb_decode_varint\<close> on arbitrary bytes: a varint of at most ten bytes is read to its end
  and gives its base-128 value modulo \<open>2 ^ 64\<close>; after ten continuation bytes it fails.
\<close>

theorem decode_varint_any:
  assumes "unat n = length (bs @ rest)"
  shows "(is_varint bs \<and> length bs \<le> 10 \<longrightarrow>
      (\<exists>s'. pb_decode_varint (memory_istream (bs @ rest) n) = (Inr (of_nat (group_value bs)), s')
        \<and> unread s' = rest))
    \<and> (length bs = 10 \<and> (\<forall>b\<in>set bs. 128 \<le> unat b) \<longrightarrow>
      fst (pb_decode_varint (memory_istream (bs @ rest) n)) = Inl Fail)"
proof (intro conjI impI, elim conjE)
  assume "is_varint bs" "length bs \<le> 10"
  from parses_buffer [OF memory.varint_group_parses [OF this], of n rest] assms
  show "\<exists>s'. pb_decode_varint (memory_istream (bs @ rest) n) = (Inr (of_nat (group_value bs)), s')
      \<and> unread s' = rest" by auto
next
  assume *: "length bs = 10 \<and> (\<forall>b\<in>set bs. 128 \<le> unat b)"
  show "fst (pb_decode_varint (memory_istream (bs @ rest) n)) = Inl Fail"
    unfolding pb_decode_varint_def
    by (rule memory.varint64_loop_overflow [of bs 0 0]) (use * assms in simp_all)
qed

theorem decode_varint_any_witness:
  "\<exists>s'. pb_decode_varint (memory_istream ([0x96, 0x01] @ [7]) 3) = (Inr 150, s') \<and> unread s' = [7]"
  using decode_varint_any [of 3 "[0x96, 0x01]" "[7]"] by simp

text \<open>
  \<open>pb_decode_varint32\<close> reads every varint of at most five bytes whose value fits 32 bits,
  and in particular the encoding of every 32-bit value.
\<close>

theorem decode_varint32_fits:
  assumes "is_varint bs" "length bs \<le> 5" "group_value bs < 2 ^ 32" "unat n = length (bs @ rest)"
  shows "\<exists>s'. pb_decode_varint32 (memory_istream (bs @ rest) n) = (Inr (of_nat (group_value bs)), s')
    \<and> unread s' = rest"
  using parses_buffer [OF memory.varint32_group_parses [OF assms(1-3)], of n rest] assms(4) by auto

theorem decode_varint32_fits_witness:
  "\<exists>s'. pb_decode_varint32 (memory_istream ([0xFF, 0xFF, 0xFF, 0xFF, 0x0F] @ [7]) 6) = (Inr 0xFFFFFFFF, s')
    \<and> unread s' = [7]"
  using decode_varint32_fits [of "[0xFF, 0xFF, 0xFF, 0xFF, 0x0F]" 6 "[7]"] by simp

text \<open>
  The overflow check of \<open>pb_decode_varint32\<close> looks at the top bits of the fifth byte only
  when that is the last one: a varint of value \<open>2 ^ 35 - 1\<close>, written with a sixth byte of
  zero, is accepted as \<open>2 ^ 32 - 1\<close>, while with five bytes it is refused.
\<close>

theorem varint32_drops_high_bits:
  "group_value [0xFF, 0xFF, 0xFF, 0xFF, 0xFF, 0x00] = 2 ^ 35 - 1
    \<and> fst (pb_decode_varint32 (memory_istream [0xFF, 0xFF, 0xFF, 0xFF, 0xFF, 0x00] 6)) = Inr 0xFFFFFFFF
    \<and> group_value [0xFF, 0xFF, 0xFF, 0xFF, 0x7F] = 2 ^ 35 - 1
    \<and> fst (pb_decode_varint32 (memory_istream [0xFF, 0xFF, 0xFF, 0xFF, 0x7F] 5)) = Inl Fail"
proof -
  have "fst (pb_decode_varint32 (memory_istream [0xFF, 0xFF, 0xFF, 0xFF, 0xFF, 0x00] 6)) = Inr 0xFFFFFFFF"
    "fst (pb_decode_varint32 (memory_istream [0xFF, 0xFF, 0xFF, 0xFF, 0x7F] 5)) = Inl Fail"
    by code_simp+
  then show ?thesis by simp
qed

text \<open>
  \<open>bitpos\<close> wraps in \<open>pb_decode_varint32\<close>: after 37 bytes of 0x80 it is 3, and the next byte
  is taken as if it were near the start. The varint of value \<open>2 ^ 259\<close> is accepted as 8.
\<close>

theorem varint32_bitpos_wraps:
  "group_value (replicate 37 0x80 @ [0x01]) = 2 ^ 259
    \<and> fst (pb_decode_varint32 (memory_istream (replicate 37 0x80 @ [0x01]) 38)) = Inr 8"
proof -
  have "fst (pb_decode_varint32 (memory_istream (replicate 37 0x80 @ [0x01]) 38)) = Inr 8"
    by code_simp
  moreover have "group_value (replicate k 0x80 @ [0x01]) = 128 ^ k" for k
    by (induction k) simp_all
  ultimately show ?thesis by simp
qed

section \<open>Fields\<close>

text \<open>
  C30: On the encoding of a field, \<open>pb_decode_tag\<close> returns its number and wire type without
  setting \<open>eof\<close>, and \<open>pb_skip_field\<close> then consumes exactly its payload, whatever follows.
\<close>

theorem tag_then_skip:
  assumes "unat t < 2 ^ 29" "t \<noteq> 0" "small v" "unat n = length (field_bytes (t, v) @ rest)"
  shows "\<exists>s1 s2. pb_decode_tag (memory_istream (field_bytes (t, v) @ rest) n)
      = ((Inr (value_wt v, t), s1), False)
    \<and> pb_skip_field s1 (value_wt v) = (Inr (), s2) \<and> unread s2 = rest
    \<and> unat (bytes_left s2) = length rest"
proof -
  let ?s = "memory_istream (field_bytes (t, v) @ rest) n" and ?tb = "tag_bytes t (value_wt v)"
  have fb: "field_bytes (t, v) = ?tb @ payload_bytes v" by (simp add: field_bytes_def)
  have t: "take (length ?tb) (unread ?s) = ?tb" "length ?tb \<le> unat (bytes_left ?s)"
    using assms(4) by (simp_all add: fb)
  obtain s1 where s1: "pb_decode_tag ?s = ((Inr (value_wt v, t), s1), False)"
    "advanced buf_read (\<lambda>bs. bs) ?s (length ?tb) s1"
    using memory.tag_reads [OF assms(1,2) from_buffer_simps(1) t] by blast
  have av: "unread s1 = payload_bytes v @ rest" "sourced buf_read s1"
    using s1(2) by (simp_all add: advanced_def fb)
  have left: "unat (bytes_left s1) = length (payload_bytes v @ rest)"
    using unat_bytes_left_advanced [OF s1(2)] assms(4) by (simp add: fb)
  obtain s2 where s2: "pb_skip_field s1 (value_wt v) = (Inr (), s2)"
    "advanced buf_read (\<lambda>bs. bs) s1 (length (payload_bytes v)) s2"
    using memory.skip_field_parses [OF assms(3)] av left unfolding parses_def by fastforce
  have "unread s2 = rest" "unat (bytes_left s2) = length rest"
    using s2(2) av unat_bytes_left_advanced [OF s2(2)] left by (simp_all add: advanced_def)
  then show ?thesis using s1(1) s2(1) by blast
qed

theorem tag_then_skip_witness:
  "\<exists>s1 s2. pb_decode_tag (memory_istream ([18, 2, 5, 6] @ [8]) 5) = ((Inr (PB_WT_STRING, 2), s1), False)
    \<and> pb_skip_field s1 PB_WT_STRING = (Inr (), s2) \<and> unread s2 = [8] \<and> unat (bytes_left s2) = length [8 :: u8]"
proof -
  have b: "field_bytes (2, VBytes [5, 6]) = [18, 2, 5, 6]"
    by (simp add: field_bytes_def tag_bytes_def tag_number_def string_bytes_def varint_bytes.simps)
  show ?thesis
    using tag_then_skip [of 2 "VBytes [5, 6]" 5 "[8]"] unfolding b by simp
qed

text \<open>
  Decoding through a substream: if a decoder reads \<open>bs\<close> as \<open>v\<close>, then on a length prefix,
  \<open>bs\<close> and any junk within the length it returns \<open>v\<close> and the parent stream goes on just after
  the junk.
\<close>

theorem substream_decodes:
  assumes "mem_parses d bs v" "length (bs @ junk) < 2 ^ 32"
    "unat n = length (string_bytes (bs @ junk) @ rest)"
  shows "\<exists>s'. in_substream d (memory_istream (string_bytes (bs @ junk) @ rest) n) = (Inr v, s')
    \<and> unread s' = rest"
  using parses_buffer [OF memory.substream_parses [OF assms(1,2)], of n rest] assms(3) by auto

theorem substream_decodes_witness:
  "\<exists>s'. in_substream pb_decode_varint (memory_istream ([3, 0x96, 0x01, 9] @ [7]) 5) = (Inr 150, s')
    \<and> unread s' = [7]"
proof -
  have v: "varint_bytes (unat (150 :: u64)) = [0x96, 0x01]" by (simp add: varint_bytes.simps)
  have b: "string_bytes ([0x96, 0x01] @ [9]) = [3, 0x96, 0x01, 9]"
    by (simp add: string_bytes_def varint_bytes.simps)
  show ?thesis
    using substream_decodes [OF memory.varint_parses [of 150, unfolded v], of "[9]" 5 "[7]"]
    unfolding b by simp
qed

section \<open>Safety\<close>

text \<open>
  C31: On any bytes and through any well-behaved source, the readers of the wire format end
  within the stream: they do not read past the bytes that are there, fail only by returning
  false, and consume no more than the stream's limit.
\<close>

theorem readers_safe:
  assumes "input_source rd content" "within rd content s"
  shows "ends_well rd content s (pb_decode_varint s) \<and> ends_well rd content s (pb_decode_varint32 s)
    \<and> ends_well rd content s (pb_decode_svarint s) \<and> ends_well rd content s (pb_decode_fixed32 s)
    \<and> ends_well rd content s (pb_decode_fixed64 s) \<and> ends_well rd content s (fst (pb_decode_tag s))
    \<and> ends_well rd content s (pb_skip_field s wt)"
  using input_source.varint_safe [OF assms(1)] input_source.varint32_safe [OF assms(1)]
    input_source.svarint_safe [OF assms(1)] input_source.fixed32_safe [OF assms(1)]
    input_source.fixed64_safe [OF assms(1)] input_source.tag_safe [OF assms(1)]
    input_source.skip_field_safe [OF assms(1)] assms(2)
  by (simp add: safe_def)

theorem readers_safe_witness:
  "ends_well buf_read (\<lambda>bs. bs) (memory_istream [0xFF, 0x01] 2)
     (pb_skip_field (memory_istream [0xFF, 0x01] 2) PB_WT_STRING)"
proof -
  have "within buf_read (\<lambda>bs. bs) (memory_istream [0xFF, 0x01] 2)"
    by (simp add: within_def)
  from readers_safe [OF memory.input_source_axioms this] show ?thesis by blast
qed

text \<open>
  A safe decoder stays safe inside a substream, whatever length the stream announces: a
  length beyond the parent is refused, and the decoder never sees bytes past the substream.
\<close>

theorem substream_stays_safe:
  assumes "input_source rd content" "safe rd content d" "within rd content s"
  shows "ends_well rd content s (in_substream d s)"
  using input_source.substream_safe [OF assms(1,2)] assms(3) by (simp add: safe_def)

theorem substream_stays_safe_witness:
  "ends_well buf_read (\<lambda>bs. bs) (memory_istream [0xFF, 0x01] 2)
     (in_substream pb_decode_varint (memory_istream [0xFF, 0x01] 2))"
proof -
  have "within buf_read (\<lambda>bs. bs) (memory_istream [0xFF, 0x01] 2)"
    by (simp add: within_def)
  from substream_stays_safe [OF memory.input_source_axioms memory.varint_safe this] show ?thesis .
qed

end
