(* ===== verification/PbDecode.thy ===== *)
theory PbDecode
  imports PbCommon PbDecPrim
begin

text \<open>
  The message decoder of \<open>pb_decode.c\<close>, built with \<open>PB_ENABLE_MALLOC\<close>. Decoders work on an
  input stream and on the memory they store into: the flat byte memory and the live blocks
  of the C heap. Descriptor arrays and the functions behind function pointers are the fields
  of an environment, as in the encoder, and submessages go through an argument (\<open>rec\<close>) that
  \<open>pb_decode_noinit\<close> ties with fuel: one unit per level of nesting, and as many as the
  stream has bytes for the loops.
\<close>

section \<open>Memory and heap\<close>

record world =
  ram :: mem
  blocks :: "addr \<Rightarrow> u64 option"

type_synonym 's dstate = "'s pb_istream \<times> world"
type_synonym 's dec_func = "pb_field \<Rightarrow> addr \<Rightarrow> 's dstate \<Rightarrow> (status + unit) \<times> 's dstate"
type_synonym 's dmsg_func = "pb_field list \<Rightarrow> addr \<Rightarrow> 's dstate \<Rightarrow> (status + unit) \<times> 's dstate"

text \<open>
  \<open>malloc_at\<close> is the address the C library picks for a block of a size, \<open>0\<close> when it has
  none; \<open>local_slot n\<close> is where the activation of \<open>pb_decode_noinit\<close> with fuel \<open>n\<close> keeps
  its local variable \<open>fixed_count_size\<close>, whose address it hands out.
\<close>

record 's dec_env =
  dfields_at :: "addr \<Rightarrow> pb_field list"
  malloc_at :: "(addr \<Rightarrow> u64 option) \<Rightarrow> u64 \<Rightarrow> addr"
  local_slot :: "nat \<Rightarrow> addr"
  dfield_decoder :: "addr \<Rightarrow> 's dec_func"
  dext_decoder :: "addr \<Rightarrow> addr \<Rightarrow> u32 \<Rightarrow> pb_wire_type \<Rightarrow> 's dstate \<Rightarrow> (status + unit) \<times> 's dstate"

definition on_stream ::
    "('s pb_istream \<Rightarrow> (status + 'a) \<times> 's pb_istream) \<Rightarrow> 's dstate \<Rightarrow> (status + 'a) \<times> 's dstate" where
  "on_stream f \<sigma> = (case f (fst \<sigma>) of (r, s) \<Rightarrow> (r, s, snd \<sigma>))"

definition on_world :: "(world \<Rightarrow> status \<times> world) \<Rightarrow> 's dstate \<Rightarrow> (status + unit) \<times> 's dstate" where
  "on_world f \<sigma> =
     (case f (snd \<sigma>) of (st, w) \<Rightarrow> (if st = Ok then Inr () else Inl st, fst \<sigma>, w))"

definition on_ram :: "(mem \<Rightarrow> status \<times> mem) \<Rightarrow> world \<Rightarrow> status \<times> world" where
  "on_ram f w = (case f (ram w) of (st, m) \<Rightarrow> (st, w\<lparr>ram := m\<rparr>))"

definition poke :: "addr \<Rightarrow> u8 list \<Rightarrow> world \<Rightarrow> world" where
  "poke p bs w = w\<lparr>ram := store_bytes (ram w) p bs\<rparr>"

definition write_mem :: "addr \<Rightarrow> u8 list \<Rightarrow> 's dstate \<Rightarrow> 's dstate" where
  "write_mem p bs \<sigma> = (fst \<sigma>, poke p bs (snd \<sigma>))"

abbreviation mem_of :: "'s dstate \<Rightarrow> mem" where
  "mem_of \<sigma> \<equiv> ram (snd \<sigma>)"

abbreviation left :: "'s dstate \<Rightarrow> u64" where
  "left \<sigma> \<equiv> bytes_left (fst \<sigma>)"

definition d_error :: "string \<Rightarrow> 's dstate \<Rightarrow> (status + 'a) \<times> 's dstate" where
  "d_error msg \<sigma> = on_stream (\<lambda>s. i_error s msg) \<sigma>"

text \<open>
  \<open>realloc\<close> and \<open>free\<close> of the C library. Passing either a pointer that is not null and not
  a live block is undefined. A block that moves keeps its contents, up to the new size.
\<close>

definition pb_realloc :: "'s dec_env \<Rightarrow> addr \<Rightarrow> u64 \<Rightarrow> world \<Rightarrow> (status + addr) \<times> world" where
  "pb_realloc env p n w =
     (if p \<noteq> 0 \<and> blocks w p = None then (Inl Undef, w)
      else let q = malloc_at env (blocks w) n in
        if q = 0 then (Inr 0, w)
        else
          let old = (if p = 0 then 0 else case blocks w p of None \<Rightarrow> 0 | Some k \<Rightarrow> k) in
          (Inr q, w\<lparr>ram := store_bytes (ram w) q (load_bytes (ram w) p (unat (min old n))),
                    blocks := (blocks w)(p := None, q := Some n)\<rparr>))"

definition pb_free :: "addr \<Rightarrow> world \<Rightarrow> status \<times> world" where
  "pb_free p w =
     (if p = 0 then (Ok, w)
      else case blocks w p of
          None \<Rightarrow> (Undef, w)
        | Some _ \<Rightarrow> (Ok, w\<lparr>blocks := (blocks w)(p := None)\<rparr>))"

definition allocate_field ::
    "'s dec_env \<Rightarrow> addr \<Rightarrow> u64 \<Rightarrow> u64 \<Rightarrow> 's dstate \<Rightarrow> (status + unit) \<times> 's dstate" where
  "allocate_field env p dsize asize \<sigma> =
     (if dsize = 0 \<or> asize = 0 then d_error ''invalid size'' \<sigma>
      else if (dsize \<ge> push_bit 32 1 \<or> asize \<ge> push_bit 32 1) \<and> (- 1) div asize < dsize
      then d_error ''size too large'' \<sigma>
      else case pb_realloc env (load64 (mem_of \<sigma>) p) (asize * dsize) (snd \<sigma>) of
          (Inl st, w) \<Rightarrow> (Inl st, fst \<sigma>, w)
        | (Inr q, w) \<Rightarrow>
            if q = 0 then d_error ''realloc failed'' (fst \<sigma>, w)
            else (Inr (), write_mem p (le_bytes 8 q) (fst \<sigma>, w)))"

section \<open>Default values\<close>

text \<open>The iterator \<open>iter_from_extension\<close> fakes for an extension field.\<close>

definition iter_from_extension :: "'s dec_env \<Rightarrow> mem \<Rightarrow> addr \<Rightarrow> pb_field_iter" where
  "iter_from_extension env m e =
     (let fs = dfields_at env (ext_type_arg m (ext_type m e));
          it = snd (pb_field_iter_begin fs (load64 m (ext_dest e)))
      in it\<lparr>pData := (if atype (field_at fs 0) = ATYPE_POINTER then ext_dest e
                      else load64 m (ext_dest e)),
            pSize := ext_found e\<rparr>)"

type_synonym iter_mem = "pb_field_iter \<Rightarrow> mem \<Rightarrow> status \<times> mem"

text \<open>The linked list of extensions; its length is bounded by the first argument.\<close>

fun default_extensions :: "nat \<Rightarrow> 's dec_env \<Rightarrow> iter_mem \<Rightarrow> addr \<Rightarrow> mem \<Rightarrow> status \<times> mem" where
  "default_extensions 0 env rec e m = (if e = 0 then (Ok, m) else (Diverge, m))"
| "default_extensions (Suc k) env rec e m =
     (if e = 0 then (Ok, m)
      else
        let m1 = store_bytes m (ext_found e) [0] in
        chk (rec (iter_from_extension env m1 e) m1)
          (\<lambda>m. default_extensions k env rec (ext_next m e) m))"

definition message_defaults :: "iter_mem \<Rightarrow> pb_field list \<Rightarrow> addr \<Rightarrow> mem \<Rightarrow> status \<times> mem" where
  "message_defaults rec fs dest m =
     (case pb_field_iter_begin fs dest of (go, it) \<Rightarrow>
        if \<not> go then (Ok, m) else iter_do rec it m)"

text \<open>The static case, up to \<open>if (init_data)\<close>: the new memory and \<open>init_data\<close>.\<close>

definition reset_presence :: "pb_field_iter \<Rightarrow> mem \<Rightarrow> mem \<times> bool" where
  "reset_presence it m =
     (let f = iter_field it in
      if htype f = HTYPE_OPTIONAL \<and> pSize it \<noteq> pData it
      then (store_bytes m (pSize it) [0], True)
      else if htype f = HTYPE_REPEATED \<or> htype f = HTYPE_ONEOF
      then (store_bytes m (pSize it) (le_bytes 4 (0 :: u32)), False)
      else (m, True))"

definition field_default_body :: "nat \<Rightarrow> 's dec_env \<Rightarrow> iter_mem \<Rightarrow> iter_mem" where
  "field_default_body k env rec it m =
     (let f = iter_field it in
      if ltype f = LTYPE_EXTENSION then default_extensions k env rec (load64 m (pData it)) m
      else case atype f of
        ATYPE_STATIC \<Rightarrow>
          (case reset_presence it m of (m, init_data) \<Rightarrow>
             if \<not> init_data then (Ok, m)
             else if ltype f = LTYPE_SUBMESSAGE
             then message_defaults rec (dfields_at env (ptr f)) (pData it) m
             else if ptr f \<noteq> 0
             then (Ok, store_bytes m (pData it) (load_bytes m (ptr f) (unat (data_size f))))
             else (Ok, store_bytes m (pData it) (replicate (unat (data_size f)) 0)))
      | ATYPE_POINTER \<Rightarrow>
          let m1 = store_bytes m (pData it) (le_bytes 8 (0 :: u64)) in
          (Ok, if htype f = HTYPE_REPEATED \<or> htype f = HTYPE_ONEOF
               then store_bytes m1 (pSize it) (le_bytes 4 (0 :: u32)) else m1)
      | _ \<Rightarrow> (Ok, m))"

primrec pb_field_set_to_default :: "nat \<Rightarrow> 's dec_env \<Rightarrow> iter_mem" where
  "pb_field_set_to_default 0 env = (\<lambda>it m. (Diverge, m))"
| "pb_field_set_to_default (Suc n) env = field_default_body n env (pb_field_set_to_default n env)"

definition pb_message_set_to_defaults ::
    "nat \<Rightarrow> 's dec_env \<Rightarrow> pb_field list \<Rightarrow> addr \<Rightarrow> mem \<Rightarrow> status \<times> mem" where
  "pb_message_set_to_defaults n env = message_defaults (pb_field_set_to_default n env)"

section \<open>Releasing\<close>

type_synonym iter_world = "pb_field_iter \<Rightarrow> world \<Rightarrow> status \<times> world"

fun release_extensions :: "nat \<Rightarrow> 's dec_env \<Rightarrow> iter_world \<Rightarrow> addr \<Rightarrow> world \<Rightarrow> status \<times> world" where
  "release_extensions 0 env rec e w = (if e = 0 then (Ok, w) else (Diverge, w))"
| "release_extensions (Suc k) env rec e w =
     (if e = 0 then (Ok, w)
      else chk (rec (iter_from_extension env (ram w) e) w)
             (\<lambda>w. release_extensions k env rec (ext_next (ram w) e) w))"

definition message_release :: "iter_world \<Rightarrow> pb_field list \<Rightarrow> addr \<Rightarrow> world \<Rightarrow> status \<times> world" where
  "message_release rec fs dest w =
     (if dest = 0 then (Ok, w)
      else case pb_field_iter_begin fs dest of (go, it) \<Rightarrow>
        if \<not> go then (Ok, w) else iter_do rec it w)"

fun release_items :: "iter_world \<Rightarrow> pb_field list \<Rightarrow> u64 \<Rightarrow> nat \<Rightarrow> addr \<Rightarrow> world \<Rightarrow> status \<times> world" where
  "release_items rec fs sz 0 p w = (Ok, w)"
| "release_items rec fs sz (Suc c) p w =
     chk (message_release rec fs p w) (\<lambda>w. release_items rec fs sz c (p + sz) w)"

text \<open>\<open>pb_free(*pItem); *pItem++ = NULL;\<close>: a null \<open>pItem\<close> is undefined.\<close>

fun free_items :: "nat \<Rightarrow> addr \<Rightarrow> world \<Rightarrow> status \<times> world" where
  "free_items 0 p w = (Ok, w)"
| "free_items (Suc c) p w =
     (if p = 0 then (Undef, w)
      else chk (pb_free (load64 (ram w) p) w)
             (\<lambda>w. free_items c (p + 8) (poke p (le_bytes 8 (0 :: u64)) w)))"

text \<open>What a field contains: the extensions of a list, or the fields of submessages.\<close>

definition submessage_count :: "pb_field_iter \<Rightarrow> mem \<Rightarrow> u32" where
  "submessage_count it m =
     (let f = iter_field it in
      if htype f = HTYPE_REPEATED then
        let c = (if atype f = ATYPE_STATIC \<and> pSize it = pData it then array_size f
                 else load32 m (pSize it))
        in if atype f = ATYPE_STATIC \<and> c > array_size f then array_size f else c
      else 1)"

definition release_contents :: "nat \<Rightarrow> 's dec_env \<Rightarrow> iter_world \<Rightarrow> iter_world" where
  "release_contents k env rec it w =
     (let f = iter_field it in
      if ltype f = LTYPE_EXTENSION
      then release_extensions k env rec (load64 (ram w) (pData it)) w
      else if ltype f = LTYPE_SUBMESSAGE then
        let item = (if atype f = ATYPE_POINTER then load64 (ram w) (pData it) else pData it) in
        if item = 0 then (Ok, w)
        else release_items rec (dfields_at env (ptr f)) (ucast (data_size f))
               (unat (submessage_count it (ram w))) item w
      else (Ok, w))"

definition release_pointer :: "iter_world" where
  "release_pointer it w =
     (let f = iter_field it in
      chk (if htype f = HTYPE_REPEATED \<and> (ltype f = LTYPE_STRING \<or> ltype f = LTYPE_BYTES)
           then free_items (unat (load32 (ram w) (pSize it))) (load64 (ram w) (pData it)) w
           else (Ok, w))
        (\<lambda>w.
          let w1 = (if htype f = HTYPE_REPEATED then poke (pSize it) (le_bytes 4 (0 :: u32)) w else w)
          in chk (pb_free (load64 (ram w1) (pData it)) w1)
               (\<lambda>w. (Ok, poke (pData it) (le_bytes 8 (0 :: u64)) w))))"

definition release_single_body :: "nat \<Rightarrow> 's dec_env \<Rightarrow> iter_world \<Rightarrow> iter_world" where
  "release_single_body k env rec it w =
     (let f = iter_field it in
      if htype f = HTYPE_ONEOF \<and> load32 (ram w) (pSize it) \<noteq> tag f then (Ok, w)
      else chk (release_contents k env rec it w)
             (\<lambda>w. if atype f = ATYPE_POINTER then release_pointer it w else (Ok, w)))"

primrec pb_release_single_field :: "nat \<Rightarrow> 's dec_env \<Rightarrow> iter_world" where
  "pb_release_single_field 0 env = (\<lambda>it w. (Diverge, w))"
| "pb_release_single_field (Suc n) env = release_single_body n env (pb_release_single_field n env)"

definition pb_release :: "nat \<Rightarrow> 's dec_env \<Rightarrow> pb_field list \<Rightarrow> addr \<Rightarrow> world \<Rightarrow> status \<times> world" where
  "pb_release n env = message_release (pb_release_single_field n env)"

text \<open>The value is the iterator, back at the new field.\<close>

definition pb_release_union_field ::
    "nat \<Rightarrow> 's dec_env \<Rightarrow> pb_field_iter \<Rightarrow> 's dstate \<Rightarrow> (status + pb_field_iter) \<times> 's dstate" where
  "pb_release_union_field n env it \<sigma> =
     (let old_tag = load32 (mem_of \<sigma>) (pSize it); new_tag = tag (iter_field it) in
      if old_tag = 0 \<or> old_tag = new_tag then (Inr it, \<sigma>)
      else case pb_field_iter_find it old_tag of (found, it1) \<Rightarrow>
        if found \<noteq> Ok then d_error ''invalid union tag'' \<sigma>
        else dbind (on_world (pb_release_single_field n env it1) \<sigma>) (\<lambda>_ \<sigma>.
          case pb_field_iter_find it1 new_tag of (found, it2) \<Rightarrow>
            if found \<noteq> Ok then d_error ''iterator error'' \<sigma> else (Inr it2, \<sigma>)))"

section \<open>Field decoders\<close>

text \<open>
  \<open>clamped = *(int32_t* )dest = (int32_t)svalue\<close> and its siblings: the value that is left
  after the store at the size of the field, or \<open>None\<close> for an invalid size.
\<close>

definition store_signed :: "pb_field \<Rightarrow> addr \<Rightarrow> u64 \<Rightarrow> 's dstate \<Rightarrow> (u64 \<times> 's dstate) option" where
  "store_signed field dest v \<sigma> =
     (if data_size field = 8 then Some (v, write_mem dest (le_bytes 8 v) \<sigma>)
      else if data_size field = 4
      then Some (scast (ucast v :: u32), write_mem dest (le_bytes 4 (ucast v :: u32)) \<sigma>)
      else if data_size field = 2
      then Some (scast (ucast v :: 16 word), write_mem dest (le_bytes 2 (ucast v :: 16 word)) \<sigma>)
      else if data_size field = 1
      then Some (scast (ucast v :: u8), write_mem dest (le_bytes 1 (ucast v :: u8)) \<sigma>)
      else None)"

definition store_unsigned :: "pb_field \<Rightarrow> addr \<Rightarrow> u64 \<Rightarrow> 's dstate \<Rightarrow> (u64 \<times> 's dstate) option" where
  "store_unsigned field dest v \<sigma> =
     (if data_size field = 8 then Some (v, write_mem dest (le_bytes 8 v) \<sigma>)
      else if data_size field = 4
      then Some (ucast (ucast v :: u32), write_mem dest (le_bytes 4 (ucast v :: u32)) \<sigma>)
      else if data_size field = 2
      then Some (ucast (ucast v :: 16 word), write_mem dest (le_bytes 2 (ucast v :: 16 word)) \<sigma>)
      else if data_size field = 1
      then Some (ucast (ucast v :: u8), write_mem dest (le_bytes 1 (ucast v :: u8)) \<sigma>)
      else None)"

definition check_clamped :: "u64 \<Rightarrow> (u64 \<times> 's dstate) option \<Rightarrow> 's dstate \<Rightarrow> (status + unit) \<times> 's dstate" where
  "check_clamped v r \<sigma> =
     (case r of
        None \<Rightarrow> d_error ''invalid data_size'' \<sigma>
      | Some (clamped, \<sigma>1) \<Rightarrow>
          if clamped \<noteq> v then d_error ''integer too large'' \<sigma>1 else (Inr (), \<sigma>1))"

definition pb_dec_varint :: "'s dec_func" where
  "pb_dec_varint field dest \<sigma> =
     dbind (on_stream pb_decode_varint \<sigma>) (\<lambda>v \<sigma>.
       let svalue = (if data_size field = 8 then v else scast (ucast v :: u32))
       in check_clamped svalue (store_signed field dest svalue \<sigma>) \<sigma>)"

definition pb_dec_uvarint :: "'s dec_func" where
  "pb_dec_uvarint field dest \<sigma> =
     dbind (on_stream pb_decode_varint \<sigma>) (\<lambda>v \<sigma>.
       check_clamped v (store_unsigned field dest v \<sigma>) \<sigma>)"

definition pb_dec_svarint :: "'s dec_func" where
  "pb_dec_svarint field dest \<sigma> =
     dbind (on_stream pb_decode_svarint \<sigma>) (\<lambda>v \<sigma>.
       check_clamped v (store_signed field dest v \<sigma>) \<sigma>)"

definition pb_dec_fixed32 :: "'s dec_func" where
  "pb_dec_fixed32 field dest \<sigma> =
     dbind (on_stream pb_decode_fixed32 \<sigma>) (\<lambda>v \<sigma>. (Inr (), write_mem dest (le_bytes 4 v) \<sigma>))"

definition pb_dec_fixed64 :: "'s dec_func" where
  "pb_dec_fixed64 field dest \<sigma> =
     dbind (on_stream pb_decode_fixed64 \<sigma>) (\<lambda>v \<sigma>. (Inr (), write_mem dest (le_bytes 8 v) \<sigma>))"

text \<open>\<open>pb_read\<close> into memory.\<close>

definition pb_read_into :: "addr \<Rightarrow> u64 \<Rightarrow> 's dstate \<Rightarrow> (status + unit) \<times> 's dstate" where
  "pb_read_into dest n \<sigma> =
     (if dest = 0 then on_stream (\<lambda>s. pb_read_null s n) \<sigma>
      else dbind (on_stream (\<lambda>s. pb_read s n) \<sigma>) (\<lambda>bs \<sigma>. (Inr (), write_mem dest bs \<sigma>)))"

text \<open>
  Where bytes and strings go: to a new block for a pointer field, and otherwise to the
  member itself if they fit.
\<close>

definition dec_target ::
    "'s dec_env \<Rightarrow> pb_field \<Rightarrow> addr \<Rightarrow> u64 \<Rightarrow> string \<Rightarrow> 's dstate \<Rightarrow> (status + addr) \<times> 's dstate" where
  "dec_target env field dest alloc_size msg \<sigma> =
     (if atype field = ATYPE_POINTER
      then dbind (allocate_field env dest alloc_size 1 \<sigma>) (\<lambda>_ \<sigma>. (Inr (load64 (mem_of \<sigma>) dest), \<sigma>))
      else if alloc_size > ucast (data_size field) then d_error msg \<sigma>
      else (Inr dest, \<sigma>))"

definition pb_dec_bytes :: "'s dec_env \<Rightarrow> 's dec_func" where
  "pb_dec_bytes env field dest \<sigma> =
     dbind (on_stream pb_decode_varint32 \<sigma>) (\<lambda>n \<sigma>.
       if n > PB_SIZE_MAX then d_error ''bytes overflow'' \<sigma>
       else
         let alloc_size = PB_BYTES_ARRAY_T_ALLOCSIZE (ucast n) in
         if ucast n > alloc_size then d_error ''size too large'' \<sigma>
         else dbind (dec_target env field dest alloc_size ''bytes overflow'' \<sigma>) (\<lambda>bdest \<sigma>.
           pb_read_into (bytes_data bdest) (ucast n) (write_mem bdest (le_bytes 4 n) \<sigma>)))"

text \<open>\<open>alloc_size = size + 1\<close> is computed in 32 bits. The terminator is stored whatever \<open>pb_read\<close> returned.\<close>

definition pb_dec_string :: "'s dec_env \<Rightarrow> 's dec_func" where
  "pb_dec_string env field dest \<sigma> =
     dbind (on_stream pb_decode_varint32 \<sigma>) (\<lambda>n \<sigma>.
       let alloc_size = ucast (n + 1) in
       if alloc_size < ucast n then d_error ''size too large'' \<sigma>
       else dbind (dec_target env field dest alloc_size ''string overflow'' \<sigma>) (\<lambda>sdest \<sigma>.
         case pb_read_into sdest (ucast n) \<sigma> of
           (r, \<sigma>1) \<Rightarrow> (r, write_mem (sdest + ucast n) [0] \<sigma>1)))"

definition pb_dec_fixed_length_bytes :: "'s dec_func" where
  "pb_dec_fixed_length_bytes field dest \<sigma> =
     dbind (on_stream pb_decode_varint32 \<sigma>) (\<lambda>n \<sigma>.
       if n > PB_SIZE_MAX then d_error ''bytes overflow'' \<sigma>
       else if n = 0
       then (Inr (), write_mem dest (replicate (unat (data_size field)) 0) \<sigma>)
       else if n \<noteq> data_size field then d_error ''incorrect fixed length bytes size'' \<sigma>
       else pb_read_into dest (ucast (data_size field)) \<sigma>)"

text \<open>
  The result of decoding in a substream, and closing it: the substream is closed whether the
  decoding returned true or false. \<open>stuck\<close> is a call that has not returned.
\<close>

fun stuck :: "status + 'a \<Rightarrow> bool" where
  "stuck (Inl st) = (st \<noteq> Fail)"
| "stuck (Inr _) = False"

definition finish_substream ::
    "'s pb_istream \<Rightarrow> (status + 'a) \<times> 's dstate \<Rightarrow> (status + 'a) \<times> 's dstate" where
  "finish_substream s r =
     (case r of (x, sub, w) \<Rightarrow>
        if stuck x then (x, s, w)
        else dbind (on_stream (\<lambda>s. pb_close_string_substream s sub) (s, w)) (\<lambda>_ \<sigma>. (x, \<sigma>)))"

text \<open>\<open>pb_decode\<close>, over the decoder that does not initialise.\<close>

definition decode_init :: "nat \<Rightarrow> 's dec_env \<Rightarrow> 's dmsg_func \<Rightarrow> 's dmsg_func" where
  "decode_init n env rec fs dest \<sigma> =
     dbind (on_world (on_ram (pb_message_set_to_defaults n env fs dest)) \<sigma>) (\<lambda>_ \<sigma>.
       case rec fs dest \<sigma> of
         (Inl Fail, \<sigma>1) \<Rightarrow> dbind (on_world (pb_release n env fs dest) \<sigma>1) (\<lambda>_ \<sigma>. (Inl Fail, \<sigma>))
       | r \<Rightarrow> r)"

definition pb_dec_submessage :: "nat \<Rightarrow> 's dec_env \<Rightarrow> 's dmsg_func \<Rightarrow> 's dec_func" where
  "pb_dec_submessage n env rec field dest \<sigma> =
     dbind (on_stream pb_make_string_substream \<sigma>) (\<lambda>sub \<sigma>.
       if ptr field = 0 then d_error ''invalid field descriptor'' \<sigma>
       else finish_substream (fst \<sigma>)
         ((if htype field = HTYPE_REPEATED then decode_init n env rec else rec)
            (dfields_at env (ptr field)) dest (sub, snd \<sigma>)))"

text \<open>
  The table of field decoders. \<open>None\<close> is an index past the table; the null entry for
  extensions is \<open>Some None\<close>, and calling it is undefined.
\<close>

fun PB_DECODERS ::
    "nat \<Rightarrow> 's dec_env \<Rightarrow> 's dmsg_func \<Rightarrow> pb_ltype \<Rightarrow> 's dec_func option option" where
  "PB_DECODERS n env rec LTYPE_VARINT = Some (Some pb_dec_varint)"
| "PB_DECODERS n env rec LTYPE_UVARINT = Some (Some pb_dec_uvarint)"
| "PB_DECODERS n env rec LTYPE_SVARINT = Some (Some pb_dec_svarint)"
| "PB_DECODERS n env rec LTYPE_FIXED32 = Some (Some pb_dec_fixed32)"
| "PB_DECODERS n env rec LTYPE_FIXED64 = Some (Some pb_dec_fixed64)"
| "PB_DECODERS n env rec LTYPE_BYTES = Some (Some (pb_dec_bytes env))"
| "PB_DECODERS n env rec LTYPE_STRING = Some (Some (pb_dec_string env))"
| "PB_DECODERS n env rec LTYPE_SUBMESSAGE = Some (Some (pb_dec_submessage n env rec))"
| "PB_DECODERS n env rec LTYPE_EXTENSION = Some None"
| "PB_DECODERS n env rec LTYPE_FIXED_LENGTH_BYTES = Some (Some pb_dec_fixed_length_bytes)"
| "PB_DECODERS n env rec LTYPE_INVALID = None"

definition call_dec :: "'s dec_func option \<Rightarrow> 's dec_func" where
  "call_dec func field dest \<sigma> =
     (case func of None \<Rightarrow> (Inl Undef, \<sigma>) | Some f \<Rightarrow> f field dest \<sigma>)"

section \<open>Single fields\<close>

text \<open>\<open>(char* )pData + data_size * i\<close>: the product of two \<open>pb_size_t\<close> is 32 bits wide.\<close>

definition item_at :: "pb_field \<Rightarrow> addr \<Rightarrow> u32 \<Rightarrow> addr" where
  "item_at f p i = p + ucast (data_size f * i)"

definition count_up :: "addr \<Rightarrow> 's dstate \<Rightarrow> 's dstate" where
  "count_up p \<sigma> = write_mem p (le_bytes 4 (load32 (mem_of \<sigma>) p + 1)) \<sigma>"

text \<open>
  The loop over the items of a packed array, on the substream; every item takes at least one
  byte of it, so the first argument, one more than its bytes, is not used up.
\<close>

fun static_packed_loop ::
    "nat \<Rightarrow> 's dec_func option \<Rightarrow> pb_field_iter \<Rightarrow> 's dstate \<Rightarrow> (status + unit) \<times> 's dstate" where
  "static_packed_loop 0 func it \<sigma> = (Inl Diverge, \<sigma>)"
| "static_packed_loop (Suc k) func it \<sigma> =
     (let f = iter_field it; i = load32 (mem_of \<sigma>) (pSize it) in
      if left \<sigma> > 0 \<and> i < array_size f
      then dbind (call_dec func f (item_at f (pData it) i) \<sigma>)
             (\<lambda>_ \<sigma>. static_packed_loop k func it (count_up (pSize it) \<sigma>))
      else (Inr (), \<sigma>))"

definition static_packed ::
    "'s dec_func option \<Rightarrow> pb_field_iter \<Rightarrow> 's dstate \<Rightarrow> (status + unit) \<times> 's dstate" where
  "static_packed func it \<sigma> =
     dbind (on_stream pb_make_string_substream \<sigma>) (\<lambda>sub \<sigma>.
       case static_packed_loop (Suc (unat (bytes_left sub))) func it (sub, snd \<sigma>) of
         (x, sub1, w) \<Rightarrow>
           if stuck x then (x, fst \<sigma>, w)
           else if bytes_left sub1 \<noteq> 0 then d_error ''array overflow'' (fst \<sigma>, w)
           else finish_substream (fst \<sigma>) (x, sub1, w))"

definition decode_static_field ::
    "nat \<Rightarrow> 's dec_env \<Rightarrow> 's dmsg_func \<Rightarrow> pb_wire_type \<Rightarrow> pb_field_iter \<Rightarrow> 's dstate
     \<Rightarrow> (status + unit) \<times> 's dstate" where
  "decode_static_field n env rec wt it \<sigma> =
     (let f = iter_field it in
      case PB_DECODERS n env rec (ltype f) of
        None \<Rightarrow> (Inl Undef, \<sigma>)
      | Some func \<Rightarrow>
          (case htype f of
             HTYPE_REQUIRED \<Rightarrow> call_dec func f (pData it) \<sigma>
           | HTYPE_OPTIONAL \<Rightarrow>
               call_dec func f (pData it)
                 (if pSize it \<noteq> pData it then write_mem (pSize it) [1] \<sigma> else \<sigma>)
           | HTYPE_REPEATED \<Rightarrow>
               if wt = PB_WT_STRING \<and> packable (ltype f) then static_packed func it \<sigma>
               else
                 let i = load32 (mem_of \<sigma>) (pSize it); \<sigma>1 = count_up (pSize it) \<sigma> in
                 if i \<ge> array_size f then d_error ''array overflow'' \<sigma>1
                 else call_dec func f (item_at f (pData it) i) \<sigma>1
           | HTYPE_ONEOF \<Rightarrow>
               let \<sigma>1 = write_mem (pSize it) (le_bytes 4 (tag f)) \<sigma> in
               if ltype f = LTYPE_SUBMESSAGE
               then dbind (on_world (on_ram (pb_message_set_to_defaults n env
                              (dfields_at env (ptr f)) (pData it)))
                            (write_mem (pData it) (replicate (unat (data_size f)) 0) \<sigma>1))
                      (\<lambda>_ \<sigma>. call_dec func f (pData it) \<sigma>)
               else call_dec func f (pData it) \<sigma>1))"

definition initialize_pointer_field ::
    "nat \<Rightarrow> 's dec_env \<Rightarrow> addr \<Rightarrow> pb_field \<Rightarrow> 's dstate \<Rightarrow> (status + unit) \<times> 's dstate" where
  "initialize_pointer_field n env item f \<sigma> =
     (if ltype f = LTYPE_STRING \<or> ltype f = LTYPE_BYTES
      then (Inr (), write_mem item (le_bytes 8 (0 :: u64)) \<sigma>)
      else if ltype f = LTYPE_SUBMESSAGE
      then on_world (on_ram (pb_message_set_to_defaults n env (dfields_at env (ptr f)) item))
             (write_mem item (replicate (unat (data_size f)) 0) \<sigma>)
      else (Inr (), \<sigma>))"

text \<open>
  The packed loop of a pointer field, with \<open>allocated_size\<close>. The first part of the result is
  \<open>status\<close>; the message \<open>too many array entries\<close> goes to the parent stream and is
  overwritten when the substream is closed.
\<close>

definition grow_array ::
    "'s dec_env \<Rightarrow> pb_field_iter \<Rightarrow> u64 \<Rightarrow> 's dstate \<Rightarrow> (status + u64) \<times> 's dstate" where
  "grow_array env it allocated \<sigma> =
     (let f = iter_field it in
      if ucast (load32 (mem_of \<sigma>) (pSize it)) + 1 > allocated then
        if data_size f = 0 then (Inl Undef, \<sigma>)
        else
          let allocated1 = allocated + ((left \<sigma> - 1) div ucast (data_size f) + 1) in
          dbind (allocate_field env (pData it) (ucast (data_size f)) allocated1 \<sigma>)
            (\<lambda>_ \<sigma>. (Inr allocated1, \<sigma>))
      else (Inr allocated, \<sigma>))"

fun pointer_packed_loop ::
    "nat \<Rightarrow> nat \<Rightarrow> 's dec_env \<Rightarrow> 's dec_func option \<Rightarrow> pb_field_iter \<Rightarrow> u64 \<Rightarrow> 's dstate
     \<Rightarrow> (status + unit) \<times> 's dstate" where
  "pointer_packed_loop 0 n env func it allocated \<sigma> = (Inl Diverge, \<sigma>)"
| "pointer_packed_loop (Suc k) n env func it allocated \<sigma> =
     (let f = iter_field it in
      if left \<sigma> = 0 then (Inr (), \<sigma>)
      else dbind (grow_array env it allocated \<sigma>) (\<lambda>allocated \<sigma>.
        let item = item_at f (load64 (mem_of \<sigma>) (pData it)) (load32 (mem_of \<sigma>) (pSize it)) in
        dbind (initialize_pointer_field n env item f \<sigma>) (\<lambda>_ \<sigma>.
        dbind (call_dec func f item \<sigma>) (\<lambda>_ \<sigma>.
          if load32 (mem_of \<sigma>) (pSize it) = PB_SIZE_MAX then (Inl Fail, \<sigma>)
          else pointer_packed_loop k n env func it allocated (count_up (pSize it) \<sigma>)))))"

definition pointer_packed ::
    "nat \<Rightarrow> 's dec_env \<Rightarrow> 's dec_func option \<Rightarrow> pb_field_iter \<Rightarrow> 's dstate
     \<Rightarrow> (status + unit) \<times> 's dstate" where
  "pointer_packed n env func it \<sigma> =
     (let allocated = ucast (load32 (mem_of \<sigma>) (pSize it)) in
      dbind (on_stream pb_make_string_substream \<sigma>) (\<lambda>sub \<sigma>.
        finish_substream (fst \<sigma>)
          (pointer_packed_loop (Suc (unat (bytes_left sub))) n env func it allocated (sub, snd \<sigma>))))"

definition decode_pointer_field ::
    "nat \<Rightarrow> 's dec_env \<Rightarrow> 's dmsg_func \<Rightarrow> pb_wire_type \<Rightarrow> pb_field_iter \<Rightarrow> 's dstate
     \<Rightarrow> (status + unit) \<times> 's dstate" where
  "decode_pointer_field n env rec wt it \<sigma> =
     (let f = iter_field it in
      case PB_DECODERS n env rec (ltype f) of
        None \<Rightarrow> (Inl Undef, \<sigma>)
      | Some func \<Rightarrow>
          if htype f = HTYPE_REPEATED then
            if wt = PB_WT_STRING \<and> packable (ltype f) then pointer_packed n env func it \<sigma>
            else if load32 (mem_of \<sigma>) (pSize it) = PB_SIZE_MAX
            then d_error ''too many array entries'' \<sigma>
            else
              let \<sigma>1 = count_up (pSize it) \<sigma> in
              dbind (allocate_field env (pData it) (ucast (data_size f))
                       (ucast (load32 (mem_of \<sigma>1) (pSize it))) \<sigma>1) (\<lambda>_ \<sigma>.
              let item = item_at f (load64 (mem_of \<sigma>) (pData it))
                           (load32 (mem_of \<sigma>) (pSize it) - 1) in
              dbind (initialize_pointer_field n env item f \<sigma>) (\<lambda>_ \<sigma>. call_dec func f item \<sigma>))
          else
            dbind (if ltype f = LTYPE_SUBMESSAGE \<and> load64 (mem_of \<sigma>) (pData it) \<noteq> 0
                   then on_world (pb_release_single_field n env it) \<sigma> else (Inr (), \<sigma>)) (\<lambda>_ \<sigma>.
              let \<sigma>1 = (if htype f = HTYPE_ONEOF then write_mem (pSize it) (le_bytes 4 (tag f)) \<sigma>
                        else \<sigma>) in
              if ltype f = LTYPE_STRING \<or> ltype f = LTYPE_BYTES then call_dec func f (pData it) \<sigma>1
              else dbind (allocate_field env (pData it) (ucast (data_size f)) 1 \<sigma>1) (\<lambda>_ \<sigma>.
                dbind (initialize_pointer_field n env (load64 (mem_of \<sigma>) (pData it)) f \<sigma>) (\<lambda>_ \<sigma>.
                  call_dec func f (load64 (mem_of \<sigma>) (pData it)) \<sigma>))))"

text \<open>\<open>do { if (!decode(...)) return false; } while (substream.bytes_left);\<close>\<close>

fun callback_loop ::
    "nat \<Rightarrow> ('s dstate \<Rightarrow> (status + unit) \<times> 's dstate) \<Rightarrow> 's dstate \<Rightarrow> (status + unit) \<times> 's dstate" where
  "callback_loop 0 d \<sigma> = (Inl Diverge, \<sigma>)"
| "callback_loop (Suc k) d \<sigma> =
     dbind (d \<sigma>) (\<lambda>_ \<sigma>. if left \<sigma> \<noteq> 0 then callback_loop k d \<sigma> else (Inr (), \<sigma>))"

definition decode_callback_field ::
    "nat \<Rightarrow> 's dec_env \<Rightarrow> pb_wire_type \<Rightarrow> pb_field_iter \<Rightarrow> 's dstate \<Rightarrow> (status + unit) \<times> 's dstate" where
  "decode_callback_field n env wt it \<sigma> =
     (let func = callback_fun (mem_of \<sigma>) (pData it);
          d = dfield_decoder env func (iter_field it) (callback_arg (pData it)) in
      if pData it = 0 \<or> func = 0 then on_stream (\<lambda>s. pb_skip_field s wt) \<sigma>
      else if wt = PB_WT_STRING then
        dbind (on_stream pb_make_string_substream \<sigma>) (\<lambda>sub \<sigma>.
          case callback_loop n d (sub, snd \<sigma>) of
            (Inl st, _, w) \<Rightarrow> if st = Fail then d_error ''callback failed'' (fst \<sigma>, w)
                              else (Inl st, fst \<sigma>, w)
          | (Inr _, sub1, w) \<Rightarrow> finish_substream (fst \<sigma>) (Inr (), sub1, w))
      else
        dbind (on_stream (\<lambda>s. read_raw_value s wt 10) \<sigma>) (\<lambda>buffer \<sigma>.
          case d (pb_istream_from_buffer buffer (of_nat (length buffer)), snd \<sigma>) of
            (r, _, w) \<Rightarrow> (r, fst \<sigma>, w)))"

text \<open>The value is the iterator after the call.\<close>

definition decode_field ::
    "nat \<Rightarrow> 's dec_env \<Rightarrow> 's dmsg_func \<Rightarrow> pb_wire_type \<Rightarrow> pb_field_iter \<Rightarrow> 's dstate
     \<Rightarrow> (status + pb_field_iter) \<times> 's dstate" where
  "decode_field n env rec wt it \<sigma> =
     dbind (if htype (iter_field it) = HTYPE_ONEOF then pb_release_union_field n env it \<sigma>
            else (Inr it, \<sigma>)) (\<lambda>it \<sigma>.
       dbind (case atype (iter_field it) of
                ATYPE_STATIC \<Rightarrow> decode_static_field n env rec wt it \<sigma>
              | ATYPE_POINTER \<Rightarrow> decode_pointer_field n env rec wt it \<sigma>
              | ATYPE_CALLBACK \<Rightarrow> decode_callback_field n env wt it \<sigma>
              | ATYPE_INVALID \<Rightarrow> d_error ''invalid field type'' \<sigma>) (\<lambda>_ \<sigma>. (Inr it, \<sigma>)))"

section \<open>Extensions\<close>

definition default_extension_decoder ::
    "nat \<Rightarrow> 's dec_env \<Rightarrow> 's dmsg_func \<Rightarrow> addr \<Rightarrow> u32 \<Rightarrow> pb_wire_type \<Rightarrow> 's dstate
     \<Rightarrow> (status + unit) \<times> 's dstate" where
  "default_extension_decoder n env rec e t wt \<sigma> =
     (let field = field_at (dfields_at env (ext_type_arg (mem_of \<sigma>) (ext_type (mem_of \<sigma>) e))) 0 in
      if tag field \<noteq> t then (Inr (), \<sigma>)
      else
        let it = iter_from_extension env (mem_of \<sigma>) e in
        dbind (decode_field n env rec wt it (write_mem (ext_found e) [1] \<sigma>)) (\<lambda>_ \<sigma>. (Inr (), \<sigma>)))"

text \<open>The loop over the extensions; \<open>left0\<close> is \<open>pos\<close>, the bytes left at its start.\<close>

fun decode_extensions ::
    "nat \<Rightarrow> nat \<Rightarrow> 's dec_env \<Rightarrow> 's dmsg_func \<Rightarrow> u64 \<Rightarrow> addr \<Rightarrow> u32 \<Rightarrow> pb_wire_type \<Rightarrow> 's dstate
     \<Rightarrow> (status + unit) \<times> 's dstate" where
  "decode_extensions 0 n env rec left0 e t wt \<sigma> =
     (if e = 0 \<or> left \<sigma> \<noteq> left0 then (Inr (), \<sigma>) else (Inl Diverge, \<sigma>))"
| "decode_extensions (Suc k) n env rec left0 e t wt \<sigma> =
     (if e = 0 \<or> left \<sigma> \<noteq> left0 then (Inr (), \<sigma>)
      else
        let func = ext_type_decode (mem_of \<sigma>) (ext_type (mem_of \<sigma>) e) in
        dbind (if func \<noteq> 0 then dext_decoder env func e t wt \<sigma>
               else default_extension_decoder n env rec e t wt \<sigma>)
          (\<lambda>_ \<sigma>. decode_extensions k n env rec left0 (ext_next (mem_of \<sigma>) e) t wt \<sigma>))"

definition decode_extension ::
    "nat \<Rightarrow> 's dec_env \<Rightarrow> 's dmsg_func \<Rightarrow> u32 \<Rightarrow> pb_wire_type \<Rightarrow> pb_field_iter \<Rightarrow> 's dstate
     \<Rightarrow> (status + unit) \<times> 's dstate" where
  "decode_extension n env rec t wt it \<sigma> =
     decode_extensions n n env rec (left \<sigma>) (load64 (mem_of \<sigma>) (pData it)) t wt \<sigma>"

text \<open>The search loop, bounded like \<open>iter_find_loop\<close>.\<close>

fun find_extension_loop :: "nat \<Rightarrow> nat \<Rightarrow> pb_field_iter \<Rightarrow> status \<times> pb_field_iter" where
  "find_extension_loop 0 from it = (Diverge, it)"
| "find_extension_loop (Suc k) from it =
     (if ltype (iter_field it) = LTYPE_EXTENSION then (Ok, it)
      else let it' = snd (pb_field_iter_next it) in
        if pos it' \<noteq> from then find_extension_loop k from it' else (Fail, it'))"

definition find_extension_field :: "pb_field_iter \<Rightarrow> status \<times> pb_field_iter" where
  "find_extension_field it = find_extension_loop (Suc (length (start it))) (pos it) it"

section \<open>Messages\<close>

definition PB_MAX_REQUIRED_FIELDS :: u32 where
  "PB_MAX_REQUIRED_FIELDS = 64"

text \<open>The local variables of \<open>pb_decode_noinit\<close> that live through its loop.\<close>

record dec_locals =
  liter :: pb_field_iter
  fields_seen :: "u32 list"
  extension_range_start :: u32
  fixed_count_field :: "nat option"

text \<open>
  \<open>fixed_count_field != NULL && fixed_count_size != fixed_count_field->array_size\<close>, with
  \<open>slot\<close> the address of \<open>fixed_count_size\<close>.
\<close>

definition fixed_count_wrong :: "addr \<Rightarrow> dec_locals \<Rightarrow> mem \<Rightarrow> bool" where
  "fixed_count_wrong slot l m =
     (case fixed_count_field l of
        None \<Rightarrow> False
      | Some j \<Rightarrow> load32 m slot \<noteq> array_size (field_at (start (liter l)) j))"

definition mark_seen :: "pb_field_iter \<Rightarrow> u32 list \<Rightarrow> u32 list" where
  "mark_seen it seen =
     (let r = required_field_index it in
      if htype (iter_field it) = HTYPE_REQUIRED \<and> r < PB_MAX_REQUIRED_FIELDS
      then let k = unat (drop_bit 5 r) in
        seen[k := seen ! k OR push_bit (unat (r AND 31)) 1]
      else seen)"

definition skip_unknown ::
    "pb_wire_type \<Rightarrow> dec_locals \<Rightarrow> 's dstate \<Rightarrow> (status + dec_locals) \<times> 's dstate" where
  "skip_unknown wt l \<sigma> = dbind (on_stream (\<lambda>s. pb_skip_field s wt) \<sigma>) (\<lambda>_ \<sigma>. (Inr l, \<sigma>))"

definition decode_unknown ::
    "nat \<Rightarrow> 's dec_env \<Rightarrow> 's dmsg_func \<Rightarrow> u32 \<Rightarrow> pb_wire_type \<Rightarrow> dec_locals \<Rightarrow> 's dstate
     \<Rightarrow> (status + dec_locals) \<times> 's dstate" where
  "decode_unknown n env rec t wt l \<sigma> =
     (if t \<ge> extension_range_start l then
        case find_extension_field (liter l) of (found, it) \<Rightarrow>
          let l1 = l\<lparr>liter := it, extension_range_start :=
                     (if found = Ok then tag (iter_field it) else - 1)\<rparr> in
          if t \<ge> extension_range_start l1 then
            dbind (decode_extension n env rec t wt it \<sigma>) (\<lambda>_ \<sigma>1.
              if left \<sigma>1 \<noteq> left \<sigma> then (Inr l1, \<sigma>1) else skip_unknown wt l1 \<sigma>1)
          else skip_unknown wt l1 \<sigma>
      else skip_unknown wt l \<sigma>)"

definition decode_known ::
    "nat \<Rightarrow> 's dec_env \<Rightarrow> 's dmsg_func \<Rightarrow> addr \<Rightarrow> pb_wire_type \<Rightarrow> dec_locals \<Rightarrow> 's dstate
     \<Rightarrow> (status + dec_locals) \<times> 's dstate" where
  "decode_known n env rec slot wt l \<sigma> =
     (let it = liter l;
          fixed = (htype (iter_field it) = HTYPE_REPEATED \<and> pSize it = pData it);
          fresh = (fixed \<and> fixed_count_field l \<noteq> Some (pos it)) in
      if fresh \<and> fixed_count_wrong slot l (mem_of \<sigma>)
      then d_error ''wrong size for fixed count field'' \<sigma>
      else
        let \<sigma>1 = (if fresh then write_mem slot (le_bytes 4 (0 :: u32)) \<sigma> else \<sigma>);
            it1 = (if fixed then it\<lparr>pSize := slot\<rparr> else it);
            l1 = l\<lparr>fixed_count_field := (if fresh then Some (pos it) else fixed_count_field l),
                   fields_seen := mark_seen it1 (fields_seen l)\<rparr> in
        dbind (decode_field n env rec wt it1 \<sigma>1) (\<lambda>it2 \<sigma>. (Inr (l1\<lparr>liter := it2\<rparr>), \<sigma>)))"

definition decode_one ::
    "nat \<Rightarrow> 's dec_env \<Rightarrow> 's dmsg_func \<Rightarrow> addr \<Rightarrow> u32 \<Rightarrow> pb_wire_type \<Rightarrow> dec_locals \<Rightarrow> 's dstate
     \<Rightarrow> (status + dec_locals) \<times> 's dstate" where
  "decode_one n env rec slot t wt l \<sigma> =
     (case pb_field_iter_find (liter l) t of (found, it) \<Rightarrow>
        if found = Ok then decode_known n env rec slot wt (l\<lparr>liter := it\<rparr>) \<sigma>
        else decode_unknown n env rec t wt (l\<lparr>liter := it\<rparr>) \<sigma>)"

text \<open>The loop over the fields on the wire; the first argument bounds their number.\<close>

fun decode_loop ::
    "nat \<Rightarrow> nat \<Rightarrow> 's dec_env \<Rightarrow> 's dmsg_func \<Rightarrow> addr \<Rightarrow> dec_locals \<Rightarrow> 's dstate
     \<Rightarrow> (status + dec_locals) \<times> 's dstate" where
  "decode_loop 0 n env rec slot l \<sigma> = (if left \<sigma> = 0 then (Inr l, \<sigma>) else (Inl Diverge, \<sigma>))"
| "decode_loop (Suc k) n env rec slot l \<sigma> =
     (if left \<sigma> = 0 then (Inr l, \<sigma>)
      else case pb_decode_tag (fst \<sigma>) of
          ((Inl st, s), eof) \<Rightarrow>
            if st = Fail \<and> eof then (Inr l, s, snd \<sigma>) else (Inl st, s, snd \<sigma>)
        | ((Inr (wt, t), s), _) \<Rightarrow>
            dbind (decode_one n env rec slot t wt l (s, snd \<sigma>))
              (\<lambda>l \<sigma>. decode_loop k n env rec slot l \<sigma>))"

text \<open>The loop that seeks to the end of the descriptors: \<open>req_field_count\<close>, \<open>last_type\<close> and the iterator.\<close>

function last_field :: "pb_field_iter \<Rightarrow> u32 \<times> u8 \<times> pb_field_iter" where
  "last_field it =
     (case pb_field_iter_next it of (go, it') \<Rightarrow>
        if go then last_field it' else (required_field_index it, ftype (iter_field it), it'))"
  by pat_completeness auto
termination
proof (relation "measure (\<lambda>it. length (start it) - pos it)", simp)
  fix it :: pb_field_iter and go it'
  assume "(go, it') = pb_field_iter_next it" and go
  then have n: "pb_field_iter_next it = (True, it')" by simp
  show "(it', it) \<in> measure (\<lambda>it. length (start it) - pos it)"
    using next_TrueD [OF n] by simp
qed

declare last_field.simps [simp del]

definition required_count :: "pb_field_iter \<Rightarrow> u32" where
  "required_count it =
     (case last_field it of (r, last_type, it') \<Rightarrow>
        let c = (if PB_HTYPE last_type = HTYPE_REQUIRED \<and> tag (iter_field it') \<noteq> 0 then r + 1 else r)
        in if c > PB_MAX_REQUIRED_FIELDS then PB_MAX_REQUIRED_FIELDS else c)"

definition all_seen :: "u32 \<Rightarrow> u32 list \<Rightarrow> bool" where
  "all_seen c seen =
     (let k = unat (drop_bit 5 c) in
      list_all (\<lambda>i. seen ! i = - 1) [0..<k]
      \<and> (c AND 31 \<noteq> 0 \<longrightarrow> seen ! k = drop_bit (unat (32 - (c AND 31))) (- 1)))"

definition final_checks :: "addr \<Rightarrow> dec_locals \<Rightarrow> 's dstate \<Rightarrow> (status + unit) \<times> 's dstate" where
  "final_checks slot l \<sigma> =
     (if fixed_count_wrong slot l (mem_of \<sigma>) then d_error ''wrong size for fixed count field'' \<sigma>
      else
        let c = required_count (liter l) in
        if c > 0 \<and> \<not> all_seen c (fields_seen l) then d_error ''missing required field'' \<sigma>
        else (Inr (), \<sigma>))"

definition noinit_body :: "nat \<Rightarrow> 's dec_env \<Rightarrow> 's dmsg_func \<Rightarrow> 's dmsg_func" where
  "noinit_body n env rec fs dest \<sigma> =
     (let slot = local_slot env n;
          l = \<lparr>liter = snd (pb_field_iter_begin fs dest), fields_seen = [0, 0],
               extension_range_start = 0, fixed_count_field = None\<rparr> in
      dbind (decode_loop n n env rec slot l (write_mem slot (le_bytes 4 (0 :: u32)) \<sigma>))
        (final_checks slot))"

primrec pb_decode_noinit :: "nat \<Rightarrow> 's dec_env \<Rightarrow> 's dmsg_func" where
  "pb_decode_noinit 0 env = (\<lambda>fs dest \<sigma>. (Inl Diverge, \<sigma>))"
| "pb_decode_noinit (Suc n) env = noinit_body n env (pb_decode_noinit n env)"

definition pb_decode :: "nat \<Rightarrow> 's dec_env \<Rightarrow> 's dmsg_func" where
  "pb_decode n env = decode_init n env (pb_decode_noinit n env)"

definition pb_decode_delimited_noinit :: "nat \<Rightarrow> 's dec_env \<Rightarrow> 's dmsg_func" where
  "pb_decode_delimited_noinit n env fs dest \<sigma> =
     dbind (on_stream pb_make_string_substream \<sigma>) (\<lambda>sub \<sigma>.
       finish_substream (fst \<sigma>) (pb_decode_noinit n env fs dest (sub, snd \<sigma>)))"

definition pb_decode_delimited :: "nat \<Rightarrow> 's dec_env \<Rightarrow> 's dmsg_func" where
  "pb_decode_delimited n env fs dest \<sigma> =
     dbind (on_stream pb_make_string_substream \<sigma>) (\<lambda>sub \<sigma>.
       finish_substream (fst \<sigma>) (pb_decode n env fs dest (sub, snd \<sigma>)))"

definition pb_decode_nullterminated :: "nat \<Rightarrow> 's dec_env \<Rightarrow> 's dmsg_func" where
  "pb_decode_nullterminated n env = pb_decode n env"

end
