(* ===== verification/PbRegion.thy ===== *)
theory PbRegion
  imports PbDecode PbCommonProps
begin

text \<open>
  Regions of memory, descriptors that fit a region, and what \<open>pb_message_set_to_defaults\<close>
  and \<open>pb_release\<close> do for such descriptors: the first stays in the region, the second
  changes nothing.
\<close>

section \<open>Regions\<close>

definition span :: "addr \<Rightarrow> nat \<Rightarrow> addr set" where
  "span p n = (\<lambda>i. p + of_nat i) ` {..<n}"

lemma span_0 [simp]: "span p 0 = {}"
  by (simp add: span_def)

lemma span_mono: "m \<le> n \<Longrightarrow> span p m \<subseteq> span p n"
  by (auto simp: span_def)

lemma span_sub: "i + m \<le> n \<Longrightarrow> span (p + of_nat i) m \<subseteq> span p n"
  by (force simp: span_def image_iff add.assoc simp flip: of_nat_add)

lemma span_subI: "span p n \<subseteq> S \<Longrightarrow> m \<le> n \<Longrightarrow> span p m \<subseteq> S"
  using span_mono by blast

lemma store_outside: "span p (length bs) \<subseteq> S \<Longrightarrow> a \<notin> S \<Longrightarrow> store_bytes m p bs a = m a"
proof -
  assume s: "span p (length bs) \<subseteq> S" and a: "a \<notin> S"
  have "\<not> unat (a - p) < length bs"
  proof
    assume "unat (a - p) < length bs"
    then have "a \<in> span p (length bs)"
      by (auto simp: span_def image_iff intro!: bexI [of _ "unat (a - p)"])
    then show False using s a by blast
  qed
  then show ?thesis by (simp add: store_bytes_def)
qed

text \<open>Two memories that differ in a region only.\<close>

definition same_off :: "addr set \<Rightarrow> mem \<Rightarrow> mem \<Rightarrow> bool" where
  "same_off S m m' \<longleftrightarrow> (\<forall>a. a \<notin> S \<longrightarrow> m' a = m a)"

definition only :: "addr set \<Rightarrow> world \<Rightarrow> world \<Rightarrow> bool" where
  "only S w w' \<longleftrightarrow> blocks w' = blocks w \<and> same_off S (ram w) (ram w')"

lemma same_off_refl [simp]: "same_off S m m"
  by (simp add: same_off_def)

lemma same_off_trans: "same_off S m m1 \<Longrightarrow> same_off S m1 m2 \<Longrightarrow> same_off S m m2"
  by (simp add: same_off_def)

lemma same_off_store: "span p (length bs) \<subseteq> S \<Longrightarrow> same_off S m (store_bytes m p bs)"
  using store_outside [of p bs S _ m] by (simp add: same_off_def)

lemma only_refl [simp]: "only S w w"
  by (simp add: only_def)

lemma only_trans: "only S w w1 \<Longrightarrow> only S w1 w2 \<Longrightarrow> only S w w2"
  by (auto simp: only_def intro: same_off_trans)

lemma only_poke: "span p (length bs) \<subseteq> S \<Longrightarrow> only S w (poke p bs w)"
  by (simp add: only_def poke_def same_off_store)

lemma only_write: "span p (length bs) \<subseteq> S \<Longrightarrow> only S (snd \<sigma>) (snd (write_mem p bs \<sigma>))"
  by (simp add: write_mem_def only_poke)

lemma fst_write_mem [simp]: "fst (write_mem p bs \<sigma>) = fst \<sigma>"
  by (simp add: write_mem_def)

section \<open>Descriptors that fit a region\<close>

text \<open>An item of a field at \<open>p\<close>; \<open>sub\<close> is the condition on submessages.\<close>

definition item_ok ::
    "(pb_field list \<Rightarrow> addr \<Rightarrow> bool) \<Rightarrow> 's dec_env \<Rightarrow> addr set \<Rightarrow> pb_field \<Rightarrow> addr \<Rightarrow> bool" where
  "item_ok sub env S f p \<longleftrightarrow> span p (unat (data_size f)) \<subseteq> S
     \<and> (ltype f = LTYPE_FIXED32 \<longrightarrow> 4 \<le> data_size f)
     \<and> (ltype f = LTYPE_FIXED64 \<longrightarrow> 8 \<le> data_size f)
     \<and> (ltype f = LTYPE_SUBMESSAGE \<longrightarrow> ptr f \<noteq> 0 \<and> sub (dfields_at env (ptr f)) p)"

definition static_ok ::
    "(pb_field list \<Rightarrow> addr \<Rightarrow> bool) \<Rightarrow> 's dec_env \<Rightarrow> addr set \<Rightarrow> pb_field_iter \<Rightarrow> bool" where
  "static_ok sub env S it \<longleftrightarrow> (let f = iter_field it in
     (case htype f of
        HTYPE_REQUIRED \<Rightarrow> item_ok sub env S f (pData it)
      | HTYPE_OPTIONAL \<Rightarrow> item_ok sub env S f (pData it)
          \<and> (pSize it \<noteq> pData it \<longrightarrow> span (pSize it) 1 \<subseteq> S)
      | HTYPE_REPEATED \<Rightarrow> span (pSize it) 4 \<subseteq> S
          \<and> unat (data_size f) * unat (array_size f) < 2 ^ 32
          \<and> (\<forall>k < unat (array_size f).
               item_ok sub env S f (pData it + of_nat (unat (data_size f) * k)))
      | HTYPE_ONEOF \<Rightarrow> item_ok sub env S f (pData it) \<and> span (pSize it) 4 \<subseteq> S))"

definition field_ok ::
    "(pb_field list \<Rightarrow> addr \<Rightarrow> bool) \<Rightarrow> 's dec_env \<Rightarrow> addr set \<Rightarrow> pb_field_iter \<Rightarrow> bool" where
  "field_ok sub env S it \<longleftrightarrow> (let f = iter_field it in
     ltype f \<noteq> LTYPE_EXTENSION \<and> ltype f \<noteq> LTYPE_INVALID \<and>
     (case atype f of
        ATYPE_STATIC \<Rightarrow> static_ok sub env S it
      | ATYPE_CALLBACK \<Rightarrow> ltype f \<noteq> LTYPE_SUBMESSAGE
      | _ \<Rightarrow> False))"

text \<open>
  Descriptors nested at most \<open>d\<close> deep, for a struct at \<open>p\<close>, whose members, counters and
  items all lie in \<open>S\<close>. Descriptors of the list before the terminator have tags.
\<close>

primrec fits :: "nat \<Rightarrow> 's dec_env \<Rightarrow> addr set \<Rightarrow> pb_field list \<Rightarrow> addr \<Rightarrow> bool" where
  "fits 0 env S fs p = False"
| "fits (Suc d) env S fs p = ((\<forall>f \<in> set fs. tag f \<noteq> 0)
     \<and> (\<forall>i < length fs. field_ok (fits d env S) env S (iter_at fs p i)))"

lemma n_fields_all: "\<forall>f \<in> set fs. tag f \<noteq> 0 \<Longrightarrow> n_fields fs = length fs"
  by (simp add: n_fields_def takeWhile_eq_all_conv [THEN iffD2])

lemma fits_fields:
  "fits d env S fs p \<Longrightarrow> \<exists>d'. d = Suc d' \<and> n_fields fs = length fs
     \<and> (\<forall>i < length fs. field_ok (fits d' env S) env S (iter_at fs p i))"
  using n_fields_all by (cases d) auto

section \<open>Default values stay in the region\<close>

lemma run_all_inv:
  assumes "\<And>a x. a \<in> set as \<Longrightarrow> I x \<Longrightarrow> \<exists>x'. f a x = (Ok, x') \<and> I x'" "I x"
  shows "\<exists>x'. run_all f as x = (Ok, x') \<and> I x'"
  using assms
proof (induction as arbitrary: x)
  case (Cons a as)
  then obtain x1 where "f a x = (Ok, x1)" "I x1" by fastforce
  then show ?case using Cons by simp
qed simp

lemma iter_do_inv:
  assumes "\<And>i x. i < n_fields fs \<Longrightarrow> I x \<Longrightarrow> \<exists>x'. f (iter_at fs p i) x = (Ok, x') \<and> I x'"
    "0 < n_fields fs" "I x"
  shows "\<exists>x'. iter_do f (snd (pb_field_iter_begin fs p)) x = (Ok, x') \<and> I x'"
proof -
  have "\<exists>x'. run_all f (map (iter_at fs p) [0..<n_fields fs]) x = (Ok, x') \<and> I x'"
    by (rule run_all_inv) (use assms in auto)
  then show ?thesis using iter_do_from [of 0 fs f p x] assms(2) by simp
qed

lemma message_defaults_inv:
  assumes "\<And>i m. i < n_fields fs \<Longrightarrow> \<exists>m'. f (iter_at fs p i) m = (Ok, m') \<and> same_off S m m'"
  shows "\<exists>m'. message_defaults f fs p m = (Ok, m') \<and> same_off S m m'"
proof (cases "0 < n_fields fs")
  case True
  have "\<exists>x'. iter_do f (snd (pb_field_iter_begin fs p)) m = (Ok, x') \<and> same_off S m x'"
    by (rule iter_do_inv) (use assms same_off_trans True in \<open>blast+, simp\<close>)
  then show ?thesis using True begin_empty_iff [of fs p]
    by (simp add: message_defaults_def case_prod_beta)
next
  case False
  then show ?thesis using begin_empty_iff [of fs p]
    by (simp add: message_defaults_def case_prod_beta)
qed

lemma field_default_ok:
  assumes "field_ok (fits d env S) env S it" "d \<le> n"
    and sub: "\<And>fs p m. fits d env S fs p \<Longrightarrow>
      \<exists>m'. message_defaults (pb_field_set_to_default n env) fs p m = (Ok, m') \<and> same_off S m m'"
  shows "\<exists>m'. pb_field_set_to_default (Suc n) env it m = (Ok, m') \<and> same_off S m m'"
proof -
  let ?f = "iter_field it"
  have l: "ltype ?f \<noteq> LTYPE_EXTENSION" using assms(1) by (simp add: field_ok_def Let_def)
  show ?thesis
  proof (cases "atype ?f")
    case ATYPE_STATIC
    then have ok: "static_ok (fits d env S) env S it" using assms(1) by (simp add: field_ok_def Let_def)
    obtain m1 init where r: "reset_presence it m = (m1, init)" by fastforce
    have m1: "same_off S m m1"
      using ok r by (auto simp: reset_presence_def static_ok_def Let_def same_off_store
          split: if_splits pb_htype.splits)
    show ?thesis
    proof (cases init)
      case False
      then show ?thesis using r m1 l ATYPE_STATIC by (simp add: field_default_body_def)
    next
      case True
      then have item: "item_ok (fits d env S) env S ?f (pData it)"
        using ok r by (auto simp: reset_presence_def static_ok_def Let_def
            split: if_splits pb_htype.splits)
      then have region: "span (pData it) (unat (data_size ?f)) \<subseteq> S" by (simp add: item_ok_def)
      show ?thesis
      proof (cases "ltype ?f = LTYPE_SUBMESSAGE")
        case T: True
        then have "fits d env S (dfields_at env (ptr ?f)) (pData it)"
          using item by (simp add: item_ok_def)
        then obtain m2 where "message_defaults (pb_field_set_to_default n env)
            (dfields_at env (ptr ?f)) (pData it) m1 = (Ok, m2)" "same_off S m1 m2"
          using sub by blast
        then show ?thesis using r T True m1 l ATYPE_STATIC same_off_trans
          by (auto simp: field_default_body_def)
      next
        case F: False
        then show ?thesis using r True m1 l ATYPE_STATIC region
          by (auto simp: field_default_body_def Let_def intro!: same_off_trans [OF m1] same_off_store)
      qed
    qed
  next
    case ATYPE_CALLBACK
    then show ?thesis using l by (simp add: field_default_body_def)
  qed (use assms(1) in \<open>simp_all add: field_ok_def Let_def\<close>)
qed

lemma defaults_ok:
  "fits d env S fs p \<Longrightarrow> d \<le> n \<Longrightarrow>
   \<exists>m'. pb_message_set_to_defaults n env fs p m = (Ok, m') \<and> same_off S m m'"
proof (induction n arbitrary: d fs p m)
  case 0
  then show ?case by simp
next
  case (Suc n)
  obtain d' where d': "d = Suc d'" "n_fields fs = length fs"
    "\<forall>i < length fs. field_ok (fits d' env S) env S (iter_at fs p i)"
    using fits_fields [OF Suc.prems(1)] by blast
  have "d' \<le> n" using Suc.prems(2) d'(1) by simp
  then have sub: "\<exists>m'. message_defaults (pb_field_set_to_default n env) fs p m = (Ok, m') \<and> same_off S m m'"
    if "fits d' env S fs p" for fs p m
    using Suc.IH [of d' fs p m] that by (simp add: pb_message_set_to_defaults_def)
  show ?case
    unfolding pb_message_set_to_defaults_def
    by (rule message_defaults_inv)
       (use d' \<open>d' \<le> n\<close> field_default_ok [where d = d', OF _ _ sub] in simp)
qed

section \<open>Releasing static fields changes nothing\<close>

lemma release_items_id:
  assumes "\<And>k w. k < c \<Longrightarrow> message_release rec fs (p + of_nat k * sz) w = (Ok, w)"
  shows "release_items rec fs sz c p w = (Ok, w)"
  using assms
proof (induction c arbitrary: p)
  case (Suc c)
  have "message_release rec fs (p + sz + of_nat k * sz) w = (Ok, w)" if "k < c" for k w
    using Suc.prems [of "Suc k" w] that by (simp add: algebra_simps)
  moreover have "message_release rec fs p w = (Ok, w)" using Suc.prems [of 0 w] by simp
  ultimately show ?case using Suc.IH [of "p + sz"] by simp
qed simp

lemma submessage_count_le:
  "atype (iter_field it) = ATYPE_STATIC \<Longrightarrow> htype (iter_field it) = HTYPE_REPEATED \<Longrightarrow>
   submessage_count it m \<le> array_size (iter_field it)"
  by (simp add: submessage_count_def Let_def not_less)

lemma release_field_ok:
  assumes "field_ok (fits d env S) env S it"
    and sub: "\<And>fs p w. fits d env S fs p \<Longrightarrow>
      message_release (pb_release_single_field n env) fs p w = (Ok, w)"
  shows "pb_release_single_field (Suc n) env it w = (Ok, w)"
proof -
  let ?f = "iter_field it"
  have l: "ltype ?f \<noteq> LTYPE_EXTENSION" "atype ?f \<noteq> ATYPE_POINTER"
    using assms(1) by (auto simp: field_ok_def Let_def)
  have "release_contents n env (pb_release_single_field n env) it w = (Ok, w)"
  proof (cases "ltype ?f = LTYPE_SUBMESSAGE")
    case True
    then have a: "atype ?f = ATYPE_STATIC" and ok: "static_ok (fits d env S) env S it"
      using assms(1) by (auto simp: field_ok_def Let_def split: pb_atype.splits)
    have item: "message_release (pb_release_single_field n env) (dfields_at env (ptr ?f))
        (pData it + of_nat k * ucast (data_size ?f)) w = (Ok, w)"
      if k: "k < unat (submessage_count it m)" for k m w
    proof -
      have "item_ok (fits d env S) env S ?f (pData it + of_nat (unat (data_size ?f) * k))"
      proof (cases "htype ?f = HTYPE_REPEATED")
        case T: True
        then have "k < unat (array_size ?f)"
          using k submessage_count_le [OF a T, of m] by (simp add: word_le_nat_alt)
        then show ?thesis using ok T by (simp add: static_ok_def Let_def)
      next
        case False
        then have "k = 0" using k by (simp add: submessage_count_def Let_def)
        then show ?thesis using ok False
          by (simp add: static_ok_def Let_def split: pb_htype.splits)
      qed
      then show ?thesis using sub True by (simp add: item_ok_def mult.commute unat_ucast_up)
    qed
    then show ?thesis
      using True l a by (simp add: release_contents_def Let_def release_items_id)
  qed (use l in \<open>simp add: release_contents_def Let_def\<close>)
  then show ?thesis using l by (simp add: release_single_body_def Let_def)
qed

lemma iter_do_id:
  assumes "\<And>i. i < n_fields fs \<Longrightarrow> f (iter_at fs p i) x = (Ok, x)" "0 < n_fields fs"
  shows "iter_do f (snd (pb_field_iter_begin fs p)) x = (Ok, x)"
  using iter_do_inv [of fs "\<lambda>y. y = x" f p x] assms by auto

lemma release_ok: "fits d env S fs p \<Longrightarrow> d \<le> n \<Longrightarrow> pb_release n env fs p w = (Ok, w)"
proof (induction n arbitrary: d fs p w)
  case 0
  then show ?case by simp
next
  case (Suc n)
  obtain d' where d': "d = Suc d'" "n_fields fs = length fs"
    "\<forall>i < length fs. field_ok (fits d' env S) env S (iter_at fs p i)"
    using fits_fields [OF Suc.prems(1)] by blast
  have "d' \<le> n" using Suc.prems(2) d'(1) by simp
  then have sub: "message_release (pb_release_single_field n env) fs p w = (Ok, w)"
    if "fits d' env S fs p" for fs p w
    using Suc.IH [of d' fs p w] that by (simp add: pb_release_def)
  have "pb_release_single_field (Suc n) env (iter_at fs p i) w = (Ok, w)" if "i < n_fields fs" for i
  proof (rule release_field_ok)
    show "field_ok (fits d' env S) env S (iter_at fs p i)" using d' that by simp
  qed (rule sub)
  then have "0 < n_fields fs \<Longrightarrow>
      iter_do (pb_release_single_field (Suc n) env) (snd (pb_field_iter_begin fs p)) w = (Ok, w)"
    by (rule iter_do_id)
  then show ?case
    using begin_empty_iff [of fs p]
    by (auto simp: pb_release_def message_release_def case_prod_beta simp del: pb_release_single_field.simps)
qed

end
