(* ===== verification/PbMem.thy ===== *)
theory PbMem
  imports PbRegion
begin

text \<open>
  Loads after stores: the value that was stored, and nothing else changed. The rules have
  side conditions on distances between addresses, which \<open>simp\<close> evaluates on literals.
\<close>

definition apart :: "addr \<Rightarrow> nat \<Rightarrow> addr \<Rightarrow> nat \<Rightarrow> bool" where
  "apart p n q k \<longleftrightarrow> k \<le> unat (p - q) \<and> n \<le> unat (q - p)"

lemma unat_uminus_word:
  assumes "(w :: addr) \<noteq> 0"
  shows "unat (- w) = 2 ^ 64 - unat w"
proof -
  have "unat (w + - w) = 0" by simp
  then have m: "(unat w + unat (- w)) mod 2 ^ 64 = 0" by (simp only: unat_word_ariths) simp
  have "unat w < 2 ^ 64" "unat (- w) < 2 ^ 64"
    using unsigned_less [of w] unsigned_less [of "- w"] by simp_all
  moreover have "0 < unat w" using assms by (simp add: unat_gt_0)
  moreover obtain c where c: "unat w + unat (- w) = 2 ^ 64 * c" using m by (auto simp: mod_eq_0_iff_dvd)
  ultimately have "c < 2" "0 < c" by (auto intro: ccontr)
  then have "c = 1" by simp
  then show ?thesis using c by simp
qed

lemma unat_lt: "unat (w :: addr) < 2 ^ 64"
  using unsigned_less [of w] by simp

lemma load_bytes_store_apart:
  assumes "apart p n q (length bs)"
  shows "load_bytes (store_bytes m q bs) p n = load_bytes m p n"
proof (rule nth_equalityI)
  fix i assume "i < length (load_bytes (store_bytes m q bs) p n)"
  then have i: "i < n" by simp
  have "length bs \<le> unat (p + of_nat i - q)"
  proof (cases "p = q")
    case True
    then show ?thesis using assms by (simp add: apart_def)
  next
    case False
    have "unat (q - p) = 2 ^ 64 - unat (p - q)"
      using unat_uminus_word [of "p - q"] False by simp
    then have "unat (p - q) + i < 2 ^ 64"
      using assms i unat_lt [of "p - q"] by (simp add: apart_def) arith
    then have u: "unat ((p - q) + of_nat i) = unat (p - q) + i"
      by (simp add: unat_word_ariths unat_of_nat)
    have e: "p + of_nat i - q = (p - q) + of_nat i" by simp
    show ?thesis unfolding e u using assms by (simp add: apart_def)
  qed
  then show "load_bytes (store_bytes m q bs) p n ! i = load_bytes m p n ! i"
    using i by (simp add: nth_load_bytes store_bytes_outside)
qed simp

lemma load64_store_apart: "apart p 8 q (length bs) \<Longrightarrow> load64 (store_bytes m q bs) p = load64 m p"
  by (simp add: load64_def load_bytes_store_apart)

lemma load32_store_apart: "apart p 4 q (length bs) \<Longrightarrow> load32 (store_bytes m q bs) p = load32 m p"
  by (simp add: load32_def load_bytes_store_apart)

lemma load64_store [simp]: "load64 (store_bytes m p (le_bytes 8 v)) p = v"
  using load_store_bytes [of "le_bytes 8 v" m p] by (simp add: load64_def le_word_le_bytes)

lemma load32_store [simp]: "load32 (store_bytes m p (le_bytes 4 v)) p = v"
  using load_store_bytes [of "le_bytes 4 v" m p] by (simp add: load32_def le_word_le_bytes)

lemma load_bytes_store: "length bs < 2 ^ 64 \<Longrightarrow> n = length bs \<Longrightarrow> load_bytes (store_bytes m p bs) p n = bs"
  by (simp add: load_store_bytes)

lemma ram_poke [simp]: "ram (poke p bs w) = store_bytes (ram w) p bs"
  by (simp add: poke_def)

lemma blocks_poke [simp]: "blocks (poke p bs w) = blocks w"
  by (simp add: poke_def)

lemma snd_write_mem [simp]: "snd (write_mem p bs \<sigma>) = poke p bs (snd \<sigma>)"
  by (simp add: write_mem_def)

lemmas mem_simps = load64_store_apart load32_store_apart apart_def

lemma apart_store_bytes:
  assumes "apart p n q (length bs)" "i < n"
  shows "store_bytes m q bs (p + of_nat i) = m (p + of_nat i)"
proof -
  have "load_bytes (store_bytes m q bs) p n ! i = load_bytes m p n ! i"
    by (simp only: load_bytes_store_apart [OF assms(1)])
  then show ?thesis using assms(2) by (simp add: nth_load_bytes)
qed

text \<open>Regions that are apart are disjoint.\<close>

lemma apart_sym: "apart p n q k = apart q k p n"
  by (auto simp: apart_def)

lemma apart_offsets:
  assumes "i + n \<le> j" "i < j" "j + k < 2 ^ 64"
  shows "apart (p + of_nat i) n (p + of_nat j) k"
proof -
  have u: "unat (of_nat (j - i) :: addr) = j - i" using assms by (intro unat_of_nat_lt) simp
  have d: "p + of_nat j - (p + of_nat i) = (of_nat (j - i) :: addr)"
    "p + of_nat i - (p + of_nat j) = - (of_nat (j - i) :: addr)"
    using assms by (simp_all add: of_nat_diff)
  have "of_nat (j - i) \<noteq> (0 :: addr)"
  proof
    assume "of_nat (j - i) = (0 :: addr)"
    then have "j - i = 0" using u by simp
    then show False using assms by simp
  qed
  then have "unat (- (of_nat (j - i) :: addr)) = 2 ^ 64 - (j - i)"
    using unat_uminus_word [of "of_nat (j - i)"] u by simp
  then show ?thesis unfolding apart_def d using u assms by simp arith
qed

end
