(* ===== verification/PbDecodeSafe.thy ===== *)
theory PbDecodeSafe
  imports PbRegion
begin

text \<open>
  Memory safety of the message decoder. For descriptors of statically allocated and callback
  fields that fit a region of memory, decoding any bytes reads nothing past the stream,
  changes no byte outside the region, touches no heap block, and ends.
\<close>

section \<open>The contract of a decoder with memory\<close>

definition dends :: "'s read_fn \<Rightarrow> ('s \<Rightarrow> u8 list) \<Rightarrow> addr set \<Rightarrow> 's dstate \<Rightarrow>
    (status + 'a) \<times> 's dstate \<Rightarrow> bool" where
  "dends rd content S \<sigma> r \<longleftrightarrow>
     ends_well rd content (fst \<sigma>) (fst r, fst (snd r)) \<and> only S (snd \<sigma>) (snd (snd r))"

lemma dends_Inr [simp]:
  "dends rd content S \<sigma> (Inr v, \<sigma>') \<longleftrightarrow>
     within rd content (fst \<sigma>') \<and> (\<exists>n. advanced rd content (fst \<sigma>) n (fst \<sigma>'))
     \<and> only S (snd \<sigma>) (snd \<sigma>')"
  by (auto simp: dends_def)

lemma dends_Inl [simp]:
  "dends rd content S \<sigma> (Inl st, \<sigma>') \<longleftrightarrow>
     within rd content (fst \<sigma>') \<and> kept content (fst \<sigma>) (fst \<sigma>') \<and> st = Fail
     \<and> only S (snd \<sigma>) (snd \<sigma>')"
  by (auto simp: dends_def)

lemma d_error_eq: "d_error msg \<sigma> = (Inl Fail, i_set_error (fst \<sigma>) msg, snd \<sigma>)"
  by (simp add: d_error_def on_stream_def i_error_def)

lemma dends_error [simp]:
  "dends rd content S \<sigma> (d_error msg \<sigma>') \<longleftrightarrow>
     within rd content (fst \<sigma>') \<and> kept content (fst \<sigma>) (fst \<sigma>') \<and> only S (snd \<sigma>) (snd \<sigma>')"
  by (simp add: d_error_eq)

lemma dends_return:
  "within rd content (fst \<sigma>) \<Longrightarrow> dends rd content S \<sigma> (Inr v, \<sigma>)"
  by (auto simp: within_def intro: advanced_refl)

text \<open>Starting later: after reading more of the stream and writing in the region.\<close>

lemma dends_later:
  assumes "advanced rd content (fst \<sigma>) n (fst \<sigma>1)" "only S (snd \<sigma>) (snd \<sigma>1)"
    "dends rd content S \<sigma>1 r"
  shows "dends rd content S \<sigma> r"
proof -
  obtain x \<sigma>2 where r: "r = (x, \<sigma>2)" by (cases r)
  show ?thesis
  proof (cases x)
    case (Inl st)
    then show ?thesis
      using assms r kept_trans [OF advanced_kept [OF assms(1)]] only_trans [OF assms(2)] by auto
  next
    case (Inr v)
    then show ?thesis
      using assms r advanced_trans [OF assms(1)] only_trans [OF assms(2)] by auto
  qed
qed

lemma dends_write:
  assumes "span p (length bs) \<subseteq> S" "within rd content (fst \<sigma>)"
    "dends rd content S (write_mem p bs \<sigma>) r"
  shows "dends rd content S \<sigma> r"
  by (rule dends_later [OF _ only_write [OF assms(1)] assms(3), where n = 0])
     (use assms(2) in \<open>simp add: within_def advanced_refl\<close>)

lemma dends_written:
  "span p (length bs) \<subseteq> S \<Longrightarrow> within rd content (fst \<sigma>) \<Longrightarrow>
   dends rd content S \<sigma> (Inr v, write_mem p bs \<sigma>)"
  by (rule dends_write, assumption+, rule dends_return, simp)

lemma dends_dbind:
  assumes r: "dends rd content S \<sigma> r"
    and k: "\<And>a \<sigma>1 n. r = (Inr a, \<sigma>1) \<Longrightarrow> within rd content (fst \<sigma>1) \<Longrightarrow>
      advanced rd content (fst \<sigma>) n (fst \<sigma>1) \<Longrightarrow> dends rd content S \<sigma>1 (k a \<sigma>1)"
  shows "dends rd content S \<sigma> (dbind r k)"
proof -
  obtain x \<sigma>1 where x: "r = (x, \<sigma>1)" by (cases r)
  show ?thesis
  proof (cases x)
    case (Inl st)
    then show ?thesis using r x by simp
  next
    case (Inr a)
    then obtain n where n: "advanced rd content (fst \<sigma>) n (fst \<sigma>1)" "within rd content (fst \<sigma>1)"
      "only S (snd \<sigma>) (snd \<sigma>1)"
      using r x by auto
    show ?thesis
      using dends_later [OF n(1,3) k [of a \<sigma>1 n]] x Inr n by simp
  qed
qed

lemma advanced_left_le: "advanced rd content s n s' \<Longrightarrow> unat (bytes_left s') \<le> unat (bytes_left s)"
  using unat_bytes_left_advanced [of rd content s n s'] by simp

lemma dends_on_stream:
  "safe rd content f \<Longrightarrow> within rd content (fst \<sigma>) \<Longrightarrow> dends rd content S \<sigma> (on_stream f \<sigma>)"
  using safeD [of rd content f "fst \<sigma>"]
  by (auto simp: dends_def on_stream_def split: prod.splits)

lemma dends_defaults:
  assumes "fits d env S fs p" "d \<le> n" "within rd content (fst \<sigma>)"
  shows "dends rd content S \<sigma> (on_world (on_ram (pb_message_set_to_defaults n env fs p)) \<sigma>)"
proof -
  obtain m where "pb_message_set_to_defaults n env fs p (ram (snd \<sigma>)) = (Ok, m)"
    "same_off S (ram (snd \<sigma>)) m"
    using defaults_ok [OF assms(1,2)] by blast
  then show ?thesis
    using assms(3) by (auto simp: on_world_def on_ram_def only_def within_def intro: advanced_refl)
qed

text \<open>Bytes of the stream are used up.\<close>

definition shrinks :: "('s pb_istream \<Rightarrow> (status + 'a) \<times> 's pb_istream) \<Rightarrow> bool" where
  "shrinks d \<longleftrightarrow> (\<forall>s v s'. d s = (Inr v, s') \<longrightarrow> unat (bytes_left s') < unat (bytes_left s))"

lemma dbind_InrD:
  assumes "dbind r k = (Inr v, s)"
  obtains a s1 where "r = (Inr a, s1)" "k a s1 = (Inr v, s)"
proof -
  obtain x s1 where "r = (x, s1)" by (cases r)
  then show thesis using assms that by (cases x) auto
qed

lemma varint64_loop_shrinks:
  "varint64_loop s p r = (Inr v, s') \<Longrightarrow> unat (bytes_left s') < unat (bytes_left s)"
proof (induction s p r rule: varint64_loop.induct)
  case (1 s p r)
  have p: "\<not> 64 \<le> p" using 1(2) by (subst (asm) varint64_loop.simps) (auto simp: i_error_def)
  obtain b s1 where s1: "pb_readbyte s = (Inr b, s1)"
    and k: "(if b AND 0x80 \<noteq> 0
        then varint64_loop s1 (p + 7) (r OR push_bit (unat p) (ucast (b AND 0x7F)))
        else (Inr (r OR push_bit (unat p) (ucast (b AND 0x7F))), s1)) = (Inr v, s')"
    using 1(2) unfolding varint64_loop_dbind [OF p] by (elim dbind_InrD) (simp add: Let_def)
  note pb_readbyte_decreases [OF s1]
  then show ?case
    using 1(1) [OF p s1 [symmetric] refl refl] k by (cases "b AND 0x80 = 0") auto
qed

lemma varint_shrinks: "shrinks pb_decode_varint"
  using varint64_loop_shrinks by (auto simp: shrinks_def pb_decode_varint_def)

lemma svarint_shrinks: "shrinks pb_decode_svarint"
  using varint_shrinks by (auto simp: shrinks_def pb_decode_svarint_def elim!: dbind_InrD)

lemma fixed32_shrinks: "shrinks pb_decode_fixed32"
  by (auto simp: shrinks_def pb_decode_fixed32_def elim!: dbind_InrD
      dest!: pb_read_decreases split: if_splits)

lemma fixed64_shrinks: "shrinks pb_decode_fixed64"
  by (auto simp: shrinks_def pb_decode_fixed64_def elim!: dbind_InrD
      dest!: pb_read_decreases split: if_splits)

lemma dbind_on_stream_shrinks:
  assumes "shrinks d" "dbind (on_stream d \<sigma>) k = (Inr v, \<sigma>')"
    and "\<And>a \<sigma>1 \<sigma>2 v. k a \<sigma>1 = (Inr v, \<sigma>2) \<Longrightarrow> fst \<sigma>2 = fst \<sigma>1"
  shows "unat (left \<sigma>') < unat (left \<sigma>)"
proof -
  obtain a \<sigma>1 where k: "on_stream d \<sigma> = (Inr a, \<sigma>1)" "k a \<sigma>1 = (Inr v, \<sigma>')"
    using assms(2) by (rule dbind_InrD)
  then have "d (fst \<sigma>) = (Inr a, fst \<sigma>1)" by (auto simp: on_stream_def split: prod.splits)
  then have "unat (left \<sigma>1) < unat (left \<sigma>)" using assms(1) by (auto simp: shrinks_def)
  then show ?thesis using assms(3) [OF k(2)] by simp
qed

lemma store_signed_fst: "store_signed f p v \<sigma> = Some (c, \<sigma>1) \<Longrightarrow> fst \<sigma>1 = fst \<sigma>"
  by (auto simp: store_signed_def split: if_splits)

lemma store_unsigned_fst: "store_unsigned f p v \<sigma> = Some (c, \<sigma>1) \<Longrightarrow> fst \<sigma>1 = fst \<sigma>"
  by (auto simp: store_unsigned_def split: if_splits)

lemma checked_signed_fst:
  "check_clamped v (store_signed f p v \<sigma>) \<sigma> = (Inr u, \<sigma>') \<Longrightarrow> fst \<sigma>' = fst \<sigma>"
  by (auto simp: check_clamped_def d_error_eq dest: store_signed_fst split: option.splits if_splits)

lemma checked_unsigned_fst:
  "check_clamped v (store_unsigned f p v \<sigma>) \<sigma> = (Inr u, \<sigma>') \<Longrightarrow> fst \<sigma>' = fst \<sigma>"
  by (auto simp: check_clamped_def d_error_eq dest: store_unsigned_fst split: option.splits if_splits)

lemma packable_shrinks:
  assumes "packable (ltype f)" "PB_DECODERS n env rec (ltype f) = Some (Some g)"
    "g f p \<sigma> = (Inr v, \<sigma>')"
  shows "unat (left \<sigma>') < unat (left \<sigma>)"
proof (cases "ltype f")
  case LTYPE_VARINT
  then have "pb_dec_varint f p \<sigma> = (Inr v, \<sigma>')" using assms by simp
  from dbind_on_stream_shrinks [OF varint_shrinks this [unfolded pb_dec_varint_def]]
  show ?thesis using checked_signed_fst unfolding Let_def by blast
next
  case LTYPE_UVARINT
  then have "pb_dec_uvarint f p \<sigma> = (Inr v, \<sigma>')" using assms by simp
  from dbind_on_stream_shrinks [OF varint_shrinks this [unfolded pb_dec_uvarint_def]]
  show ?thesis using checked_unsigned_fst by blast
next
  case LTYPE_SVARINT
  then have "pb_dec_svarint f p \<sigma> = (Inr v, \<sigma>')" using assms by simp
  from dbind_on_stream_shrinks [OF svarint_shrinks this [unfolded pb_dec_svarint_def]]
  show ?thesis using checked_signed_fst by blast
next
  case LTYPE_FIXED32
  then have "pb_dec_fixed32 f p \<sigma> = (Inr v, \<sigma>')" using assms by simp
  from dbind_on_stream_shrinks [OF fixed32_shrinks this [unfolded pb_dec_fixed32_def]]
  show ?thesis by auto
next
  case LTYPE_FIXED64
  then have "pb_dec_fixed64 f p \<sigma> = (Inr v, \<sigma>')" using assms by simp
  from dbind_on_stream_shrinks [OF fixed64_shrinks this [unfolded pb_dec_fixed64_def]]
  show ?thesis by auto
qed (use assms in simp_all)

section \<open>Substreams\<close>

lemma store_signed_only:
  assumes "span p (unat (data_size f)) \<subseteq> S" "store_signed f p v \<sigma> = Some (c, \<sigma>1)"
  shows "fst \<sigma>1 = fst \<sigma> \<and> only S (snd \<sigma>) (snd \<sigma>1)"
  using assms by (auto simp: store_signed_def intro!: only_write split: if_splits)

lemma store_unsigned_only:
  assumes "span p (unat (data_size f)) \<subseteq> S" "store_unsigned f p v \<sigma> = Some (c, \<sigma>1)"
  shows "fst \<sigma>1 = fst \<sigma> \<and> only S (snd \<sigma>) (snd \<sigma>1)"
  using assms by (auto simp: store_unsigned_def intro!: only_write split: if_splits)

lemma dends_check_clamped:
  assumes "within rd content (fst \<sigma>)"
    "\<And>c \<sigma>1. r = Some (c, \<sigma>1) \<Longrightarrow> fst \<sigma>1 = fst \<sigma> \<and> only S (snd \<sigma>) (snd \<sigma>1)"
  shows "dends rd content S \<sigma> (check_clamped v r \<sigma>)"
  using assms by (cases r) (auto simp: check_clamped_def)

context input_source
begin

lemma raw_varint_safe: "safe rd content (\<lambda>s. raw_varint s k)"
proof (induction k)
  case 0
  show ?case by (rule safeI) simp
next
  case (Suc k)
  have r1: "safe rd content read1" by (rule safeI) (rule ends_well_read1)
  show ?case
    unfolding raw_varint.simps by (intro safe_dbind [OF r1] safe_if safe_dbind [OF Suc] safe_return)
qed

lemma raw_value_safe: "8 \<le> room \<Longrightarrow> safe rd content (\<lambda>s. read_raw_value s wt room)"
  by (cases wt) (simp_all add: read_raw_value_def raw_varint_safe read_safe safe_error)

lemma dends_read_into:
  assumes "span p (unat n) \<subseteq> S" "within rd content (fst \<sigma>)"
  shows "dends rd content S \<sigma> (pb_read_into p n \<sigma>)"
proof (cases "p = 0")
  case True
  then show ?thesis using assms(2) by (simp add: pb_read_into_def dends_on_stream read_null_safe)
next
  case False
  have "dends rd content S \<sigma> (dbind (on_stream (\<lambda>s. pb_read s n) \<sigma>)
      (\<lambda>bs \<sigma>. (Inr (), write_mem p bs \<sigma>)))"
  proof (rule dends_dbind [OF dends_on_stream [OF read_safe assms(2)]])
    fix bs \<sigma>1 assume r: "on_stream (\<lambda>s. pb_read s n) \<sigma> = (Inr bs, \<sigma>1)" and w: "within rd content (fst \<sigma>1)"
    then have "pb_read (fst \<sigma>) n = (Inr bs, fst \<sigma>1)" by (auto simp: on_stream_def split: prod.splits)
    then have "length bs = unat n" by (rule read_length [OF assms(2)])
    then show "dends rd content S \<sigma>1 (Inr (), write_mem p bs \<sigma>1)"
      using assms(1) w by (simp add: dends_written del: dends_Inr)
  qed
  then show ?thesis using False by (simp add: pb_read_into_def)
qed

text \<open>
  Closing after decoding in \<open>sub\<close>, which was opened for \<open>n\<close> bytes of \<open>s\<close>.
\<close>

lemma dends_finish:
  assumes w: "within rd content s" and n: "ucast (n :: u32) \<le> bytes_left s"
    and r: "dends rd content S (s\<lparr>bytes_left := ucast n\<rparr>, wd) r"
  shows "dends rd content S (s, wd)
    (finish_substream (s\<lparr>bytes_left := bytes_left s - ucast n\<rparr>) r)"
proof -
  let ?n = "unat (ucast n :: u64)" and ?s2 = "s\<lparr>bytes_left := bytes_left s - ucast n\<rparr>"
  have le: "?n \<le> unat (bytes_left s)" using n by (simp add: word_le_nat_alt)
  obtain x sub' w' where x: "r = (x, sub', w')" by (cases r)
  show ?thesis
  proof (cases x)
    case (Inr v)
    then obtain k where k: "advanced rd content (s\<lparr>bytes_left := ucast n\<rparr>) k sub'"
      and o: "only S wd w'" using r x by auto
    have "?n \<le> length (avail content s)" using w le by (simp add: within_def)
    from substream_body_Inr [of s n "\<lambda>_. (Inr v, sub')", OF within_sourced [OF w] le this refl k]
    obtain s' where s': "substream_body (\<lambda>_. (Inr v, sub')) n s = (Inr v, s')"
      "advanced rd content s ?n s'" by blast
    then obtain u where "pb_close_string_substream ?s2 sub' = (Inr u, s')"
      using n by (auto simp: substream_body_def not_less elim!: dbind_InrD split: if_splits)
    then show ?thesis
      using x Inr s'(2) o within_advanced [OF w s'(2)] by (auto simp: finish_substream_def on_stream_def)
  next
    case (Inl st)
    then have sub': "within rd content sub'" "kept content (s\<lparr>bytes_left := ucast n\<rparr>) sub'"
      "st = Fail" "only S wd w'" using r x by auto
    let ?c = "if bytes_left sub' \<noteq> 0 then pb_read_null sub' (bytes_left sub') else (Inr (), sub')"
    have "\<exists>sub''. ?c = (Inr (), sub'') \<and> advanced rd content sub' (unat (bytes_left sub')) sub''"
    proof (cases "bytes_left sub' = 0")
      case True
      then show ?thesis using sub'(1) by (simp add: advanced_refl within_sourced)
    next
      case False
      let ?b = "take (unat (bytes_left sub')) (avail content sub')"
      have "length ?b = unat (bytes_left sub')" using sub'(1) by (simp add: within_def)
      then show ?thesis
        using False read_null_parses [of "bytes_left sub'" ?b] sub'(1) within_sourced
        unfolding parses_def by force
    qed
    then obtain sub'' where sub'': "?c = (Inr (), sub'')"
      "advanced rd content sub' (unat (bytes_left sub')) sub''" by blast
    let ?s' = "?s2\<lparr>source := source sub'', ierrmsg := ierrmsg sub''\<rparr>"
    have av: "length (avail content sub'') = length (avail content sub') - unat (bytes_left sub')"
      using sub''(2) by (simp add: advanced_def)
    have l: "unat (bytes_left s - ucast n) = unat (bytes_left s) - ?n"
      using n by (simp add: unat_sub)
    have k: "length (avail content s) + unat (bytes_left sub') \<le> length (avail content sub') + ?n"
      using sub'(2) by (simp add: kept_def avail_def)
    have a: "avail content ?s' = avail content sub''" "sourced rd ?s'"
      "bytes_left ?s' = bytes_left s - ucast n"
      using sub''(2) by (simp_all add: avail_def sourced_def advanced_def)
    have "within rd content ?s'"
      unfolding within_def a(1,3) l using a(2) av k le w by (simp add: within_def) arith
    moreover have "kept content s ?s'"
      unfolding kept_def a(1,3) l using av k le sub'(1) by (simp add: within_def)
    ultimately show ?thesis
      using x Inl sub'(3,4) sub''(1)
      by (simp add: finish_substream_def on_stream_def pb_close_string_substream_def)
  qed
qed

text \<open>Opening a substream for \<open>n\<close> bytes of \<open>s\<close>.\<close>

lemma dends_make:
  assumes w: "within rd content (fst \<sigma>)"
    and k: "\<And>s n j. within rd content s \<Longrightarrow> advanced rd content (fst \<sigma>) j s \<Longrightarrow>
      ucast (n :: u32) \<le> bytes_left s \<Longrightarrow> within rd content (s\<lparr>bytes_left := ucast n\<rparr>) \<Longrightarrow>
      unat (bytes_left s) \<le> unat (left \<sigma>) \<Longrightarrow>
      dends rd content S (s, snd \<sigma>)
        (K (s\<lparr>bytes_left := ucast n\<rparr>) (s\<lparr>bytes_left := bytes_left s - ucast n\<rparr>, snd \<sigma>))"
  shows "dends rd content S \<sigma> (dbind (on_stream pb_make_string_substream \<sigma>) K)"
proof -
  have e: "on_stream pb_make_string_substream \<sigma> =
      dbind (on_stream pb_decode_varint32 \<sigma>) (\<lambda>n \<sigma>.
        if left \<sigma> < ucast n then d_error ''parent stream too short'' \<sigma>
        else (Inr ((fst \<sigma>)\<lparr>bytes_left := ucast n\<rparr>),
              (fst \<sigma>)\<lparr>bytes_left := left \<sigma> - ucast n\<rparr>, snd \<sigma>))"
    by (simp add: on_stream_def pb_make_string_substream_def dbind_def d_error_eq i_error_def
        split: prod.splits sum.splits)
  show ?thesis
    unfolding e dbind_assoc
  proof (rule dends_dbind [OF dends_on_stream [OF varint32_safe w]])
    fix n \<sigma>1 j assume r: "on_stream pb_decode_varint32 \<sigma> = (Inr n, \<sigma>1)"
      and w1: "within rd content (fst \<sigma>1)" and a: "advanced rd content (fst \<sigma>) j (fst \<sigma>1)"
    have s1: "snd \<sigma>1 = snd \<sigma>" using r by (auto simp: on_stream_def split: prod.splits)
    obtain s where s: "\<sigma>1 = (s, snd \<sigma>)" using s1 by (cases \<sigma>1) simp
    show "dends rd content S \<sigma>1 (dbind (if left \<sigma>1 < ucast n then d_error ''parent stream too short'' \<sigma>1
        else (Inr ((fst \<sigma>1)\<lparr>bytes_left := ucast n\<rparr>),
              (fst \<sigma>1)\<lparr>bytes_left := left \<sigma>1 - ucast n\<rparr>, snd \<sigma>1)) K)"
    proof (cases "left \<sigma>1 < ucast n")
      case True
      then show ?thesis using w1 by (simp add: d_error_eq)
    next
      case False
      then have n: "ucast n \<le> bytes_left s" using s by (simp add: not_less)
      then have "unat (ucast n :: u64) \<le> unat (bytes_left s)" by (simp add: word_le_nat_alt)
      then have "within rd content (s\<lparr>bytes_left := ucast n\<rparr>)"
        using w1 s by (simp add: within_def sourced_def avail_def)
      then show ?thesis using k [of s j n] w1 a n s False advanced_left_le [OF a] by simp
    qed
  qed
qed

lemma dends_parent_error:
  assumes "within rd content s" "ucast (n :: u32) \<le> bytes_left s" "only S w w'"
  shows "dends rd content S (s, w) (d_error msg (s\<lparr>bytes_left := bytes_left s - ucast n\<rparr>, w'))"
proof -
  have "unat (bytes_left s - ucast n) \<le> unat (bytes_left s)" using assms(2) by (simp add: unat_sub)
  then show ?thesis using assms by (simp add: within_def kept_def sourced_def avail_def)
qed

end

section \<open>Field decoders\<close>

text \<open>
  What the message decoder for submessages has to do: for descriptors nested at most \<open>d\<close>
  deep, with fuel \<open>n\<close> for that depth and the bytes of the stream.
\<close>

definition rec_ok ::
    "'s read_fn \<Rightarrow> ('s \<Rightarrow> u8 list) \<Rightarrow> 's dec_env \<Rightarrow> addr set \<Rightarrow> nat \<Rightarrow> nat \<Rightarrow> 's dmsg_func \<Rightarrow> bool" where
  "rec_ok rd content env S d n rec \<longleftrightarrow>
     (\<forall>fs p \<sigma>. fits d env S fs p \<longrightarrow> within rd content (fst \<sigma>) \<longrightarrow> unat (left \<sigma>) + d \<le> n \<longrightarrow>
        dends rd content S \<sigma> (rec fs p \<sigma>))"

lemma rec_okD:
  "rec_ok rd content env S d n rec \<Longrightarrow> fits d env S fs p \<Longrightarrow> within rd content (fst \<sigma>) \<Longrightarrow>
   unat (left \<sigma>) + d \<le> n \<Longrightarrow> dends rd content S \<sigma> (rec fs p \<sigma>)"
  unfolding rec_ok_def by blast

lemma item_span: "item_ok sub env S f p \<Longrightarrow> span p (unat (data_size f)) \<subseteq> S"
  by (simp add: item_ok_def)

lemma decode_init_ends:
  assumes r: "dends rd content S \<sigma>1 (rec fs p \<sigma>1)" and f: "fits d env S fs p" "d \<le> n"
    and \<sigma>1: "on_world (on_ram (pb_message_set_to_defaults n env fs p)) \<sigma> = (Inr (), \<sigma>1)"
  shows "dends rd content S \<sigma>1 (case rec fs p \<sigma>1 of
      (Inl Fail, \<sigma>2) \<Rightarrow> dbind (on_world (pb_release n env fs p) \<sigma>2) (\<lambda>_ \<sigma>. (Inl Fail, \<sigma>))
    | r \<Rightarrow> r)"
proof -
  obtain x \<sigma>2 where x: "rec fs p \<sigma>1 = (x, \<sigma>2)" by (cases "rec fs p \<sigma>1")
  show ?thesis
  proof (cases x)
    case (Inl st)
    then have "st = Fail" using r x by simp
    moreover have "on_world (pb_release n env fs p) \<sigma>2 = (Inr (), \<sigma>2)"
      using release_ok [OF f] by (simp add: on_world_def)
    ultimately show ?thesis using r x Inl by simp
  next
    case (Inr v)
    then show ?thesis using r x by simp
  qed
qed

lemma rec_init:
  assumes "rec_ok rd content env S d n rec"
  shows "rec_ok rd content env S d n (decode_init n env rec)"
  unfolding rec_ok_def
proof (intro allI impI)
  fix fs p \<sigma>
  assume f: "fits d env S fs p" and w: "within rd content (fst \<sigma>)" and n: "unat (left \<sigma>) + d \<le> n"
  then have dn: "d \<le> n" by simp
  show "dends rd content S \<sigma> (decode_init n env rec fs p \<sigma>)"
    unfolding decode_init_def
  proof (rule dends_dbind [OF dends_defaults [OF f dn w]])
    fix a \<sigma>1 k
    assume r: "on_world (on_ram (pb_message_set_to_defaults n env fs p)) \<sigma> = (Inr a, \<sigma>1)"
      and w1: "within rd content (fst \<sigma>1)"
    then have "left \<sigma>1 = left \<sigma>" by (auto simp: on_world_def split: prod.splits if_splits)
    then have "dends rd content S \<sigma>1 (rec fs p \<sigma>1)"
      by (intro rec_okD [OF assms f w1]) (simp add: n)
    then show "dends rd content S \<sigma>1 (case rec fs p \<sigma>1 of
        (Inl Fail, \<sigma>2) \<Rightarrow> dbind (on_world (pb_release n env fs p) \<sigma>2) (\<lambda>_ \<sigma>. (Inl Fail, \<sigma>))
      | r \<Rightarrow> r)"
      using decode_init_ends f dn r by simp
  qed
qed

context input_source
begin

lemma dec_varint_ends:
  assumes "span p (unat (data_size f)) \<subseteq> S" "within rd content (fst \<sigma>)"
  shows "dends rd content S \<sigma> (pb_dec_varint f p \<sigma>)"
  unfolding pb_dec_varint_def Let_def
  by (rule dends_dbind [OF dends_on_stream [OF varint_safe assms(2)]],
      rule dends_check_clamped, assumption, rule store_signed_only [OF assms(1)])

lemma dec_uvarint_ends:
  assumes "span p (unat (data_size f)) \<subseteq> S" "within rd content (fst \<sigma>)"
  shows "dends rd content S \<sigma> (pb_dec_uvarint f p \<sigma>)"
  unfolding pb_dec_uvarint_def
  by (rule dends_dbind [OF dends_on_stream [OF varint_safe assms(2)]],
      rule dends_check_clamped, assumption, rule store_unsigned_only [OF assms(1)])

lemma dec_svarint_ends:
  assumes "span p (unat (data_size f)) \<subseteq> S" "within rd content (fst \<sigma>)"
  shows "dends rd content S \<sigma> (pb_dec_svarint f p \<sigma>)"
  unfolding pb_dec_svarint_def
  by (rule dends_dbind [OF dends_on_stream [OF svarint_safe assms(2)]],
      rule dends_check_clamped, assumption, rule store_signed_only [OF assms(1)])

lemma dec_fixed32_ends:
  assumes "span p 4 \<subseteq> S" "within rd content (fst \<sigma>)"
  shows "dends rd content S \<sigma> (pb_dec_fixed32 f p \<sigma>)"
  unfolding pb_dec_fixed32_def
  by (rule dends_dbind [OF dends_on_stream [OF fixed32_safe assms(2)]])
     (rule dends_written, use assms in simp_all)

lemma dec_fixed64_ends:
  assumes "span p 8 \<subseteq> S" "within rd content (fst \<sigma>)"
  shows "dends rd content S \<sigma> (pb_dec_fixed64 f p \<sigma>)"
  unfolding pb_dec_fixed64_def
  by (rule dends_dbind [OF dends_on_stream [OF fixed64_safe assms(2)]])
     (rule dends_written, use assms in simp_all)

lemma dec_bytes_ends:
  assumes s: "span p (unat (data_size f)) \<subseteq> S" "atype f \<noteq> ATYPE_POINTER" and w: "within rd content (fst \<sigma>)"
  shows "dends rd content S \<sigma> (pb_dec_bytes env f p \<sigma>)"
  unfolding pb_dec_bytes_def
proof (rule dends_dbind [OF dends_on_stream [OF varint32_safe w]])
  fix n :: u32 and \<sigma>1 :: "'s dstate" assume w1: "within rd content (fst \<sigma>1)"
  let ?a = "PB_BYTES_ARRAY_T_ALLOCSIZE (ucast (n :: u32))"
  have "unat n < 2 ^ 32" using unsigned_less [of n] by simp
  then have a: "unat ?a = unat n + 4"
    by (simp add: PB_BYTES_ARRAY_T_ALLOCSIZE_def unat_word_ariths unat_ucast_up)
  have body: "dends rd content S \<sigma>1
      (pb_read_into (bytes_data p) (ucast n) (write_mem p (le_bytes 4 n) \<sigma>1))"
    if "\<not> ?a > ucast (data_size f)"
  proof -
    have le: "unat n + 4 \<le> unat (data_size f)"
      using that a by (simp add: word_less_nat_alt unat_ucast_up not_less)
    have "span (p + of_nat 4) (unat n) \<subseteq> S"
      using span_sub [of 4 "unat n" "unat (data_size f)" p] le s(1) by auto
    then have "span (bytes_data p) (unat (ucast n :: u64)) \<subseteq> S"
      by (simp add: bytes_data_def unat_ucast_up)
    then have "dends rd content S (write_mem p (le_bytes 4 n) \<sigma>1)
        (pb_read_into (bytes_data p) (ucast n) (write_mem p (le_bytes 4 n) \<sigma>1))"
      using w1 by (intro dends_read_into) simp_all
    moreover have "span p (length (le_bytes 4 n)) \<subseteq> S" using span_subI [OF s(1)] le by simp
    ultimately show ?thesis using w1 dends_write by blast
  qed
  show "dends rd content S \<sigma>1 (if n > PB_SIZE_MAX then d_error ''bytes overflow'' \<sigma>1
      else let alloc_size = ?a in
        if ucast n > alloc_size then d_error ''size too large'' \<sigma>1
        else dbind (dec_target env f p alloc_size ''bytes overflow'' \<sigma>1) (\<lambda>bdest \<sigma>.
          pb_read_into (bytes_data bdest) (ucast n) (write_mem bdest (le_bytes 4 n) \<sigma>)))"
    using w1 s(2) body by (simp add: dec_target_def d_error_eq Let_def)
qed

lemma dec_string_ends:
  assumes s: "span p (unat (data_size f)) \<subseteq> S" "atype f \<noteq> ATYPE_POINTER" and w: "within rd content (fst \<sigma>)"
  shows "dends rd content S \<sigma> (pb_dec_string env f p \<sigma>)"
  unfolding pb_dec_string_def
proof (rule dends_dbind [OF dends_on_stream [OF varint32_safe w]])
  fix n :: u32 and \<sigma>1 :: "'s dstate" assume w1: "within rd content (fst \<sigma>1)"
  let ?a = "ucast (n + 1) :: u64"
  have body: "dends rd content S \<sigma>1 (case pb_read_into p (ucast n) \<sigma>1 of
      (r, \<sigma>2) \<Rightarrow> (r, write_mem (p + ucast n) [0] \<sigma>2))"
    if a: "\<not> ?a < ucast n" and fit: "\<not> ?a > ucast (data_size f)"
  proof -
    have "unat (n + 1) = unat n + 1"
    proof (cases "n + 1 = 0")
      case True
      then have "n = - 1" by (simp add: eq_neg_iff_add_eq_0)
      then show ?thesis
        using a by (simp add: word_less_nat_alt unat_ucast_up unsigned_minus_1_eq_mask mask_eq_exp_minus_1)
    next
      case False
      then have "unat (1 + n) = Suc (unat n)" by (intro unatSuc) (simp add: add.commute)
      then show ?thesis by (simp add: add.commute)
    qed
    then have le: "unat n + 1 \<le> unat (data_size f)"
      using fit by (simp add: word_less_nat_alt unat_ucast_up not_less)
    have "span p (unat (ucast n :: u64)) \<subseteq> S"
      using span_subI [OF s(1)] le by (simp add: unat_ucast_up)
    then have r: "dends rd content S \<sigma>1 (pb_read_into p (ucast n) \<sigma>1)" using w1 by (rule dends_read_into)
    have "span (p + of_nat (unat n)) 1 \<subseteq> S"
      using span_sub [of "unat n" 1 "unat (data_size f)" p] le s(1) by auto
    then have nul: "span (p + ucast n) (length [0 :: u8]) \<subseteq> S" by simp
    obtain x \<sigma>2 where x: "pb_read_into p (ucast n) \<sigma>1 = (x, \<sigma>2)" by (cases "pb_read_into p (ucast n) \<sigma>1")
    then show ?thesis
      using r only_write [OF nul, of \<sigma>2] only_trans by (cases x) auto
  qed
  show "dends rd content S \<sigma>1 (let alloc_size = ?a in
      if alloc_size < ucast n then d_error ''size too large'' \<sigma>1
      else dbind (dec_target env f p alloc_size ''string overflow'' \<sigma>1) (\<lambda>sdest \<sigma>.
        case pb_read_into sdest (ucast n) \<sigma> of (r, \<sigma>1) \<Rightarrow> (r, write_mem (sdest + ucast n) [0] \<sigma>1)))"
    using w1 s(2) body by (simp add: dec_target_def d_error_eq Let_def)
qed

lemma dec_fixed_length_ends:
  assumes "span p (unat (data_size f)) \<subseteq> S" "within rd content (fst \<sigma>)"
  shows "dends rd content S \<sigma> (pb_dec_fixed_length_bytes f p \<sigma>)"
  unfolding pb_dec_fixed_length_bytes_def
proof (rule dends_dbind [OF dends_on_stream [OF varint32_safe assms(2)]])
  fix n :: u32 and \<sigma>1 :: "'s dstate" assume w1: "within rd content (fst \<sigma>1)"
  have "dends rd content S \<sigma>1 (Inr (), write_mem p (replicate (unat (data_size f)) 0) \<sigma>1)"
    by (rule dends_written) (use assms w1 in simp_all)
  moreover have "dends rd content S \<sigma>1 (pb_read_into p (ucast (data_size f)) \<sigma>1)"
    by (rule dends_read_into) (use assms w1 in \<open>simp_all add: unat_ucast_up\<close>)
  ultimately show "dends rd content S \<sigma>1 (if n > PB_SIZE_MAX then d_error ''bytes overflow'' \<sigma>1
      else if n = 0 then (Inr (), write_mem p (replicate (unat (data_size f)) 0) \<sigma>1)
      else if n \<noteq> data_size f then d_error ''incorrect fixed length bytes size'' \<sigma>1
      else pb_read_into p (ucast (data_size f)) \<sigma>1)"
    using w1 by (simp add: d_error_eq del: dends_Inr)
qed

lemma dec_submessage_ends:
  assumes r: "rec_ok rd content env S d n rec" and i: "item_ok (fits d env S) env S f p"
    "ltype f = LTYPE_SUBMESSAGE" and w: "within rd content (fst \<sigma>)" and n: "unat (left \<sigma>) + d \<le> n"
  shows "dends rd content S \<sigma> (pb_dec_submessage n env rec f p \<sigma>)"
  unfolding pb_dec_submessage_def
proof (rule dends_make [OF w])
  fix s and k :: u32
  assume w1: "within rd content s" and k: "ucast k \<le> bytes_left s"
    and ws: "within rd content (s\<lparr>bytes_left := ucast k\<rparr>)" and l: "unat (bytes_left s) \<le> unat (left \<sigma>)"
  let ?g = "if htype f = HTYPE_REPEATED then decode_init n env rec else rec"
  have fits: "ptr f \<noteq> 0" "fits d env S (dfields_at env (ptr f)) p" using i by (simp_all add: item_ok_def)
  have g: "rec_ok rd content env S d n ?g" using r rec_init [OF r] by simp
  have "unat (ucast k :: u64) + d \<le> n" using n k l by (simp add: word_le_nat_alt)
  then have "dends rd content S (s\<lparr>bytes_left := ucast k\<rparr>, snd \<sigma>)
      (?g (dfields_at env (ptr f)) p (s\<lparr>bytes_left := ucast k\<rparr>, snd \<sigma>))"
    using g fits(2) ws unfolding rec_ok_def by simp
  then have "dends rd content S (s, snd \<sigma>) (finish_substream (s\<lparr>bytes_left := bytes_left s - ucast k\<rparr>)
      (?g (dfields_at env (ptr f)) p (s\<lparr>bytes_left := ucast k\<rparr>, snd \<sigma>)))"
    by (rule dends_finish [OF w1 k])
  then show "dends rd content S (s, snd \<sigma>)
      (if ptr f = 0 then d_error ''invalid field descriptor'' (s\<lparr>bytes_left := bytes_left s - ucast k\<rparr>, snd \<sigma>)
       else finish_substream (fst (s\<lparr>bytes_left := bytes_left s - ucast k\<rparr>, snd \<sigma>))
         (?g (dfields_at env (ptr f)) p
            (s\<lparr>bytes_left := ucast k\<rparr>, snd (s\<lparr>bytes_left := bytes_left s - ucast k\<rparr>, snd \<sigma>))))"
    using fits(1) by (simp only: if_False fst_conv snd_conv)
qed

lemma decoders_end:
  assumes r: "rec_ok rd content env S d n rec" and i: "item_ok (fits d env S) env S f p"
    "ltype f \<noteq> LTYPE_EXTENSION" "ltype f \<noteq> LTYPE_INVALID" "atype f \<noteq> ATYPE_POINTER"
    and w: "within rd content (fst \<sigma>)" and n: "unat (left \<sigma>) + d \<le> n"
    and g: "PB_DECODERS n env rec (ltype f) = Some g"
  shows "dends rd content S \<sigma> (call_dec g f p \<sigma>)"
proof -
  have s: "span p (unat (data_size f)) \<subseteq> S" by (rule item_span [OF i(1)])
  have s4: "ltype f = LTYPE_FIXED32 \<Longrightarrow> span p 4 \<subseteq> S" and s8: "ltype f = LTYPE_FIXED64 \<Longrightarrow> span p 8 \<subseteq> S"
    using i(1) span_subI [OF s] by (simp_all add: item_ok_def word_le_nat_alt)
  show ?thesis
    using g i(2,3)
    by (cases "ltype f")
       (auto simp: call_dec_def dec_varint_ends [OF s w] dec_uvarint_ends [OF s w] dec_svarint_ends [OF s w]
          dec_fixed32_ends [OF s4 w] dec_fixed64_ends [OF s8 w] dec_bytes_ends [OF s i(4) w]
          dec_string_ends [OF s i(4) w] dec_fixed_length_ends [OF s w]
          dec_submessage_ends [OF r i(1) _ w n])
qed

end

end
