(* ===== verification/PbDecodeLoop.thy ===== *)
theory PbDecodeLoop
  imports PbDecodeSafe
begin

text \<open>
  Memory safety of the message decoder, continued: single fields and the loop over the
  fields of a message.
\<close>

section \<open>Static fields\<close>

lemma iter_field_pSize [simp]: "iter_field (it\<lparr>pSize := z\<rparr>) = iter_field it"
  by (simp add: iter_field_def)

lemma item_at_eq:
  assumes "unat (data_size f) * unat (array_size f) < 2 ^ 32" "i < array_size f"
  shows "item_at f p i = p + of_nat (unat (data_size f) * unat i)"
proof -
  have "unat (data_size f) * unat i \<le> unat (data_size f) * unat (array_size f)"
    using assms(2) by (simp add: word_less_nat_alt)
  then have "unat (data_size f) * unat i < 2 ^ 32" using assms(1) by (rule le_less_trans)
  then have "unat (data_size f * i) = unat (data_size f) * unat i"
    by (simp add: unat_word_ariths)
  then have "(ucast (data_size f * i) :: u64) = of_nat (unat (data_size f) * unat i)"
    by (metis of_nat_unat)
  then show ?thesis by (simp add: item_at_def)
qed

lemma static_item_ok:
  assumes "static_ok sub env S it" "htype (iter_field it) = HTYPE_REPEATED"
    "i < array_size (iter_field it)"
  shows "item_ok sub env S (iter_field it) (item_at (iter_field it) (pData it) i)"
proof -
  let ?f = "iter_field it"
  have r: "unat (data_size ?f) * unat (array_size ?f) < 2 ^ 32"
    "\<forall>k < unat (array_size ?f). item_ok sub env S ?f (pData it + of_nat (unat (data_size ?f) * k))"
    using assms(1,2) by (auto simp only: static_ok_def Let_def pb_htype.case)
  show ?thesis
    unfolding item_at_eq [OF r(1) assms(3)] using r(2) assms(3) by (simp only: word_less_nat_alt)
qed

lemma stuck_dends: "dends rd content S \<sigma> (x, \<sigma>1) \<Longrightarrow> \<not> stuck x"
  by (cases x) auto

context input_source
begin

lemma packed_loop_ends:
  assumes r: "rec_ok rd content env S d n rec" and it: "static_ok (fits d env S) env S it"
    "htype (iter_field it) = HTYPE_REPEATED" "atype (iter_field it) = ATYPE_STATIC"
    "packable (ltype (iter_field it))"
    and g: "PB_DECODERS n env rec (ltype (iter_field it)) = Some g"
  shows "within rd content (fst \<sigma>) \<Longrightarrow> unat (left \<sigma>) + d \<le> n \<Longrightarrow> unat (left \<sigma>) < k \<Longrightarrow>
    dends rd content S \<sigma> (static_packed_loop k g it \<sigma>)"
proof (induction k arbitrary: \<sigma>)
  case 0
  then show ?case by simp
next
  case (Suc k)
  let ?f = "iter_field it" and ?i = "load32 (mem_of \<sigma>) (pSize it)"
  have l: "ltype ?f \<noteq> LTYPE_EXTENSION" "ltype ?f \<noteq> LTYPE_INVALID" using it(4) by auto
  obtain h where h: "g = Some h" using g it(4) by (cases "ltype ?f") auto
  have pSize: "span (pSize it) 4 \<subseteq> S" using it(1,2) by (simp add: static_ok_def Let_def)
  show ?case
  proof (cases "left \<sigma> > 0 \<and> ?i < array_size ?f")
    case True
    have c: "dends rd content S \<sigma> (call_dec g ?f (item_at ?f (pData it) ?i) \<sigma>)"
      by (rule decoders_end [OF r static_item_ok [OF it(1,2)] l _ Suc.prems(1,2) g])
         (use True it(3) in auto)
    have "dends rd content S \<sigma> (dbind (call_dec g ?f (item_at ?f (pData it) ?i) \<sigma>)
        (\<lambda>_ \<sigma>. static_packed_loop k g it (count_up (pSize it) \<sigma>)))"
    proof (rule dends_dbind [OF c])
      fix v \<sigma>1 j assume v: "call_dec g ?f (item_at ?f (pData it) ?i) \<sigma> = (Inr v, \<sigma>1)"
        and w: "within rd content (fst \<sigma>1)"
      have "unat (left \<sigma>1) < unat (left \<sigma>)"
        using packable_shrinks [OF it(4) g [unfolded h]] v by (simp add: call_dec_def h)
      then have "dends rd content S (count_up (pSize it) \<sigma>1)
          (static_packed_loop k g it (count_up (pSize it) \<sigma>1))"
        using Suc.prems w by (intro Suc.IH) (simp_all add: count_up_def)
      then show "dends rd content S \<sigma>1 (static_packed_loop k g it (count_up (pSize it) \<sigma>1))"
        unfolding count_up_def by (rule dends_write [rotated 2]) (simp_all add: pSize w)
    qed
    then show ?thesis using True by (simp add: Let_def)
  next
    case False
    then show ?thesis using dends_return [OF Suc.prems(1)] by (auto simp: Let_def)
  qed
qed

lemma packed_ends:
  assumes r: "rec_ok rd content env S d n rec" and it: "static_ok (fits d env S) env S it"
    "htype (iter_field it) = HTYPE_REPEATED" "atype (iter_field it) = ATYPE_STATIC"
    "packable (ltype (iter_field it))"
    and g: "PB_DECODERS n env rec (ltype (iter_field it)) = Some g"
    and w: "within rd content (fst \<sigma>)" and n: "unat (left \<sigma>) + d \<le> n"
  shows "dends rd content S \<sigma> (static_packed g it \<sigma>)"
  unfolding static_packed_def
proof (rule dends_make [OF w])
  fix s and k :: u32
  assume w1: "within rd content s" and k: "ucast k \<le> bytes_left s"
    and ws: "within rd content (s\<lparr>bytes_left := ucast k\<rparr>)" and l: "unat (bytes_left s) \<le> unat (left \<sigma>)"
  let ?sub = "s\<lparr>bytes_left := ucast k\<rparr>" and ?s2 = "s\<lparr>bytes_left := bytes_left s - ucast k\<rparr>"
  have "unat (bytes_left ?sub) \<le> unat (left \<sigma>)" using k l by (simp add: word_le_nat_alt)
  then have p: "dends rd content S (?sub, snd \<sigma>)
      (static_packed_loop (Suc (unat (bytes_left ?sub))) g it (?sub, snd \<sigma>))"
    using n ws by (intro packed_loop_ends [OF r it g]) simp_all
  obtain x sub1 wd where x:
    "static_packed_loop (Suc (unat (bytes_left ?sub))) g it (?sub, snd \<sigma>) = (x, sub1, wd)"
    by (cases "static_packed_loop (Suc (unat (bytes_left ?sub))) g it (?sub, snd \<sigma>)")
  have o: "only S (snd \<sigma>) wd" using p x by (simp add: dends_def)
  have "dends rd content S (s, snd \<sigma>) (finish_substream ?s2 (x, sub1, wd))"
    by (rule dends_finish [OF w1 k]) (use p x in simp)
  then show "dends rd content S (s, snd \<sigma>)
      (case static_packed_loop (Suc (unat (bytes_left ?sub))) g it (?sub, snd (?s2, snd \<sigma>)) of
         (x, sub1, w) \<Rightarrow>
           if stuck x then (x, fst (?s2, snd \<sigma>), w)
           else if bytes_left sub1 \<noteq> 0 then d_error ''array overflow'' (fst (?s2, snd \<sigma>), w)
           else finish_substream (fst (?s2, snd \<sigma>)) (x, sub1, w))"
    using stuck_dends [of rd content S "(?sub, snd \<sigma>)" x "(sub1, wd)"] p x
      dends_parent_error [OF w1 k o] by (simp del: static_packed_loop.simps)
qed

lemma static_field_ends:
  assumes r: "rec_ok rd content env S d n rec" and it: "field_ok (fits d env S) env S it"
    "atype (iter_field it) = ATYPE_STATIC"
    and w: "within rd content (fst \<sigma>)" and n: "unat (left \<sigma>) + d \<le> n"
  shows "dends rd content S \<sigma> (decode_static_field n env rec wt it \<sigma>)"
proof -
  let ?f = "iter_field it"
  have ok: "static_ok (fits d env S) env S it"
    and l: "ltype ?f \<noteq> LTYPE_EXTENSION" "ltype ?f \<noteq> LTYPE_INVALID"
    using it by (simp_all add: field_ok_def Let_def)
  obtain g where g: "PB_DECODERS n env rec (ltype ?f) = Some g" using l by (cases "ltype ?f") auto
  have np: "atype ?f \<noteq> ATYPE_POINTER" using it(2) by simp
  have call: "dends rd content S \<sigma>1 (call_dec g ?f p \<sigma>1)"
    if "item_ok (fits d env S) env S ?f p" "fst \<sigma>1 = fst \<sigma>" for p \<sigma>1
    by (rule decoders_end [OF r that(1) l np _ _ g]) (use w n that(2) in simp_all)
  show ?thesis
  proof (cases "htype ?f")
    case HTYPE_REQUIRED
    then show ?thesis using ok g call by (simp add: decode_static_field_def static_ok_def Let_def)
  next
    case HTYPE_OPTIONAL
    then have i: "item_ok (fits d env S) env S ?f (pData it)" using ok by (simp add: static_ok_def Let_def)
    have "dends rd content S \<sigma> (call_dec g ?f (pData it) (write_mem (pSize it) [1] \<sigma>))"
      if "pSize it \<noteq> pData it"
      by (rule dends_write [OF _ w call [OF i]])
         (use HTYPE_OPTIONAL ok that in \<open>simp_all add: static_ok_def Let_def\<close>)
    then show ?thesis using g HTYPE_OPTIONAL call [OF i] by (simp add: decode_static_field_def Let_def)
  next
    case HTYPE_REPEATED
    then have pSize: "span (pSize it) 4 \<subseteq> S" using ok by (simp add: static_ok_def Let_def)
    let ?i = "load32 (mem_of \<sigma>) (pSize it)"
    have "dends rd content S \<sigma> (call_dec g ?f (item_at ?f (pData it) ?i) (count_up (pSize it) \<sigma>))"
      if "\<not> ?i \<ge> array_size ?f"
      unfolding count_up_def
      by (rule dends_write [OF _ w call [OF static_item_ok [OF ok HTYPE_REPEATED]]])
         (use pSize that in simp_all)
    moreover have "dends rd content S \<sigma>
        (d_error ''array overflow'' (count_up (pSize it) \<sigma>) :: (status + unit) \<times> 's dstate)"
      using w pSize by (simp add: count_up_def only_write)
    ultimately show ?thesis
      using g HTYPE_REPEATED packed_ends [OF r ok HTYPE_REPEATED it(2) _ g w n]
      by (simp add: decode_static_field_def Let_def del: dends_error)
  next
    case HTYPE_ONEOF
    then have i: "item_ok (fits d env S) env S ?f (pData it)" and pSize: "span (pSize it) 4 \<subseteq> S"
      using ok by (simp_all add: static_ok_def Let_def)
    let ?\<sigma>1 = "write_mem (pSize it) (le_bytes 4 (tag ?f)) \<sigma>"
    let ?\<sigma>2 = "write_mem (pData it) (replicate (unat (data_size ?f)) 0) ?\<sigma>1"
    let ?d = "\<lambda>\<sigma>. on_world (on_ram (pb_message_set_to_defaults n env (dfields_at env (ptr ?f)) (pData it))) \<sigma>"
    have sub: "dends rd content S ?\<sigma>2 (dbind (?d ?\<sigma>2) (\<lambda>_ \<sigma>. call_dec g ?f (pData it) \<sigma>))"
      if s: "ltype ?f = LTYPE_SUBMESSAGE"
    proof -
      have f: "fits d env S (dfields_at env (ptr ?f)) (pData it)" "d \<le> n"
        using i s n by (simp_all add: item_ok_def)
      show ?thesis
      proof (rule dends_dbind)
        show "dends rd content S ?\<sigma>2 (?d ?\<sigma>2)" by (rule dends_defaults [OF f]) (simp add: w)
      next
        fix a \<sigma>3 k assume "?d ?\<sigma>2 = (Inr a, \<sigma>3)"
        then have "fst \<sigma>3 = fst \<sigma>" by (auto simp: on_world_def split: prod.splits if_splits)
        then show "dends rd content S \<sigma>3 (call_dec g ?f (pData it) \<sigma>3)" by (rule call [OF i])
      qed
    qed
    have sub1: "dends rd content S ?\<sigma>1 (dbind (?d ?\<sigma>2) (\<lambda>_ \<sigma>. call_dec g ?f (pData it) \<sigma>))"
      if "ltype ?f = LTYPE_SUBMESSAGE"
      by (rule dends_write [OF _ _ sub [OF that]]) (use item_span [OF i] w in simp_all)
    have "dends rd content S ?\<sigma>1 (if ltype ?f = LTYPE_SUBMESSAGE
        then dbind (?d ?\<sigma>2) (\<lambda>_ \<sigma>. call_dec g ?f (pData it) \<sigma>) else call_dec g ?f (pData it) ?\<sigma>1)"
      using call [OF i, of ?\<sigma>1] sub1 by simp
    from dends_write [OF _ w this]
    have "dends rd content S \<sigma> (if ltype ?f = LTYPE_SUBMESSAGE
        then dbind (?d ?\<sigma>2) (\<lambda>_ \<sigma>. call_dec g ?f (pData it) \<sigma>) else call_dec g ?f (pData it) ?\<sigma>1)"
      using pSize by simp
    then show ?thesis using g HTYPE_ONEOF by (simp add: decode_static_field_def Let_def)
  qed
qed

end

section \<open>Callback fields\<close>

text \<open>
  The contract of a user's field decoder: it stays in its stream and in the region, returns,
  and, when it succeeds on a stream with bytes left, has taken some of them.
\<close>

definition callbacks_ok :: "'s read_fn \<Rightarrow> ('s \<Rightarrow> u8 list) \<Rightarrow> 's dec_env \<Rightarrow> addr set \<Rightarrow> bool" where
  "callbacks_ok rd content env S \<longleftrightarrow> (\<forall>func f arg \<sigma>. within rd content (fst \<sigma>) \<longrightarrow>
     dends rd content S \<sigma> (dfield_decoder env func f arg \<sigma>) \<and>
     (\<forall>\<sigma>1. dfield_decoder env func f arg \<sigma> = (Inr (), \<sigma>1) \<longrightarrow> left \<sigma> \<noteq> 0 \<longrightarrow>
        unat (left \<sigma>1) < unat (left \<sigma>)))"

context input_source
begin

lemma callback_loop_ends:
  assumes c: "callbacks_ok rd content env S"
  shows "within rd content (fst \<sigma>) \<Longrightarrow> unat (left \<sigma>) < k \<Longrightarrow>
    dends rd content S \<sigma> (callback_loop k (dfield_decoder env func f arg) \<sigma>)"
proof (induction k arbitrary: \<sigma>)
  case 0
  then show ?case by simp
next
  case (Suc k)
  have d: "dends rd content S \<sigma> (dfield_decoder env func f arg \<sigma>)"
    using c Suc.prems(1) unfolding callbacks_ok_def by blast
  show ?case
    unfolding callback_loop.simps
  proof (rule dends_dbind [OF d])
    fix a \<sigma>1 j assume a: "dfield_decoder env func f arg \<sigma> = (Inr a, \<sigma>1)"
      and w: "within rd content (fst \<sigma>1)" and adv: "advanced rd content (fst \<sigma>) j (fst \<sigma>1)"
    show "dends rd content S \<sigma>1
        (if left \<sigma>1 \<noteq> 0 then callback_loop k (dfield_decoder env func f arg) \<sigma>1 else (Inr (), \<sigma>1))"
    proof (cases "left \<sigma>1 = 0")
      case True
      then show ?thesis using dends_return [OF w] by simp
    next
      case False
      have "left \<sigma> \<noteq> 0"
      proof
        assume "left \<sigma> = 0"
        then have "unat (left \<sigma>1) = 0" using advanced_left_le [OF adv] by simp
        then show False using False by (simp add: unat_eq_0)
      qed
      then have "unat (left \<sigma>1) < unat (left \<sigma>)"
        using c a Suc.prems(1) unfolding callbacks_ok_def by (metis (full_types) old.unit.exhaust)
      then show ?thesis using False Suc.IH [OF w] Suc.prems(2) by simp
    qed
  qed
qed

lemma callback_field_ends:
  assumes c: "callbacks_ok rd content env S" and w: "within rd content (fst \<sigma>)"
    and n: "unat (left \<sigma>) < n"
  shows "dends rd content S \<sigma> (decode_callback_field n env wt it \<sigma>)"
proof -
  let ?func = "callback_fun (mem_of \<sigma>) (pData it)"
  let ?d = "dfield_decoder env ?func (iter_field it) (callback_arg (pData it))"
  have skip: "dends rd content S \<sigma> (on_stream (\<lambda>s. pb_skip_field s wt) \<sigma>)"
    by (rule dends_on_stream [OF skip_field_safe w])
  have string: "dends rd content S \<sigma> (dbind (on_stream pb_make_string_substream \<sigma>) (\<lambda>sub \<sigma>.
      case callback_loop n ?d (sub, snd \<sigma>) of
        (Inl st, _, w) \<Rightarrow> if st = Fail then d_error ''callback failed'' (fst \<sigma>, w) else (Inl st, fst \<sigma>, w)
      | (Inr _, sub1, w) \<Rightarrow> finish_substream (fst \<sigma>) (Inr (), sub1, w)))"
  proof (rule dends_make [OF w])
    fix s and k :: u32
    assume w1: "within rd content s" and k: "ucast k \<le> bytes_left s"
      and ws: "within rd content (s\<lparr>bytes_left := ucast k\<rparr>)" and l: "unat (bytes_left s) \<le> unat (left \<sigma>)"
    let ?sub = "s\<lparr>bytes_left := ucast k\<rparr>" and ?s2 = "s\<lparr>bytes_left := bytes_left s - ucast k\<rparr>"
    have "unat (left (?sub, snd \<sigma>)) < n" using k l n by (simp add: word_le_nat_alt)
    then have p: "dends rd content S (?sub, snd \<sigma>) (callback_loop n ?d (?sub, snd \<sigma>))"
      using ws by (intro callback_loop_ends [OF c]) simp_all
    obtain x sub1 wd where x: "callback_loop n ?d (?sub, snd \<sigma>) = (x, sub1, wd)"
      by (cases "callback_loop n ?d (?sub, snd \<sigma>)")
    have o: "only S (snd \<sigma>) wd" using p x by (simp add: dends_def)
    show "dends rd content S (s, snd \<sigma>) (case callback_loop n ?d (?sub, snd (?s2, snd \<sigma>)) of
        (Inl st, _, w) \<Rightarrow> if st = Fail then d_error ''callback failed'' (fst (?s2, snd \<sigma>), w)
                           else (Inl st, fst (?s2, snd \<sigma>), w)
      | (Inr _, sub1, w) \<Rightarrow> finish_substream (fst (?s2, snd \<sigma>)) (Inr (), sub1, w))"
    proof (cases x)
      case (Inl st)
      then show ?thesis using p x dends_parent_error [OF w1 k o] by (simp del: dends_error)
    next
      case (Inr v)
      then show ?thesis using p x dends_finish [OF w1 k, of S "snd \<sigma>" "(Inr (), sub1, wd)"] by simp
    qed
  qed
  have scalar: "dends rd content S \<sigma> (dbind (on_stream (\<lambda>s. read_raw_value s wt 10) \<sigma>) (\<lambda>buffer \<sigma>.
      case ?d (pb_istream_from_buffer buffer (of_nat (length buffer)), snd \<sigma>) of
        (r, _, w) \<Rightarrow> (r, fst \<sigma>, w)))"
  proof (rule dends_dbind [OF dends_on_stream [OF raw_value_safe w]])
    fix buffer :: "u8 list" and \<sigma>1 :: "'s dstate" assume w1: "within rd content (fst \<sigma>1)"
    let ?s = "pb_istream_from_buffer buffer (of_nat (length buffer)) :: 's pb_istream"
    have "unat (of_nat (length buffer) :: u64) \<le> length buffer"
      by (simp add: unat_of_nat)
    then have "within rd content ?s"
      by (simp add: within_def pb_istream_from_buffer_def sourced_def avail_def)
    then have "dends rd content S (?s, snd \<sigma>1) (?d (?s, snd \<sigma>1))"
      using c unfolding callbacks_ok_def by (metis fst_conv)
    then show "dends rd content S \<sigma>1 (case ?d (?s, snd \<sigma>1) of (r, _, w) \<Rightarrow> (r, fst \<sigma>1, w))"
      using w1 by (cases "?d (?s, snd \<sigma>1)"; cases "fst (?d (?s, snd \<sigma>1))") auto
  qed simp
  show ?thesis using skip string scalar unfolding decode_callback_field_def Let_def by simp
qed

end

section \<open>Iterators of the loop\<close>

text \<open>
  The iterator is at a field of the descriptors, or at the terminator when there is none;
  \<open>pSize\<close> is where the field has its counter, or the slot of \<open>fixed_count_size\<close>.
\<close>

definition at_field :: "pb_field list \<Rightarrow> addr \<Rightarrow> addr \<Rightarrow> pb_field_iter \<Rightarrow> bool" where
  "at_field fs p slot it \<longleftrightarrow> (\<exists>i < max 1 (length fs). it = iter_at fs p i \<or>
     (htype (field_at fs i) = HTYPE_REPEATED \<and> it = (iter_at fs p i)\<lparr>pSize := slot\<rparr>))"

lemma iter_at_Nil [simp]:
  "start (iter_at [] p 0) = []" "pos (iter_at [] p 0) = 0"
  "iter_field (iter_at [] p 0) = PB_LAST_FIELD"
  by (simp_all add: iter_field_def field_at_def)

lemma last_field_type [simp]:
  "htype PB_LAST_FIELD = HTYPE_REQUIRED" "atype PB_LAST_FIELD = ATYPE_STATIC"
  "ltype PB_LAST_FIELD = LTYPE_VARINT" "data_size PB_LAST_FIELD = 0"
  by (simp_all add: PB_LAST_FIELD_def PB_HTYPE_def PB_ATYPE_def PB_LTYPE_def)

lemma max_length [simp]: "fs \<noteq> [] \<Longrightarrow> max (Suc 0) (length fs) = length fs"
  by (cases fs) auto

lemma iter_at_field:
  assumes "\<forall>f \<in> set fs. tag f \<noteq> 0" "i < max 1 (length fs)"
  shows "start (iter_at fs p i) = fs" "pos (iter_at fs p i) = i"
    "iter_field (iter_at fs p i) = field_at fs i"
proof -
  have "start (iter_at fs p i) = fs \<and> pos (iter_at fs p i) = i
    \<and> iter_field (iter_at fs p i) = field_at fs i"
  proof (cases "fs = []")
    case True
    then show ?thesis using assms(2) by (simp add: field_at_def del: iter_at.simps)
  next
    case False
    then have "i < n_fields fs" using assms n_fields_all [of fs] by simp
    then show ?thesis by simp
  qed
  then show "start (iter_at fs p i) = fs" "pos (iter_at fs p i) = i"
    "iter_field (iter_at fs p i) = field_at fs i" by simp_all
qed

lemma next_pSize:
  "tag (iter_field it) \<noteq> 0 \<Longrightarrow> htype (iter_field it) \<noteq> HTYPE_ONEOF \<Longrightarrow>
   pb_field_iter_next (it\<lparr>pSize := z\<rparr>) = pb_field_iter_next it"
  by (simp add: pb_field_iter_next_def iter_field_def Let_def)

lemma find_pSize:
  assumes "tag (iter_field it) \<noteq> 0" "htype (iter_field it) \<noteq> HTYPE_ONEOF"
  shows "pb_field_iter_find (it\<lparr>pSize := z\<rparr>) t =
    (if tag (iter_field it) = t \<and> ltype (iter_field it) \<noteq> LTYPE_EXTENSION then (Ok, it\<lparr>pSize := z\<rparr>)
     else pb_field_iter_find it t)"
  using next_pSize [OF assms] by (simp add: pb_field_iter_find_def Let_def)

lemma find_Nil:
  "pb_field_iter_find (iter_at [] p 0) t = ((if t = 0 then Ok else Fail), iter_at [] p 0)"
  by (simp add: pb_field_iter_find_def Let_def pb_field_iter_next_def iter_field_def field_at_def
      del: iter_at.simps)

text \<open>The search ends at a field with the tag, or fails and there is none.\<close>

lemma find_at_field:
  assumes fs: "\<forall>f \<in> set fs. tag f \<noteq> 0 \<and> ltype f \<noteq> LTYPE_EXTENSION"
    and it: "at_field fs p slot it" and f: "pb_field_iter_find it t = (st, it')"
  shows "(st = Ok \<and> at_field fs p slot it' \<and> tag (iter_field it') = t) \<or>
    (st = Fail \<and> (\<exists>i < max 1 (length fs). it' = iter_at fs p i) \<and> (\<forall>f \<in> set fs. tag f \<noteq> t))"
proof -
  from it obtain i z where i: "i < max 1 (length fs)" "it = iter_at fs p i \<or>
      (htype (field_at fs i) = HTYPE_REPEATED \<and> it = (iter_at fs p i)\<lparr>pSize := slot\<rparr>)"
    by (auto simp: at_field_def)
  have fs': "\<forall>f \<in> set fs. tag f \<noteq> 0" using fs by blast
  note at = iter_at_field [OF fs' i(1)]
  show ?thesis
  proof (cases "fs = []")
    case True
    then have "it = iter_at [] p 0" using i by (auto simp: field_at_def)
    then show ?thesis using f True find_Nil [of p t]
      by (auto simp: at_field_def simp del: iter_at.simps split: if_splits)
  next
    case False
    then have n: "i < n_fields fs" "n_fields fs = length fs" using i(1) n_fields_all [OF fs'] by simp_all
    have plain: "(st = Ok \<and> at_field fs p slot it' \<and> tag (iter_field it') = t) \<or>
        (st = Fail \<and> (\<exists>i < max 1 (length fs). it' = iter_at fs p i) \<and> (\<forall>f \<in> set fs. tag f \<noteq> t))"
      if f: "pb_field_iter_find (iter_at fs p i) t = (st, it')" for st it'
    proof (cases "\<exists>j < n_fields fs. matches fs t j")
      case True
      then obtain s where "st = Ok" "it' = iter_at fs p ((i + s) mod n_fields fs)"
        "matches fs t ((i + s) mod n_fields fs)"
        using iter_find_at [OF n(1), where p = p and t = t] f by auto
      moreover have "(i + s) mod n_fields fs < n_fields fs" using n(1) by (intro mod_less_divisor) linarith
      ultimately show ?thesis using n(2) by (auto simp: at_field_def matches_def)
    next
      case False
      then have r: "st = Fail" "it' = iter_at fs p i"
        using iter_find_at [OF n(1), where p = p and t = t] f by auto
      have "tag g \<noteq> t" if g: "g \<in> set fs" for g
      proof -
        obtain j where j: "j < length fs" "g = fs ! j" using g by (auto simp: in_set_conv_nth)
        then have "\<not> matches fs t j" using False n(2) by simp
        then show ?thesis using j fs g by (auto simp: matches_def field_at_def)
      qed
      then show ?thesis using r i(1) by blast
    qed
    show ?thesis
    proof (cases "it = iter_at fs p i")
      case True
      then show ?thesis using plain f by simp
    next
      case F: False
      then have h: "htype (field_at fs i) = HTYPE_REPEATED" "it = (iter_at fs p i)\<lparr>pSize := slot\<rparr>"
        using i(2) by auto
      have t0: "tag (iter_field (iter_at fs p i)) \<noteq> 0" using n fs by (simp add: field_at_def)
      have "htype (iter_field (iter_at fs p i)) \<noteq> HTYPE_ONEOF" using h(1) at by simp
      from find_pSize [OF t0 this, of slot t] show ?thesis
        using f h it plain at by (auto split: if_splits)
    qed
  qed
qed

text \<open>With no extension field in the descriptors, the search for one fails.\<close>

lemma find_extension_none:
  assumes fs: "\<forall>f \<in> set fs. tag f \<noteq> 0 \<and> ltype f \<noteq> LTYPE_EXTENSION \<and> tag f \<noteq> t"
    and i: "i < max 1 (length fs)" and t: "fs = [] \<Longrightarrow> t \<noteq> 0"
  shows "find_extension_field (iter_at fs p i) = pb_field_iter_find (iter_at fs p i) t"
proof -
  have fs': "\<forall>f \<in> set fs. tag f \<noteq> 0" using fs by blast
  have "find_extension_loop k from (iter_at fs p j) = iter_find_loop k from t (iter_at fs p j)"
    if "j < max 1 (length fs)" for k "from" j
    using that
  proof (induction k arbitrary: j)
    case (Suc k)
    have f: "ltype (field_at fs j) \<noteq> LTYPE_EXTENSION" "tag (field_at fs j) \<noteq> t"
      using fs Suc.prems t by (cases "fs = []"; force simp: field_at_def)+
    obtain j' where j': "j' < max 1 (length fs)" "snd (pb_field_iter_next (iter_at fs p j)) = iter_at fs p j'"
    proof (cases "fs = []")
      case True
      then have "snd (pb_field_iter_next (iter_at fs p j)) = iter_at fs p 0"
        using Suc.prems by (simp add: pb_field_iter_next_def iter_field_def field_at_def)
      then show thesis using that [of 0] by simp
    next
      case False
      then have n: "n_fields fs = length fs" "j < n_fields fs"
        using n_fields_all [OF fs'] Suc.prems by simp_all
      then show thesis using that [of "Suc j mod n_fields fs"] next_mod [OF n(2), of p] False
        by (simp add: less_max_iff_disj)
    qed
    show ?case
      using f Suc.IH [OF j'(1)] j'(2) iter_at_field [OF fs' Suc.prems, of p] by (simp add: Let_def)
  qed simp
  then show ?thesis using i iter_at_field [OF fs' i, of p]
    by (simp add: find_extension_field_def pb_field_iter_find_def del: find_extension_loop.simps iter_find_loop.simps)
qed

lemma field_ok_pSize:
  "field_ok sub env S it \<Longrightarrow> htype (iter_field it) = HTYPE_REPEATED \<Longrightarrow> span z 4 \<subseteq> S \<Longrightarrow>
   field_ok sub env S (it\<lparr>pSize := z\<rparr>)"
  by (simp add: field_ok_def static_ok_def Let_def split: pb_atype.splits)

lemma fits_at_field:
  assumes "fits (Suc d) env S fs p" "at_field fs p slot it" "span slot 4 \<subseteq> S"
  shows "field_ok (fits d env S) env S it"
proof -
  from assms(2) obtain i where i: "i < max 1 (length fs)" "it = iter_at fs p i \<or>
      (htype (field_at fs i) = HTYPE_REPEATED \<and> it = (iter_at fs p i)\<lparr>pSize := slot\<rparr>)"
    by (auto simp: at_field_def)
  have ok: "field_ok (fits d env S) env S (iter_at fs p i)"
  proof (cases "fs = []")
    case True
    then show ?thesis using i(1)
      by (simp add: field_ok_def static_ok_def item_ok_def Let_def del: iter_at.simps)
  next
    case False
    then show ?thesis using assms(1) i(1) by simp
  qed
  have "\<forall>f \<in> set fs. tag f \<noteq> 0" using assms(1) by simp
  then have "iter_field (iter_at fs p i) = field_at fs i" by (rule iter_at_field(3)) (rule i(1))
  then show ?thesis using i(2) ok field_ok_pSize [OF ok _ assms(3)] by auto
qed

lemma at_field_start: "\<forall>f \<in> set fs. tag f \<noteq> 0 \<Longrightarrow> at_field fs p slot it \<Longrightarrow> start it = fs"
  using iter_at_field(1) by (fastforce simp: at_field_def)

section \<open>One field\<close>

text \<open>
  What the safety of \<open>pb_decode_noinit\<close> rests on: the region holds the local
  \<open>fixed_count_size\<close> of every activation, and the user's decoders keep their contract.
\<close>

definition decoding_context :: "'s read_fn \<Rightarrow> ('s \<Rightarrow> u8 list) \<Rightarrow> 's dec_env \<Rightarrow> addr set \<Rightarrow> bool" where
  "decoding_context rd content env S \<longleftrightarrow>
     callbacks_ok rd content env S \<and> (\<forall>n. span (local_slot env n) 4 \<subseteq> S)"

lemma fits_no_extension:
  assumes "fits (Suc d) env S fs p"
  shows "\<forall>f \<in> set fs. tag f \<noteq> 0 \<and> ltype f \<noteq> LTYPE_EXTENSION"
proof
  fix f assume f: "f \<in> set fs"
  then obtain i where i: "i < length fs" "f = fs ! i" by (auto simp: in_set_conv_nth)
  have all: "\<forall>f \<in> set fs. tag f \<noteq> 0" using assms by simp
  then have "iter_field (iter_at fs p i) = f"
    using i n_fields_all [OF all] by (simp add: field_at_def)
  moreover have "field_ok (fits d env S) env S (iter_at fs p i)" using assms i by simp
  ultimately have "ltype f \<noteq> LTYPE_EXTENSION" by (auto simp: field_ok_def Let_def)
  then show "tag f \<noteq> 0 \<and> ltype f \<noteq> LTYPE_EXTENSION" using all f by simp
qed

lemma release_fitting_field:
  assumes "field_ok (fits d env S) env S it" "d < n"
  shows "pb_release_single_field n env it w = (Ok, w)"
proof -
  obtain m where m: "n = Suc m" "d \<le> m" using assms(2) by (cases n) auto
  have "message_release (pb_release_single_field m env) fs p w = (Ok, w)" if "fits d env S fs p" for fs p w
    using release_ok [OF that m(2)] by (simp add: pb_release_def)
  then show ?thesis unfolding m(1) by (rule release_field_ok [OF assms(1)])
qed

context input_source
begin

lemma release_union_ends:
  assumes f: "fits (Suc d) env S fs p" "span slot 4 \<subseteq> S" "d < n"
    and it: "at_field fs p slot it" and w: "within rd content (fst \<sigma>)"
  shows "dends rd content S \<sigma> (pb_release_union_field n env it \<sigma>) \<and>
    (\<forall>it' \<sigma>'. pb_release_union_field n env it \<sigma> = (Inr it', \<sigma>') \<longrightarrow> at_field fs p slot it' \<and> fst \<sigma>' = fst \<sigma>)"
proof -
  let ?old = "load32 (mem_of \<sigma>) (pSize it)" and ?new = "tag (iter_field it)"
  note fs = fits_no_extension [OF f(1)]
  show ?thesis
  proof (cases "?old = 0 \<or> ?old = ?new")
    case True
    then show ?thesis using it dends_return [OF w] by (auto simp: pb_release_union_field_def Let_def simp del: dends_Inr)
  next
    case False
    obtain st it1 where it1: "pb_field_iter_find it ?old = (st, it1)" by fastforce
    show ?thesis
    proof (cases "st = Ok")
      case True
      then have a: "at_field fs p slot it1" using find_at_field [OF fs it it1] by auto
      have "pb_release_single_field n env it1 w = (Ok, w)" for w
        by (rule release_fitting_field [OF fits_at_field [OF f(1) a f(2)] f(3)])
      then have o: "on_world (pb_release_single_field n env it1) \<sigma> = (Inr (), \<sigma>)"
        by (simp add: on_world_def)
      obtain st2 it2 where it2: "pb_field_iter_find it1 ?new = (st2, it2)" by fastforce
      have "st2 = Ok \<Longrightarrow> at_field fs p slot it2" using find_at_field [OF fs a it2] by auto
      then show ?thesis
        using False True it1 it2 o w dends_return [OF w, of S it2]
        by (auto simp: pb_release_union_field_def Let_def d_error_eq simp del: dends_Inr)
    next
      case F: False
      then show ?thesis using False it1 w by (simp add: pb_release_union_field_def Let_def d_error_eq)
    qed
  qed
qed

lemma field_kind_ends:
  assumes r: "rec_ok rd content env S d n rec" and c: "decoding_context rd content env S"
    and it: "field_ok (fits d env S) env S it"
    and w: "within rd content (fst \<sigma>)" and n: "unat (left \<sigma>) + d < n"
  shows "dends rd content S \<sigma>
    (case atype (iter_field it) of
       ATYPE_STATIC \<Rightarrow> decode_static_field n env rec wt it \<sigma>
     | ATYPE_POINTER \<Rightarrow> decode_pointer_field n env rec wt it \<sigma>
     | ATYPE_CALLBACK \<Rightarrow> decode_callback_field n env wt it \<sigma>
     | ATYPE_INVALID \<Rightarrow> d_error ''invalid field type'' \<sigma>)"
proof (cases "atype (iter_field it)")
  case ATYPE_STATIC
  then show ?thesis using static_field_ends [OF r it _ w] n by simp
next
  case ATYPE_CALLBACK
  then show ?thesis
    using callback_field_ends [OF _ w, of env S n] c n by (simp add: decoding_context_def)
qed (use it in \<open>simp_all add: field_ok_def Let_def\<close>)

lemma decode_field_ends:
  assumes r: "rec_ok rd content env S d n rec" and c: "decoding_context rd content env S"
    and f: "fits (Suc d) env S fs p" "span slot 4 \<subseteq> S" and it: "at_field fs p slot it"
    and w: "within rd content (fst \<sigma>)" and n: "unat (left \<sigma>) + d < n"
  shows "dends rd content S \<sigma> (decode_field n env rec wt it \<sigma>) \<and>
    (\<forall>it' \<sigma>'. decode_field n env rec wt it \<sigma> = (Inr it', \<sigma>') \<longrightarrow> at_field fs p slot it')"
proof -
  let ?u = "if htype (iter_field it) = HTYPE_ONEOF then pb_release_union_field n env it \<sigma> else (Inr it, \<sigma>)"
  let ?k = "\<lambda>it \<sigma>. dbind (case atype (iter_field it) of
       ATYPE_STATIC \<Rightarrow> decode_static_field n env rec wt it \<sigma>
     | ATYPE_POINTER \<Rightarrow> decode_pointer_field n env rec wt it \<sigma>
     | ATYPE_CALLBACK \<Rightarrow> decode_callback_field n env wt it \<sigma>
     | ATYPE_INVALID \<Rightarrow> d_error ''invalid field type'' \<sigma>) (\<lambda>_ \<sigma>. (Inr it, \<sigma>))"
  have dn: "d < n" using n by simp
  have u: "dends rd content S \<sigma> ?u"
    "\<And>it' \<sigma>'. ?u = (Inr it', \<sigma>') \<Longrightarrow> at_field fs p slot it' \<and> fst \<sigma>' = fst \<sigma>"
    using release_union_ends [OF f dn it w] it dends_return [OF w, of S it] by (auto split: if_splits simp del: dends_Inr)
  have "dends rd content S \<sigma> (dbind ?u ?k)"
  proof (rule dends_dbind [OF u(1)])
    fix it' \<sigma>' j assume e: "?u = (Inr it', \<sigma>')" and w': "within rd content (fst \<sigma>')"
    then have a: "at_field fs p slot it'" "fst \<sigma>' = fst \<sigma>" using u(2) by blast+
    have n': "unat (left \<sigma>') + d < n" using a(2) n by simp
    show "dends rd content S \<sigma>' (?k it' \<sigma>')"
      by (rule dends_dbind [OF field_kind_ends [OF r c fits_at_field [OF f(1) a(1) f(2)] w' n']])
         (rule dends_return)
  qed
  moreover have "at_field fs p slot it'" if "dbind ?u ?k = (Inr it', \<sigma>')" for it' \<sigma>'
  proof -
    from that obtain it1 \<sigma>1 where i: "?u = (Inr it1, \<sigma>1)" "?k it1 \<sigma>1 = (Inr it', \<sigma>')"
      by (rule dbind_InrD)
    then have "it' = it1" by (auto elim!: dbind_InrD)
    then show ?thesis using u(2) [OF i(1)] by simp
  qed
  ultimately show ?thesis unfolding decode_field_def by blast
qed

lemma dends_maybe_write:
  "span p (length bs) \<subseteq> S \<Longrightarrow> within rd content (fst \<sigma>) \<Longrightarrow>
   dends rd content S (if b then write_mem p bs \<sigma> else \<sigma>) r \<Longrightarrow> dends rd content S \<sigma> r"
  using dends_write [of p bs S rd content \<sigma> r] by (cases b) simp_all

lemma skip_unknown_ends:
  "within rd content (fst \<sigma>) \<Longrightarrow> dends rd content S \<sigma> (skip_unknown wt l \<sigma>)"
  unfolding skip_unknown_def
  by (rule dends_dbind [OF dends_on_stream [OF skip_field_safe]], assumption, rule dends_return)

lemma skip_unknown_Inr: "skip_unknown wt l \<sigma> = (Inr l', \<sigma>') \<Longrightarrow> l' = l"
  by (auto simp: skip_unknown_def elim!: dbind_InrD)

lemma decode_known_ends:
  assumes r: "rec_ok rd content env S d n rec" and c: "decoding_context rd content env S"
    and f: "fits (Suc d) env S fs p" "span slot 4 \<subseteq> S" and l: "at_field fs p slot (liter l)"
    and w: "within rd content (fst \<sigma>)" and n: "unat (left \<sigma>) + d < n"
  shows "dends rd content S \<sigma> (decode_known n env rec slot wt l \<sigma>) \<and>
    (\<forall>l' \<sigma>'. decode_known n env rec slot wt l \<sigma> = (Inr l', \<sigma>') \<longrightarrow> at_field fs p slot (liter l'))"
proof -
  let ?it = "liter l"
  let ?fixed = "htype (iter_field ?it) = HTYPE_REPEATED \<and> pSize ?it = pData ?it"
  let ?fresh = "?fixed \<and> fixed_count_field l \<noteq> Some (pos ?it)"
  let ?\<sigma>1 = "if ?fresh then write_mem slot (le_bytes 4 (0 :: u32)) \<sigma> else \<sigma>"
  let ?it1 = "if ?fixed then ?it\<lparr>pSize := slot\<rparr> else ?it"
  have all: "\<forall>f \<in> set fs. tag f \<noteq> 0" using f(1) by simp
  have it1: "at_field fs p slot ?it1"
  proof (cases ?fixed)
    case True
    from l obtain i where i: "i < max 1 (length fs)" "?it = iter_at fs p i \<or>
      (htype (field_at fs i) = HTYPE_REPEATED \<and> ?it = (iter_at fs p i)\<lparr>pSize := slot\<rparr>)"
      by (auto simp: at_field_def)
    have "iter_field ?it = field_at fs i" using i(2) iter_at_field(3) [OF all i(1), of p] by auto
    then have "htype (field_at fs i) = HTYPE_REPEATED" "?it1 = (iter_at fs p i)\<lparr>pSize := slot\<rparr>"
      using True i(2) by auto
    then show ?thesis using i(1) by (auto simp: at_field_def)
  next
    case False
    then show ?thesis using l by (simp only: if_False)
  qed
  have \<sigma>1: "fst ?\<sigma>1 = fst \<sigma>" by simp
  then have e: "dends rd content S ?\<sigma>1 (decode_field n env rec wt ?it1 ?\<sigma>1)"
    "\<forall>it' \<sigma>'. decode_field n env rec wt ?it1 ?\<sigma>1 = (Inr it', \<sigma>') \<longrightarrow> at_field fs p slot it'"
    using decode_field_ends [OF r c f it1, of ?\<sigma>1 wt] w n by auto
  define k :: "pb_field_iter \<Rightarrow> 's dstate \<Rightarrow> (status + dec_locals) \<times> 's dstate" where
    "k = (\<lambda>it2 \<sigma>. (Inr (l\<lparr>fixed_count_field := (if ?fresh then Some (pos ?it) else fixed_count_field l),
        fields_seen := mark_seen ?it1 (fields_seen l), liter := it2\<rparr>), \<sigma>))"
  have "dends rd content S ?\<sigma>1 (dbind (decode_field n env rec wt ?it1 ?\<sigma>1) k)"
    by (rule dends_dbind [OF e(1)]) (simp only: k_def dends_return)
  then have d: "dends rd content S \<sigma> (dbind (decode_field n env rec wt ?it1 ?\<sigma>1) k)"
    by (rule dends_maybe_write [rotated 2]) (simp_all add: f(2) w)
  have eq: "decode_known n env rec slot wt l \<sigma> =
      (if ?fresh \<and> fixed_count_wrong slot l (mem_of \<sigma>)
       then d_error ''wrong size for fixed count field'' \<sigma>
       else dbind (decode_field n env rec wt ?it1 ?\<sigma>1) k)"
    unfolding decode_known_def Let_def k_def by simp
  have "at_field fs p slot (liter l')"
    if "dbind (decode_field n env rec wt ?it1 ?\<sigma>1) k = (Inr l', \<sigma>')" for l' \<sigma>'
    using that e(2) unfolding k_def by (auto elim!: dbind_InrD)
  then show ?thesis unfolding eq using d w by (auto simp: d_error_eq)
qed

lemma decode_unknown_ends:
  assumes f: "fits (Suc d) env S fs p" and i: "i < max 1 (length fs)" "liter l = iter_at fs p i"
    and t: "\<forall>f \<in> set fs. tag f \<noteq> t" "fs = [] \<Longrightarrow> t \<noteq> 0" "unat t < 2 ^ 29"
    and w: "within rd content (fst \<sigma>)"
  shows "dends rd content S \<sigma> (decode_unknown n env rec t wt l \<sigma>) \<and>
    (\<forall>l' \<sigma>'. decode_unknown n env rec t wt l \<sigma> = (Inr l', \<sigma>') \<longrightarrow> at_field fs p slot (liter l'))"
proof -
  note fs = fits_no_extension [OF f]
  obtain st it where e: "find_extension_field (liter l) = (st, it)" by fastforce
  have "find_extension_field (iter_at fs p i) = pb_field_iter_find (iter_at fs p i) t"
    by (rule find_extension_none) (use fs t i in blast)+
  then have fi: "pb_field_iter_find (iter_at fs p i) t = (st, it)" using e i(2) by simp
  have at: "at_field fs p slot (iter_at fs p i)" using i(1) by (auto simp: at_field_def)
  have st: "st \<noteq> Ok" and it: "at_field fs p slot it"
  proof -
    have no: "tag (iter_field it) \<noteq> t" if "at_field fs p slot it" for it
    proof -
      from that obtain j where j: "j < max 1 (length fs)" "iter_field it = field_at fs j"
        using iter_at_field(3) [of fs] fs by (fastforce simp: at_field_def)
      show ?thesis
        using j t fs by (cases "fs = []") (auto simp: field_at_def)
    qed
    show "st \<noteq> Ok" "at_field fs p slot it"
      using find_at_field [OF fs at fi] no [of it] by (auto simp: at_field_def)
  qed
  have "\<not> t \<ge> (- 1 :: u32)"
  proof
    assume "t \<ge> (- 1 :: u32)"
    then have "2 ^ 32 - 1 \<le> unat t"
      by (simp add: word_le_nat_alt unsigned_minus_1_eq_mask mask_eq_exp_minus_1)
    then show False using t(3) by simp
  qed
  then have eq: "decode_unknown n env rec t wt l \<sigma> = skip_unknown wt
      (if t \<ge> extension_range_start l then l\<lparr>liter := it, extension_range_start := - 1\<rparr> else l) \<sigma>"
    using e st by (simp add: decode_unknown_def Let_def)
  show ?thesis
    unfolding eq using skip_unknown_ends [OF w] it at i(2) by (auto dest!: skip_unknown_Inr)
qed

lemma decode_one_ends:
  assumes r: "rec_ok rd content env S d n rec" and c: "decoding_context rd content env S"
    and f: "fits (Suc d) env S fs p" "span slot 4 \<subseteq> S" and l: "at_field fs p slot (liter l)"
    and t: "unat t < 2 ^ 29" and w: "within rd content (fst \<sigma>)" and n: "unat (left \<sigma>) + d < n"
  shows "dends rd content S \<sigma> (decode_one n env rec slot t wt l \<sigma>) \<and>
    (\<forall>l' \<sigma>'. decode_one n env rec slot t wt l \<sigma> = (Inr l', \<sigma>') \<longrightarrow> at_field fs p slot (liter l'))"
proof -
  note fs = fits_no_extension [OF f(1)]
  obtain st it where it: "pb_field_iter_find (liter l) t = (st, it)" by fastforce
  show ?thesis
  proof (cases "st = Ok")
    case True
    then have "at_field fs p slot it" using find_at_field [OF fs l it] by auto
    then show ?thesis
      using decode_known_ends [OF r c f, of "l\<lparr>liter := it\<rparr>" \<sigma> wt] w n it True
      by (simp add: decode_one_def)
  next
    case False
    then obtain i where i: "i < max 1 (length fs)" "it = iter_at fs p i" "\<forall>f \<in> set fs. tag f \<noteq> t"
      using find_at_field [OF fs l it] by auto
    have "t \<noteq> 0" if "fs = []"
    proof
      assume "t = 0"
      have "liter l = iter_at [] p 0" using l that by (auto simp: at_field_def field_at_def)
      then show False using find_Nil [of p t] it False \<open>t = 0\<close> by simp
    qed
    then show ?thesis
      using decode_unknown_ends [OF f(1) i(1), of "l\<lparr>liter := it\<rparr>" t] i it False t w
      by (simp add: decode_one_def)
  qed
qed

text \<open>A tag has at most 29 bits, and takes at least one byte.\<close>

lemma varint32_loop_shrinks:
  "varint32_loop s p r = (Inr v, s') \<Longrightarrow> unat (bytes_left s') < unat (bytes_left s)"
proof (induction s p r rule: varint32_loop.induct)
  case (1 s p r)
  from 1(2) [unfolded varint32_loop_dbind [of s p r]]
  obtain b s1 where s1: "pb_readbyte s = (Inr b, s1)"
    and k: "(let sign_extension = (if p < 63 then 0xFF else 0x01);
           result' = (if p \<ge> 32 then r else r OR push_bit (unat p) (ucast (b AND 0x7F)))
       in if p \<ge> 32 \<and> b AND 0x7F \<noteq> 0 \<and> (drop_bit 31 r = 0 \<or> b \<noteq> sign_extension)
          then i_error s1 ''varint overflow''
          else if b AND 0x80 \<noteq> 0 then varint32_loop s1 (p + 7) result'
          else (Inr (result', p + 7, b), s1)) = (Inr v, s')"
    by (rule dbind_InrD)
  note pb_readbyte_decreases [OF s1]
  then show ?case
    using k 1(1) [OF s1 [symmetric] refl refl refl]
    by (auto simp: Let_def i_error_def split: if_splits)
qed

lemma tag_bound:
  assumes "pb_decode_tag s = ((Inr (wt, t), s1), eof)"
  shows "unat t < 2 ^ 29" "unat (bytes_left s1) < unat (bytes_left s)"
proof -
  obtain temp where temp: "pb_decode_varint32_eof s = ((Inr temp, s1), eof)" "t = drop_bit 3 temp"
    using assms by (auto simp: pb_decode_tag_def split: prod.splits sum.splits if_splits)
  have "unat temp < 2 ^ 32" using unsigned_less [of temp] by simp
  then show "unat t < 2 ^ 29" using temp(2) by (simp add: unat_drop_bit)
  have "pb_decode_varint32 s = (Inr temp, s1)" using temp(1) by (simp add: pb_decode_varint32_def)
  then obtain b s2 where b: "pb_readbyte s = (Inr b, s2)"
    "(if b AND 0x80 = 0 then (Inr (ucast b), s2)
      else dbind (varint32_loop s2 7 (ucast (b AND 0x7F)))
        (\<lambda>(result, bitpos, b) s2. if bitpos = 35 \<and> b AND 0x70 \<noteq> 0
           then i_error s2 ''varint overflow'' else (Inr result, s2))) = (Inr temp, s1)"
    unfolding pb_decode_varint32_dbind by (rule dbind_InrD)
  have "unat (bytes_left s1) \<le> unat (bytes_left s2)"
    using b(2)
    by (auto simp: i_error_def less_imp_le dest!: varint32_loop_shrinks elim!: dbind_InrD split: if_splits)
  then show "unat (bytes_left s1) < unat (bytes_left s)" using pb_readbyte_decreases [OF b(1)] by simp
qed

text \<open>With bytes left, the only end of the message that \<open>pb_decode_tag\<close> reports is a zero tag.\<close>

lemma tag_eof:
  assumes w: "within rd content s" and l: "bytes_left s \<noteq> 0"
    and t: "pb_decode_tag s = ((Inl Fail, s1), True)"
  shows "\<exists>n. advanced rd content s n s1"
proof -
  obtain x s2 e where x: "pb_decode_varint32_eof s = ((x, s2), e)" by (metis surj_pair)
  have "x \<noteq> Inl st \<or> \<not> e" for st
  proof -
    have "0 < unat (bytes_left s)" using l by (simp add: unat_gt_0)
    then have "avail content s \<noteq> []" using w by (auto simp: within_def)
    then obtain b s3 where "pb_readbyte s = (Inr b, s3)"
      using readbyte_within [OF within_sourced [OF w] _ l] by blast
    then show ?thesis using x by (simp add: pb_decode_varint32_eof_def)
  qed
  then obtain v where "x = Inr v" "s2 = s1"
    using t x by (cases x) (auto simp: pb_decode_tag_def split: if_splits)
  then show ?thesis
    using safeD [OF varint32_safe w] x by (simp add: pb_decode_varint32_def)
qed

lemma decode_loop_ends:
  assumes r: "rec_ok rd content env S d n rec" and c: "decoding_context rd content env S"
    and f: "fits (Suc d) env S fs p" "span slot 4 \<subseteq> S"
  shows "within rd content (fst \<sigma>) \<Longrightarrow> at_field fs p slot (liter l) \<Longrightarrow> unat (left \<sigma>) + d \<le> n \<Longrightarrow>
    unat (left \<sigma>) \<le> k \<Longrightarrow>
    dends rd content S \<sigma> (decode_loop k n env rec slot l \<sigma>) \<and>
    (\<forall>l' \<sigma>'. decode_loop k n env rec slot l \<sigma> = (Inr l', \<sigma>') \<longrightarrow> at_field fs p slot (liter l'))"
proof (induction k arbitrary: \<sigma> l)
  case 0
  then have "left \<sigma> = 0" by (simp add: unat_eq_0)
  then show ?case using dends_return [OF 0(1), of S l] 0(2) by (auto simp del: dends_Inr)
next
  case (Suc k)
  show ?case
  proof (cases "left \<sigma> = 0")
    case True
    then show ?thesis using dends_return [OF Suc.prems(1), of S l] Suc.prems(2) by (auto simp del: dends_Inr)
  next
    case False
    obtain x s eof where tg: "pb_decode_tag (fst \<sigma>) = ((x, s), eof)" by (metis surj_pair)
    have e: "ends_well rd content (fst \<sigma>) (x, s)" using safeD [OF tag_safe Suc.prems(1)] tg by simp
    show ?thesis
    proof (cases x)
      case (Inl st)
      show ?thesis
      proof (cases "st = Fail \<and> eof")
        case T: True
        have "\<exists>n. advanced rd content (fst \<sigma>) n s"
          by (rule tag_eof [OF Suc.prems(1) False]) (use tg Inl T in simp)
        then show ?thesis using e tg Inl T False Suc.prems(2) by simp
      next
        case F: False
        then show ?thesis using e tg Inl False by auto
      qed
    next
      case (Inr v)
      obtain wt t where v: "v = (wt, t)" by fastforce
      have b: "unat t < 2 ^ 29" "unat (bytes_left s) < unat (left \<sigma>)"
        using tag_bound tg Inr v by blast+
      obtain j where adv: "advanced rd content (fst \<sigma>) j s" "within rd content s" using e Inr by auto
      have w: "within rd content (fst (s, snd \<sigma>))" and n: "unat (left (s, snd \<sigma>)) + d < n"
        using adv(2) b(2) Suc.prems(3) by simp_all
      note one = decode_one_ends [OF r c f Suc.prems(2) b(1) w n, of wt]
      let ?k = "\<lambda>l \<sigma>. decode_loop k n env rec slot l \<sigma>"
      have step: "dends rd content S \<sigma>1 (?k l1 \<sigma>1) \<and>
          (\<forall>l' \<sigma>'. ?k l1 \<sigma>1 = (Inr l', \<sigma>') \<longrightarrow> at_field fs p slot (liter l'))"
        if o: "decode_one n env rec slot t wt l (s, snd \<sigma>) = (Inr l1, \<sigma>1)" for l1 \<sigma>1
      proof (rule Suc.IH)
        obtain j1 where "within rd content (fst \<sigma>1)" "advanced rd content s j1 (fst \<sigma>1)"
          using one o by auto
        then show "within rd content (fst \<sigma>1)" "unat (left \<sigma>1) + d \<le> n" "unat (left \<sigma>1) \<le> k"
          using advanced_left_le [of rd content s j1 "fst \<sigma>1"] b(2) Suc.prems(3,4) by simp_all
        show "at_field fs p slot (liter l1)" using one o by blast
      qed
      have "dends rd content S (s, snd \<sigma>) (dbind (decode_one n env rec slot t wt l (s, snd \<sigma>)) ?k)"
        by (rule dends_dbind) (use one step in blast)+
      then have "dends rd content S \<sigma> (dbind (decode_one n env rec slot t wt l (s, snd \<sigma>)) ?k)"
        by (rule dends_later [rotated 2]) (use adv in simp_all)
      moreover have "decode_loop (Suc k) n env rec slot l \<sigma> =
          dbind (decode_one n env rec slot t wt l (s, snd \<sigma>)) ?k"
        using tg Inr v False by simp
      ultimately show ?thesis using step by (auto elim!: dbind_InrD simp del: decode_loop.simps)
    qed
  qed
qed

section \<open>Messages\<close>

lemma final_checks_end:
  "within rd content (fst \<sigma>) \<Longrightarrow> dends rd content S \<sigma> (final_checks slot l \<sigma>)"
  using dends_return [of rd content \<sigma> S "()"] by (simp add: final_checks_def Let_def del: dends_Inr)

lemma noinit_step:
  assumes r: "rec_ok rd content env S d n rec" and c: "decoding_context rd content env S"
  shows "rec_ok rd content env S (Suc d) (Suc n) (noinit_body n env rec)"
  unfolding rec_ok_def
proof (intro allI impI)
  fix fs p and \<sigma> :: "'s dstate"
  assume f: "fits (Suc d) env S fs p" and w: "within rd content (fst \<sigma>)"
    and n: "unat (left \<sigma>) + Suc d \<le> Suc n"
  let ?slot = "local_slot env n"
  let ?l = "\<lparr>liter = snd (pb_field_iter_begin fs p), fields_seen = [0, 0],
               extension_range_start = 0, fixed_count_field = None\<rparr>"
  let ?\<sigma>1 = "write_mem ?slot (le_bytes 4 (0 :: u32)) \<sigma>"
  have slot: "span ?slot 4 \<subseteq> S" using c by (simp add: decoding_context_def)
  have "at_field fs p ?slot (liter ?l)" by (auto simp: at_field_def intro!: exI [of _ 0])
  then have "dends rd content S ?\<sigma>1 (decode_loop n n env rec ?slot ?l ?\<sigma>1)"
    using decode_loop_ends [OF r c f slot, of ?\<sigma>1 ?l n] w n by simp
  then have "dends rd content S ?\<sigma>1
      (dbind (decode_loop n n env rec ?slot ?l ?\<sigma>1) (final_checks ?slot))"
    by (rule dends_dbind) (rule final_checks_end)
  then have "dends rd content S \<sigma> (dbind (decode_loop n n env rec ?slot ?l ?\<sigma>1) (final_checks ?slot))"
    by (rule dends_write [rotated 2]) (simp_all add: slot w)
  then show "dends rd content S \<sigma> (noinit_body n env rec fs p \<sigma>)"
    by (simp add: noinit_body_def Let_def)
qed

lemma noinit_ends:
  assumes c: "decoding_context rd content env S"
  shows "rec_ok rd content env S d n (pb_decode_noinit n env)"
proof (induction n arbitrary: d)
  case 0
  show ?case by (auto simp: rec_ok_def)
next
  case (Suc n)
  show ?case
  proof (cases d)
    case 0
    then show ?thesis by (simp add: rec_ok_def)
  next
    case d': (Suc d')
    show ?thesis using noinit_step [OF Suc.IH c] d' by simp
  qed
qed

lemma decode_ends:
  assumes "decoding_context rd content env S"
  shows "rec_ok rd content env S d n (pb_decode n env)"
  unfolding pb_decode_def by (rule rec_init [OF noinit_ends [OF assms]])

lemma delimited_ends:
  assumes c: "decoding_context rd content env S" and f: "fits d env S fs p"
    and w: "within rd content (fst \<sigma>)" and n: "unat (left \<sigma>) + d \<le> n"
    and g: "rec_ok rd content env S d n g"
  shows "dends rd content S \<sigma> (dbind (on_stream pb_make_string_substream \<sigma>) (\<lambda>sub \<sigma>.
       finish_substream (fst \<sigma>) (g fs p (sub, snd \<sigma>))))"
proof (rule dends_make [OF w])
  fix s and k :: u32
  assume w1: "within rd content s" and k: "ucast k \<le> bytes_left s"
    and ws: "within rd content (s\<lparr>bytes_left := ucast k\<rparr>)" and l: "unat (bytes_left s) \<le> unat (left \<sigma>)"
  have "unat (left (s\<lparr>bytes_left := ucast k\<rparr>, snd \<sigma>)) + d \<le> n" using k l n by (simp add: word_le_nat_alt)
  then have "dends rd content S (s\<lparr>bytes_left := ucast k\<rparr>, snd \<sigma>) (g fs p (s\<lparr>bytes_left := ucast k\<rparr>, snd \<sigma>))"
    by (intro rec_okD [OF g f]) (simp_all add: ws)
  then show "dends rd content S (s, snd \<sigma>)
      (finish_substream (fst (s\<lparr>bytes_left := bytes_left s - ucast k\<rparr>, snd \<sigma>))
        (g fs p (s\<lparr>bytes_left := ucast k\<rparr>, snd (s\<lparr>bytes_left := bytes_left s - ucast k\<rparr>, snd \<sigma>))))"
    using dends_finish [OF w1 k] by simp
qed

end

end
