(* ===== verification/PbDecodeTrip.thy ===== *)
theory PbDecodeTrip
  imports PbMem PbDecodeLoop PbDecProps
begin

declare iter_at.simps [simp del]

text \<open>
  The decoder inverts the encoder on structs of required scalars: the bytes that
  \<open>pb_encode\<close> writes for one struct make \<open>pb_decode_noinit\<close> fill in another one with the
  same members.
\<close>

section \<open>Scalar members\<close>

text \<open>
  \<open>fills d bs p v\<close>: on a stream that starts with \<open>bs\<close>, \<open>d\<close> consumes exactly \<open>bs\<close> and
  stores the bytes \<open>v\<close> at \<open>p\<close>.
\<close>

definition fills :: "(u8 list dstate \<Rightarrow> (status + unit) \<times> u8 list dstate) \<Rightarrow> u8 list \<Rightarrow> addr \<Rightarrow> u8 list \<Rightarrow> bool" where
  "fills d bs p v \<longleftrightarrow> (\<forall>s w. sourced buf_read s \<and> take (length bs) (unread s) = bs
      \<and> length bs \<le> unat (bytes_left s) \<longrightarrow>
      (\<exists>s'. d (s, w) = (Inr (), s', poke p v w) \<and> advanced buf_read (\<lambda>bs. bs) s (length bs) s'))"

lemma fills_store:
  assumes "mem_parses d bs v" "\<And>\<sigma>. k v \<sigma> = (Inr (), write_mem p u \<sigma>)"
  shows "fills (\<lambda>\<sigma>. dbind (on_stream d \<sigma>) k) bs p u"
  using assms unfolding fills_def parses_def
  by (fastforce simp: on_stream_def write_mem_def)

lemma ucast_scast32: "ucast (scast (w :: u32) :: u64) = w"
  by (rule bit_word_eqI) (simp add: bit_simps)

lemma le_bytes_load32: "le_bytes 4 (load32 m a) = load_bytes m a 4"
  unfolding load32_def by (rule le_bytes_le_word) simp_all

lemma le_bytes_load64: "le_bytes 8 (load64 m a) = load_bytes m a 8"
  unfolding load64_def by (rule le_bytes_le_word) simp_all

lemma call_dec_Some [simp]: "call_dec (Some f) field p = f field p"
  by (simp add: fun_eq_iff call_dec_def)

lemma scalar_fills:
  assumes "scalar_field f" "PB_DECODERS n env rec (ltype f) = Some g"
  shows "fills (call_dec g f p) (payload_bytes (scalar_value m f a)) p (load_bytes m a (unat (data_size f)))"
proof -
  from assms(1) consider (u) "ltype f = LTYPE_UVARINT" "data_size f = 8"
    | (v) "ltype f = LTYPE_VARINT" "data_size f = 4" | (s) "ltype f = LTYPE_SVARINT" "data_size f = 4"
    | (f4) "ltype f = LTYPE_FIXED32" "data_size f = 4" | (f8) "ltype f = LTYPE_FIXED64" "data_size f = 8"
    by (auto simp: scalar_field_def)
  then show ?thesis
  proof cases
    case u
    have "fills (pb_dec_uvarint f p) (varint_bytes (unat (load64 m a))) p (load_bytes m a 8)"
      unfolding pb_dec_uvarint_def
      by (rule fills_store [OF memory.varint_parses])
         (simp add: u store_unsigned_def check_clamped_def le_bytes_load64)
    then show ?thesis using u assms(2) by (auto simp: scalar_value_def)
  next
    case v
    have sv: "(of_int (sint (load32 m a)) :: u64) = scast (load32 m a)" by simp
    have "fills (pb_dec_varint f p) (varint_bytes (unat (scast (load32 m a) :: u64))) p (load_bytes m a 4)"
      unfolding pb_dec_varint_def
      by (rule fills_store [OF memory.varint_parses])
         (simp add: v store_signed_def check_clamped_def le_bytes_load32 ucast_scast32)
    then show ?thesis using v assms(2) sv by (auto simp: scalar_value_def)
  next
    case s
    have si: "sint (scast (load32 m a) :: u64) = sint (load32 m a)" by (simp add: sint_up_scast is_up)
    have "zigzag (sint (scast (load32 m a) :: u64)) < 2 ^ 64"
      unfolding zigzag_def unat_zigzag_word [symmetric] by (rule unat_lt)
    then have z: "unat (of_nat (zigzag (sint (load32 m a))) :: u64) = zigzag (sint (load32 m a))"
      unfolding si by (intro unat_of_nat_lt) simp
    have "fills (pb_dec_svarint f p) (varint_bytes (zigzag (sint (scast (load32 m a) :: u64)))) p (load_bytes m a 4)"
      unfolding pb_dec_svarint_def
      by (rule fills_store [OF memory.svarint_parses])
         (simp add: s store_signed_def check_clamped_def le_bytes_load32 ucast_scast32)
    then show ?thesis using s assms(2) z si by (auto simp: scalar_value_def)
  next
    case f4
    have "fills (pb_dec_fixed32 f p) (le_bytes 4 (load32 m a)) p (load_bytes m a 4)"
      unfolding pb_dec_fixed32_def
      by (rule fills_store [OF memory.fixed32_parses]) (simp add: le_bytes_load32)
    then show ?thesis using f4 assms(2) by (auto simp: scalar_value_def)
  next
    case f8
    have "fills (pb_dec_fixed64 f p) (le_bytes 8 (load64 m a)) p (load_bytes m a 8)"
      unfolding pb_dec_fixed64_def
      by (rule fills_store [OF memory.fixed64_parses]) (simp add: le_bytes_load64)
    then show ?thesis using f8 assms(2) by (auto simp: scalar_value_def)
  qed
qed

section \<open>The record of required fields\<close>

definition seen_upto :: "nat \<Rightarrow> u32 list" where
  "seen_upto i = [mask (min i 32), mask (i - 32)]"

lemma index_split:
  assumes "i \<le> 64"
  shows "unat (drop_bit 5 (of_nat i :: u32)) = i div 32" "unat ((of_nat i :: u32) AND 31) = i mod 32"
proof -
  have i: "unat (of_nat i :: u32) = i" using assms by (intro unat_of_nat_lt) simp
  then show "unat (drop_bit 5 (of_nat i :: u32)) = i div 32" by (simp add: unat_drop_bit)
  have "(31 :: u32) = mask 5" by (simp add: mask_eq_exp_minus_1)
  then have "unat ((of_nat i :: u32) AND 31) = take_bit 5 (unat (of_nat i :: u32))"
    by (simp only: flip: take_bit_eq_mask unsigned_take_bit_eq)
  then show "unat ((of_nat i :: u32) AND 31) = i mod 32" by (simp add: i take_bit_eq_mod)
qed

lemma mask_push: "mask i OR push_bit i 1 = (mask (Suc i) :: u32)"
  by (rule bit_word_eqI) (auto simp: bit_simps less_Suc_eq)

lemma mark_seen_upto:
  assumes "htype (iter_field it) = HTYPE_REQUIRED" "required_field_index it = of_nat i" "i < 64"
  shows "mark_seen it (seen_upto i) = seen_upto (Suc i)"
proof -
  have u: "unat (of_nat i :: u32) = i" using assms by (intro unat_of_nat_lt) simp
  then have "(of_nat i :: u32) < PB_MAX_REQUIRED_FIELDS"
    using assms(3) by (simp add: PB_MAX_REQUIRED_FIELDS_def word_less_nat_alt)
  moreover note index_split [of i]
  moreover have "mask (i - 31) = (mask (Suc (i - 32)) :: u32)" if "\<not> i < 32"
    using that by (intro arg_cong [of _ _ mask]) simp
  ultimately show ?thesis
    using assms mask_push [of i] mask_push [of "i - 32"]
    by (cases "i < 32") (simp_all add: mark_seen_def seen_upto_def Let_def le_mod_geq le_div_geq)
qed

lemma all_seen_upto:
  assumes "n \<le> 64"
  shows "all_seen (of_nat n) (seen_upto n)"
proof -
  have u: "unat (of_nat n :: u32) = n" using assms by (intro unat_of_nat_lt) simp
  note s = index_split [OF assms]
  have full: "(mask 32 :: u32) = - 1" by (simp add: mask_eq_exp_minus_1)
  have part: "drop_bit (32 - k) (- 1) = (mask k :: u32)" if "k \<le> 32" for k
    using that by (intro bit_word_eqI) (auto simp: bit_simps)
  have r: "unat (32 - ((of_nat n :: u32) AND 31)) = 32 - n mod 32"
    using s(2) by (simp add: unat_sub word_le_nat_alt)
  consider "n < 32" | "n = 32" | "32 < n" "n < 64" | "n = 64" using assms by linarith
  then show ?thesis
    by cases (simp_all only: all_seen_def Let_def s(1) r,
      auto simp: seen_upto_def full part le_mod_geq le_div_geq upt_rec)
qed

section \<open>Descriptors of required scalars\<close>

text \<open>
  The descriptors of a struct of required scalars with \<open>off\<close> the offsets of its members:
  distinct tags of at most 29 bits, at most 64 members, within the address space.
\<close>

definition scalar_struct :: "pb_field list \<Rightarrow> (nat \<Rightarrow> nat) \<Rightarrow> bool" where
  "scalar_struct fs off \<longleftrightarrow> laid_out fs off \<and> 0 < length fs \<and> length fs \<le> 64
     \<and> (\<forall>f \<in> set fs. scalar_field f \<and> tag f \<noteq> 0 \<and> unat (tag f) < 2 ^ 29)
     \<and> distinct (map tag fs)
     \<and> off (length fs - 1) + 8 < 2 ^ 64"

abbreviation fsize :: "pb_field \<Rightarrow> nat" where
  "fsize f \<equiv> unat (data_size f)"

lemma scalar_struct_fields:
  assumes "scalar_struct fs off" "i < length fs"
  shows "n_fields fs = length fs" "scalar_field (fs ! i)" "tag (fs ! i) \<noteq> 0" "unat (tag (fs ! i)) < 2 ^ 29"
    "iter_field (iter_at fs p i) = fs ! i" "pData (iter_at fs p i) = p + of_nat (off i)"
    "fsize (fs ! i) \<le> 8" "0 < fsize (fs ! i)" "\<not> in_union fs i" "member_size (fs ! i) = fsize (fs ! i)"
proof -
  have m: "fs ! i \<in> set fs" using assms(2) by simp
  then show sc: "scalar_field (fs ! i)" "tag (fs ! i) \<noteq> 0" "unat (tag (fs ! i)) < 2 ^ 29"
    using assms(1) by (auto simp: scalar_struct_def)
  show n: "n_fields fs = length fs" using assms(1) by (intro n_fields_all) (simp add: scalar_struct_def)
  then show "iter_field (iter_at fs p i) = fs ! i" using assms(2) by (simp add: field_at_def)
  show "pData (iter_at fs p i) = p + of_nat (off i)"
    using iter_pData assms n by (simp add: scalar_struct_def)
  show "fsize (fs ! i) \<le> 8" "0 < fsize (fs ! i)" "\<not> in_union fs i" "member_size (fs ! i) = fsize (fs ! i)"
    using sc(1) by (auto simp: scalar_field_def in_union_def member_size_def)
qed

lemma offsets_increase:
  assumes s: "scalar_struct fs off" and "i < j" "j < length fs"
  shows "off i + fsize (fs ! i) \<le> off j"
  using assms(2,3)
proof (induction j)
  case (Suc j)
  have step: "off j + fsize (fs ! j) \<le> off (Suc j)"
  proof -
    have j: "j < length fs" "Suc j < n_fields fs"
      using Suc.prems scalar_struct_fields(1) [OF s Suc.prems(2)] by auto
    have "if in_union fs j then off (Suc j) = off j else off j + member_size (fs ! j) \<le> off (Suc j)"
      using s j(2) by (auto simp: scalar_struct_def laid_out_def)
    then show ?thesis using scalar_struct_fields(9,10) [OF s j(1)] by simp
  qed
  then show ?case using Suc by (cases "i = j") (auto simp: less_Suc_eq)
qed simp

lemma members_apart:
  assumes s: "scalar_struct fs off" and "i < length fs" "j < length fs" "i \<noteq> j"
  shows "apart (p + of_nat (off i)) (fsize (fs ! i)) (p + of_nat (off j)) (fsize (fs ! j))"
proof -
  have bound: "off k + fsize (fs ! k) < 2 ^ 64" if "k < length fs" for k
  proof -
    have "off k \<le> off (length fs - 1)"
    proof (cases "k = length fs - 1")
      case False
      then have "k < length fs - 1" "length fs - 1 < length fs" using that by auto
      from offsets_increase [OF s this] show ?thesis by linarith
    qed simp
    then show ?thesis using s scalar_struct_fields(7) [OF s that] by (simp add: scalar_struct_def)
  qed
  have lt: "apart (p + of_nat (off a)) (fsize (fs ! a)) (p + of_nat (off b)) (fsize (fs ! b))"
    if "a < b" "b < length fs" for a b
  proof (rule apart_offsets)
    have "a < length fs" using that by simp
    then show "off a + fsize (fs ! a) \<le> off b" "off a < off b" "off b + fsize (fs ! b) < 2 ^ 64"
      using offsets_increase [OF s that] scalar_struct_fields(8) [OF s] bound [OF that(2)]
      by (simp_all add: less_le_trans trans_less_add1 order_less_le_trans [of "off a" "off a + fsize (fs ! a)"])
  qed
  show ?thesis
    using assms(2-4) lt [of i j] lt [of j i] apart_sym by (cases "i < j") auto
qed

lemma required_index:
  assumes s: "scalar_struct fs off" and "i < length fs"
  shows "required_field_index (iter_at fs p i) = of_nat i"
  using assms(2)
proof (induction i)
  case 0
  then show ?case by (simp add: iter_at.simps pb_field_iter_begin_def Let_def)
next
  case (Suc i)
  then have i: "i < length fs" "Suc i < length fs" by simp_all
  let ?it = "iter_at fs p i"
  have f: "iter_field ?it = fs ! i" "start ?it = fs" "pos ?it = i"
    using scalar_struct_fields [OF s i(1)] i by simp_all
  have h: "htype (fs ! i) = HTYPE_REQUIRED" "tag (fs ! i) \<noteq> 0" "tag (fs ! Suc i) \<noteq> 0"
    using scalar_struct_fields [OF s i(1)] scalar_struct_fields [OF s i(2)] by (simp_all add: scalar_field_def)
  have g: "iter_field (?it\<lparr>pos := Suc i\<rparr>) = fs ! Suc i"
    using f i by (simp add: iter_field_def field_at_def)
  show ?case
    using Suc.IH i f h g by (simp add: iter_at.simps pb_field_iter_next_def Let_def)
qed

lemma find_member:
  assumes s: "scalar_struct fs off" and i: "i < length fs" and j: "j < length fs"
  shows "pb_field_iter_find (iter_at fs p j) (tag (fs ! i)) = (Ok, iter_at fs p i)"
proof -
  have n: "n_fields fs = length fs" by (rule scalar_struct_fields(1) [OF s i])
  have m: "matches fs (tag (fs ! i)) k \<longleftrightarrow> k = i" if "k < length fs" for k
  proof
    assume "matches fs (tag (fs ! i)) k"
    then have "map tag fs ! k = map tag fs ! i" using that i by (simp add: matches_def field_at_def)
    then show "k = i" using s that i nth_eq_iff_index_eq [of "map tag fs" k i] by (simp add: scalar_struct_def)
  next
    assume "k = i"
    then show "matches fs (tag (fs ! i)) k"
      using scalar_struct_fields(2) [OF s i] i by (auto simp: matches_def field_at_def scalar_field_def)
  qed
  obtain st it where f: "pb_field_iter_find (iter_at fs p j) (tag (fs ! i)) = (st, it)" by fastforce
  have "\<exists>k < n_fields fs. matches fs (tag (fs ! i)) k" using m i n by auto
  then obtain r where r: "st = Ok" "it = iter_at fs p ((j + r) mod n_fields fs)"
    "matches fs (tag (fs ! i)) ((j + r) mod n_fields fs)"
    using iter_find_at [where i = j and fs = fs and p = p and t = "tag (fs ! i)"] f j n by auto
  have "(j + r) mod n_fields fs < length fs" unfolding n using i by (intro mod_less_divisor) linarith
  then have "(j + r) mod n_fields fs = i" using m r(3) n by simp
  then show ?thesis using f r by simp
qed

section \<open>The loop over the members\<close>

definition member_bytes :: "pb_field list \<Rightarrow> (nat \<Rightarrow> nat) \<Rightarrow> mem \<Rightarrow> addr \<Rightarrow> nat \<Rightarrow> u8 list" where
  "member_bytes fs off m p i = load_bytes m (p + of_nat (off i)) (fsize (fs ! i))"

definition wire_member :: "pb_field list \<Rightarrow> (nat \<Rightarrow> nat) \<Rightarrow> mem \<Rightarrow> addr \<Rightarrow> nat \<Rightarrow> wire_field" where
  "wire_member fs off m p i = (tag (fs ! i), scalar_value m (fs ! i) (p + of_nat (off i)))"

abbreviation copy_member :: "pb_field list \<Rightarrow> (nat \<Rightarrow> nat) \<Rightarrow> mem \<Rightarrow> addr \<Rightarrow> addr \<Rightarrow> nat \<Rightarrow> world \<Rightarrow> world" where
  "copy_member fs off m src p i \<equiv> poke (p + of_nat (off i)) (member_bytes fs off m src i)"

definition after :: "pb_field list \<Rightarrow> addr \<Rightarrow> nat \<Rightarrow> nat \<Rightarrow> dec_locals \<Rightarrow> bool" where
  "after fs p j i l \<longleftrightarrow> liter l = iter_at fs p j \<and> fields_seen l = seen_upto i \<and> fixed_count_field l = None"

lemma take_append_parts:
  assumes "take (length (as @ bs)) xs = as @ bs"
  shows "take (length as) xs = as" "take (length bs) (drop (length as) xs) = bs"
proof -
  have "xs = (as @ bs) @ drop (length (as @ bs)) xs" using assms by (metis append_take_drop_id)
  then obtain cs where "xs = as @ bs @ cs" by simp
  then show "take (length as) xs = as" "take (length bs) (drop (length as) xs) = bs" by simp_all
qed

lemma decode_member:
  assumes s: "scalar_struct fs off" and i: "i < length fs" and j: "j < length fs"
    and l: "after fs p j i l"
    and st: "sourced buf_read s"
      "take (length (field_bytes (wire_member fs off m src i))) (unread s) = field_bytes (wire_member fs off m src i)"
      "length (field_bytes (wire_member fs off m src i)) \<le> unat (bytes_left s)" "bytes_left s \<noteq> 0"
  shows "\<exists>s' l'. decode_loop (Suc k) n env rec slot l (s, w)
      = decode_loop k n env rec slot l' (s', copy_member fs off m src p i w)
    \<and> after fs p i (Suc i) l'
    \<and> advanced buf_read (\<lambda>bs. bs) s (length (field_bytes (wire_member fs off m src i))) s'"
proof -
  let ?f = "fs ! i" and ?it = "iter_at fs p i" and ?p = "p + of_nat (off i) :: addr"
  let ?v = "scalar_value m ?f (src + of_nat (off i))"
  let ?tb = "tag_bytes (tag ?f) (value_wt ?v)" and ?pb = "payload_bytes ?v"
  have fb: "field_bytes (wire_member fs off m src i) = ?tb @ ?pb"
    by (simp add: field_bytes_def wire_member_def)
  note F = scalar_struct_fields [OF s i]
  have t: "take (length ?tb) (unread s) = ?tb" "take (length ?pb) (drop (length ?tb) (unread s)) = ?pb"
    using st(2) take_append_parts [of ?tb ?pb "unread s"] unfolding fb by simp_all
  obtain s1 where s1: "pb_decode_tag s = ((Inr (value_wt ?v, tag ?f), s1), False)"
      "advanced buf_read (\<lambda>bs. bs) s (length ?tb) s1"
    using memory.tag_reads [OF F(4,3) st(1) t(1)] st(3) unfolding fb by auto
  obtain g where g: "PB_DECODERS n env rec (ltype ?f) = Some g"
    using F(2) by (auto simp: scalar_field_def)
  have "take (length ?pb) (unread s1) = ?pb" "length ?pb \<le> unat (bytes_left s1)"
    using s1(2) t(2) st(3) unat_bytes_left_advanced [OF s1(2)] unfolding fb by (simp_all add: advanced_def)
  then obtain s2 where s2: "call_dec g ?f ?p (s1, w) = (Inr (), s2, poke ?p (member_bytes fs off m src i) w)"
      "advanced buf_read (\<lambda>bs. bs) s1 (length ?pb) s2"
    using scalar_fills [OF F(2) g, of ?p m "src + of_nat (off i)"] advanced_sourced [OF s1(2)]
    unfolding fills_def member_bytes_def by blast
  let ?l = "l\<lparr>liter := ?it, fields_seen := seen_upto (Suc i)\<rparr>"
  have h: "htype ?f = HTYPE_REQUIRED" "atype ?f = ATYPE_STATIC" using F(2) by (simp_all add: scalar_field_def)
  have "decode_static_field n env rec (value_wt ?v) ?it (s1, w) = (Inr (), s2, copy_member fs off m src p i w)"
    using s2(1) g h F(5,6) [of p] by (simp add: decode_static_field_def Let_def)
  then have "decode_field n env rec (value_wt ?v) ?it (s1, w) = (Inr ?it, s2, copy_member fs off m src p i w)"
    using h F(5) [of p] by (simp add: decode_field_def)
  moreover have "mark_seen ?it (seen_upto i) = seen_upto (Suc i)"
    using s i required_index [OF s i] h F(5) [of p] by (intro mark_seen_upto) (simp_all add: scalar_struct_def)
  ultimately have "decode_one n env rec slot (tag ?f) (value_wt ?v) l (s1, w) = (Inr ?l, s2, copy_member fs off m src p i w)"
    using l h F(5) [of p] find_member [OF s i j]
    by (simp add: decode_one_def decode_known_def after_def Let_def)
  then have "decode_loop (Suc k) n env rec slot l (s, w) = decode_loop k n env rec slot ?l (s2, copy_member fs off m src p i w)"
    using s1(1) st(4) by simp
  moreover have "after fs p i (Suc i) ?l" using l by (simp add: after_def)
  moreover have "advanced buf_read (\<lambda>bs. bs) s (length (?tb @ ?pb)) s2"
    using advanced_trans [OF s1(2) s2(2)] by simp
  ultimately show ?thesis unfolding fb by blast
qed

lemma field_bytes_not_Nil: "field_bytes w \<noteq> []"
  by (simp add: field_bytes_def tag_bytes_def varint_bytes.simps)

lemma decode_members:
  assumes s: "scalar_struct fs off" and h: "h \<le> length fs" and "i \<le> h" "j < length fs" "h - i \<le> k"
    and "after fs p j i l" "sourced buf_read s"
      "unread s = message_bytes (map (wire_member fs off m src) [i..<h]) @ rest"
      "unat (bytes_left s) = length (message_bytes (map (wire_member fs off m src) [i..<h]))"
  shows "\<exists>s' l' j'. decode_loop k n env rec slot l (s, w)
      = (Inr l', s', fold (copy_member fs off m src p) [i..<h] w)
    \<and> j' < length fs \<and> after fs p j' h l' \<and> bytes_left s' = 0 \<and> sourced buf_read s' \<and> unread s' = rest"
  using assms(3-)
proof (induction k arbitrary: i j l s w)
  case 0
  then have "i = h" by simp
  moreover from this have "bytes_left s = 0" using 0 by (simp add: unat_eq_0)
  ultimately show ?case using 0 by auto
next
  case (Suc k)
  show ?case
  proof (cases "i = h")
    case True
    then have "bytes_left s = 0" using Suc.prems by (simp add: unat_eq_0)
    then show ?thesis using Suc.prems True by auto
  next
    case False
    then have ih: "i < h" using Suc.prems by simp
    then have i: "i < length fs" using h by simp
    let ?fb = "field_bytes (wire_member fs off m src i)"
    have up: "[i..<h] = i # [Suc i..<h]" using ih by (simp add: upt_conv_Cons)
    have u: "unread s = ?fb @ message_bytes (map (wire_member fs off m src) [Suc i..<h]) @ rest"
      "unat (bytes_left s) = length ?fb + length (message_bytes (map (wire_member fs off m src) [Suc i..<h]))"
      using Suc.prems(6,7) unfolding up by simp_all
    have "bytes_left s \<noteq> 0" using u(2) field_bytes_not_Nil [of "wire_member fs off m src i"] by auto
    then obtain s1 l1 where s1: "decode_loop (Suc k) n env rec slot l (s, w)
        = decode_loop k n env rec slot l1 (s1, copy_member fs off m src p i w)"
      "after fs p i (Suc i) l1" "advanced buf_read (\<lambda>bs. bs) s (length ?fb) s1"
      using decode_member [OF s i Suc.prems(2,4,5), of m src k n env rec slot w] u by auto
    have "\<exists>s' l' j'. decode_loop k n env rec slot l1 (s1, copy_member fs off m src p i w)
      = (Inr l', s', fold (copy_member fs off m src p) [Suc i..<h] (copy_member fs off m src p i w))
      \<and> j' < length fs \<and> after fs p j' h l' \<and> bytes_left s' = 0 \<and> sourced buf_read s' \<and> unread s' = rest"
      using Suc.prems i ih s1 u unat_bytes_left_advanced [OF s1(3)]
      by (intro Suc.IH [OF _ i _ s1(2)]) (simp_all add: advanced_def)
    then show ?thesis unfolding s1(1) up by simp
  qed
qed

section \<open>The checks at the end\<close>

lemma last_field_at:
  assumes s: "scalar_struct fs off" and "j < length fs"
  shows "last_field (iter_at fs p j) =
    (of_nat (length fs - 1), ftype (fs ! (length fs - 1)), iter_at fs p 0)"
  using assms(2)
proof (induction "length fs - j" arbitrary: j)
  case (Suc k)
  note n = scalar_struct_fields(1,5) [OF s Suc.prems]
  have nx: "pb_field_iter_next (iter_at fs p j) =
      (if Suc j < length fs then (True, iter_at fs p (Suc j)) else (False, iter_at fs p 0))"
    using next_iter_at [of j fs p] Suc.prems n(1) by simp
  show ?case
  proof (cases "Suc j < length fs")
    case True
    then show ?thesis using nx Suc.hyps by (simp add: last_field.simps)
  next
    case False
    then have j: "j = length fs - 1" using Suc.prems by simp
    then show ?thesis using nx False n(2) [of p] required_index [OF s Suc.prems]
      by (simp add: last_field.simps)
  qed
qed simp

lemma required_count_at:
  assumes s: "scalar_struct fs off" and j: "j < length fs"
  shows "required_count (iter_at fs p j) = of_nat (length fs)"
proof -
  let ?k = "length fs - 1"
  have k: "?k < length fs" "Suc ?k = length fs" "0 < length fs" using j by linarith+
  have h: "PB_HTYPE (ftype (fs ! ?k)) = HTYPE_REQUIRED"
    using scalar_struct_fields(2) [OF s k(1)] by (simp add: scalar_field_def)
  have t: "tag (iter_field (iter_at fs p 0)) \<noteq> 0"
    using scalar_struct_fields(3,5) [OF s k(3)] by simp
  have e: "(of_nat ?k + 1 :: u32) = of_nat (length fs)" using k(2) by (metis of_nat_Suc add.commute)
  have "length fs \<le> 64" using s by (simp add: scalar_struct_def)
  moreover from this have "unat (of_nat (length fs) :: u32) = length fs" by (intro unat_of_nat_lt) simp
  ultimately have "\<not> of_nat (length fs) > PB_MAX_REQUIRED_FIELDS"
    by (simp add: PB_MAX_REQUIRED_FIELDS_def word_less_nat_alt)
  then show ?thesis
    using h t e by (simp add: required_count_def last_field_at [OF s j] Let_def)
qed

lemma final_checks_pass:
  assumes "scalar_struct fs off" "j < length fs" "after fs p j (length fs) l"
  shows "final_checks slot l \<sigma> = (Inr (), \<sigma>)"
  using assms all_seen_upto [of "length fs"] required_count_at [OF assms(1,2), of p]
  by (simp add: final_checks_def fixed_count_wrong_def after_def scalar_struct_def Let_def)

section \<open>What the members' stores leave\<close>

lemma copied_members:
  assumes s: "scalar_struct fs off" and "i \<le> length fs" "k < length fs"
  shows "load_bytes (ram (fold (copy_member fs off m src p) [i..<length fs] w)) (p + of_nat (off k)) (fsize (fs ! k))
    = (if i \<le> k then member_bytes fs off m src k else load_bytes (ram w) (p + of_nat (off k)) (fsize (fs ! k)))"
  using assms(2)
proof (induction "length fs - i" arbitrary: i w)
  case (Suc d)
  then have i: "i < length fs" by simp
  have up: "[i..<length fs] = i # [Suc i..<length fs]" using i by (simp add: upt_conv_Cons)
  have len: "length (member_bytes fs off m src i) = fsize (fs ! i)" by (simp add: member_bytes_def)
  show ?case
  proof (cases "i = k")
    case True
    then show ?thesis
      using Suc.hyps(1) [of "Suc i" "copy_member fs off m src p i w"] Suc.hyps(2) i len
        scalar_struct_fields(7) [OF s i] unfolding up by (simp add: load_bytes_store)
  next
    case False
    then show ?thesis
      using Suc.hyps(1) [of "Suc i" "copy_member fs off m src p i w"] Suc.hyps(2) i len
        members_apart [OF s assms(3) i] unfolding up
      by (auto simp: load_bytes_store_apart)
  qed
qed (use assms(3) in auto)

lemma copied_elsewhere:
  assumes "\<And>i. i < length fs \<Longrightarrow> apart q n (p + of_nat (off i)) (fsize (fs ! i))"
  shows "load_bytes (ram (fold (copy_member fs off m src p) [i..<length fs] w)) q n = load_bytes (ram w) q n"
proof -
  have gen: "load_bytes (ram (fold (copy_member fs off m src p) is w)) q n = load_bytes (ram w) q n"
    if "set is \<subseteq> {..<length fs}" for "is"
    using that
  proof (induction "is" arbitrary: w)
    case (Cons a as)
    then show ?case using assms [of a] by (simp add: load_bytes_store_apart member_bytes_def)
  qed simp
  show ?thesis by (rule gen) auto
qed

section \<open>Members that are missing\<close>

lemma not_all_seen:
  assumes "i < n" "n \<le> 64"
  shows "\<not> all_seen (of_nat n) (seen_upto i)"
proof
  assume a: "all_seen (of_nat n) (seen_upto i)"
  note s = index_split [OF assms(2)]
  have full: "(- 1 :: u32) = mask 32" by (simp add: mask_eq_exp_minus_1)
  have inj: "mask a \<noteq> (mask b :: u32)" if "a < b" "b \<le> 32" for a b
  proof -
    have "bit (mask b :: u32) a" "\<not> bit (mask a :: u32) a" using that by (simp_all add: bit_simps)
    then show ?thesis by metis
  qed
  have part: "drop_bit (32 - k) (- 1) = (mask k :: u32)" if "k \<le> 32" for k
    using that by (intro bit_word_eqI) (auto simp: bit_simps)
  have r: "unat (32 - ((of_nat n :: u32) AND 31)) = 32 - n mod 32"
    using s(2) by (simp add: unat_sub word_le_nat_alt)
  have z: "(of_nat n :: u32) AND 31 \<noteq> 0 \<longleftrightarrow> n mod 32 \<noteq> 0" using s(2) by (metis unat_eq_0)
  have words: "\<And>k. k < n div 32 \<Longrightarrow> seen_upto i ! k = mask 32"
    "n mod 32 \<noteq> 0 \<Longrightarrow> seen_upto i ! (n div 32) = mask (n mod 32)"
    using a unfolding all_seen_def Let_def s(1) r z
    by (auto simp: list_all_iff part [of "n mod 32"] full [symmetric])
  consider "n < 32" | "n = 32" | "32 < n" "n < 64" | "n = 64" using assms(2) by linarith
  then show False
  proof cases
    case 1
    then show False using words(2) assms(1) inj [of i n] by (simp add: seen_upto_def)
  next
    case 2
    then show False using words(1) [of 0] assms(1) inj [of i 32] by (simp add: seen_upto_def)
  next
    case 3
    then have "mask (min i 32) = (mask 32 :: u32)" "mask (i - 32) = (mask (n - 32) :: u32)"
      using words(1) [of 0] words(2) by (simp_all add: seen_upto_def le_div_geq le_mod_geq)
    then show False using inj [of "min i 32" 32] inj [of "i - 32" "n - 32"] assms(1) 3
      by (cases "i < 32") simp_all
  next
    case 4
    then have "mask (min i 32) = (mask 32 :: u32)" "mask (i - 32) = (mask 32 :: u32)"
      using words(1) [of 0] words(1) [of 1] by (simp_all add: seen_upto_def)
    then show False using inj [of "min i 32" 32] inj [of "i - 32" 32] assms(1) 4
      by (cases "i < 32") simp_all
  qed
qed

lemma final_checks_miss:
  assumes "scalar_struct fs off" "j < length fs" "after fs p j i l" "i < length fs"
  shows "final_checks slot l \<sigma> = d_error ''missing required field'' \<sigma>"
proof -
  have n: "length fs \<le> 64" using assms(1) by (simp add: scalar_struct_def)
  then have "unat (of_nat (length fs) :: u32) = length fs" by (intro unat_of_nat_lt) simp
  moreover have "0 < length fs" using assms(2) by linarith
  ultimately have "(0 :: u32) < of_nat (length fs)" by (simp only: word_less_nat_alt unsigned_0)
  then show ?thesis
    using assms not_all_seen [OF assms(4) n] required_count_at [OF assms(1,2), of p]
    by (simp add: final_checks_def fixed_count_wrong_def after_def Let_def)
qed

section \<open>Fields that the descriptors do not know\<close>

definition unknown :: "pb_field list \<Rightarrow> wire_field \<Rightarrow> bool" where
  "unknown fs u \<longleftrightarrow> fst u \<notin> tag ` set fs \<and> fst u \<noteq> 0 \<and> unat (fst u) < 2 ^ 29 \<and> small (snd u)"

lemma find_unknown:
  assumes s: "scalar_struct fs off" and j: "j < length fs" and u: "t \<notin> tag ` set fs"
  shows "pb_field_iter_find (iter_at fs p j) t = (Fail, iter_at fs p j)"
    "find_extension_field (iter_at fs p j) = (Fail, iter_at fs p j)"
proof -
  have n: "n_fields fs = length fs" by (rule scalar_struct_fields(1) [OF s j])
  have no: "\<not> (\<exists>k < n_fields fs. matches fs t k)"
    unfolding n using u by (auto simp: matches_def field_at_def)
  show f: "pb_field_iter_find (iter_at fs p j) t = (Fail, iter_at fs p j)"
    using iter_find_at [where i = j and fs = fs and p = p and t = t] no j n by (simp add: case_prod_beta prod_eq_iff)
  have "find_extension_field (iter_at fs p j) = pb_field_iter_find (iter_at fs p j) t"
    by (rule find_extension_none) (use s u j in \<open>auto simp: scalar_struct_def scalar_field_def\<close>)
  then show "find_extension_field (iter_at fs p j) = (Fail, iter_at fs p j)" using f by simp
qed

lemma decode_unknown_member:
  assumes s: "scalar_struct fs off" and j: "j < length fs" and l: "after fs p j i l" and u: "unknown fs u"
    and st: "sourced buf_read s" "take (length (field_bytes u)) (unread s) = field_bytes u"
      "length (field_bytes u) \<le> unat (bytes_left s)" "bytes_left s \<noteq> 0"
  shows "\<exists>s' l'. decode_loop (Suc k) n env rec slot l (s, w) = decode_loop k n env rec slot l' (s', w)
    \<and> after fs p j i l' \<and> advanced buf_read (\<lambda>bs. bs) s (length (field_bytes u)) s'"
proof -
  obtain t v where tv: "u = (t, v)" by fastforce
  let ?tb = "tag_bytes t (value_wt v)" and ?pb = "payload_bytes v"
  have fb: "field_bytes u = ?tb @ ?pb" by (simp add: field_bytes_def tv)
  have tb: "take (length ?tb) (unread s) = ?tb" "take (length ?pb) (drop (length ?tb) (unread s)) = ?pb"
    using st(2) take_append_parts [of ?tb ?pb "unread s"] unfolding fb by simp_all
  have t: "unat t < 2 ^ 29" "t \<noteq> 0" "t \<notin> tag ` set fs" "small v" using u by (simp_all add: unknown_def tv)
  obtain s1 where s1: "pb_decode_tag s = ((Inr (value_wt v, t), s1), False)"
      "advanced buf_read (\<lambda>bs. bs) s (length ?tb) s1"
    using memory.tag_reads [OF t(1,2) st(1) tb(1)] st(3) unfolding fb by auto
  have "take (length ?pb) (unread s1) = ?pb" "length ?pb \<le> unat (bytes_left s1)"
    using s1(2) tb(2) st(3) unat_bytes_left_advanced [OF s1(2)] unfolding fb by (simp_all add: advanced_def)
  then obtain s2 where s2: "pb_skip_field s1 (value_wt v) = (Inr (), s2)"
      "advanced buf_read (\<lambda>bs. bs) s1 (length ?pb) s2"
    using memory.skip_field_parses [OF t(4)] advanced_sourced [OF s1(2)] unfolding parses_def by blast
  have skip: "skip_unknown (value_wt v) l' (s1, w) = (Inr l', s2, w)" for l'
    using s2(1) by (simp add: skip_unknown_def on_stream_def)
  have big: "\<not> t \<ge> (- 1 :: u32)"
    using t(1) by (simp add: word_le_nat_alt unsigned_minus_1_eq_mask mask_eq_exp_minus_1)
  let ?l = "if t \<ge> extension_range_start l then l\<lparr>extension_range_start := - 1\<rparr> else l"
  have it: "liter l = iter_at fs p j" using l by (simp add: after_def)
  then have "l\<lparr>liter := iter_at fs p j\<rparr> = l" by simp
  then have "decode_one n env rec slot t (value_wt v) l (s1, w) = (Inr ?l, s2, w)"
    using find_unknown [OF s j t(3), of p] it big skip by (simp add: decode_one_def decode_unknown_def Let_def)
  then have "decode_loop (Suc k) n env rec slot l (s, w) = decode_loop k n env rec slot ?l (s2, w)"
    using s1(1) st(4) by simp
  moreover have "after fs p j i ?l" using l by (simp add: after_def)
  ultimately show ?thesis
    using advanced_trans [OF s1(2) s2(2)] unfolding fb by (metis length_append)
qed

lemma decode_unknowns:
  assumes s: "scalar_struct fs off" and j: "j < length fs"
    and "after fs p j i l" "list_all (unknown fs) us" "sourced buf_read s"
    and "unread s = message_bytes us @ rest" "length (message_bytes us) \<le> unat (bytes_left s)"
  shows "\<exists>s' l'. decode_loop (length us + k) n env rec slot l (s, w) = decode_loop k n env rec slot l' (s', w)
    \<and> after fs p j i l' \<and> sourced buf_read s' \<and> unread s' = rest
    \<and> unat (bytes_left s') = unat (bytes_left s) - length (message_bytes us)"
  using assms(3-)
proof (induction us arbitrary: l s)
  case (Cons u us)
  have len: "length (field_bytes u) \<le> unat (bytes_left s)" "unread s = field_bytes u @ message_bytes us @ rest"
    using Cons.prems by simp_all
  then have nz: "bytes_left s \<noteq> 0" using field_bytes_not_Nil [of u] by (metis le_zero_eq length_0_conv unsigned_0)
  have t: "take (length (field_bytes u)) (unread s) = field_bytes u" using len(2) by simp
  have u: "unknown fs u" using Cons.prems(2) by simp
  obtain s1 l1 where s1: "decode_loop (Suc (length us + k)) n env rec slot l (s, w)
      = decode_loop (length us + k) n env rec slot l1 (s1, w)"
    "after fs p j i l1" "advanced buf_read (\<lambda>bs. bs) s (length (field_bytes u)) s1"
    using decode_unknown_member [OF s j Cons.prems(1) u Cons.prems(3) t len(1) nz] by blast
  note ub = unat_bytes_left_advanced [OF s1(3)]
  have "sourced buf_read s1" "unread s1 = message_bytes us @ rest"
    using s1(3) len(2) by (simp_all add: advanced_def)
  moreover have "list_all (unknown fs) us" "length (message_bytes us) \<le> unat (bytes_left s1)"
    using Cons.prems(2,5) ub by simp_all
  ultimately have "\<exists>s' l'. decode_loop (length us + k) n env rec slot l1 (s1, w) = decode_loop k n env rec slot l' (s', w)
      \<and> after fs p j i l' \<and> sourced buf_read s' \<and> unread s' = rest
      \<and> unat (bytes_left s') = unat (bytes_left s1) - length (message_bytes us)"
    by (intro Cons.IH [OF s1(2)])
  then show ?case using s1(1) ub by simp
qed auto

section \<open>A message of scalars\<close>

text \<open>
  A message of fields that the descriptors do not know, then the first \<open>h\<close> members of the
  struct at \<open>src\<close> in \<open>m\<close>, decoded into the struct at \<open>p\<close>.
\<close>

lemma decode_some_scalars:
  assumes s: "scalar_struct fs off" and h: "h \<le> length fs" and u: "list_all (unknown fs) us"
    and st: "sourced buf_read s"
      "unread s = message_bytes us @ message_bytes (map (wire_member fs off m src) [0..<h]) @ rest"
      "unat (bytes_left s) = length (message_bytes us) + length (message_bytes (map (wire_member fs off m src) [0..<h]))"
    and k: "length us + h \<le> k"
  shows "\<exists>s'. pb_decode_noinit (Suc k) env fs p (s, w)
      = (if h = length fs then (Inr (), s', fold (copy_member fs off m src p) [0..<h]
           (poke (local_slot env k) (le_bytes 4 (0 :: u32)) w))
         else (Inl Fail, i_set_error s' ''missing required field'', fold (copy_member fs off m src p) [0..<h]
           (poke (local_slot env k) (le_bytes 4 (0 :: u32)) w)))
    \<and> bytes_left s' = 0 \<and> unread s' = rest"
proof -
  have n: "0 < length fs" using s by (simp add: scalar_struct_def)
  let ?l = "\<lparr>liter = snd (pb_field_iter_begin fs p), fields_seen = [0, 0],
               extension_range_start = 0, fixed_count_field = None\<rparr>"
  let ?w = "poke (local_slot env k) (le_bytes 4 (0 :: u32)) w"
  let ?loop = "\<lambda>k'. decode_loop k' k env (pb_decode_noinit k env) (local_slot env k)"
  have a: "after fs p 0 0 ?l" by (simp add: after_def seen_upto_def iter_at.simps)
  obtain k' where k': "k = length us + k'" "h \<le> k'" using k by (metis add_le_cancel_left le_Suc_ex le_trans nat_le_iff_add)
  obtain s1 l1 where s1: "?loop k ?l (s, ?w) = ?loop k' l1 (s1, ?w)" "after fs p 0 0 l1" "sourced buf_read s1"
      "unread s1 = message_bytes (map (wire_member fs off m src) [0..<h]) @ rest"
      "unat (bytes_left s1) = unat (bytes_left s) - length (message_bytes us)"
    using decode_unknowns [OF s n a u st(1,2), of k' k env "pb_decode_noinit k env" "local_slot env k" ?w]
      st(3) k'(1) by auto
  from decode_members [OF s h _ n _ s1(2,3,4), of k' k env "pb_decode_noinit k env" "local_slot env k" ?w] s1(5) st(3) k'(2)
  obtain s' l' j' where d: "?loop k' l1 (s1, ?w) = (Inr l', s', fold (copy_member fs off m src p) [0..<h] ?w)"
    "j' < length fs" "after fs p j' h l'" "bytes_left s' = 0" "unread s' = rest"
    by auto
  have "final_checks (local_slot env k) l' (s', w') = (if h = length fs then (Inr (), s', w')
      else (Inl Fail, i_set_error s' ''missing required field'', w'))" for w'
    using final_checks_pass [OF s d(2)] final_checks_miss [OF s d(2,3)] d(3) h by (auto simp: d_error_eq)
  then show ?thesis
    using d s1(1) by (intro exI [of _ s']) (simp add: noinit_body_def write_mem_def Let_def)
qed

lemma scalars_copied:
  assumes "scalar_struct fs off" "i < length fs"
  shows "load_bytes (ram (fold (copy_member fs off m src p) [0..<length fs] w)) (p + of_nat (off i)) (fsize (fs ! i))
    = load_bytes m (src + of_nat (off i)) (fsize (fs ! i))"
  using copied_members [OF assms(1) le0 assms(2)] by (simp add: member_bytes_def)

end
