(* ===== verification/PbDecodeBugs.thy ===== *)
theory PbDecodeBugs
  imports PbMem PbDecodeLoop
begin

text \<open>
  Inputs on which the message decoder and \<open>pb_release\<close> leave the behaviour that C defines:
  a failed reallocation, a oneof with pointer and non-pointer members, callback fields for
  submessages, and small arrays with a fixed count.
\<close>

declare iter_at.simps [simp del]

lemma field_kinds [simp]:
  "htype (PB_ONEOF_STATIC t fd so sz l p) = HTYPE_ONEOF" "atype (PB_ONEOF_STATIC t fd so sz l p) = ATYPE_STATIC"
  "ltype (PB_ONEOF_STATIC t fd so sz l p) = l" "tag (PB_ONEOF_STATIC t fd so sz l p) = t"
  "htype (PB_ONEOF_POINTER t fd so sz l p) = HTYPE_ONEOF" "atype (PB_ONEOF_POINTER t fd so sz l p) = ATYPE_POINTER"
  "ltype (PB_ONEOF_POINTER t fd so sz l p) = l" "tag (PB_ONEOF_POINTER t fd so sz l p) = t"
  "htype (PB_OPTIONAL_POINTER t fd sz l p) = HTYPE_OPTIONAL" "atype (PB_OPTIONAL_POINTER t fd sz l p) = ATYPE_POINTER"
  "ltype (PB_OPTIONAL_POINTER t fd sz l p) = l" "tag (PB_OPTIONAL_POINTER t fd sz l p) = t"
  "htype (PB_OPTIONAL_CALLBACK t fd sz l p) = HTYPE_OPTIONAL" "atype (PB_OPTIONAL_CALLBACK t fd sz l p) = ATYPE_CALLBACK"
  "ltype (PB_OPTIONAL_CALLBACK t fd sz l p) = l" "tag (PB_OPTIONAL_CALLBACK t fd sz l p) = t"
  "htype (PB_REPEATED_FIXED_COUNT t fd sz n l p) = HTYPE_REPEATED"
  "atype (PB_REPEATED_FIXED_COUNT t fd sz n l p) = ATYPE_STATIC"
  "ltype (PB_REPEATED_FIXED_COUNT t fd sz n l p) = l" "tag (PB_REPEATED_FIXED_COUNT t fd sz n l p) = t"
  by (simp_all add: pb_field_macros)

section \<open>A failed reallocation of a repeated field\<close>

lemma realloc_fails:
  assumes "p = 0 \<or> blocks w p \<noteq> None" "malloc_at env (blocks w) n = 0"
  shows "pb_realloc env p n w = (Inr 0, w)"
  using assms by (auto simp: pb_realloc_def Let_def)

lemma allocate_fails:
  assumes "dsize \<noteq> 0" "asize \<noteq> 0" "dsize < push_bit 32 1" "asize < push_bit 32 1"
    "load64 (ram w) p = 0 \<or> blocks w (load64 (ram w) p) \<noteq> None"
    "malloc_at env (blocks w) (asize * dsize) = 0"
  shows "allocate_field env p dsize asize (s, w) = (Inl Fail, i_set_error s ''realloc failed'', w)"
proof -
  have "\<not> dsize \<ge> push_bit 32 1" "\<not> asize \<ge> push_bit 32 1" using assms(3,4) by (simp_all only: not_le)
  then show ?thesis
    using assms(1,2) realloc_fails [OF assms(5,6)] by (simp add: allocate_field_def d_error_eq)
qed

lemma ucast_lt_32: "(ucast (x :: u32) :: u64) < push_bit 32 1"
  using unsigned_less [of x] by (simp add: word_less_nat_alt unat_ucast_up push_bit_eq_mult)

text \<open>
  When the array of a repeated string, bytes or submessage pointer field cannot be
  enlarged, \<open>decode_pointer_field\<close> returns false with the counter already incremented, while
  the array has not grown; if this was the first item, releasing the field, as \<open>pb_decode\<close>
  then does, goes through the null pointer.
\<close>

theorem realloc_failure_miscounts:
  fixes it :: pb_field_iter and w :: world
  defines "f \<equiv> iter_field it" and "c \<equiv> load32 (ram w) (pSize it)" and "arr \<equiv> load64 (ram w) (pData it)"
  assumes "htype f = HTYPE_REPEATED" "atype f = ATYPE_POINTER" "ltype f \<in> {LTYPE_STRING, LTYPE_BYTES}"
    "data_size f \<noteq> 0" "c \<noteq> - 1" "apart (pSize it) 4 (pData it) 8"
    "arr = 0 \<or> blocks w arr \<noteq> None"
    "malloc_at env (blocks w) (ucast (c + 1) * ucast (data_size f)) = 0"
  shows "\<exists>w'. decode_pointer_field n env rec wt it (s, w) = (Inl Fail, i_set_error s ''realloc failed'', w')
    \<and> load32 (ram w') (pSize it) = c + 1 \<and> load64 (ram w') (pData it) = arr \<and> blocks w' = blocks w
    \<and> (arr = 0 \<and> c = 0 \<longrightarrow> fst (pb_release_single_field (Suc k) env it w') = Undef)"
proof -
  let ?w' = "poke (pSize it) (le_bytes 4 (c + 1)) w"
  have d: "load64 (ram ?w') (pData it) = arr" "load32 (ram ?w') (pSize it) = c + 1"
    using assms(9) by (simp_all add: arr_def load64_store_apart apart_sym)
  obtain g where g: "PB_DECODERS n env rec (ltype f) = Some g" "\<not> packable (ltype f)"
    using assms(6) by auto
  have nz: "ucast (c + 1) \<noteq> (0 :: u64)" "ucast (data_size f) \<noteq> (0 :: u64)"
    using assms(7,8) by (simp_all add: eq_neg_iff_add_eq_0 flip: unat_eq_0 add: unat_ucast_up)
  have a: "allocate_field env (pData it) (ucast (data_size f)) (ucast (c + 1)) (s, ?w') =
      (Inl Fail, i_set_error s ''realloc failed'', ?w')"
    by (rule allocate_fails) (use nz ucast_lt_32 d assms in simp_all)
  have "decode_pointer_field n env rec wt it (s, w) = (Inl Fail, i_set_error s ''realloc failed'', ?w')"
    using g assms(4,5,8) a d
    by (simp add: decode_pointer_field_def f_def [symmetric] PB_SIZE_MAX_def count_up_def write_mem_def
        c_def [symmetric] Let_def)
  moreover have "fst (pb_release_single_field (Suc k) env it ?w') = Undef" if "arr = 0" "c = 0"
  proof -
    have "release_contents k env (pb_release_single_field k env) it ?w' = (Ok, ?w')"
      using assms(6) by (auto simp: release_contents_def f_def Let_def)
    moreover have "fst (release_pointer it ?w') = Undef"
      using assms(4,6) d that by (auto simp: release_pointer_def f_def [symmetric] Let_def)
    ultimately show ?thesis
      using assms(4,5) by (simp add: release_single_body_def f_def [symmetric] Let_def)
  qed
  ultimately show ?thesis using d by auto
qed

text \<open>Descriptors, an environment without callbacks, and memory for the examples.\<close>

definition bare_env ::
    "(addr \<Rightarrow> pb_field list) \<Rightarrow> ((addr \<Rightarrow> u64 option) \<Rightarrow> u64 \<Rightarrow> addr) \<Rightarrow> u8 list dec_env" where
  "bare_env fs mal = \<lparr>dfields_at = fs, malloc_at = mal, local_slot = (\<lambda>n. 0x8000 + 16 * of_nat n),
     dfield_decoder = (\<lambda>func f arg \<sigma>. (Inl Fail, \<sigma>)), dext_decoder = (\<lambda>func e t wt \<sigma>. (Inl Fail, \<sigma>))\<rparr>"

definition zero_world :: world where
  "zero_world = \<lparr>ram = (\<lambda>_. 0), blocks = (\<lambda>_. None)\<rparr>"

definition ex_names :: "pb_field list" where
  "ex_names = [PB_REPEATED_POINTER 1 8 (- 8) 8 LTYPE_STRING 0]"

lemma le_word_zeros: "le_word (replicate n 0) = 0"
  by (induction n) simp_all

lemma load_zero_world [simp]: "load64 (ram zero_world) p = 0" "load32 (ram zero_world) p = 0"
  by (simp_all only: load64_def load32_def load_bytes_def zero_world_def world.select_convs
      map_replicate_const length_upt diff_zero le_word_zeros)

lemma ex_names_iter:
  "iter_field (iter_at ex_names 0x100 0) = PB_REPEATED_POINTER 1 8 (- 8) 8 LTYPE_STRING 0"
  "pData (iter_at ex_names 0x100 0) = 0x108" "pSize (iter_at ex_names 0x100 0) = 0x100"
  by (simp_all add: iter_at.simps pb_field_iter_begin_def ex_names_def field_at_def pb_field_macros iter_field_def Let_def)

theorem realloc_failure_miscounts_witness:
  "\<exists>w'. decode_pointer_field 5 (bare_env (\<lambda>_. []) (\<lambda>_ _. 0)) (\<lambda>_ _ \<sigma>. (Inl Fail, \<sigma>)) PB_WT_STRING
      (iter_at ex_names 0x100 0) (pb_istream_from_buffer [1, 97] 2, zero_world) =
      (Inl Fail, i_set_error (pb_istream_from_buffer [1, 97] 2) ''realloc failed'', w')
    \<and> load32 (ram w') 0x100 = 1
    \<and> fst (pb_release_single_field (Suc 0) (bare_env (\<lambda>_. []) (\<lambda>_ _. 0)) (iter_at ex_names 0x100 0) w') = Undef"
proof -
  have "\<exists>w'. decode_pointer_field 5 (bare_env (\<lambda>_. []) (\<lambda>_ _. 0)) (\<lambda>_ _ \<sigma>. (Inl Fail, \<sigma>)) PB_WT_STRING
      (iter_at ex_names 0x100 0) (pb_istream_from_buffer [1, 97] 2, zero_world) =
      (Inl Fail, i_set_error (pb_istream_from_buffer [1, 97] 2) ''realloc failed'', w')
    \<and> load32 (ram w') (pSize (iter_at ex_names 0x100 0)) = load32 (ram zero_world) (pSize (iter_at ex_names 0x100 0)) + 1
    \<and> load64 (ram w') (pData (iter_at ex_names 0x100 0)) = load64 (ram zero_world) (pData (iter_at ex_names 0x100 0))
    \<and> blocks w' = blocks zero_world
    \<and> (load64 (ram zero_world) (pData (iter_at ex_names 0x100 0)) = 0
       \<and> load32 (ram zero_world) (pSize (iter_at ex_names 0x100 0)) = 0 \<longrightarrow>
       fst (pb_release_single_field (Suc 0) (bare_env (\<lambda>_. []) (\<lambda>_ _. 0)) (iter_at ex_names 0x100 0) w') = Undef)"
    by (rule realloc_failure_miscounts)
       (simp_all add: ex_names_iter pb_field_macros apart_def bare_env_def)
  then show ?thesis by (auto simp: ex_names_iter)
qed

section \<open>Pointer members of a oneof\<close>

lemma find_two:
  assumes "fs = [f, g]" "tag f = t1" "tag g = t2" "t1 \<noteq> 0" "t2 \<noteq> 0" "t1 \<noteq> t2"
    "ltype f \<noteq> LTYPE_EXTENSION" "ltype g \<noteq> LTYPE_EXTENSION"
  shows "pb_field_iter_find (iter_at fs p 1) t1 = (Ok, iter_at fs p 0)"
    "pb_field_iter_find (iter_at fs p 0) t2 = (Ok, iter_at fs p 1)"
    "iter_field (iter_at fs p 0) = f" "iter_field (iter_at fs p 1) = g"
proof -
  have n: "n_fields fs = 2" using assms by (simp add: n_fields_def)
  have at: "field_at fs 0 = f" "field_at fs 1 = g" using assms(1) by (simp_all add: field_at_def)
  have i: "iter_field (iter_at fs p 0) = f" "iter_field (iter_at fs p 1) = g"
    "pos (iter_at fs p 0) = 0" "pos (iter_at fs p 1) = 1"
    "start (iter_at fs p 0) = fs" "start (iter_at fs p 1) = fs"
    using n at by (simp_all)
  then show "iter_field (iter_at fs p 0) = f" "iter_field (iter_at fs p 1) = g" by simp_all
  have "snd (pb_field_iter_next (iter_at fs p 1)) = iter_at fs p 0"
    "snd (pb_field_iter_next (iter_at fs p 0)) = iter_at fs p 1"
    using next_mod [of 1 fs p] next_mod [of 0 fs p] n by (simp_all)
  moreover have "length fs = 2" using assms(1) by simp
  ultimately show "pb_field_iter_find (iter_at fs p 1) t1 = (Ok, iter_at fs p 0)"
    "pb_field_iter_find (iter_at fs p 0) t2 = (Ok, iter_at fs p 1)"
    using assms i by (simp_all add: pb_field_iter_find_def Let_def eval_nat_numeral)
qed

lemma release_plain_static:
  assumes "atype (iter_field it) = ATYPE_STATIC" "ltype (iter_field it) \<notin> {LTYPE_SUBMESSAGE, LTYPE_EXTENSION}"
  shows "pb_release_single_field (Suc n) env it w = (Ok, w)"
  using assms by (simp add: release_single_body_def release_contents_def Let_def)

text \<open>
  When a oneof has a plain member and a pointer member and the message sets first the
  one and then the other, \<open>decode_field\<close> passes the bytes of the plain member to \<open>realloc\<close>
  as if they were a pointer.
\<close>

theorem oneof_data_reallocated:
  fixes fs p
  defines "it \<equiv> iter_at fs p 1"
  assumes "fs = [PB_ONEOF_STATIC t1 fd so 8 l1 0, PB_ONEOF_POINTER t2 (- 1) so sz l2 0]"
    "l1 \<in> {LTYPE_FIXED64, LTYPE_VARINT, LTYPE_UVARINT, LTYPE_SVARINT}" "l2 \<in> {LTYPE_FIXED32, LTYPE_FIXED64}"
    "t1 \<noteq> 0" "t2 \<noteq> 0" "t1 \<noteq> t2" "sz \<noteq> 0" "apart (pSize it) 4 (pData it) 8"
    "load32 (ram w) (pSize it) = t1"
    "load64 (ram w) (pData it) \<noteq> 0" "blocks w (load64 (ram w) (pData it)) = None"
  shows "fst (decode_field (Suc n) env rec wt it (s, w)) = Inl Undef"
proof -
  have l: "l1 \<noteq> LTYPE_EXTENSION" "l2 \<noteq> LTYPE_EXTENSION" "l1 \<noteq> LTYPE_SUBMESSAGE" "l2 \<noteq> LTYPE_SUBMESSAGE"
    "l2 \<noteq> LTYPE_STRING" "l2 \<noteq> LTYPE_BYTES"
    using assms(3,4) by auto
  have f: "pb_field_iter_find (iter_at fs p 1) t1 = (Ok, iter_at fs p 0)"
    "pb_field_iter_find (iter_at fs p 0) t2 = (Ok, iter_at fs p 1)"
    "iter_field (iter_at fs p 0) = PB_ONEOF_STATIC t1 fd so 8 l1 0"
    "iter_field (iter_at fs p 1) = PB_ONEOF_POINTER t2 (- 1) so sz l2 0"
    using find_two [OF assms(2), of t1 t2 p] assms(5-7) l by simp_all
  have r: "pb_release_single_field (Suc n) env (iter_at fs p 0) w = (Ok, w)" for w
    by (rule release_plain_static) (use f l in \<open>simp_all\<close>)
  have u: "pb_release_union_field (Suc n) env it (s, w) = (Inr it, s, w)"
    using f r assms(5,7,10)
    by (simp add: pb_release_union_field_def it_def on_world_def Let_def
        del: pb_release_single_field.simps)
  have fit: "iter_field it = PB_ONEOF_POINTER t2 (- 1) so sz l2 0"
    using f by (simp add: it_def)
  obtain g where g: "PB_DECODERS (Suc n) env rec l2 = Some g" using assms(4) by auto
  let ?w = "poke (pSize it) (le_bytes 4 t2) w"
  have d: "load64 (ram ?w) (pData it) = load64 (ram w) (pData it)"
    using assms(9) by (simp add: load64_store_apart apart_sym)
  have sz: "data_size (iter_field it) = sz" by (simp add: fit pb_field_macros)
  have "ucast sz \<noteq> (0 :: u64)" using assms(8) by (simp flip: unat_eq_0 add: unat_ucast_up)
  moreover have "\<not> ucast sz \<ge> (push_bit 32 1 :: u64)" using ucast_lt_32 [of sz] by (simp only: not_le)
  ultimately have "fst (allocate_field env (pData it) (ucast sz) 1 (s, ?w)) = Inl Undef"
    using assms(11,12) d by (simp add: allocate_field_def pb_realloc_def)
  then have "fst (decode_pointer_field (Suc n) env rec wt it (s, w)) = Inl Undef"
    using g l sz by (cases "allocate_field env (pData it) (ucast sz) 1 (s, ?w)")
      (simp add: decode_pointer_field_def fit write_mem_def Let_def)
  then show ?thesis
    using u by (cases "decode_pointer_field (Suc n) env rec wt it (s, w)")
      (simp add: decode_field_def fit)
qed

definition ex_union :: "pb_field list" where
  "ex_union = [PB_ONEOF_STATIC 1 8 (- 8) 8 LTYPE_FIXED64 0, PB_ONEOF_POINTER 2 (- 1) (- 8) 4 LTYPE_FIXED32 0]"

text \<open>The struct at 256, with member 1 set to 7.\<close>

definition ex_union_world :: world where
  "ex_union_world = poke 0x108 (le_bytes 8 (7 :: u64)) (poke 0x100 (le_bytes 4 (1 :: u32)) zero_world)"

lemma ex_union_iter: "pData (iter_at ex_union 0x100 (Suc 0)) = 0x108" "pSize (iter_at ex_union 0x100 (Suc 0)) = 0x100"
  by (simp_all add: iter_at.simps pb_field_iter_begin_def pb_field_iter_next_def ex_union_def field_at_def
      pb_field_macros iter_field_def PB_SIZE_MAX_def Let_def)

theorem oneof_data_reallocated_witness:
  "fst (decode_field (Suc 3) (bare_env (\<lambda>_. []) (\<lambda>_ _. 0x1000)) (\<lambda>_ _ \<sigma>. (Inl Fail, \<sigma>)) PB_WT_32BIT
     (iter_at ex_union 0x100 1) (pb_istream_from_buffer [1, 2, 3, 4] 4, ex_union_world)) = Inl Undef"
proof -
  have "load32 (ram ex_union_world) 0x100 = 1" "load64 (ram ex_union_world) 0x108 = 7"
    by (simp_all add: ex_union_world_def mem_simps)
  then show ?thesis
    by (intro oneof_data_reallocated [OF ex_union_def])
       (simp_all add: ex_union_iter apart_def, simp_all add: ex_union_world_def zero_world_def)
qed

section \<open>Callback fields for submessages\<close>

lemma run_all_Nil: "run_all f [] = (\<lambda>x. (Ok, x))"
  by (simp add: fun_eq_iff)

lemma release_one_field:
  assumes "fs = [f]" "tag f \<noteq> 0" "p \<noteq> 0"
  shows "pb_release n env fs p w = pb_release_single_field n env (iter_at fs p 0) w"
proof -
  have n: "n_fields fs = 1" using assms by (simp add: n_fields_def)
  have "iter_do (pb_release_single_field n env) (iter_at fs p 0) w =
      run_all (pb_release_single_field n env) (map (iter_at fs p) [0..<1]) w"
    using iter_do_from [of 0 fs "pb_release_single_field n env" p w] n by simp
  then show ?thesis
    using begin_empty_iff [of fs p] n assms(3)
    by (simp add: pb_release_def message_release_def case_prod_beta iter_at.simps(1) run_all_Nil del: run_all.simps(1))
qed

text \<open>
  \<open>pb_release\<close> takes a callback field whose type is a submessage for the submessage
  itself: a pointer field of the submessage is read from the \<open>pb_callback_t\<close>, so that the
  address of the callback function is passed to \<open>free\<close>.
\<close>

theorem release_frees_callback:
  assumes "fs = [PB_OPTIONAL_CALLBACK t fd sz LTYPE_SUBMESSAGE q]" "t \<noteq> 0"
    "dfields_at env q = [PB_OPTIONAL_POINTER t' 0 sz' l' 0]" "t' \<noteq> 0"
    "l' \<noteq> LTYPE_SUBMESSAGE" "l' \<noteq> LTYPE_EXTENSION"
    "p \<noteq> 0" "p + ucast fd \<noteq> 0"
    "callback_fun (ram w) (p + ucast fd) \<noteq> 0" "blocks w (callback_fun (ram w) (p + ucast fd)) = None"
  shows "fst (pb_release (Suc (Suc n)) env fs p w) = Undef"
proof -
  let ?it = "iter_at fs p 0" and ?d = "p + ucast fd"
  let ?it' = "iter_at (dfields_at env q) ?d 0"
  have it: "iter_field ?it = PB_OPTIONAL_CALLBACK t fd sz LTYPE_SUBMESSAGE q" "pData ?it = ?d"
    using assms(1) by (simp_all add: iter_at.simps iter_field_def field_at_def pb_field_iter_begin_def pb_field_macros Let_def)
  have it': "iter_field ?it' = PB_OPTIONAL_POINTER t' 0 sz' l' 0" "pData ?it' = ?d"
    using assms(3) by (simp_all add: iter_at.simps iter_field_def field_at_def pb_field_iter_begin_def pb_field_macros Let_def)
  have "fst (pb_release_single_field (Suc n) env ?it' w) = Undef"
    using assms(5,6,9,10) it'
    by (simp add: release_single_body_def release_contents_def release_pointer_def pb_free_def
        callback_fun_def Let_def)
  moreover have "pb_release (Suc n) env (dfields_at env q) ?d w = pb_release_single_field (Suc n) env ?it' w"
    by (rule release_one_field [OF assms(3)]) (use assms(4,8) in simp_all)
  ultimately have r: "fst (pb_release (Suc n) env (dfields_at env q) ?d w) = Undef" by simp
  have d: "ptr (iter_field ?it) = q" using it by (simp add: pb_field_macros)
  have "fst (release_contents (Suc n) env (pb_release_single_field (Suc n) env) ?it w) = Undef"
    using r it d assms(8)
    by (simp add: release_contents_def submessage_count_def pb_release_def fst_chk_not_Ok Let_def
        del: pb_release_single_field.simps)
  then have "fst (pb_release_single_field (Suc (Suc n)) env ?it w) = Undef"
    using it by (simp add: release_single_body_def fst_chk_not_Ok Let_def del: pb_release_single_field.simps(1))
  then show ?thesis
    using release_one_field [OF assms(1), of p "Suc (Suc n)" env w] assms(2,7) by simp
qed

definition ex_callback_world :: world where
  "ex_callback_world = poke 0x100 (le_bytes 8 (0x4000 :: u64)) zero_world"

theorem release_frees_callback_witness:
  "fst (pb_release 2 (bare_env (\<lambda>_. [PB_OPTIONAL_POINTER 1 0 4 LTYPE_FIXED32 0]) (\<lambda>_ _. 0))
     [PB_OPTIONAL_CALLBACK 1 0 16 LTYPE_SUBMESSAGE 0x9000] 0x100 ex_callback_world) = Undef"
proof -
  have v: "callback_fun (ram ex_callback_world) (0x100 + ucast (0 :: u32)) = 0x4000"
    by (simp add: ex_callback_world_def callback_fun_def)
  have "fst (pb_release (Suc (Suc 0)) (bare_env (\<lambda>_. [PB_OPTIONAL_POINTER 1 0 4 LTYPE_FIXED32 0]) (\<lambda>_ _. 0))
     [PB_OPTIONAL_CALLBACK 1 0 16 LTYPE_SUBMESSAGE 0x9000] 0x100 ex_callback_world) = Undef"
    by (rule release_frees_callback [OF refl]) (simp_all add: v [simplified] bare_env_def,
        simp_all add: ex_callback_world_def zero_world_def)
  then show ?thesis by (simp only: numeral_2_eq_2)
qed

section \<open>Fixed counts of small items\<close>

text \<open>
  An array with a fixed count has no counter, but initialising it stores a four-byte
  zero counter at its first item all the same: an array of fewer than four bytes is overrun.
\<close>

theorem fixed_count_overrun:
  assumes "fs = [PB_REPEATED_FIXED_COUNT t fd sz n l q]" "t \<noteq> 0" "l \<noteq> LTYPE_EXTENSION"
  shows "pb_message_set_to_defaults (Suc k) env fs p m =
      (Ok, store_bytes m (p + ucast fd) [0, 0, 0, 0])"
proof -
  have n: "n_fields fs = 1" using assms by (simp add: n_fields_def)
  let ?it = "iter_at fs p 0"
  have it: "iter_field ?it = PB_REPEATED_FIXED_COUNT t fd sz n l q" "pSize ?it = p + ucast fd"
    using assms(1) by (simp_all add: iter_at.simps iter_field_def field_at_def pb_field_iter_begin_def pb_field_macros Let_def)
  have "le_bytes 4 (0 :: u32) = [0, 0, 0, 0]" by (simp add: eval_nat_numeral)
  then have "pb_field_set_to_default (Suc k) env ?it m = (Ok, store_bytes m (p + ucast fd) [0, 0, 0, 0])"
    using it assms(3) by (simp add: field_default_body_def reset_presence_def Let_def)
  then show ?thesis
    using iter_do_from [of 0 fs "pb_field_set_to_default (Suc k) env" p m] n begin_empty_iff [of fs p]
    by (simp add: pb_message_set_to_defaults_def message_defaults_def case_prod_beta iter_at.simps(1)
        run_all_Nil del: run_all.simps(1) pb_field_set_to_default.simps)
qed

text \<open>Two one-byte items at 256: the bytes at 258 and 259 are cleared too.\<close>

theorem fixed_count_overrun_witness:
  "map (snd (pb_message_set_to_defaults (Suc 0) (bare_env (\<lambda>_. []) (\<lambda>_ _. 0))
     [PB_REPEATED_FIXED_COUNT 1 0 1 2 LTYPE_UVARINT 0] 256 (\<lambda>_. 9))) [256, 257, 258, 259, 260] =
   [0, 0, 0, 0, 9]"
  using fixed_count_overrun [OF refl, of 1 LTYPE_UVARINT 0 "bare_env (\<lambda>_. []) (\<lambda>_ _. 0)" 0 1 2 0 256 "\<lambda>_. 9"]
  by (simp add: store_bytes_def)

end
