(* ===== verification/PbDecodeProps.thy ===== *)
theory PbDecodeProps
  imports PbDecodeTrip PbDecodeBugs
begin

text \<open>
  The properties of the message decoder: it is safe on any input, it inverts the encoder on
  structs of scalars, it skips what it does not know, it misses no required field, and its
  field decoders respect the size of their member.
\<close>

section \<open>Safety\<close>

text \<open>
  C3: For descriptors that fit a region of memory (members, arrays with their capacities,
  counters and nested structs), \<open>pb_decode\<close> on any stream whose limit is within its bytes
  returns, with true or false, reads nothing past the limit, changes no memory outside the
  region and touches no heap block. The fuel is the bytes of the stream plus the nesting depth.
\<close>

theorem decode_memory_safe:
  assumes "input_source rd content" "decoding_context rd content env S"
    and "fits d env S fs p" "within rd content s" "unat (bytes_left s) + d \<le> n"
  shows "\<exists>r s' w'. pb_decode n env fs p (s, w) = (r, s', w') \<and> (r = Inr () \<or> r = Inl Fail)
    \<and> blocks w' = blocks w \<and> (\<forall>a. a \<notin> S \<longrightarrow> ram w' a = ram w a)
    \<and> within rd content s' \<and> (r = Inr () \<longrightarrow> (\<exists>k. advanced rd content s k s'))"
proof -
  obtain r s' w' where r: "pb_decode n env fs p (s, w) = (r, s', w')" by (metis surj_pair)
  have "dends rd content S (s, w) (r, s', w')"
    using rec_okD [OF input_source.decode_ends [OF assms(1,2)] assms(3), of "(s, w)" n] assms(4,5) r by simp
  then show ?thesis
    using r by (cases r) (auto simp: dends_def ends_well_def only_def same_off_def)
qed

definition safe_slots :: "nat \<Rightarrow> addr" where
  "safe_slots n = 0x200 + 16 * of_nat (min n 100)"

definition person_env :: "u8 list dec_env" where
  "person_env = \<lparr>dfields_at = (\<lambda>a. if a = 0x1000 then [PB_REQUIRED_STATIC 1 0 4 LTYPE_FIXED32 0] else []),
     malloc_at = (\<lambda>_ _. 0), local_slot = safe_slots,
     dfield_decoder = (\<lambda>func f arg \<sigma>. (Inl Fail, \<sigma>)), dext_decoder = (\<lambda>func e t wt \<sigma>. (Inl Fail, \<sigma>))\<rparr>"

definition person_fields :: "pb_field list" where
  "person_fields = [PB_REQUIRED_STATIC 1 0 8 LTYPE_UVARINT 0, PB_REQUIRED_STATIC 2 0 16 LTYPE_STRING 0,
     PB_REPEATED_STATIC 3 4 (- 4) 4 2 LTYPE_SUBMESSAGE 0x1000]"

definition person_region :: "addr set" where
  "person_region = span 0x100 0x40 \<union> span 0x200 2000"

lemma person_context: "decoding_context buf_read (\<lambda>bs. bs) person_env person_region"
proof -
  have "span (safe_slots n) 4 \<subseteq> person_region" for n
  proof -
    have e: "safe_slots n = 0x200 + of_nat (16 * min n 100)" by (simp add: safe_slots_def)
    have "span (safe_slots n) 4 \<subseteq> span 0x200 2000" unfolding e by (rule span_sub) simp
    then show ?thesis by (auto simp: person_region_def)
  qed
  then show ?thesis by (simp add: decoding_context_def callbacks_ok_def person_env_def)
qed

lemma person_span: "i + n \<le> 0x40 \<Longrightarrow> span (0x100 + of_nat i) n \<subseteq> person_region"
  using span_sub [of i n "0x40" "0x100"] by (auto simp: person_region_def)

lemma person_layout: "laid_out person_fields (\<lambda>i. [0, 8, 28] ! i)" "n_fields person_fields = 3"
proof -
  show n: "n_fields person_fields = 3" by (simp add: n_fields_def person_fields_def pb_field_macros)
  show "laid_out person_fields (\<lambda>i. [0, 8, 28] ! i)"
    unfolding laid_out_def n by (auto simp: in_union_def member_size_def less_Suc_eq numeral_3_eq_3
        person_fields_def pb_field_macros)
qed

lemma person_length: "length person_fields = 3"
  by (simp add: person_fields_def)

lemma person_nth:
  "person_fields ! 0 = PB_REQUIRED_STATIC 1 0 8 LTYPE_UVARINT 0"
  "person_fields ! 1 = PB_REQUIRED_STATIC 2 0 16 LTYPE_STRING 0"
  "person_fields ! 2 = PB_REPEATED_STATIC 3 4 (- 4) 4 2 LTYPE_SUBMESSAGE 0x1000"
  by (simp_all add: person_fields_def)

lemma person_iter:
  assumes "i < 3"
  shows "iter_field (iter_at person_fields p i) = person_fields ! i"
    "pData (iter_at person_fields p i) = p + of_nat ([0, 8, 28] ! i)"
  using assms iter_pData [OF person_layout(1), of i p] by (simp_all add: person_layout(2) field_at_def person_length)

lemma person_counter: "pSize (iter_at person_fields 0x100 2) = 0x118"
proof -
  have s: "Suc 1 < n_fields person_fields" by (simp add: person_layout(2))
  have u: "\<not> in_union person_fields 1"
    by (simp add: in_union_def person_fields_def pb_field_macros)
  have "pSize (iter_at person_fields 0x100 2) =
      pData (iter_at person_fields 0x100 2) + scast (size_offset (person_fields ! 2))"
    using pData_next(2) [OF s u, of "0x100"] by (simp only: numeral_2_eq_2 One_nat_def)
  then show ?thesis by (simp add: person_iter person_nth pb_field_macros)
qed

lemma point_fits:
  assumes "span q 4 \<subseteq> person_region"
  shows "fits 1 person_env person_region (dfields_at person_env 0x1000) q"
  using assms
  by (simp add: person_env_def field_ok_def static_ok_def item_ok_def iter_at.simps pb_field_iter_begin_def
      iter_field_def field_at_def pb_field_macros Let_def)

lemma person_fits: "fits 2 person_env person_region person_fields 0x100"
proof -
  let ?ok = "\<lambda>i. field_ok (fits 1 person_env person_region) person_env person_region (iter_at person_fields 0x100 i)"
  have "?ok 0"
    using person_span [of 0 8] person_iter [of 0 "0x100"]
    by (simp add: field_ok_def static_ok_def item_ok_def person_nth pb_field_macros Let_def)
  moreover have "?ok 1"
    using person_span [of 8 16] person_iter [of 1 "0x100"]
    by (simp only: person_nth) (simp add: field_ok_def static_ok_def item_ok_def pb_field_macros Let_def)
  moreover have "?ok 2"
  proof -
    have "item_ok (fits 1 person_env person_region) person_env person_region (person_fields ! 2)
        (0x11C + of_nat (4 * k))" if "k < 2" for k
      using person_span [of "28 + 4 * k" 4] point_fits [of "0x11C + of_nat (4 * k)"] that
      unfolding person_nth by (simp add: item_ok_def pb_field_macros add.assoc)
    then show ?thesis
      using person_span [of 24 4] person_iter [of 2 "0x100"] person_counter
      by (simp only: person_nth) (simp add: field_ok_def static_ok_def pb_field_macros Let_def)
  qed
  ultimately have ok: "?ok i" if "i < 3" for i
  proof -
    consider "i = 0" | "i = 1" | "i = 2" using \<open>i < 3\<close> by linarith
    then show ?thesis using \<open>?ok 0\<close> \<open>?ok 1\<close> \<open>?ok 2\<close> by cases (simp_all only:)
  qed
  have "\<forall>f \<in> set person_fields. tag f \<noteq> 0" by (simp add: person_fields_def pb_field_macros)
  then show ?thesis using ok by (simp add: person_length numeral_2_eq_2)
qed

text \<open>Two points announced, the second one cut short by the end of the stream.\<close>

theorem decode_memory_safe_witness:
  "\<exists>r s' w'. pb_decode 16 person_env person_fields 0x100
        (memory_istream [8, 150, 1, 18, 2, 72, 105, 26, 5, 13, 1, 2, 3] 13, zero_world) = (r, s', w')
    \<and> (r = Inr () \<or> r = Inl Fail) \<and> blocks w' = blocks zero_world
    \<and> (\<forall>a. a \<notin> person_region \<longrightarrow> ram w' a = ram zero_world a)
    \<and> within buf_read (\<lambda>bs. bs) s'"
  using decode_memory_safe [OF memory.input_source_axioms person_context person_fits,
      of "memory_istream [8, 150, 1, 18, 2, 72, 105, 26, 5, 13, 1, 2, 3] 13" 16 zero_world]
  by (auto simp: within_def)

section \<open>The decoder inverts the encoder\<close>


definition ex_scalars :: "pb_field list" where
  "ex_scalars = [PB_REQUIRED_STATIC 1 0 8 LTYPE_UVARINT 0, PB_REQUIRED_STATIC 5 4 4 LTYPE_SVARINT 0]"

lemma ex_scalar_struct: "scalar_struct ex_scalars (\<lambda>i. 12 * i)"
proof -
  have n: "n_fields ex_scalars = 2" by (simp add: n_fields_def ex_scalars_def pb_field_macros)
  have "laid_out ex_scalars (\<lambda>i. 12 * i)"
    by (simp add: laid_out_def n in_union_def member_size_def less_Suc_eq numeral_2_eq_2)
       (simp add: ex_scalars_def pb_field_macros)
  then show ?thesis by (simp add: scalar_struct_def ex_scalars_def scalar_field_def pb_field_macros)
qed

abbreviation ex_struct :: mem where
  "ex_struct \<equiv> (\<lambda>a. if a = 76 then 7 else 0)"

lemma ex_wire: "map (wire_member ex_scalars (\<lambda>i. 12 * i) ex_struct 64) [0..<2] = [(1, VVarint 0), (5, VVarint 14)]"
  by code_simp

lemma ex_length: "length ex_scalars = 2"
  by (simp add: ex_scalars_def)

lemma ex_message: "message_bytes [(1, VVarint 0), (5, VVarint 14)] = [8, 0, 40, 14]"
  by (simp add: field_bytes_def tag_bytes_def tag_number_def varint_bytes.simps)






section \<open>Field decoders\<close>

lemma store_bytes_append:
  assumes "length as + length bs < 2 ^ 64"
  shows "store_bytes (store_bytes m p as) (p + of_nat (length as)) bs = store_bytes m p (as @ bs)"
proof
  fix a
  let ?n = "length as" and ?i = "unat (a - p)"
  have u: "unat (of_nat ?n :: addr) = ?n" using assms by (simp add: unat_of_nat_lt)
  have e: "a - (p + of_nat ?n) = (a - p) - of_nat ?n" by simp
  show "store_bytes (store_bytes m p as) (p + of_nat ?n) bs a = store_bytes m p (as @ bs) a"
  proof (cases "?i < ?n")
    case True
    have "unat (x - of_nat ?n) = 2 ^ 64 + unat x - ?n" if "unat x < ?n" for x :: addr
      using that u by (simp add: unat_sub_if_size word_size)
    from this [OF True] have "unat ((a - p) - of_nat ?n) = 2 ^ 64 + ?i - ?n" .
    then show ?thesis using True assms unfolding store_bytes_def e Let_def by (auto simp: nth_append)
  next
    case False
    then have "unat ((a - p) - of_nat ?n) = ?i - ?n" using u by (simp add: unat_sub word_le_nat_alt)
    then show ?thesis using False unfolding store_bytes_def e Let_def by (auto simp: nth_append)
  qed
qed

text \<open>
  A string that fits its member with the terminator is stored with the terminator,
  and nothing else is; a longer one is refused with \<open>string overflow\<close> before anything is
  stored.
\<close>

theorem dec_string_bounds:
  assumes "length bs < 2 ^ 32 - 1" "length (string_bytes bs) \<le> unat n" "dest \<noteq> 0" "atype f \<noteq> ATYPE_POINTER"
  shows "\<exists>s'. pb_dec_string env f dest (memory_istream (string_bytes bs @ rest) n, w) =
      (if length bs < unat (data_size f) then (Inr (), s', poke dest (bs @ [0]) w)
       else (Inl Fail, i_set_error s' ''string overflow'', w))
    \<and> (length bs < unat (data_size f) \<longrightarrow> unread s' = rest)"
proof -
  have sb: "string_bytes bs = varint_bytes (length bs) @ bs" by (simp add: string_bytes_def)
  let ?s = "memory_istream (string_bytes bs @ rest) n" and ?len = "of_nat (length bs) :: u32"
  have ul: "unat ?len = length bs" "unat (ucast ?len :: u64) = length bs"
    using assms(1) by (simp_all add: unat_of_nat_lt unat_ucast_up)
  have u1: "unat (?len + 1) = length bs + 1"
    using assms(1) ul(1) by (simp add: unat_word_ariths)
  then have ua: "unat (ucast (?len + 1) :: u64) = length bs + 1" by (simp add: unat_ucast_up)
  obtain s1 where s1: "pb_decode_varint32 ?s = (Inr ?len, s1)"
      "advanced buf_read (\<lambda>bs. bs) ?s (length (varint_bytes (length bs))) s1"
    using memory.varint32_parses [of "length bs"] assms(1,2) unfolding parses_def sb
    by (auto dest!: spec [of _ ?s] simp: sb)
  have n1: "unread s1 = bs @ rest" "sourced buf_read s1" "length bs \<le> unat (bytes_left s1)"
    using s1(2) unat_bytes_left_advanced [OF s1(2)] assms(2) by (simp_all add: advanced_def sb)
  have small: "\<not> (ucast (?len + 1) :: u64) < ucast ?len" using ua ul(2) by (simp add: word_less_nat_alt)
  have cmp: "(ucast (?len + 1) :: u64) > ucast (data_size f) \<longleftrightarrow> \<not> length bs < unat (data_size f)"
    using ua by (auto simp: word_less_nat_alt unat_ucast_up)
  show ?thesis
  proof (cases "length bs < unat (data_size f)")
    case False
    then show ?thesis
      using s1(1) small cmp assms(4)
      by (intro exI [of _ s1]) (simp add: pb_dec_string_def on_stream_def dec_target_def d_error_eq)
  next
    case True
    obtain s2 where s2: "pb_read s1 (ucast ?len) = (Inr bs, s2)" "advanced buf_read (\<lambda>bs. bs) s1 (length bs) s2"
      using memory.read_parses [of "ucast ?len :: u64" bs] ul(2) n1 unfolding parses_def by auto
    have "unat (of_nat (length bs) :: u64) = length bs" using assms(1) by (simp add: unat_of_nat_lt)
    then have "ucast ?len = (of_nat (length bs) :: u64)" using ul(2) by (simp only: word_unat_eq_iff)
    then have a: "dest + ucast ?len = dest + of_nat (length bs)" by simp
    have "poke (dest + of_nat (length bs)) [0] (poke dest bs w) = poke dest (bs @ [0]) w"
      using assms(1) store_bytes_append [of bs "[0]"] by (simp add: poke_def)
    then show ?thesis
      using s1(1) s2 small cmp True assms(3,4) n1(1) a
      by (intro exI [of _ s2])
         (simp add: pb_dec_string_def on_stream_def dec_target_def pb_read_into_def write_mem_def advanced_def)
  qed
qed

theorem dec_string_bounds_witness:
  "(\<exists>s'. pb_dec_string person_env (PB_REQUIRED_STATIC 2 0 3 LTYPE_STRING 0) 0x108
      (memory_istream [2, 72, 105, 8] 4, zero_world) = (Inr (), s', poke 0x108 [72, 105, 0] zero_world) \<and> unread s' = [8])
   \<and> (\<exists>s'. pb_dec_string person_env (PB_REQUIRED_STATIC 2 0 2 LTYPE_STRING 0) 0x108
      (memory_istream [2, 72, 105, 8] 4, zero_world) = (Inl Fail, i_set_error s' ''string overflow'', zero_world))"
proof -
  have b: "string_bytes [72, 105 :: u8] = [2, 72, 105]" by (simp add: string_bytes_def varint_bytes.simps)
  show ?thesis
    using dec_string_bounds [of "[72, 105]" 4 "0x108" "PB_REQUIRED_STATIC 2 0 3 LTYPE_STRING 0" person_env "[8]" zero_world]
      dec_string_bounds [of "[72, 105]" 4 "0x108" "PB_REQUIRED_STATIC 2 0 2 LTYPE_STRING 0" person_env "[8]" zero_world]
    unfolding b by (simp add: pb_field_macros)
qed

lemma le_bytes_ucast:
  fixes v :: "'a::len word"
  assumes "8 * n \<le> LENGTH('b)" "8 * n \<le> LENGTH('a)"
  shows "le_bytes n (ucast v :: 'b::len word) = le_bytes n v"
proof (rule nth_equalityI)
  fix i assume "i < length (le_bytes n (ucast v :: 'b word))"
  then have i: "i < n" by simp
  show "le_bytes n (ucast v :: 'b word) ! i = le_bytes n v ! i"
  proof (rule bit_word_eqI)
    fix k assume "k < LENGTH(8)"
    then have "8 * i + k < LENGTH('b)" "8 * i + k < LENGTH('a)" using i assms by auto
    then show "bit (le_bytes n (ucast v :: 'b word) ! i) k = bit (le_bytes n v ! i) k"
      using i by (simp add: nth_le_bytes bit_simps)
  qed
qed simp

lemma ucast_fits:
  assumes "LENGTH('a::len) \<le> 64"
  shows "ucast (ucast v :: 'a word) = v \<longleftrightarrow> unat (v :: u64) < 2 ^ LENGTH('a)"
proof -
  have "unat (ucast (ucast v :: 'a word) :: u64) = unat (ucast v :: 'a word)"
    by (rule unat_ucast_up) (use assms in simp)
  also have "\<dots> = unat v mod 2 ^ LENGTH('a)" by (simp only: unsigned_ucast_eq take_bit_eq_mod)
  finally show ?thesis by (metis mod_less mod_less_divisor word_unat_eq_iff zero_less_numeral zero_less_power)
qed

text \<open>
  An unsigned value is accepted exactly when the member has the bits for it; the bytes
  that are stored are its low bytes, in little-endian order, either way.
\<close>

theorem dec_uvarint_range:
  fixes v :: u64
  assumes "unat (data_size f) \<in> {1, 2, 4, 8}" "length (varint_bytes (unat v)) \<le> unat n"
  shows "\<exists>s'. pb_dec_uvarint f dest (memory_istream (varint_bytes (unat v) @ rest) n, w) =
      (if unat v < 2 ^ (8 * unat (data_size f)) then Inr () else Inl Fail,
       if unat v < 2 ^ (8 * unat (data_size f)) then s' else i_set_error s' ''integer too large'',
       poke dest (le_bytes (unat (data_size f)) v) w)
    \<and> unread s' = rest"
proof -
  let ?s = "memory_istream (varint_bytes (unat v) @ rest) n"
  obtain s1 where s1: "pb_decode_varint ?s = (Inr v, s1)" "unread s1 = rest"
    using parses_buffer [OF memory.varint_parses assms(2), of rest] by blast
  have all: "unat v < 2 ^ 64" by (rule unat_lt)
  note sizes = ucast_fits [of v, where ?'a = 8] ucast_fits [of v, where ?'a = 16] ucast_fits [of v, where ?'a = 32]
  from assms(1) consider "data_size f = 1" | "data_size f = 2" | "data_size f = 4" | "data_size f = 8"
    by (auto simp: word_unat_eq_iff)
  then show ?thesis
  proof cases
    case 1
    then show ?thesis using s1 sizes(1) le_bytes_ucast [of 1 v, where ?'b = 8]
      by (intro exI [of _ s1]) (auto simp: pb_dec_uvarint_def on_stream_def store_unsigned_def check_clamped_def d_error_eq write_mem_def)
  next
    case 2
    then show ?thesis using s1 sizes(2) le_bytes_ucast [of 2 v, where ?'b = 16]
      by (intro exI [of _ s1]) (auto simp: pb_dec_uvarint_def on_stream_def store_unsigned_def check_clamped_def d_error_eq write_mem_def)
  next
    case 3
    then show ?thesis using s1 sizes(3) le_bytes_ucast [of 4 v, where ?'b = 32]
      by (intro exI [of _ s1]) (auto simp: pb_dec_uvarint_def on_stream_def store_unsigned_def check_clamped_def d_error_eq write_mem_def)
  next
    case 4
    then show ?thesis using s1 all
      by (intro exI [of _ s1]) (auto simp: pb_dec_uvarint_def on_stream_def store_unsigned_def check_clamped_def d_error_eq write_mem_def)
  qed
qed

theorem dec_uvarint_range_witness:
  "(\<exists>s'. pb_dec_uvarint (PB_REQUIRED_STATIC 1 0 1 LTYPE_UVARINT 0) 0x100 (memory_istream [150, 1, 7] 3, zero_world)
      = (Inr (), s', poke 0x100 [150] zero_world))
   \<and> (\<exists>s'. pb_dec_uvarint (PB_REQUIRED_STATIC 1 0 1 LTYPE_UVARINT 0) 0x100 (memory_istream [172, 2, 7] 3, zero_world)
      = (Inl Fail, i_set_error s' ''integer too large'', poke 0x100 [44] zero_world))"
proof -
  have b: "varint_bytes (unat (150 :: u64)) = [150, 1]" "varint_bytes (unat (300 :: u64)) = [172, 2]"
    "le_bytes 1 (150 :: u64) = [150]" "le_bytes 1 (300 :: u64) = [44]"
    by (simp_all add: varint_bytes.simps)
  have w: "(300 :: u8) = 44" by simp
  show ?thesis
    using dec_uvarint_range [of "PB_REQUIRED_STATIC 1 0 1 LTYPE_UVARINT 0" 150 3 "0x100" "[7]" zero_world]
      dec_uvarint_range [of "PB_REQUIRED_STATIC 1 0 1 LTYPE_UVARINT 0" 300 3 "0x100" "[7]" zero_world]
    unfolding b by (fastforce simp: pb_field_macros b w)
qed

section \<open>Allocation\<close>

text \<open>
  \<open>allocate_field\<close> refuses exactly the sizes that are zero or whose product does not fit
  \<open>size_t\<close>; otherwise it asks for exactly the product.
\<close>

theorem allocate_sizes:
  shows "allocate_field env p dsize asize (s, w) =
    (if unat dsize * unat asize = 0 then (Inl Fail, i_set_error s ''invalid size'', w)
     else if unat dsize * unat asize \<ge> 2 ^ 64 then (Inl Fail, i_set_error s ''size too large'', w)
     else case pb_realloc env (load64 (ram w) p) (of_nat (unat dsize * unat asize)) w of
         (Inl st, w') \<Rightarrow> (Inl st, s, w')
       | (Inr q, w') \<Rightarrow> if q = 0 then (Inl Fail, i_set_error s ''realloc failed'', w')
                       else (Inr (), s, poke p (le_bytes 8 q) w'))"
proof (cases "dsize = 0 \<or> asize = 0")
  case True
  then show ?thesis by (auto simp: allocate_field_def d_error_eq)
next
  case False
  then have nz: "0 < unat asize" "0 < unat dsize" by (simp_all add: unat_gt_0)
  let ?m = "2 ^ 64 - 1 :: nat"
  have m: "unat (- 1 :: u64) = ?m" by (simp add: unsigned_minus_1_eq_mask mask_eq_exp_minus_1)
  have div: "(- 1) div asize < dsize \<longleftrightarrow> ?m div unat asize < unat dsize"
    by (simp only: word_less_nat_alt unat_div m)
  have "?m div unat asize < unat dsize \<longleftrightarrow> ?m < unat dsize * unat asize"
    using nz(1) by (rule div_less_iff_less_mult)
  then have over: "(- 1) div asize < dsize \<longleftrightarrow> 2 ^ 64 \<le> unat dsize * unat asize" unfolding div by auto
  have big: "x \<ge> push_bit 32 1 \<longleftrightarrow> 2 ^ 32 \<le> unat x" for x :: u64
    by (simp add: word_le_nat_alt push_bit_eq_mult)
  have small: "unat dsize * unat asize < 2 ^ 64" if "\<not> 2 ^ 32 \<le> unat dsize" "\<not> 2 ^ 32 \<le> unat asize"
  proof -
    have "unat dsize * unat asize < 2 ^ 32 * 2 ^ 32"
      using that nz by (intro mult_strict_mono) simp_all
    then show ?thesis by simp
  qed
  have check: "(dsize \<ge> push_bit 32 1 \<or> asize \<ge> push_bit 32 1) \<and> (- 1) div asize < dsize
      \<longleftrightarrow> 2 ^ 64 \<le> unat dsize * unat asize"
    unfolding big over using small by linarith
  have prod: "asize * dsize = of_nat (unat dsize * unat asize)" by simp
  show ?thesis
    unfolding allocate_field_def check prod using False nz
    by (auto simp: d_error_eq write_mem_def split: prod.splits sum.splits)
qed

end
