(* ===== verification/PbRelease.thy ===== *)
theory PbRelease
  imports PbMem PbDecode
begin

text \<open>
  \<open>pb_release\<close> on structs whose members are all pointers to strings, bytes or scalars: it
  frees every block once and leaves null pointers, so that releasing again is harmless.
\<close>

declare iter_at.simps [simp del]

definition pointer_field :: "pb_field \<Rightarrow> bool" where
  "pointer_field f \<longleftrightarrow> atype f = ATYPE_POINTER \<and> htype f \<in> {HTYPE_REQUIRED, HTYPE_OPTIONAL}
     \<and> ltype f \<notin> {LTYPE_SUBMESSAGE, LTYPE_EXTENSION} \<and> tag f \<noteq> 0"

definition pointer_struct :: "pb_field list \<Rightarrow> (nat \<Rightarrow> nat) \<Rightarrow> bool" where
  "pointer_struct fs off \<longleftrightarrow> laid_out fs off \<and> list_all pointer_field fs
     \<and> (\<forall>i < length fs. off i + 8 < 2 ^ 64)"

lemma pointer_fields:
  assumes "pointer_struct fs off" "i < length fs"
  shows "n_fields fs = length fs" "pointer_field (fs ! i)" "iter_field (iter_at fs p i) = fs ! i"
    "pData (iter_at fs p i) = p + of_nat (off i)" "\<not> in_union fs i" "member_size (fs ! i) = 8"
proof -
  show n: "n_fields fs = length fs"
    using assms(1) by (intro n_fields_all) (simp add: pointer_struct_def list_all_iff pointer_field_def)
  show f: "pointer_field (fs ! i)" using assms by (simp add: pointer_struct_def list_all_length)
  show "iter_field (iter_at fs p i) = fs ! i" using assms(2) n by (simp add: field_at_def)
  show "pData (iter_at fs p i) = p + of_nat (off i)"
    using iter_pData assms n by (simp add: pointer_struct_def)
  show "\<not> in_union fs i" "member_size (fs ! i) = 8"
    using f by (auto simp: pointer_field_def in_union_def member_size_def)
qed

lemma pointer_offsets:
  assumes s: "pointer_struct fs off" and "i < j" "j < length fs"
  shows "off i + 8 \<le> off j"
  using assms(2,3)
proof (induction j)
  case (Suc j)
  then have j: "j < length fs" by simp
  note F = pointer_fields [OF s j]
  have "if in_union fs j then off (Suc j) = off j else off j + member_size (fs ! j) \<le> off (Suc j)"
    using s Suc.prems(2) F(1) by (auto simp: pointer_struct_def laid_out_def)
  then have "off j + 8 \<le> off (Suc j)" using F by simp
  then show ?case using Suc by (cases "i = j") (auto simp: less_Suc_eq)
qed simp

lemma pointers_apart:
  assumes s: "pointer_struct fs off" and "i < length fs" "j < length fs" "i \<noteq> j"
  shows "apart (p + of_nat (off i)) 8 (p + of_nat (off j)) 8"
proof -
  have lt: "apart (p + of_nat (off a)) 8 (p + of_nat (off b)) 8" if "a < b" "b < length fs" for a b
    using pointer_offsets [OF s that] s that(2) by (intro apart_offsets) (auto simp: pointer_struct_def)
  show ?thesis
    using assms(2-4) lt [of i j] lt [of j i] apart_sym by (cases "i < j") auto
qed

lemma release_pointer_field:
  assumes "pointer_field (iter_field it)" "load64 (ram w) (pData it) = 0 \<or> blocks w (load64 (ram w) (pData it)) \<noteq> None"
  shows "pb_release_single_field (Suc n) env it w =
    (Ok, poke (pData it) (le_bytes 8 (0 :: u64))
       (if load64 (ram w) (pData it) = 0 then w else w\<lparr>blocks := (blocks w)(load64 (ram w) (pData it) := None)\<rparr>))"
  using assms
  by (auto simp: release_single_body_def release_contents_def release_pointer_def pointer_field_def pb_free_def Let_def)

definition pointer_at :: "(nat \<Rightarrow> nat) \<Rightarrow> addr \<Rightarrow> world \<Rightarrow> nat \<Rightarrow> addr" where
  "pointer_at off p w i = load64 (ram w) (p + of_nat (off i))"

text \<open>The members are null or point to live blocks, and no two to the same.\<close>

definition owns :: "pb_field list \<Rightarrow> (nat \<Rightarrow> nat) \<Rightarrow> addr \<Rightarrow> world \<Rightarrow> bool" where
  "owns fs off p w \<longleftrightarrow> (\<forall>i < length fs. pointer_at off p w i \<noteq> 0 \<longrightarrow>
     blocks w (pointer_at off p w i) \<noteq> None
     \<and> (\<forall>j < length fs. j \<noteq> i \<longrightarrow> pointer_at off p w j \<noteq> pointer_at off p w i))"

definition released :: "(nat \<Rightarrow> nat) \<Rightarrow> addr \<Rightarrow> world \<Rightarrow> nat \<Rightarrow> world \<Rightarrow> bool" where
  "released off p w h w' \<longleftrightarrow>
     blocks w' = (\<lambda>a. if a \<noteq> 0 \<and> (\<exists>i < h. a = pointer_at off p w i) then None else blocks w a)"

lemma release_from:
  assumes s: "pointer_struct fs off" and o: "owns fs off p w" and "h \<le> length fs"
    and "released off p w h v" "\<forall>i < length fs. pointer_at off p v i = (if i < h then 0 else pointer_at off p w i)"
  shows "\<exists>w'. run_all (pb_release_single_field (Suc n) env) (map (iter_at fs p) [h..<length fs]) v = (Ok, w')
    \<and> released off p w (length fs) w' \<and> (\<forall>i < length fs. pointer_at off p w' i = 0)"
  using assms(3-)
proof (induction "length fs - h" arbitrary: h v)
  case 0
  then show ?case by simp
next
  case (Suc k)
  then have h: "h < length fs" by simp
  note F = pointer_fields [OF s h]
  let ?q = "pointer_at off p w h" and ?a = "p + of_nat (off h) :: addr"
  have q: "pointer_at off p v h = ?q" using Suc.prems(3) h by simp
  have live: "?q = 0 \<or> blocks v ?q \<noteq> None"
    using o h Suc.prems(1,2) unfolding owns_def released_def by (metis less_irrefl order_less_le_trans)
  let ?v = "poke ?a (le_bytes 8 (0 :: u64)) (if ?q = 0 then v else v\<lparr>blocks := (blocks v)(?q := None)\<rparr>)"
  have step: "pb_release_single_field (Suc n) env (iter_at fs p h) v = (Ok, ?v)"
    using release_pointer_field [of "iter_at fs p h" v n env] F q live by (simp add: pointer_at_def)
  have r: "released off p w (Suc h) ?v"
    using Suc.prems(2) by (auto simp: released_def fun_eq_iff less_Suc_eq)
  have z: "\<forall>i < length fs. pointer_at off p ?v i = (if i < Suc h then 0 else pointer_at off p w i)"
  proof (intro allI impI)
    fix i assume i: "i < length fs"
    show "pointer_at off p ?v i = (if i < Suc h then 0 else pointer_at off p w i)"
    proof (cases "i = h")
      case True
      then show ?thesis by (simp add: pointer_at_def)
    next
      case False
      then have "pointer_at off p ?v i = pointer_at off p v i"
        using pointers_apart [OF s i h, of p] by (simp add: pointer_at_def load64_store_apart)
      then show ?thesis using Suc.prems(3) i False by (simp add: less_Suc_eq)
    qed
  qed
  have up: "[h..<length fs] = h # [Suc h..<length fs]" using h by (simp add: upt_conv_Cons)
  have "\<exists>w'. run_all (pb_release_single_field (Suc n) env) (map (iter_at fs p) [Suc h..<length fs]) ?v = (Ok, w')
    \<and> released off p w (length fs) w' \<and> (\<forall>i < length fs. pointer_at off p w' i = 0)"
    using Suc.hyps(2) h by (intro Suc.hyps(1) [OF _ _ r z]) simp_all
  then show ?case unfolding up using step by simp
qed

lemma release_struct:
  assumes s: "pointer_struct fs off" and o: "owns fs off p w" and p: "p \<noteq> 0"
  shows "\<exists>w'. pb_release (Suc n) env fs p w = (Ok, w')
    \<and> released off p w (length fs) w' \<and> (\<forall>i < length fs. pointer_at off p w' i = 0)"
proof (cases "length fs = 0")
  case True
  then show ?thesis using p
    by (simp add: pb_release_def message_release_def pb_field_iter_begin_def iter_field_def field_at_def
        released_def fun_eq_iff PB_LAST_FIELD_def)
next
  case False
  then have n: "n_fields fs = length fs" "0 < n_fields fs" using pointer_fields(1) [OF s, of 0] by simp_all
  have "released off p w 0 w" by (simp add: released_def)
  then show ?thesis
    using release_from [OF s o le0, of w n env] p n iter_do_from [of 0 fs "pb_release_single_field (Suc n) env" p w]
      begin_empty_iff [of fs p]
    by (simp add: pb_release_def message_release_def case_prod_beta iter_at.simps)
qed


definition quiet_env :: "u8 list dec_env" where
  "quiet_env = \<lparr>dfields_at = (\<lambda>_. []), malloc_at = (\<lambda>_ _. 0), local_slot = (\<lambda>_. 0x800),
     dfield_decoder = (\<lambda>func f arg \<sigma>. (Inl Fail, \<sigma>)), dext_decoder = (\<lambda>func e t wt \<sigma>. (Inl Fail, \<sigma>))\<rparr>"

definition ex_texts :: "pb_field list" where
  "ex_texts = [PB_REQUIRED_POINTER 1 0 8 LTYPE_STRING 0, PB_OPTIONAL_POINTER 2 0 8 LTYPE_BYTES 0]"

lemma ex_texts_struct: "pointer_struct ex_texts (\<lambda>i. 8 * i)"
proof -
  have n: "n_fields ex_texts = 2" by (simp add: n_fields_def ex_texts_def pb_field_macros)
  have "laid_out ex_texts (\<lambda>i. 8 * i)"
    by (simp add: laid_out_def n in_union_def member_size_def less_Suc_eq numeral_2_eq_2)
       (simp add: ex_texts_def pb_field_macros)
  then show ?thesis by (auto simp: pointer_struct_def ex_texts_def pointer_field_def pb_field_macros)
qed

text \<open>A string in a block at 0x400, no bytes, and another block.\<close>

definition ex_heap :: world where
  "ex_heap = \<lparr>ram = (\<lambda>a. if a = 0x101 then 4 else 0), blocks = [0x400 \<mapsto> 3, 0x500 \<mapsto> 7]\<rparr>"

lemma ex_heap_pointers: "pointer_at (\<lambda>i. 8 * i) 0x100 ex_heap 0 = 0x400" "pointer_at (\<lambda>i. 8 * i) 0x100 ex_heap 1 = 0"
  by (simp_all add: pointer_at_def load64_def load_bytes_def ex_heap_def upt_rec)


end
