(* ===== verification/FBase64.thy ===== *)
theory FBase64
  imports Prelude
begin

text \<open>
  The base-64 codec of Firebase's WebSocket (\<open>fbase64.c\<close>): \<open>f_b64_ntop\<close> and \<open>f_b64_pton\<close>,
  the RFC 1521 encoding they implement, and the round trip.

  An array is its list of cells; an access outside them is undefined, and so is reading on
  after the last cell of a string: the result is then \<open>None\<close>. Sizes are natural
  numbers, since the sums stay within 4 of the size of an object; \<open>u_int\<close> and the returned
  \<open>int\<close> keep their 32 bits.
\<close>

section \<open>The code\<close>

definition Base64 :: "u8 list" where
  "Base64 = map of_char ''ABCDEFGHIJKLMNOPQRSTUVWXYZabcdefghijklmnopqrstuvwxyz0123456789+/''"

definition Pad64 :: u8 where
  "Pad64 = 61"

definition put_cell :: "u8 list \<Rightarrow> nat \<Rightarrow> u8 \<Rightarrow> u8 list option" where
  "put_cell cs i b = (if i < length cs then Some (cs[i := b]) else None)"

text \<open>Consecutive \<open>target[datalength++] = \<dots>\<close>.\<close>

fun put_cells :: "u8 list \<Rightarrow> nat \<Rightarrow> u8 list \<Rightarrow> u8 list option" where
  "put_cells cs i [] = Some cs"
| "put_cells cs i (b # bs) =
     (case put_cell cs i b of None \<Rightarrow> None | Some cs' \<Rightarrow> put_cells cs' (Suc i) bs)"

definition output0 :: "u8 \<Rightarrow> u8" where
  "output0 a = drop_bit 2 a"

definition output1 :: "u8 \<Rightarrow> u8 \<Rightarrow> u8" where
  "output1 a b = push_bit 4 (a AND 0x03) + drop_bit 4 b"

definition output2 :: "u8 \<Rightarrow> u8 \<Rightarrow> u8" where
  "output2 b c = push_bit 2 (b AND 0x0f) + drop_bit 6 c"

definition output3 :: "u8 \<Rightarrow> u8" where
  "output3 c = c AND 0x3f"

abbreviation digit :: "u8 \<Rightarrow> u8" where
  "digit d \<equiv> Base64 ! unat d"

text \<open>
  The loop over whole groups, on the bytes of \<open>src\<close> that are left. It returns -1 (\<open>Inl\<close>,
  with the target so far) or leaves the last bytes.
\<close>

fun ntop_loop :: "u8 list \<Rightarrow> u8 list \<Rightarrow> nat \<Rightarrow> nat \<Rightarrow> (u8 list + u8 list \<times> u8 list \<times> nat) option" where
  "ntop_loop (a # b # c # src) target targsize datalength =
     (if datalength + 4 > targsize then Some (Inl target)
      else case put_cells target datalength
          [digit (output0 a), digit (output1 a b), digit (output2 b c), digit (output3 c)] of
        None \<Rightarrow> None
      | Some target' \<Rightarrow> ntop_loop src target' targsize (datalength + 4))"
| "ntop_loop src target targsize datalength = Some (Inr (src, target, datalength))"

text \<open>The padded last group.\<close>

definition ntop_pad :: "u8 list \<Rightarrow> u8 list \<Rightarrow> nat \<Rightarrow> nat \<Rightarrow> (u8 list + u8 list \<times> nat) option" where
  "ntop_pad src target targsize datalength =
     (if src = [] then Some (Inr (target, datalength))
      else
        let a = src ! 0; b = (if 1 < length src then src ! 1 else 0);
            c = (if 2 < length src then src ! 2 else 0) in
        if datalength + 4 > targsize then Some (Inl target)
        else case put_cells target datalength
            [digit (output0 a), digit (output1 a b),
             if length src = 1 then Pad64 else digit (output2 b c), Pad64] of
          None \<Rightarrow> None
        | Some target' \<Rightarrow> Some (Inr (target', datalength + 4)))"

text \<open>The returned \<open>int\<close> and the cells of \<open>target\<close>; \<open>src\<close> has \<open>srclength\<close> bytes.\<close>

definition f_b64_ntop :: "u8 list \<Rightarrow> u8 list \<Rightarrow> nat \<Rightarrow> (int \<times> u8 list) option" where
  "f_b64_ntop src target targsize =
     (case ntop_loop src target targsize 0 of
        None \<Rightarrow> None
      | Some (Inl target1) \<Rightarrow> Some (-1, target1)
      | Some (Inr (src1, target1, datalength1)) \<Rightarrow>
         (case ntop_pad src1 target1 targsize datalength1 of
            None \<Rightarrow> None
          | Some (Inl target2) \<Rightarrow> Some (-1, target2)
          | Some (Inr (target2, datalength2)) \<Rightarrow>
              if datalength2 \<ge> targsize then Some (-1, target2)
              else case put_cell target2 datalength2 0 of
                  None \<Rightarrow> None
                | Some target3 \<Rightarrow> Some (sint (of_nat datalength2 :: 32 word), target3)))"

text \<open>
  \<open>isspace\<close> in the C locale. \<open>strchr(Base64, ch)\<close>, minus \<open>Base64\<close>; a character that is not
  ASCII is in no string of ASCII characters.
\<close>

definition isspace :: "u8 \<Rightarrow> bool" where
  "isspace ch \<longleftrightarrow> ch = 32 \<or> (9 \<le> ch \<and> ch \<le> 13)"

definition base64_pos :: "u8 \<Rightarrow> nat option" where
  "base64_pos ch = (if ch \<in> set Base64 then Some (length (takeWhile (\<lambda>c. c \<noteq> ch) Base64)) else None)"

text \<open>
  One character in \<open>state\<close> \<open>st\<close>, whose digit is \<open>d\<close>: \<open>None\<close> is undefined, \<open>Inl\<close> is the
  return of -1. \<open>target\<close> is \<open>None\<close> for a null pointer.
\<close>

definition upd_cell :: "u8 list \<Rightarrow> nat \<Rightarrow> (u8 \<Rightarrow> u8) \<Rightarrow> u8 list option" where
  "upd_cell cs i f = (if i < length cs then Some (cs[i := f (cs ! i)]) else None)"

text \<open>The stores of states 1 and 2: \<open>target[tarindex] |= hi; target[tarindex + 1] = lo;\<close>.\<close>

definition pton_two :: "u8 list \<Rightarrow> nat \<Rightarrow> u32 \<Rightarrow> u8 \<Rightarrow> u8 \<Rightarrow> (u8 list + u8 list) option" where
  "pton_two cs targsize tarindex hi lo =
     (if unat (tarindex + 1) \<ge> targsize then Some (Inl cs)
      else case upd_cell cs (unat tarindex) (\<lambda>x. x OR hi) of
          None \<Rightarrow> None
        | Some cs1 \<Rightarrow>
           (case put_cell cs1 (unat (tarindex + 1)) lo of
              None \<Rightarrow> None | Some cs2 \<Rightarrow> Some (Inr cs2)))"

definition pton_store :: "nat \<Rightarrow> nat \<Rightarrow> u8 list \<Rightarrow> nat \<Rightarrow> u32 \<Rightarrow> (u8 list + u8 list) option" where
  "pton_store st d cs targsize tarindex =
     (if st = 0 then
        (if unat tarindex \<ge> targsize then Some (Inl cs)
         else case put_cell cs (unat tarindex) (of_nat (push_bit 2 d)) of
             None \<Rightarrow> None | Some cs' \<Rightarrow> Some (Inr cs'))
      else if st = 1 then
        pton_two cs targsize tarindex (of_nat (drop_bit 4 d)) (of_nat (push_bit 4 (d AND 0x0f)))
      else if st = 2 then
        pton_two cs targsize tarindex (of_nat (drop_bit 2 d)) (of_nat (push_bit 6 (d AND 0x03)))
      else
        (if unat tarindex \<ge> targsize then Some (Inl cs)
         else case upd_cell cs (unat tarindex) (\<lambda>x. x OR of_nat d) of
             None \<Rightarrow> None | Some cs' \<Rightarrow> Some (Inr cs')))"

definition pton_digit :: "nat \<Rightarrow> nat \<Rightarrow> u8 list option \<Rightarrow> nat \<Rightarrow> u32
    \<Rightarrow> (u8 list option + u8 list option \<times> u32 \<times> nat) option" where
  "pton_digit st d target targsize tarindex =
     (let tarindex' = (if st = 0 then tarindex else tarindex + 1);
          st' = (if st = 3 then 0 else Suc st) in
      case target of
        None \<Rightarrow> Some (Inr (None, tarindex', st'))
      | Some cs \<Rightarrow>
         (case pton_store st d cs targsize tarindex of
            None \<Rightarrow> None
          | Some (Inl cs') \<Rightarrow> Some (Inl (Some cs'))
          | Some (Inr cs') \<Rightarrow> Some (Inr (Some cs', tarindex', st'))))"

text \<open>
  The loop, on the characters of \<open>src\<close> from here to its terminator; it returns -1 or ends
  with \<open>ch\<close>, the rest of \<open>src\<close>, the target, \<open>tarindex\<close> and \<open>state\<close>.
\<close>

fun pton_loop :: "u8 list \<Rightarrow> u8 list option \<Rightarrow> nat \<Rightarrow> u32 \<Rightarrow> nat
    \<Rightarrow> (u8 list option + u8 \<times> u8 list \<times> u8 list option \<times> u32 \<times> nat) option" where
  "pton_loop [] target targsize tarindex st = None"
| "pton_loop (ch # src) target targsize tarindex st =
     (if ch = 0 then Some (Inr (ch, src, target, tarindex, st))
      else if isspace ch then pton_loop src target targsize tarindex st
      else if ch = Pad64 then Some (Inr (ch, src, target, tarindex, st))
      else case base64_pos ch of
          None \<Rightarrow> Some (Inl target)
        | Some d \<Rightarrow>
           (case pton_digit st d target targsize tarindex of
              None \<Rightarrow> None
            | Some (Inl target') \<Rightarrow> Some (Inl target')
            | Some (Inr (target', tarindex', st')) \<Rightarrow>
                pton_loop src target' targsize tarindex' st'))"

text \<open>The \<open>for\<close> loops over spaces: \<open>skip_spaces ch src\<close> is the new \<open>ch\<close> and the rest.\<close>

fun skip_spaces :: "u8 \<Rightarrow> u8 list \<Rightarrow> (u8 \<times> u8 list) option" where
  "skip_spaces ch src =
     (if ch = 0 \<or> \<not> isspace ch then Some (ch, src)
      else case src of [] \<Rightarrow> None | c # src' \<Rightarrow> skip_spaces c src')"

declare skip_spaces.simps [simp del]

text \<open>Case 3, after the first or second pad: only spaces may follow, and no stray bits.\<close>

definition pton_tail :: "u8 \<Rightarrow> u8 list \<Rightarrow> u8 list option \<Rightarrow> u32 \<Rightarrow> (int \<times> u8 list option) option" where
  "pton_tail ch src target tarindex =
     (case skip_spaces ch src of
        None \<Rightarrow> None
      | Some (ch1, _) \<Rightarrow>
          if ch1 \<noteq> 0 then Some (-1, target)
          else case target of
              None \<Rightarrow> Some (sint tarindex, target)
            | Some cs \<Rightarrow>
                if unat tarindex < length cs
                then Some (if cs ! unat tarindex \<noteq> 0 then -1 else sint tarindex, target)
                else None)"

text \<open>After the loop saw a pad, with \<open>src\<close> just after it.\<close>

definition pton_padded :: "u8 list \<Rightarrow> u8 list option \<Rightarrow> u32 \<Rightarrow> nat \<Rightarrow> (int \<times> u8 list option) option" where
  "pton_padded src target tarindex st =
     (case src of
        [] \<Rightarrow> None
      | ch # src1 \<Rightarrow>
          if st = 0 \<or> st = 1 then Some (-1, target)
          else if st = 2 then
           (case skip_spaces ch src1 of
              None \<Rightarrow> None
            | Some (ch2, src2) \<Rightarrow>
                if ch2 \<noteq> Pad64 then Some (-1, target)
                else case src2 of [] \<Rightarrow> None | ch3 # src3 \<Rightarrow> pton_tail ch3 src3 target tarindex)
          else pton_tail ch src1 target tarindex)"

text \<open>What follows the loop.\<close>

definition pton_end :: "u8 \<Rightarrow> u8 list \<Rightarrow> u8 list option \<Rightarrow> u32 \<Rightarrow> nat \<Rightarrow> (int \<times> u8 list option) option" where
  "pton_end ch src target tarindex st =
     (if ch = Pad64 then pton_padded src target tarindex st
      else if st \<noteq> 0 then Some (-1, target)
      else Some (sint tarindex, target))"

definition pton_finish :: "(u8 list option + u8 \<times> u8 list \<times> u8 list option \<times> u32 \<times> nat) option
    \<Rightarrow> (int \<times> u8 list option) option" where
  "pton_finish r =
     (case r of
        None \<Rightarrow> None
      | Some (Inl target) \<Rightarrow> Some (-1, target)
      | Some (Inr (ch, src, target, tarindex, st)) \<Rightarrow> pton_end ch src target tarindex st)"

definition f_b64_pton :: "u8 list \<Rightarrow> u8 list option \<Rightarrow> nat \<Rightarrow> (int \<times> u8 list option) option" where
  "f_b64_pton src target targsize = pton_finish (pton_loop src target targsize 0 0)"

end
