(* ===== verification/FBase64Spec.thy ===== *)
theory FBase64Spec
  imports FBase64
begin

text \<open>
  The base-64 encoding of RFC 1521, on numbers, and the lemmas behind the properties of
  \<open>f_b64_ntop\<close> and \<open>f_b64_pton\<close>: what the encoder writes, that the decoder inverts it, that
  neither leaves the arrays it is given.
\<close>

section \<open>The encoding\<close>

text \<open>A 24-bit group is four digits in base 64.\<close>

definition quantum :: "nat \<Rightarrow> u8 list" where
  "quantum v = [Base64 ! (v div 64 ^ 3), Base64 ! (v div 64 ^ 2 mod 64),
                Base64 ! (v div 64 mod 64), Base64 ! (v mod 64)]"

definition group24 :: "u8 \<Rightarrow> u8 \<Rightarrow> u8 \<Rightarrow> nat" where
  "group24 a b c = unat a * 2 ^ 16 + unat b * 2 ^ 8 + unat c"

fun base64 :: "u8 list \<Rightarrow> u8 list" where
  "base64 (a # b # c # bs) = quantum (group24 a b c) @ base64 bs"
| "base64 [a, b] = take 3 (quantum (group24 a b 0)) @ [Pad64]"
| "base64 [a] = take 2 (quantum (group24 a 0 0)) @ [Pad64, Pad64]"
| "base64 [] = []"

lemma length_base64: "length (base64 bs) = 4 * ((length bs + 2) div 3)"
proof (induction bs rule: base64.induct)
  case (1 a b c bs)
  have "(5 + length bs) div 3 = Suc ((2 + length bs) div 3)" by presburger
  then show ?case using 1 by (simp add: quantum_def)
qed (simp_all add: quantum_def)

section \<open>The digits the encoder computes\<close>

lemma unat_u8_lt: "unat (b :: u8) < 256"
  using unsigned_less [of b] by simp

lemma mask2: "(a :: u8) AND 0x03 = take_bit 2 a"
  by (simp add: take_bit_eq_mask mask_eq_exp_minus_1)

lemma mask4: "(a :: u8) AND 0x0f = take_bit 4 a"
  by (simp add: take_bit_eq_mask mask_eq_exp_minus_1)

lemma mask6: "(a :: u8) AND 0x3f = take_bit 6 a"
  by (simp add: take_bit_eq_mask mask_eq_exp_minus_1)

lemma unat_take_bit: "unat (take_bit n (a :: 'a::len word)) = unat a mod 2 ^ n"
  by (subst unsigned_take_bit_eq) (simp add: take_bit_eq_mod)

lemma unat_push_add:
  assumes "unat x * 2 ^ n + unat y < 256"
  shows "unat (push_bit n x + y :: u8) = unat x * 2 ^ n + unat y"
proof -
  have "push_bit n x + y = of_nat (unat x * 2 ^ n + unat y)"
    by (simp add: push_bit_eq_mult)
  then show ?thesis using assms by (simp only:) (rule unat_of_nat_lt, simp)
qed

text \<open>The digits of \<open>a * 2 ^ 16 + b * 2 ^ 8 + c\<close>.\<close>

lemma group_digits:
  assumes "b < 256" "c < (256 :: nat)"
  shows "(a * 65536 + b * 256 + c) div 4096 = a * 16 + b div 16"
    "(a * 65536 + b * 256 + c) div 64 = a * 1024 + b * 4 + c div 64"
    "(a * 65536 + b * 256 + c) mod 64 = c mod 64"
proof -
  have "(a * 65536 + b * 256 + c) div 4096 = ((b * 256 + c) + (a * 16) * 4096) div 4096" by simp
  also have "\<dots> = a * 16 + (b * 256 + c) div 256 div 16"
    by (subst div_mult_self1) (simp_all flip: div_mult2_eq)
  finally show "(a * 65536 + b * 256 + c) div 4096 = a * 16 + b div 16" using assms by simp
  have "(a * 65536 + b * 256 + c) div 64 = (c + (a * 1024 + b * 4) * 64) div 64" by simp
  also have "\<dots> = a * 1024 + b * 4 + c div 64" by (subst div_mult_self1) simp_all
  finally show "(a * 65536 + b * 256 + c) div 64 = a * 1024 + b * 4 + c div 64" .
  have "a * 65536 + b * 256 + c = c + (a * 1024 + b * 4) * 64" by simp
  then have "(a * 65536 + b * 256 + c) mod 64 = (c + (a * 1024 + b * 4) * 64) mod 64" by (rule arg_cong)
  also have "\<dots> = c mod 64" by (rule mod_mult_self1)
  finally show "(a * 65536 + b * 256 + c) mod 64 = c mod 64" .
qed

lemma mod64_16: "k < 16 \<Longrightarrow> (a * 16 + k) mod 64 = a mod 4 * 16 + (k :: nat)"
proof -
  assume k: "k < 16"
  have "a * 16 + k = (a mod 4 * 16 + k) + a div 4 * 64"
    using div_mult_mod_eq [of a 4] by linarith
  then have "(a * 16 + k) mod 64 = (a mod 4 * 16 + k) mod 64" by (simp only: mod_mult_self1)
  moreover have "a mod 4 < 4" by simp
  then have "a mod 4 * 16 + k < 64" using k by linarith
  ultimately show ?thesis by simp
qed

lemma mod64_4: "k < 4 \<Longrightarrow> (a * 1024 + b * 4 + k) mod 64 = b mod 16 * 4 + (k :: nat)"
proof -
  assume k: "k < 4"
  have "b * 4 = b mod 16 * 4 + b div 16 * 64" using div_mult_mod_eq [of b 16] by linarith
  then have "a * 1024 + b * 4 + k = (b mod 16 * 4 + k) + (b div 16 + a * 16) * 64" by simp
  then have "(a * 1024 + b * 4 + k) mod 64 = (b mod 16 * 4 + k) mod 64" by (simp only: mod_mult_self1)
  moreover have "b mod 16 < 16" by simp
  then have "b mod 16 * 4 + k < 64" using k by linarith
  ultimately show ?thesis by simp
qed

lemma output_digits:
  "unat (output0 a) = group24 a b c div 64 ^ 3"
  "unat (output1 a b) = group24 a b c div 64 ^ 2 mod 64"
  "unat (output2 b c) = group24 a b c div 64 mod 64"
  "unat (output3 c) = group24 a b c mod 64"
proof -
  note lt = unat_u8_lt [of a] unat_u8_lt [of b] unat_u8_lt [of c]
  have o1: "unat (output1 a b) = unat a mod 4 * 16 + unat b div 16"
    unfolding output1_def mask2
    by (subst unat_push_add) (use lt in \<open>simp_all add: unat_take_bit unat_drop_bit\<close>)
  have o2: "unat (output2 b c) = unat b mod 16 * 4 + unat c div 64"
    unfolding output2_def mask4
    by (subst unat_push_add) (use lt in \<open>simp_all add: unat_take_bit unat_drop_bit\<close>)
  show "unat (output0 a) = group24 a b c div 64 ^ 3"
    using lt by (simp add: output0_def unat_drop_bit group24_def)
  show "unat (output1 a b) = group24 a b c div 64 ^ 2 mod 64"
    unfolding o1 group24_def using lt by (simp add: group_digits mod64_16)
  show "unat (output2 b c) = group24 a b c div 64 mod 64"
    unfolding o2 group24_def using lt by (simp add: group_digits mod64_4 less_mult_imp_div_less)
  show "unat (output3 c) = group24 a b c mod 64"
    unfolding output3_def mask6 group24_def using lt by (simp add: unat_take_bit group_digits)
qed

lemma quantum_output:
  "[digit (output0 a), digit (output1 a b), digit (output2 b c), digit (output3 c)] =
   quantum (group24 a b c)"
  by (simp add: quantum_def output_digits(1,2,3) [of a b c] output_digits(2) [of a b c]
      output_digits(3) [of b c a] output_digits(4) [of c a b])

lemma base64_leftover:
  "base64 [a] = [digit (output0 a), digit (output1 a 0), Pad64, Pad64]"
  "base64 [a, b] = [digit (output0 a), digit (output1 a b), digit (output2 b 0), Pad64]"
  by (simp_all flip: quantum_output)

section \<open>Writing into cells\<close>

lemma put_cells_eq:
  "i + length bs \<le> length cs \<Longrightarrow>
   put_cells cs i bs = Some (take i cs @ bs @ drop (i + length bs) cs)"
proof (induction bs arbitrary: cs i)
  case (Cons b bs)
  then show ?case
    by (simp add: put_cell_def take_Suc_conv_app_nth)
qed simp

text \<open>An array written from its start up to a point: \<open>bs\<close>, then the old cells.\<close>

definition overlay :: "u8 list \<Rightarrow> u8 list \<Rightarrow> u8 list" where
  "overlay bs cs = bs @ drop (length bs) cs"

lemma put_cells_overlay:
  assumes "length bs + length ds \<le> length cs"
  shows "put_cells (overlay bs cs) (length bs) ds = Some (overlay (bs @ ds) cs)"
  using assms by (simp add: put_cells_eq overlay_def add.commute)

lemma put_cell_overlay:
  "length bs < length cs \<Longrightarrow> put_cell (overlay bs cs) (length bs) d = Some (overlay (bs @ [d]) cs)"
  using put_cells_overlay [of bs "[d]" cs] by (simp split: option.splits)

lemma length_overlay: "length bs \<le> length cs \<Longrightarrow> length (overlay bs cs) = length cs"
  by (simp add: overlay_def)

lemma drop_overlay: "length bs \<le> n \<Longrightarrow> n \<le> length cs \<Longrightarrow> drop n (overlay bs cs) = drop n cs"
  by (simp add: overlay_def)

lemma overlay_Nil [simp]: "overlay [] cs = cs"
  by (simp add: overlay_def)

section \<open>The encoder\<close>

text \<open>The encoding of the whole groups, and what is left.\<close>

fun whole :: "u8 list \<Rightarrow> u8 list" where
  "whole (a # b # c # bs) = quantum (group24 a b c) @ whole bs"
| "whole _ = []"

fun leftover :: "u8 list \<Rightarrow> u8 list" where
  "leftover (a # b # c # bs) = leftover bs"
| "leftover bs = bs"

lemma base64_whole: "base64 bs = whole bs @ base64 (leftover bs)"
  by (induction bs rule: whole.induct) simp_all

lemma length_leftover: "length (leftover bs) \<le> 2"
  by (induction bs rule: leftover.induct) simp_all

lemma length_quantum [simp]: "length (quantum v) = 4"
  by (simp add: quantum_def)

lemma ntop_loop_ok:
  assumes "length bs + length (whole src) \<le> targsize" "targsize \<le> length cs"
  shows "ntop_loop src (overlay bs cs) targsize (length bs) =
    Some (Inr (leftover src, overlay (bs @ whole src) cs, length bs + length (whole src)))"
  using assms
proof (induction src arbitrary: bs rule: whole.induct)
  case (1 a b c src)
  have "put_cells (overlay bs cs) (length bs) (quantum (group24 a b c)) =
      Some (overlay (bs @ quantum (group24 a b c)) cs)"
    using "1.prems" by (intro put_cells_overlay) simp
  then show ?case
    using "1.IH" [of "bs @ quantum (group24 a b c)"] "1.prems"
    by (simp add: quantum_output add.assoc)
qed simp_all

lemma ntop_loop_full:
  assumes "targsize < length bs + length (whole src)" "targsize \<le> length cs" "length bs \<le> targsize"
  shows "\<exists>ds. length ds \<le> targsize \<and>
    ntop_loop src (overlay bs cs) targsize (length bs) = Some (Inl (overlay ds cs))"
  using assms
proof (induction src arbitrary: bs rule: whole.induct)
  case (1 a b c src)
  show ?case
  proof (cases "length bs + 4 > targsize")
    case True
    then show ?thesis using "1.prems" by auto
  next
    case False
    then have "put_cells (overlay bs cs) (length bs) (quantum (group24 a b c)) =
        Some (overlay (bs @ quantum (group24 a b c)) cs)"
      using "1.prems" by (intro put_cells_overlay) simp
    then show ?thesis
      using False "1.IH" [of "bs @ quantum (group24 a b c)"] "1.prems"
      by (simp add: quantum_output add.assoc)
  qed
qed simp_all

lemma ntop_pad_ok:
  assumes "length bs + length (base64 src) \<le> targsize" "targsize \<le> length cs" "length src \<le> 2"
  shows "ntop_pad src (overlay bs cs) targsize (length bs) =
    Some (Inr (overlay (bs @ base64 src) cs, length bs + length (base64 src)))"
proof -
  consider "src = []" | a where "src = [a]" | a b where "src = [a, b]"
    using assms(3) by (auto simp: length_Suc_conv le_Suc_eq numeral_2_eq_2)
  then show ?thesis
  proof cases
    case 2
    have "put_cells (overlay bs cs) (length bs) (base64 [a]) = Some (overlay (bs @ base64 [a]) cs)"
      by (rule put_cells_overlay) (use assms 2 in simp)
    then show ?thesis
      using assms 2 by (simp add: ntop_pad_def base64_leftover del: put_cells.simps base64.simps)
  next
    case 3
    have "put_cells (overlay bs cs) (length bs) (base64 [a, b]) = Some (overlay (bs @ base64 [a, b]) cs)"
      by (rule put_cells_overlay) (use assms 3 in simp)
    then show ?thesis
      using assms 3 by (simp add: ntop_pad_def base64_leftover del: put_cells.simps base64.simps)
  qed (simp add: ntop_pad_def)
qed

lemma ntop_pad_full:
  assumes "targsize < length bs + length (base64 src)" "length bs \<le> targsize" "length src \<le> 2"
  shows "ntop_pad src (overlay bs cs) targsize (length bs) = Some (Inl (overlay bs cs))"
proof -
  have "src \<noteq> []" using assms by auto
  then have "length (base64 src) = 4"
    using assms(3) by (auto simp: le_Suc_eq length_Suc_conv numeral_2_eq_2 base64_leftover)
  then show ?thesis using assms \<open>src \<noteq> []\<close> by (simp add: ntop_pad_def)
qed

text \<open>Enough room: the encoding and a terminator; too little: -1, and nothing past the room.\<close>

lemma ntop_fits:
  assumes "length (base64 src) < targsize" "targsize \<le> length target"
  shows "f_b64_ntop src target targsize =
    Some (sint (of_nat (length (base64 src)) :: 32 word), overlay (base64 src @ [0]) target)"
proof -
  have len: "length (base64 src) = length (whole src) + length (base64 (leftover src))"
    by (subst base64_whole) simp
  have 1: "ntop_loop src target targsize 0 =
      Some (Inr (leftover src, overlay (whole src) target, length (whole src)))"
    using ntop_loop_ok [of "[]" src targsize target] assms len by simp
  have 2: "ntop_pad (leftover src) (overlay (whole src) target) targsize (length (whole src)) =
      Some (Inr (overlay (base64 src) target, length (base64 src)))"
    using ntop_pad_ok [of "whole src" "leftover src" targsize target] assms len length_leftover
    by (simp flip: base64_whole)
  show ?thesis
    using assms by (simp add: f_b64_ntop_def 1 2 put_cell_overlay)
qed

lemma ntop_too_small:
  assumes "targsize \<le> length (base64 src)" "targsize \<le> length target"
  shows "\<exists>ds. length ds \<le> targsize \<and> f_b64_ntop src target targsize = Some (-1, overlay ds target)"
proof -
  have len: "length (base64 src) = length (whole src) + length (base64 (leftover src))"
    by (subst base64_whole) simp
  show ?thesis
  proof (cases "length (whole src) \<le> targsize")
    case False
    then show ?thesis
      using ntop_loop_full [of targsize "[]" src target] assms by (auto simp: f_b64_ntop_def)
  next
    case True
    then have 1: "ntop_loop src target targsize 0 =
        Some (Inr (leftover src, overlay (whole src) target, length (whole src)))"
      using ntop_loop_ok [of "[]" src targsize target] assms by simp
    show ?thesis
    proof (cases "length (base64 src) \<le> targsize")
      case full: True
      then have "ntop_pad (leftover src) (overlay (whole src) target) targsize (length (whole src)) =
          Some (Inr (overlay (base64 src) target, length (base64 src)))"
        using ntop_pad_ok [of "whole src" "leftover src" targsize target] assms len length_leftover
        by (simp flip: base64_whole)
      then show ?thesis using full assms 1 by (auto simp: f_b64_ntop_def)
    next
      case False
      then have "ntop_pad (leftover src) (overlay (whole src) target) targsize (length (whole src)) =
          Some (Inl (overlay (whole src) target))"
        using ntop_pad_full [of targsize "whole src" "leftover src"] True len length_leftover by simp
      then show ?thesis using True 1 by (auto simp: f_b64_ntop_def)
    qed
  qed
qed

section \<open>The decoder on one digit\<close>

lemma Base64_chars:
  "length Base64 = 64" "distinct Base64"
  "\<forall>c\<in>set Base64. c \<noteq> 0 \<and> c \<noteq> Pad64 \<and> \<not> isspace c"
  by code_simp+

lemma Base64_eq: "Base64 =
   [65, 66, 67, 68, 69, 70, 71, 72, 73, 74, 75, 76, 77, 78, 79, 80, 81, 82, 83, 84,
    85, 86, 87, 88, 89, 90, 97, 98, 99, 100, 101, 102, 103, 104, 105, 106, 107, 108,
    109, 110, 111, 112, 113, 114, 115, 116, 117, 118, 119, 120, 121, 122, 48, 49,
    50, 51, 52, 53, 54, 55, 56, 57, 43, 47]"
  by code_simp

text \<open>For evaluation.\<close>

lemmas base64_eval = quantum_def group24_def Base64_eq Pad64_def

lemma takeWhile_distinct:
  "distinct xs \<Longrightarrow> k < length xs \<Longrightarrow> length (takeWhile (\<lambda>c. c \<noteq> xs ! k) xs) = k"
proof (induction xs arbitrary: k)
  case (Cons x xs)
  then show ?case by (cases k) (auto simp: nth_eq_iff_index_eq)
qed simp

lemma base64_pos_digit: "k < 64 \<Longrightarrow> base64_pos (Base64 ! k) = Some k"
  using Base64_chars by (simp add: base64_pos_def takeWhile_distinct)

lemma pton_loop_digit:
  assumes "unat d < 64"
  shows "pton_loop (digit d # src) target targsize i st =
    (case pton_digit st (unat d) target targsize i of
       None \<Rightarrow> None
     | Some (Inl target') \<Rightarrow> Some (Inl target')
     | Some (Inr (target', i', st')) \<Rightarrow> pton_loop src target' targsize i' st')"
proof -
  have "digit d \<in> set Base64" using assms Base64_chars(1) by simp
  then have "digit d \<noteq> 0" "digit d \<noteq> Pad64" "\<not> isspace (digit d)" using Base64_chars(3) by blast+
  then show ?thesis using assms by (simp add: base64_pos_digit)
qed

lemma output_lt:
  "unat (output0 a) < 64" "unat (output1 a b) < 64" "unat (output2 b c) < 64" "unat (output3 c) < 64"
proof -
  show "unat (output0 a) < 64" using unat_u8_lt [of a] by (simp add: output0_def unat_drop_bit)
  show "unat (output1 a b) < 64" by (simp add: output_digits(2) [of a b 0])
  show "unat (output2 b c) < 64" by (simp add: output_digits(3) [of b c 0])
  show "unat (output3 c) < 64" by (simp add: output_digits(4) [of c 0 0])
qed

lemma byte_eqI:
  assumes "bit x 0 = bit y 0" "bit x 1 = bit y 1" "bit x 2 = bit y 2" "bit x 3 = bit y 3"
    "bit x 4 = bit y 4" "bit x 5 = bit y 5" "bit x 6 = bit y 6" "bit x 7 = bit y 7"
  shows "x = (y :: u8)"
proof (rule bit_word_eqI)
  fix k assume "k < LENGTH(8)"
  then have "k = 0 \<or> k = 1 \<or> k = 2 \<or> k = 3 \<or> k = 4 \<or> k = 5 \<or> k = 6 \<or> k = 7" by auto
  then show "bit x k = bit y k" using assms by metis
qed

lemma bit_byte_high: "8 \<le> k \<Longrightarrow> \<not> bit (x :: u8) k"
  by (auto dest: bit_imp_le_length)

lemmas byte_bits = bit_and_iff bit_or_iff bit_push_bit_iff bit_drop_bit_eq bit_take_bit_iff
  bit_byte_high

lemma output_or:
  "output1 a b = push_bit 4 (take_bit 2 a) OR drop_bit 4 b"
  "output2 b c = push_bit 2 (take_bit 4 b) OR drop_bit 6 c"
proof -
  have "push_bit 4 (take_bit 2 a) AND drop_bit 4 b = 0"
    by (rule byte_eqI) (simp_all add: byte_bits)
  then show "output1 a b = push_bit 4 (take_bit 2 a) OR drop_bit 4 b"
    by (simp add: output1_def mask2 disjunctive_add_eq_or)
  have "push_bit 2 (take_bit 4 b) AND drop_bit 6 c = 0"
    by (rule byte_eqI) (simp_all add: byte_bits)
  then show "output2 b c = push_bit 2 (take_bit 4 b) OR drop_bit 6 c"
    by (simp add: output2_def mask4 disjunctive_add_eq_or)
qed

text \<open>The bytes the decoder puts together from the digits.\<close>

lemma of_nat_bits:
  "of_nat (push_bit n (unat (w :: u8))) = push_bit n w"
  "of_nat (drop_bit n (unat (w :: u8))) = drop_bit n w"
proof -
  show "of_nat (push_bit n (unat w)) = push_bit n w" by (simp add: push_bit_eq_mult)
  have "drop_bit n (unat w) = unat w div 2 ^ n" by (simp only: drop_bit_eq_div)
  also have "\<dots> = unat (drop_bit n w)" by (simp only: unat_drop_bit)
  finally show "of_nat (drop_bit n (unat w)) = drop_bit n w" by simp
qed

lemma of_nat_and:
  "of_nat (push_bit 4 (unat (w :: u8) AND 0x0f)) = push_bit 4 (take_bit 4 w)"
  "of_nat (push_bit 6 (unat (w :: u8) AND 0x03)) = push_bit 6 (take_bit 2 w)"
proof -
  have "unat w AND 0x0f = unat (take_bit 4 w)" "unat w AND 0x03 = unat (take_bit 2 w)"
    by (simp_all flip: mask4 mask2 add: unsigned_and_eq)
  then show "of_nat (push_bit 4 (unat w AND 0x0f)) = push_bit 4 (take_bit 4 w)"
    "of_nat (push_bit 6 (unat w AND 0x03)) = push_bit 6 (take_bit 2 w)"
    by (simp_all only: of_nat_bits)
qed

lemma digits_bytes:
  "push_bit 2 (output0 a) OR drop_bit 4 (output1 a b) = a"
  "push_bit 4 (take_bit 4 (output1 a b)) OR drop_bit 2 (output2 b c) = b"
  "push_bit 6 (take_bit 2 (output2 b c)) OR output3 c = c"
  "push_bit 4 (take_bit 4 (output1 a 0)) = 0"
  "push_bit 6 (take_bit 2 (output2 b 0)) = 0"
  unfolding output_or output0_def output3_def mask6
  by (rule byte_eqI; simp add: byte_bits)+

section \<open>The decoder on the encoding\<close>

lemma unat_index: "k < 2 ^ 32 \<Longrightarrow> unat (of_nat k :: u32) = k"
  by (simp add: unat_of_nat_lt)

lemma of_nat_Suc_index: "(of_nat (length (ds @ [x])) :: u32) = of_nat (length ds) + 1"
  by (simp add: add.commute)

lemma overlay_append_update:
  "length ds < length cs \<Longrightarrow> (overlay (ds @ [x]) cs)[length ds := y] = overlay (ds @ [y]) cs"
  by (simp add: overlay_def list_update_append)

lemma overlay_nth: "overlay (ds @ [x]) cs ! length ds = x"
  by (simp add: overlay_def nth_append)

text \<open>The stores, on a target written up to \<open>tarindex\<close>.\<close>

lemma store_first:
  assumes "length ds < targsize" "targsize \<le> length cs" "length ds < 2 ^ 32"
  shows "pton_digit 0 d (Some (overlay ds cs)) targsize (of_nat (length ds)) =
    Some (Inr (Some (overlay (ds @ [of_nat (push_bit 2 d)]) cs), of_nat (length ds), 1))"
  using assms by (simp add: pton_digit_def pton_store_def unat_index put_cell_overlay)

lemma store_two:
  assumes "length ds + 1 < targsize" "targsize \<le> length cs" "length ds + 1 < 2 ^ 32"
  shows "pton_two (overlay (ds @ [x]) cs) targsize (of_nat (length ds)) hi lo =
    Some (Inr (overlay (ds @ [x OR hi, lo]) cs))"
proof -
  have i: "unat (of_nat (length ds) :: u32) = length ds"
    "unat (of_nat (length ds) + 1 :: u32) = length ds + 1"
    using assms unat_index [of "length ds + 1"] by (simp_all add: unat_index add.commute)
  have u: "upd_cell (overlay (ds @ [x]) cs) (length ds) (\<lambda>x. x OR hi) = Some (overlay (ds @ [x OR hi]) cs)"
    using assms by (simp add: upd_cell_def overlay_append_update overlay_nth length_overlay)
  have "put_cell (overlay (ds @ [x OR hi]) cs) (length ds + 1) lo =
      Some (overlay (ds @ [x OR hi, lo]) cs)"
    using put_cell_overlay [of "ds @ [x OR hi]" cs lo] assms by simp
  then show ?thesis using assms(1) u by (simp only: pton_two_def i) simp
qed

lemma store_middle:
  assumes "length ds + 1 < targsize" "targsize \<le> length cs" "length ds + 1 < 2 ^ 32"
  shows "pton_digit 1 d (Some (overlay (ds @ [x]) cs)) targsize (of_nat (length ds)) =
      Some (Inr (Some (overlay (ds @ [x OR of_nat (drop_bit 4 d), of_nat (push_bit 4 (d AND 0x0f))]) cs),
        of_nat (length ds + 1), 2))"
    "pton_digit 2 d (Some (overlay (ds @ [x]) cs)) targsize (of_nat (length ds)) =
      Some (Inr (Some (overlay (ds @ [x OR of_nat (drop_bit 2 d), of_nat (push_bit 6 (d AND 0x03))]) cs),
        of_nat (length ds + 1), 3))"
  by (simp_all add: pton_digit_def pton_store_def store_two [OF assms] add.commute)

lemma store_last:
  assumes "length ds < targsize" "targsize \<le> length cs" "length ds < 2 ^ 32"
  shows "pton_digit 3 d (Some (overlay (ds @ [x]) cs)) targsize (of_nat (length ds)) =
    Some (Inr (Some (overlay (ds @ [x OR of_nat d]) cs), of_nat (length ds + 1), 0))"
  using assms
  by (simp add: pton_digit_def pton_store_def unat_index upd_cell_def overlay_append_update
      overlay_nth length_overlay add.commute)

lemmas store_word = store_first [where d = "unat (d :: u8)" for d, unfolded of_nat_bits]
  store_middle [where d = "unat (d :: u8)" for d, unfolded of_nat_bits of_nat_and]
  store_last [where d = "unat (d :: u8)" for d, unfolded of_nat_unat ucast_id]

lemma pton_two_digits:
  assumes "length ds + 1 < targsize" "targsize \<le> length cs" "length ds + 1 < 2 ^ 32"
  shows "pton_loop (digit (output0 a) # digit (output1 a b) # src)
      (Some (overlay ds cs)) targsize (of_nat (length ds)) 0 =
    pton_loop src (Some (overlay (ds @ [a, push_bit 4 (take_bit 4 (output1 a b))]) cs))
      targsize (of_nat (length ds + 1)) 2"
  using assms
  by (simp add: pton_loop_digit output_lt store_word(1) store_word(2) [unfolded One_nat_def]
      digits_bytes del: of_nat_add pton_loop.simps of_nat_Suc)

lemma pton_third_digit:
  assumes "length ds + 2 < targsize" "targsize \<le> length cs" "length ds + 2 < 2 ^ 32"
  shows "pton_loop (digit (output2 b c) # src)
      (Some (overlay (ds @ [a, push_bit 4 (take_bit 4 (output1 a b))]) cs))
      targsize (of_nat (length ds + 1)) 2 =
    pton_loop src (Some (overlay (ds @ [a, b, push_bit 6 (take_bit 2 (output2 b c))]) cs))
      targsize (of_nat (length ds + 2)) 3"
  using assms store_word(3) [of "ds @ [a]" targsize cs "output2 b c"
      "push_bit 4 (take_bit 4 (output1 a b))"]
  by (simp add: pton_loop_digit output_lt digits_bytes del: of_nat_add pton_loop.simps of_nat_Suc)

lemma pton_group:
  assumes "length ds + 2 < targsize" "targsize \<le> length cs" "length ds + 3 < 2 ^ 32"
  shows "pton_loop (quantum (group24 a b c) @ src) (Some (overlay ds cs)) targsize (of_nat (length ds)) 0 =
    pton_loop src (Some (overlay (ds @ [a, b, c]) cs)) targsize (of_nat (length (ds @ [a, b, c]))) 0"
proof -
  have 1: "pton_loop (digit (output0 a) # digit (output1 a b) # ds2) (Some (overlay ds cs))
        targsize (of_nat (length ds)) 0 =
      pton_loop ds2 (Some (overlay (ds @ [a, push_bit 4 (take_bit 4 (output1 a b))]) cs))
        targsize (of_nat (length ds + 1)) 2" for ds2
    by (rule pton_two_digits) (use assms in simp_all)
  have 2: "pton_loop (digit (output2 b c) # ds2)
        (Some (overlay (ds @ [a, push_bit 4 (take_bit 4 (output1 a b))]) cs))
        targsize (of_nat (length ds + 1)) 2 =
      pton_loop ds2 (Some (overlay (ds @ [a, b, push_bit 6 (take_bit 2 (output2 b c))]) cs))
        targsize (of_nat (length ds + 2)) 3" for ds2
    by (rule pton_third_digit) (use assms in simp_all)
  have 3: "pton_digit 3 (unat (output3 c))
        (Some (overlay (ds @ [a, b, push_bit 6 (take_bit 2 (output2 b c))]) cs)) targsize
        (of_nat (length ds + 2)) =
      Some (Inr (Some (overlay (ds @ [a, b, c]) cs), of_nat (length (ds @ [a, b, c])), 0))"
    using assms store_word(4) [of "ds @ [a, b]" targsize cs "output3 c"
        "push_bit 6 (take_bit 2 (output2 b c))"] by (simp add: digits_bytes)
  show ?thesis
    unfolding quantum_output [symmetric] append_Cons append_Nil 1 2
    by (simp only: pton_loop_digit [OF output_lt(4)] 3 option.case sum.case prod.case)
qed

text \<open>The last group: the target holds a zero after the decoded bytes.\<close>

lemma pton_done:
  assumes "length ds < length cs" "length ds < 2 ^ 32"
  shows "pton_tail 0 src (Some (overlay (ds @ [0]) cs)) (of_nat (length ds)) =
    Some (sint (of_nat (length ds) :: u32), Some (overlay (ds @ [0]) cs))"
  using assms by (simp add: pton_tail_def skip_spaces.simps unat_index overlay_nth length_overlay)

lemma not_space: "\<not> isspace 0" "\<not> isspace Pad64" "Pad64 \<noteq> 0"
  by code_simp+

definition decoded :: "u8 list \<Rightarrow> u8 list" where
  "decoded bs = bs @ (if 3 dvd length bs then [] else [0])"

lemma decoded_append: "3 dvd length ds \<Longrightarrow> decoded (ds @ bs) = ds @ decoded bs"
  by (simp add: decoded_def dvd_add_right_iff)

lemma pton_base64:
  assumes "length ds + length (decoded bs) \<le> targsize" "targsize \<le> length cs"
    "length ds + length bs + 1 < 2 ^ 32" "3 dvd length ds"
  shows "pton_finish (pton_loop (base64 bs @ 0 # junk) (Some (overlay ds cs)) targsize
      (of_nat (length ds)) 0) =
    Some (sint (of_nat (length (ds @ bs)) :: u32), Some (overlay (ds @ decoded bs) cs))"
  using assms
proof (induction bs arbitrary: ds rule: base64.induct)
  case (1 a b c bs)
  have d: "decoded (a # b # c # bs) = [a, b, c] @ decoded bs"
    using decoded_append [of "[a, b, c]" bs] by (simp add: numeral_3_eq_3)
  have "pton_loop (quantum (group24 a b c) @ base64 bs @ 0 # junk) (Some (overlay ds cs))
        targsize (of_nat (length ds)) 0 =
      pton_loop (base64 bs @ 0 # junk) (Some (overlay (ds @ [a, b, c]) cs)) targsize
        (of_nat (length (ds @ [a, b, c]))) 0"
    by (rule pton_group) (use "1.prems" d in auto)
  moreover have "3 dvd length (ds @ [a, b, c])" using "1.prems"(4) by simp presburger
  ultimately show ?case
    using "1.IH" [of "ds @ [a, b, c]"] "1.prems" by (simp add: d del: of_nat_add of_nat_Suc)
next
  case (2 a b)
  have d: "decoded [a, b] = [a, b, 0]" by (simp add: decoded_def flip: numeral_2_eq_2)
  have 1: "pton_loop (digit (output0 a) # digit (output1 a b) # ds2) (Some (overlay ds cs))
        targsize (of_nat (length ds)) 0 =
      pton_loop ds2 (Some (overlay (ds @ [a, push_bit 4 (take_bit 4 (output1 a b))]) cs))
        targsize (of_nat (length ds + 1)) 2" for ds2
    by (rule pton_two_digits) (use 2 d in simp_all)
  have 2: "pton_loop (digit (output2 b 0) # ds2)
        (Some (overlay (ds @ [a, push_bit 4 (take_bit 4 (output1 a b))]) cs))
        targsize (of_nat (length ds + 1)) 2 =
      pton_loop ds2 (Some (overlay (ds @ [a, b, 0]) cs)) targsize (of_nat (length ds + 2)) 3" for ds2
    using pton_third_digit [of ds targsize cs b 0 ds2 a] 2 d by (simp add: digits_bytes)
  show ?case
    unfolding base64_leftover append_Cons append_Nil 1 2
    using pton_done [of "ds @ [a, b]" cs junk] "2.prems" d
    by (simp add: not_space pton_finish_def pton_end_def pton_padded_def del: of_nat_add of_nat_Suc)
next
  case (3 a)
  have d: "decoded [a] = [a, 0]" by (simp add: decoded_def)
  have 1: "pton_loop (digit (output0 a) # digit (output1 a 0) # ds2) (Some (overlay ds cs))
        targsize (of_nat (length ds)) 0 =
      pton_loop ds2 (Some (overlay (ds @ [a, 0]) cs)) targsize (of_nat (length ds + 1)) 2" for ds2
    using pton_two_digits [of ds targsize cs a 0 ds2] 3 d by (simp add: digits_bytes)
  show ?case
    unfolding base64_leftover append_Cons append_Nil 1
    using pton_done [of "ds @ [a]" cs junk] "3.prems" d
    by (simp add: not_space pton_finish_def pton_end_def pton_padded_def skip_spaces.simps
        del: of_nat_add of_nat_Suc)
next
  case 4
  then show ?case by (simp add: decoded_def not_space pton_finish_def pton_end_def)
qed

section \<open>The decoder stays in its arrays\<close>

definition untouched :: "nat \<Rightarrow> u8 list \<Rightarrow> u8 list \<Rightarrow> bool" where
  "untouched n cs cs' \<longleftrightarrow> length cs' = length cs \<and> drop n cs' = drop n cs"

lemma untouched_refl [simp]: "untouched n cs cs"
  by (simp add: untouched_def)

lemma untouched_trans: "untouched n cs cs1 \<Longrightarrow> untouched n cs1 cs2 \<Longrightarrow> untouched n cs cs2"
  by (simp add: untouched_def)

lemma untouched_update: "i < n \<Longrightarrow> untouched n cs (cs[i := b])"
  by (simp add: untouched_def drop_update_cancel)

text \<open>\<open>tarindex\<close> in each state.\<close>

definition pton_inv :: "nat \<Rightarrow> u32 \<Rightarrow> nat \<Rightarrow> bool" where
  "pton_inv targsize i st \<longleftrightarrow> st < 4 \<and> (if st = 0 then unat i \<le> targsize else unat i < targsize)"

lemma unat_Suc_le: "unat (i + 1 :: u32) \<le> unat i + 1"
proof -
  have "unat (i + 1) = (unat i + 1) mod 2 ^ 32" by (simp add: unat_word_ariths)
  then show ?thesis by (simp add: mod_less_eq_dividend del: mod_less)
qed

lemma pton_two_safe:
  assumes "targsize \<le> length cs" "unat i < targsize"
  obtains (full) "pton_two cs targsize i hi lo = Some (Inl cs)"
  | (stored) cs' where "pton_two cs targsize i hi lo = Some (Inr cs')" "untouched targsize cs cs'"
      "unat (i + 1) < targsize"
proof (cases "targsize \<le> unat (i + 1)")
  case True
  then show ?thesis using full by (simp add: pton_two_def)
next
  case False
  let ?cs = "(cs[unat i := cs ! unat i OR hi])[unat (i + 1) := lo]"
  have "untouched targsize cs ?cs"
    using untouched_update [OF assms(2)] untouched_update [of "unat (i + 1)" targsize] False
    by (meson not_le untouched_trans)
  moreover have "pton_two cs targsize i hi lo = Some (Inr ?cs)"
    using assms False by (simp add: pton_two_def upd_cell_def put_cell_def)
  ultimately show ?thesis using stored False by simp
qed

lemma pton_digit_safe:
  assumes "targsize \<le> length cs" "pton_inv targsize i st"
  obtains (full) "pton_digit st d (Some cs) targsize i = Some (Inl (Some cs))"
  | (stored) cs' i' st' where "pton_digit st d (Some cs) targsize i = Some (Inr (Some cs', i', st'))"
      "untouched targsize cs cs'" "pton_inv targsize i' st'"
proof -
  consider "st = 0" | "st = 1" "unat i < targsize" | "st = 2" "unat i < targsize"
    | "st = 3" "unat i < targsize"
    using assms(2) by (auto simp: pton_inv_def less_Suc_eq numeral_eq_Suc split: if_splits)
  then show thesis
  proof cases
    case 1
    show thesis
    proof (cases "targsize \<le> unat i")
      case False
      then show thesis
        using 1 assms untouched_update [of "unat i" targsize cs]
        by (intro stored) (auto simp: pton_digit_def pton_store_def put_cell_def pton_inv_def)
    qed (use 1 full in \<open>simp add: pton_digit_def pton_store_def\<close>)
  next
    case 2
    show thesis
      by (rule pton_two_safe [OF assms(1) 2(2), of "of_nat (drop_bit 4 d)" "of_nat (push_bit 4 (d AND 0x0f))"])
         (use 2 full stored in \<open>auto simp: pton_digit_def pton_store_def pton_inv_def\<close>)
  next
    case 3
    show thesis
      by (rule pton_two_safe [OF assms(1) 3(2), of "of_nat (drop_bit 2 d)" "of_nat (push_bit 6 (d AND 0x03))"])
         (use 3 full stored in \<open>auto simp: pton_digit_def pton_store_def pton_inv_def\<close>)
  next
    case 4
    then have "unat (i + 1) \<le> targsize" using unat_Suc_le [of i] by simp
    then show thesis
      using 4 assms untouched_update [of "unat i" targsize cs]
      by (intro stored) (auto simp: pton_digit_def pton_store_def upd_cell_def pton_inv_def)
  qed
qed

lemma pton_loop_safe:
  assumes "targsize \<le> length cs" "pton_inv targsize i st" "0 \<in> set src"
  obtains (bad) cs' where "pton_loop src (Some cs) targsize i st = Some (Inl (Some cs'))"
      "untouched targsize cs cs'"
  | (good) ch src' cs' i' st' where
      "pton_loop src (Some cs) targsize i st = Some (Inr (ch, src', Some cs', i', st'))"
      "untouched targsize cs cs'" "pton_inv targsize i' st'" "ch = Pad64 \<longrightarrow> 0 \<in> set src'"
  using assms
proof (induction src arbitrary: cs i st thesis)
  case (Cons ch src)
  consider "ch = 0" | "ch \<noteq> 0" "isspace ch" | "ch = Pad64" | "ch \<noteq> 0" "\<not> isspace ch" "ch \<noteq> Pad64"
    by blast
  then show ?case
  proof cases
    case 1
    then show ?thesis using Cons.prems by (intro Cons.prems(2)) (auto simp: not_space)
  next
    case 2
    then have eq: "pton_loop (ch # src) (Some cs) targsize i st = pton_loop src (Some cs) targsize i st"
      by simp
    have "0 \<in> set src" using 2 Cons.prems(5) by auto
    from Cons.IH [OF _ _ Cons.prems(3,4) this] show ?thesis
      using Cons.prems(1,2) unfolding eq by metis
  next
    case 3
    then show ?thesis using Cons.prems not_space by (intro Cons.prems(2)) auto
  next
    case 4
    show ?thesis
    proof (cases "base64_pos ch")
      case None
      then show ?thesis using 4 by (intro Cons.prems(1)) auto
    next
      case (Some d)
      show ?thesis
      proof (rule pton_digit_safe [OF Cons.prems(3,4), of d])
        assume "pton_digit st d (Some cs) targsize i = Some (Inl (Some cs))"
        then show ?thesis using 4 Some by (intro Cons.prems(1)) auto
      next
        fix cs' i' st'
        assume d: "pton_digit st d (Some cs) targsize i = Some (Inr (Some cs', i', st'))"
          "untouched targsize cs cs'" "pton_inv targsize i' st'"
        then have eq: "pton_loop (ch # src) (Some cs) targsize i st = pton_loop src (Some cs') targsize i' st'"
          using 4 Some by simp
        have le: "targsize \<le> length cs'" using d(2) Cons.prems(3) by (simp add: untouched_def)
        have "0 \<in> set src" using 4 Cons.prems(5) by auto
        from Cons.IH [OF _ _ le d(3) this] show ?thesis
          unfolding eq using Cons.prems(1,2) eq untouched_trans [OF d(2)] by metis
      qed
    qed
  qed
qed simp

lemma skip_spaces_ends:
  "0 \<in> set (ch # src) \<Longrightarrow>
   \<exists>ch' src'. skip_spaces ch src = Some (ch', src') \<and> (ch' = 0 \<or> \<not> isspace ch' \<and> 0 \<in> set src')"
proof (induction src arbitrary: ch)
  case Nil
  then show ?case by (simp add: skip_spaces.simps)
next
  case (Cons c src)
  then show ?case
    by (cases "ch = 0 \<or> \<not> isspace ch") (auto simp: skip_spaces.simps [of ch])
qed

lemma pton_tail_safe:
  assumes "0 \<in> set (ch # src)" "unat i < length cs"
  shows "\<exists>r. pton_tail ch src (Some cs) i = Some (r, Some cs) \<and> (r = -1 \<or> r = sint i)"
proof -
  obtain ch' src' where "skip_spaces ch src = Some (ch', src')"
    using skip_spaces_ends [OF assms(1)] by blast
  then show ?thesis using assms(2) by (simp add: pton_tail_def)
qed

lemma pton_padded_safe:
  assumes "0 \<in> set src" "pton_inv targsize i st" "targsize \<le> length cs"
  shows "\<exists>r. pton_padded src (Some cs) i st = Some (r, Some cs) \<and> (r = -1 \<or> r = sint i)"
proof -
  obtain ch src1 where src: "src = ch # src1" using assms(1) by (cases src) auto
  show ?thesis
  proof (cases "st = 0 \<or> st = 1")
    case True
    then show ?thesis by (auto simp: pton_padded_def src)
  next
    case False
    then have i: "unat i < length cs" using assms(2,3) by (auto simp: pton_inv_def)
    show ?thesis
    proof (cases "st = 2")
      case True
      obtain ch2 src2 where s: "skip_spaces ch src1 = Some (ch2, src2)"
        "ch2 = 0 \<or> \<not> isspace ch2 \<and> 0 \<in> set src2"
        using skip_spaces_ends [of ch src1] assms(1) src by blast
      show ?thesis
      proof (cases "ch2 = Pad64")
        case pad: True
        then have "0 \<in> set src2" using s(2) not_space by auto
        then obtain ch3 src3 where s3: "src2 = ch3 # src3" by (cases src2) auto
        show ?thesis
          using pton_tail_safe [of ch3 src3 i cs] i \<open>0 \<in> set src2\<close> True pad s(1) s3
          by (simp add: pton_padded_def src)
      qed (simp add: pton_padded_def src True s(1))
    next
      case 3: False
      then show ?thesis
        using pton_tail_safe [of ch src1 i cs] i assms(1) False src by (simp add: pton_padded_def)
    qed
  qed
qed

lemma sint_le_unat: "sint (i :: u32) \<le> int (unat i)"
proof -
  have "0 \<le> uint i" by simp
  then have "- 2147483648 \<le> uint i" by linarith
  then have "sint i \<le> uint i" by (simp add: sint_uint signed_take_bit_eq_if_positive
      signed_take_bit_int_less_eq_self_iff)
  then show ?thesis by simp
qed

lemma sint_of_nat_small: "n < 2 ^ 31 \<Longrightarrow> sint (of_nat n :: u32) = int n"
  by (simp add: signed_of_nat signed_take_bit_int_eq_self)

section \<open>Spaces\<close>

definition squeeze :: "u8 list \<Rightarrow> u8 list" where
  "squeeze src = filter (\<lambda>c. \<not> isspace c) src"

lemma squeeze_simps [simp]:
  "squeeze [] = []"
  "squeeze (c # src) = (if isspace c then squeeze src else c # squeeze src)"
  by (simp_all add: squeeze_def)

lemma zero_squeeze: "0 \<in> set (squeeze src) \<longleftrightarrow> 0 \<in> set src"
  by (auto simp: squeeze_def not_space)

lemma pton_loop_squeeze:
  "pton_loop (squeeze src) target targsize i st =
     map_option (map_sum id (\<lambda>(ch, src', r). (ch, squeeze src', r)))
       (pton_loop src target targsize i st)"
proof (induction src arbitrary: target i st)
  case (Cons ch src)
  show ?case
  proof (cases "isspace ch")
    case True
    then have "ch \<noteq> 0" using not_space by auto
    then show ?thesis using True Cons by simp
  next
    case False
    then show ?thesis using Cons by (auto split: option.splits sum.splits)
  qed
qed simp

lemma pton_loop_terminated:
  "0 \<in> set src \<Longrightarrow> pton_loop src target targsize i st = Some (Inr (ch, src', r)) \<Longrightarrow>
   ch = Pad64 \<Longrightarrow> 0 \<in> set src'"
proof (induction src arbitrary: target i st)
  case (Cons c src)
  then show ?case
    using not_space by (auto split: if_splits option.splits sum.splits)
qed simp

lemma skip_spaces_squeeze:
  assumes "0 \<in> set (ch # src)"
  shows "\<exists>ch' src'. skip_spaces ch src = Some (ch', src') \<and> (\<exists>c s. squeeze (ch # src) = c # s
    \<and> skip_spaces c s = Some (ch', squeeze src'))"
  using assms
proof (induction src arbitrary: ch)
  case Nil
  then show ?case by (simp add: skip_spaces.simps not_space)
next
  case (Cons c src)
  then show ?case
    using not_space by (cases "ch = 0 \<or> \<not> isspace ch") (auto simp: skip_spaces.simps [of ch])
qed

lemma pton_tail_squeeze:
  assumes "0 \<in> set (ch # src)" "squeeze (ch # src) = c # s"
  shows "pton_tail c s target i = pton_tail ch src target i"
  using skip_spaces_squeeze [OF assms(1)] assms(2) by (auto simp: pton_tail_def)

lemma pton_padded_squeeze:
  assumes "0 \<in> set src"
  shows "pton_padded (squeeze src) target i st = pton_padded src target i st"
proof -
  obtain ch src1 where src: "src = ch # src1" using assms by (cases src) auto
  have z: "0 \<in> set (ch # src1)" using assms src by simp
  obtain ch2 src2 c s where 1: "skip_spaces ch src1 = Some (ch2, src2)"
    "squeeze src = c # s" "skip_spaces c s = Some (ch2, squeeze src2)"
    using skip_spaces_squeeze [OF z] src by blast
  have tail: "pton_tail c s target i = pton_tail ch src1 target i"
    using pton_tail_squeeze [OF z] 1 src by simp
  show ?thesis
  proof (cases "st = 2 \<and> ch2 = Pad64")
    case True
    then have "0 \<in> set src2" using skip_spaces_ends [OF z] 1 not_space by auto
    then obtain ch3 src3 c3 s3 where 3: "src2 = ch3 # src3" "squeeze src2 = c3 # s3"
      using skip_spaces_squeeze by (metis list.set_cases)
    then show ?thesis
      using pton_tail_squeeze [of ch3 src3 c3 s3] \<open>0 \<in> set src2\<close> True 1 src
      by (simp add: pton_padded_def del: squeeze_simps)
  next
    case False
    then show ?thesis using 1 src tail by (simp add: pton_padded_def del: squeeze_simps)
  qed
qed

section \<open>A null target\<close>

lemma pton_digit_null:
  "pton_digit st d (Some cs) targsize i = Some (Inr (t, i', st')) \<Longrightarrow>
   (\<exists>cs'. t = Some cs') \<and> pton_digit st d None n i = Some (Inr (None, i', st'))"
  by (auto simp: pton_digit_def Let_def split: option.splits sum.splits)

lemma pton_loop_null:
  "pton_loop src (Some cs) targsize i st = Some (Inr (ch, src', t, i', st')) \<Longrightarrow>
   (\<exists>cs'. t = Some cs') \<and> pton_loop src None n i st = Some (Inr (ch, src', None, i', st'))"
proof (induction src arbitrary: cs i st)
  case (Cons c src)
  show ?case
  proof (cases "c = 0 \<or> isspace c \<or> c = Pad64")
    case True
    then show ?thesis using Cons by (auto split: if_splits)
  next
    case False
    then obtain d t1 i1 st1 where d0: "base64_pos c = Some d"
      "pton_digit st d (Some cs) targsize i = Some (Inr (t1, i1, st1))"
      "pton_loop src t1 targsize i1 st1 = Some (Inr (ch, src', t, i', st'))"
      using Cons.prems by (auto split: option.splits sum.splits prod.splits)
    then obtain cs1 where "t1 = Some cs1" using pton_digit_null by blast
    note d = d0 [unfolded this]
    show ?thesis
      using Cons.IH [OF d(3)] pton_digit_null [OF d(2), of n] False d(1) by simp
  qed
qed simp

lemma pton_tail_null:
  "pton_tail ch src (Some cs) i = Some (r, t) \<Longrightarrow> r \<noteq> -1 \<Longrightarrow> pton_tail ch src None i = Some (r, None)"
  by (auto simp: pton_tail_def split: option.splits prod.splits if_splits)

lemma pton_padded_null:
  "pton_padded src (Some cs) i st = Some (r, t) \<Longrightarrow> r \<noteq> -1 \<Longrightarrow>
   pton_padded src None i st = Some (r, None)"
  by (auto simp: pton_padded_def split: list.splits option.splits prod.splits if_splits
      dest: pton_tail_null)

end
