(* ===== verification/FBase64Props.thy ===== *)
theory FBase64Props
  imports FBase64Spec
begin

text \<open>
  The properties of the base-64 codec: what \<open>f_b64_ntop\<close> and \<open>f_b64_pton\<close> compute, that
  they invert each other, and that they keep within the arrays they are given.
\<close>

section \<open>Encoding\<close>

text \<open>
  C37: With room for the encoding and a terminator, \<open>f_b64_ntop\<close> returns the length of the
  encoding and leaves in the target the RFC 1521 encoding of the source, a NUL, and then the
  cells that were there before.
\<close>

theorem b64_ntop_encodes:
  assumes "length (base64 src) < targsize" "targsize \<le> length target"
    "length (base64 src) < 2 ^ 31"
  shows "f_b64_ntop src target targsize =
    Some (int (length (base64 src)),
          base64 src @ [0] @ drop (length (base64 src) + 1) target)"
proof -
  have "sint (of_nat (length (base64 src)) :: 32 word) = int (length (base64 src))"
    using assms(3) by (simp add: sint_of_nat_small)
  then show ?thesis using ntop_fits [OF assms(1,2)] by (simp add: overlay_def)
qed

text \<open>\<open>''Ma''\<close> is encoded as \<open>''TWE=''\<close>.\<close>

theorem b64_ntop_encodes_witness:
  "f_b64_ntop [77, 97] [7, 7, 7, 7, 7, 7, 7] 6 = Some (4, [84, 87, 69, 61, 0, 7, 7])"
proof -
  have b: "base64 [77, 97] = [84, 87, 69, 61]" by (simp add: base64_eval)
  show ?thesis
    using b64_ntop_encodes [of "[77, 97]" 6 "[7, 7, 7, 7, 7, 7, 7]"] unfolding b by simp
qed

text \<open>
  Without that room, \<open>f_b64_ntop\<close> returns -1, and whatever it wrote by then is within the
  first \<open>targsize\<close> cells.
\<close>

theorem b64_ntop_no_room:
  assumes "targsize \<le> length (base64 src)" "targsize \<le> length target"
  shows "\<exists>target'. f_b64_ntop src target targsize = Some (-1, target')
    \<and> length target' = length target \<and> drop targsize target' = drop targsize target"
  using ntop_too_small [OF assms] assms(2) by (auto simp: length_overlay drop_overlay)

theorem b64_ntop_no_room_witness:
  "\<exists>target'. f_b64_ntop [77, 97] [7, 7, 7, 7, 7] 4 = Some (-1, target')
    \<and> length target' = length [7, 7, 7, 7, 7 :: u8] \<and> drop 4 target' = [7]"
proof -
  have b: "base64 [77, 97] = [84, 87, 69, 61]" by (simp add: base64_eval)
  show ?thesis
    using b64_ntop_no_room [of 4 "[77, 97]" "[7, 7, 7, 7, 7]"] unfolding b by simp
qed

section \<open>Decoding\<close>

text \<open>
  C35: \<open>f_b64_pton\<close> inverts the encoding: it returns the number of bytes encoded, and the
  target starts with them. The room it asks for is one byte more than it returns, unless the
  encoding has no padding.
\<close>

theorem b64_roundtrip:
  assumes "length bs + (if 3 dvd length bs then 0 else 1) \<le> targsize" "targsize \<le> length target"
    "length bs < 2 ^ 31"
  shows "\<exists>target'. f_b64_pton (base64 bs @ [0]) (Some target) targsize =
      Some (int (length bs), Some target') \<and> take (length bs) target' = bs"
proof -
  have "sint (of_nat (length bs) :: 32 word) = int (length bs)"
    using assms(3) by (rule sint_of_nat_small)
  then have "f_b64_pton (base64 bs @ [0]) (Some target) targsize =
      Some (int (length bs), Some (overlay (decoded bs) target))"
    using pton_base64 [of "[]" bs targsize target "[]"] assms
    by (simp add: f_b64_pton_def decoded_def split: if_splits)
  then show ?thesis by (simp add: overlay_def decoded_def)
qed

theorem b64_roundtrip_witness:
  "\<exists>target'. f_b64_pton [84, 87, 69, 61, 0] (Some [7, 7, 7]) 3 = Some (2, Some target')
    \<and> take 2 target' = [77, 97]"
proof -
  have b: "base64 [77, 97] = [84, 87, 69, 61]" by (simp add: base64_eval)
  show ?thesis
    using b64_roundtrip [of "[77, 97]" 3 "[7, 7, 7]"] unfolding b by (simp flip: numeral_2_eq_2)
qed

text \<open>
  C36: Whatever the source, as long as it is terminated, \<open>f_b64_pton\<close> reads nothing past the
  terminator and writes nothing past \<open>targsize\<close>; it never returns more than \<open>targsize\<close>.
\<close>

theorem b64_pton_safe:
  assumes "0 \<in> set src" "targsize \<le> length target"
  shows "\<exists>r target'. f_b64_pton src (Some target) targsize = Some (r, Some target')
    \<and> length target' = length target \<and> drop targsize target' = drop targsize target
    \<and> r \<le> int targsize"
proof -
  have inv: "pton_inv targsize 0 0" by (simp add: pton_inv_def)
  show ?thesis
  proof (rule pton_loop_safe [OF assms(2) inv assms(1)])
    fix cs' assume "pton_loop src (Some target) targsize 0 0 = Some (Inl (Some cs'))"
      "untouched targsize target cs'"
    then show ?thesis by (simp add: f_b64_pton_def pton_finish_def untouched_def)
  next
    fix ch src' cs' i' st'
    assume r: "pton_loop src (Some target) targsize 0 0 = Some (Inr (ch, src', Some cs', i', st'))"
      "untouched targsize target cs'" "pton_inv targsize i' st'" "ch = Pad64 \<longrightarrow> 0 \<in> set src'"
    have le: "targsize \<le> length cs'" using r(2) assms(2) by (simp add: untouched_def)
    have "unat i' \<le> targsize" using r(3) by (auto simp: pton_inv_def split: if_splits)
    then have "sint i' \<le> int targsize" using sint_le_unat [of i'] by linarith
    moreover have "\<exists>r. pton_end ch src' (Some cs') i' st' = Some (r, Some cs') \<and> (r = -1 \<or> r = sint i')"
      using pton_padded_safe [OF _ r(3) le] r(4) by (cases "ch = Pad64") (auto simp: pton_end_def)
    ultimately show ?thesis
      using r(1,2) by (auto simp: f_b64_pton_def pton_finish_def untouched_def)
  qed
qed

theorem b64_pton_safe_witness:
  "\<exists>r target'. f_b64_pton [84, 87, 61, 0] (Some [7, 7, 7]) 2 = Some (r, Some target')
    \<and> length target' = 3 \<and> drop 2 target' = [7] \<and> r \<le> 2"
  using b64_pton_safe [of "[84, 87, 61, 0]" 2 "[7, 7, 7]"] by (simp flip: numeral_3_eq_3)

text \<open>
  Spaces anywhere in the source make no difference to \<open>f_b64_pton\<close>, neither to what it
  returns nor to what it writes.
\<close>

theorem b64_pton_spaces:
  assumes "0 \<in> set src"
  shows "f_b64_pton (filter (\<lambda>c. \<not> isspace c) src) target targsize = f_b64_pton src target targsize"
proof -
  have "pton_end ch (squeeze src') t i st = pton_end ch src' t i st"
    if "pton_loop src target targsize 0 0 = Some (Inr (ch, src', t, i, st))" for ch src' t i st
  proof (cases "ch = Pad64")
    case True
    then have "0 \<in> set src'"
      using pton_loop_terminated [OF assms that] by simp
    then show ?thesis by (simp add: pton_end_def pton_padded_squeeze)
  qed (simp add: pton_end_def)
  then show ?thesis
    unfolding f_b64_pton_def squeeze_def [symmetric] pton_loop_squeeze
    by (auto simp: pton_finish_def split: option.splits sum.splits)
qed

theorem b64_pton_spaces_witness:
  "f_b64_pton [84, 87, 69, 61, 0] (Some [7, 7, 7]) 3 =
   f_b64_pton [32, 84, 10, 87, 69, 32, 61, 0] (Some [7, 7, 7]) 3"
  using b64_pton_spaces [of "[32, 84, 10, 87, 69, 32, 61, 0]" "Some [7, 7, 7]" 3]
  by (simp add: isspace_def)

text \<open>
  A null target sizes the result: when \<open>f_b64_pton\<close> decodes the source into an array, it
  returns the same number with a null target.
\<close>

theorem b64_pton_null_target:
  assumes "f_b64_pton src (Some target) targsize = Some (r, target')" "r \<noteq> -1"
  shows "f_b64_pton src None n = Some (r, None)"
proof -
  obtain ch src1 t i st where
    l: "pton_loop src (Some target) targsize 0 0 = Some (Inr (ch, src1, t, i, st))"
    "pton_end ch src1 t i st = Some (r, target')"
    using assms by (auto simp: f_b64_pton_def pton_finish_def split: option.splits sum.splits)
  then obtain cs where cs: "t = Some cs" "pton_loop src None n 0 0 = Some (Inr (ch, src1, None, i, st))"
    using pton_loop_null by blast
  have "pton_end ch src1 None i st = Some (r, None)"
    using l(2) cs(1) assms(2) pton_padded_null [of src1 cs i st r target']
    by (auto simp: pton_end_def split: if_splits)
  then show ?thesis using cs(2) by (simp add: f_b64_pton_def pton_finish_def)
qed

theorem b64_pton_null_target_witness:
  "f_b64_pton [84, 87, 69, 61, 0] None 0 = Some (2, None)"
proof (rule b64_pton_null_target)
  show "f_b64_pton [84, 87, 69, 61, 0] (Some [7, 7, 7]) 3 = Some (2, Some [77, 97, 0])"
    by code_simp
qed simp

end
