(* ===== verification/LdbCoding.thy ===== *)
theory LdbCoding
  imports Varint
begin

text \<open>
  The encodings of LevelDB (\<open>util/coding.cc\<close>, \<open>util/coding.h\<close>). A \<open>Slice\<close> and a
  \<open>std::string\<close> are their bytes, and a pair \<open>p\<close>, \<open>limit\<close> is the bytes between the two; a
  pointer that a routine returns is the bytes from it to the limit, and \<open>NULL\<close> is
  \<open>None\<close>. \<open>port::kLittleEndian\<close> is true.
\<close>

type_synonym slice = "u8 list"

section \<open>Fixed width\<close>

definition EncodeFixed32 :: "u32 \<Rightarrow> slice" where
  "EncodeFixed32 value = le_bytes 4 value"

definition EncodeFixed64 :: "u64 \<Rightarrow> slice" where
  "EncodeFixed64 value = le_bytes 8 value"

definition PutFixed32 :: "slice \<Rightarrow> u32 \<Rightarrow> slice" where
  "PutFixed32 dst value = dst @ EncodeFixed32 value"

definition PutFixed64 :: "slice \<Rightarrow> u64 \<Rightarrow> slice" where
  "PutFixed64 dst value = dst @ EncodeFixed64 value"

text \<open>Callers make sure that the bytes are there.\<close>

definition DecodeFixed32 :: "slice \<Rightarrow> u32" where
  "DecodeFixed32 p = le_word (take 4 p)"

definition DecodeFixed64 :: "slice \<Rightarrow> u64" where
  "DecodeFixed64 p = le_word (take 8 p)"

section \<open>Variable width\<close>

text \<open>The bytes stored at \<open>dst\<close>; the returned pointer is just past them.\<close>

definition EncodeVarint32 :: "u32 \<Rightarrow> slice" where
  "EncodeVarint32 v =
     (if v < push_bit 7 1 then [ucast v]
      else if v < push_bit 14 1 then [ucast (v OR 128), ucast (drop_bit 7 v)]
      else if v < push_bit 21 1
      then [ucast (v OR 128), ucast (drop_bit 7 v OR 128), ucast (drop_bit 14 v)]
      else if v < push_bit 28 1
      then [ucast (v OR 128), ucast (drop_bit 7 v OR 128), ucast (drop_bit 14 v OR 128),
            ucast (drop_bit 21 v)]
      else [ucast (v OR 128), ucast (drop_bit 7 v OR 128), ucast (drop_bit 14 v OR 128),
            ucast (drop_bit 21 v OR 128), ucast (drop_bit 28 v)])"

definition PutVarint32 :: "slice \<Rightarrow> u32 \<Rightarrow> slice" where
  "PutVarint32 dst v = dst @ EncodeVarint32 v"

lemma drop_bit_7_less:
  fixes v :: u64
  assumes "128 \<le> v"
  shows "unat (drop_bit 7 v) < unat v"
proof -
  have "128 \<le> unat v" using assms by (simp add: word_le_nat_alt)
  then show ?thesis by (simp add: unat_drop_bit)
qed

function EncodeVarint64 :: "u64 \<Rightarrow> slice" where
  "EncodeVarint64 v =
     (if v \<ge> 128 then ucast ((v AND 127) OR 128) # EncodeVarint64 (drop_bit 7 v)
      else [ucast v])"
  by pat_completeness auto
termination
  by (relation "measure unat") (simp_all add: drop_bit_7_less)

declare EncodeVarint64.simps [simp del]

definition PutVarint64 :: "slice \<Rightarrow> u64 \<Rightarrow> slice" where
  "PutVarint64 dst v = dst @ EncodeVarint64 v"

text \<open>The length is passed as a \<open>uint32_t\<close>.\<close>

definition PutLengthPrefixedSlice :: "slice \<Rightarrow> slice \<Rightarrow> slice" where
  "PutLengthPrefixedSlice dst v = PutVarint32 dst (of_nat (length v)) @ v"

text \<open>The loop with \<open>len\<close>.\<close>

function varint_length_loop :: "u64 \<Rightarrow> int \<Rightarrow> int" where
  "varint_length_loop v len = (if v \<ge> 128 then varint_length_loop (drop_bit 7 v) (len + 1) else len)"
  by pat_completeness auto
termination
  by (relation "measure (\<lambda>(v, len). unat v)") (simp_all add: drop_bit_7_less)

declare varint_length_loop.simps [simp del]

definition VarintLength :: "u64 \<Rightarrow> int" where
  "VarintLength v = varint_length_loop v 1"

section \<open>Reading\<close>

text \<open>The \<open>for\<close> loop over \<open>shift\<close> and \<open>p\<close>.\<close>

fun varint32_ptr_loop :: "u32 \<Rightarrow> u32 \<Rightarrow> slice \<Rightarrow> (u32 \<times> slice) option" where
  "varint32_ptr_loop shift result [] = None"
| "varint32_ptr_loop shift result (b # p) =
     (if shift \<le> 28 then
        let byte = ucast b :: u32 in
        if byte AND 128 \<noteq> 0
        then varint32_ptr_loop (shift + 7) (result OR push_bit (unat shift) (byte AND 127)) p
        else Some (result OR push_bit (unat shift) byte, p)
      else None)"

definition GetVarint32PtrFallback :: "slice \<Rightarrow> (u32 \<times> slice) option" where
  "GetVarint32PtrFallback p = varint32_ptr_loop 0 0 p"

definition GetVarint32Ptr :: "slice \<Rightarrow> (u32 \<times> slice) option" where
  "GetVarint32Ptr p =
     (case p of
        b # p' \<Rightarrow> (let result = ucast b in
                   if result AND 128 = 0 then Some (result, p') else GetVarint32PtrFallback p)
      | [] \<Rightarrow> GetVarint32PtrFallback p)"

text \<open>The value and the slice after the call, or \<open>None\<close> for false with the slice unchanged.\<close>

definition GetVarint32 :: "slice \<Rightarrow> (u32 \<times> slice) option" where
  "GetVarint32 input = GetVarint32Ptr input"

fun varint64_ptr_loop :: "u32 \<Rightarrow> u64 \<Rightarrow> slice \<Rightarrow> (u64 \<times> slice) option" where
  "varint64_ptr_loop shift result [] = None"
| "varint64_ptr_loop shift result (b # p) =
     (if shift \<le> 63 then
        let byte = ucast b :: u64 in
        if byte AND 128 \<noteq> 0
        then varint64_ptr_loop (shift + 7) (result OR push_bit (unat shift) (byte AND 127)) p
        else Some (result OR push_bit (unat shift) byte, p)
      else None)"

definition GetVarint64Ptr :: "slice \<Rightarrow> (u64 \<times> slice) option" where
  "GetVarint64Ptr p = varint64_ptr_loop 0 0 p"

definition GetVarint64 :: "slice \<Rightarrow> (u64 \<times> slice) option" where
  "GetVarint64 input = GetVarint64Ptr input"

text \<open>
  The two overloads of \<open>GetLengthPrefixedSlice\<close>: the result and what follows it. On failure
  the second one may have moved its input past the length.
\<close>

definition GetLengthPrefixedSlicePtr :: "slice \<Rightarrow> (slice \<times> slice) option" where
  "GetLengthPrefixedSlicePtr p =
     (case GetVarint32Ptr p of
        None \<Rightarrow> None
      | Some (len, p) \<Rightarrow>
          if length p < unat len then None else Some (take (unat len) p, drop (unat len) p))"

definition GetLengthPrefixedSlice :: "slice \<Rightarrow> slice option \<times> slice" where
  "GetLengthPrefixedSlice input =
     (case GetVarint32 input of
        None \<Rightarrow> (None, input)
      | Some (len, input) \<Rightarrow>
          if length input \<ge> unat len then (Some (take (unat len) input), drop (unat len) input)
          else (None, input))"

section \<open>The writers write base 128\<close>

lemma or_128: "(x :: u8) OR 128 = 128 + take_bit 7 x"
proof -
  have "x OR 0x80 = take_bit 7 x OR 0x80"
    by (rule bit_word_eqI) (auto simp only: bit_or_iff bit_take_bit_iff bit_0x80, auto)
  then show ?thesis using or_80 [of x] by simp
qed

lemma ucast_or_128: "(ucast (v OR 128) :: u8) = of_nat (128 + unat (v :: u32) mod 128)"
proof -
  have "(ucast (v OR 128) :: u8) = ucast v OR 128" by (simp add: unsigned_or_eq)
  also have "\<dots> = 128 + take_bit 7 (ucast v)" by (rule or_128)
  also have "take_bit 7 (ucast v :: u8) = ucast (take_bit 7 v)"
    by (rule bit_word_eqI) (auto simp: bit_simps)
  also have "\<dots> = of_nat (unat (take_bit 7 v))" by (simp only: of_nat_unat)
  finally show ?thesis by (simp add: unat_take7)
qed

lemma ucast_small: "unat (v :: 'a::len word) < 128 \<Longrightarrow> (ucast v :: u8) = of_nat (unat v)"
  by (simp only: of_nat_unat)

lemma EncodeVarint64_eq: "EncodeVarint64 v = varint_bytes (unat v)"
proof (induction v rule: EncodeVarint64.induct)
  case (1 v)
  show ?case
  proof (cases "v \<ge> 128")
    case True
    then have "\<not> unat v < 128" by (simp add: word_le_nat_alt)
    then show ?thesis using 1 True cont_byte [of v]
      by (simp add: EncodeVarint64.simps [of v] varint_bytes.simps [of "unat v"] unat_drop_bit del: of_nat_add)
  next
    case False
    then have "unat v < 128" by (simp add: word_le_nat_alt)
    then show ?thesis using False ucast_small [of v]
      by (simp add: EncodeVarint64.simps [of v] varint_bytes.simps [of "unat v"])
  qed
qed

lemma EncodeVarint32_eq: "EncodeVarint32 v = varint_bytes (unat v)"
proof -
  let ?n = "unat v"
  have lt: "v < 128 \<longleftrightarrow> ?n < 2 ^ 7" "v < 16384 \<longleftrightarrow> ?n < 2 ^ 14" "v < 2097152 \<longleftrightarrow> ?n < 2 ^ 21"
    "v < 268435456 \<longleftrightarrow> ?n < 2 ^ 28"
    by (simp_all add: word_less_nat_alt)
  have d: "unat (drop_bit k v) = ?n div 2 ^ k" for k by (rule unat_drop_bit)
  have n: "?n < 2 ^ 32" using unsigned_less [of v] by simp
  note vb = varint_bytes.simps
  have small: "(ucast (drop_bit k v) :: u8) = of_nat (?n div 2 ^ k)" if "?n < 2 ^ (k + 7)" for k
  proof -
    have "?n div 2 ^ k < 128" using that by (simp add: less_mult_imp_div_less power_add mult.commute)
    then show ?thesis using ucast_small [of "drop_bit k v"] d [of k] by simp
  qed
  have cont: "(ucast (drop_bit k v OR 128) :: u8) = of_nat (128 + ?n div 2 ^ k mod 128)" for k
    using ucast_or_128 [of "drop_bit k v"] by (simp only: d)
  consider (1) "?n < 2 ^ 7" | (2) "2 ^ 7 \<le> ?n" "?n < 2 ^ 14" | (3) "2 ^ 14 \<le> ?n" "?n < 2 ^ 21"
    | (4) "2 ^ 21 \<le> ?n" "?n < 2 ^ 28" | (5) "2 ^ 28 \<le> ?n"
    by linarith
  then show ?thesis
  proof cases
    case 1
    then show ?thesis using small [of 0] by (simp add: EncodeVarint32_def lt vb [of ?n])
  next
    case 2
    then show ?thesis using small [of 7] cont [of 0]
      by (simp add: EncodeVarint32_def lt vb [of ?n] vb [of "?n div 128"] del: of_nat_add)
  next
    case 3
    then show ?thesis using small [of 14] cont [of 0] cont [of 7]
      by (simp add: EncodeVarint32_def lt vb [of ?n] vb [of "?n div 128"] vb [of "?n div 16384"]
          div_less_iff_less_mult flip: div_mult2_eq del: of_nat_add)
  next
    case 4
    then show ?thesis using small [of 21] cont [of 0] cont [of 7] cont [of 14]
      by (simp add: EncodeVarint32_def lt vb [of ?n] vb [of "?n div 128"] vb [of "?n div 16384"]
          vb [of "?n div 2097152"] div_less_iff_less_mult flip: div_mult2_eq del: of_nat_add)
  next
    case 5
    then show ?thesis using small [of 28] cont [of 0] cont [of 7] cont [of 14] cont [of 21] n
      by (simp add: EncodeVarint32_def lt vb [of ?n] vb [of "?n div 128"] vb [of "?n div 16384"]
          vb [of "?n div 2097152"] vb [of "?n div 268435456"] div_less_iff_less_mult flip: div_mult2_eq del: of_nat_add)
  qed
qed

lemma varint_length_loop_eq: "varint_length_loop v len = len + int (length (varint_bytes (unat v))) - 1"
proof (induction v len rule: varint_length_loop.induct)
  case (1 v len)
  have "v \<ge> 128 \<longleftrightarrow> \<not> unat v < 128" by (simp add: word_le_nat_alt not_less)
  then show ?case using 1
    by (simp add: varint_length_loop.simps [of v] varint_bytes.simps [of "unat v"] unat_drop_bit)
qed

section \<open>The readers read base 128\<close>

lemma ucast_and_128:
  assumes "8 \<le> LENGTH('a::len)"
  shows "(ucast (b :: u8) :: 'a word) AND 128 = 0 \<longleftrightarrow> unat b < 128"
proof -
  have "(ucast b :: 'a word) AND 128 = (ucast b :: 'a word) AND ucast (128 :: u8)"
    using assms by simp
  also have "\<dots> = ucast (b AND 128)" by (simp only: unsigned_and_eq)
  also have "\<dots> = 0 \<longleftrightarrow> b AND 128 = 0"
    using assms by (simp add: unat_ucast_up flip: unat_eq_0)
  finally show ?thesis using cont_iff [of b] by simp
qed

lemma ucast_and_127:
  assumes "8 \<le> LENGTH('a::len)"
  shows "(ucast (b :: u8) :: 'a word) AND 127 = ucast (b AND 0x7F)"
  using assms by (intro bit_word_eqI) (auto simp: bit_simps and_7F)

lemma varint32_loop_reads:
  assumes "is_varint bs" "unat shift = 7 * k" "k + length bs \<le> 5"
  shows "varint32_ptr_loop shift r (bs @ rest) =
    Some (r OR push_bit (unat shift) (of_nat (group_value bs)), rest)"
  using assms
proof (induction bs arbitrary: shift k r)
  case (Cons b bs)
  have sh: "shift \<le> 28" using Cons.prems by (simp add: word_le_nat_alt)
  have next_shift: "unat (shift + 7) = 7 * Suc k" using Cons.prems by (simp add: unat_word_ariths)
  note byte = ucast_and_128 [of b, where 'a = 32] ucast_and_127 [of b, where 'a = 32]
  show ?case
  proof (cases "unat b < 128")
    case True
    then have bs: "bs = []" and g: "(of_nat (group_value (b # bs)) :: u32) = ucast b"
      using Cons.prems(1) by simp_all
    show ?thesis using bs True sh byte(1) by (simp add: Let_def g [unfolded bs] del: group_value.simps)
  next
    case False
    then have "bs \<noteq> []" "is_varint bs" using Cons.prems(1) by auto
    have e1: "varint32_ptr_loop (shift + 7) (r OR push_bit (unat shift) (ucast (b AND 0x7F))) (bs @ rest) =
        Some ((r OR push_bit (unat shift) (ucast (b AND 0x7F))) OR push_bit (unat (shift + 7)) (of_nat (group_value bs)), rest)"
      using Cons.prems \<open>is_varint bs\<close> next_shift by (intro Cons.IH [where k = "Suc k"]) simp_all
    have e2: "unat (shift + 7) = unat shift + 7" using next_shift Cons.prems(2) by simp
    have e3: "varint32_ptr_loop shift r ((b # bs) @ rest) =
        varint32_ptr_loop (shift + 7) (r OR push_bit (unat shift) (ucast (b AND 0x7F))) (bs @ rest)"
      using False sh byte by (simp add: Let_def)
    show ?thesis unfolding e3 e1 by (simp only: e2 or.assoc group_push group_value.simps)
  qed
qed simp

lemma varint64_loop_reads:
  assumes "is_varint bs" "unat shift = 7 * k" "k + length bs \<le> 10"
  shows "varint64_ptr_loop shift r (bs @ rest) =
    Some (r OR push_bit (unat shift) (of_nat (group_value bs)), rest)"
  using assms
proof (induction bs arbitrary: shift k r)
  case (Cons b bs)
  have sh: "shift \<le> 63" using Cons.prems by (simp add: word_le_nat_alt)
  have next_shift: "unat (shift + 7) = 7 * Suc k" using Cons.prems by (simp add: unat_word_ariths)
  note byte = ucast_and_128 [of b, where 'a = 64] ucast_and_127 [of b, where 'a = 64]
  show ?case
  proof (cases "unat b < 128")
    case True
    then have bs: "bs = []" and g: "(of_nat (group_value (b # bs)) :: u64) = ucast b"
      using Cons.prems(1) by simp_all
    show ?thesis using bs True sh byte(1) by (simp add: Let_def g [unfolded bs] del: group_value.simps)
  next
    case False
    then have "bs \<noteq> []" "is_varint bs" using Cons.prems(1) by auto
    have e1: "varint64_ptr_loop (shift + 7) (r OR push_bit (unat shift) (ucast (b AND 0x7F))) (bs @ rest) =
        Some ((r OR push_bit (unat shift) (ucast (b AND 0x7F))) OR push_bit (unat (shift + 7)) (of_nat (group_value bs)), rest)"
      using Cons.prems \<open>is_varint bs\<close> next_shift by (intro Cons.IH [where k = "Suc k"]) simp_all
    have e2: "unat (shift + 7) = unat shift + 7" using next_shift Cons.prems(2) by simp
    have e3: "varint64_ptr_loop shift r ((b # bs) @ rest) =
        varint64_ptr_loop (shift + 7) (r OR push_bit (unat shift) (ucast (b AND 0x7F))) (bs @ rest)"
      using False sh byte by (simp add: Let_def)
    show ?thesis unfolding e3 e1 by (simp only: e2 or.assoc group_push group_value.simps)
  qed
qed simp

text \<open>The fast path for one byte agrees with the loop.\<close>

lemma GetVarint32Ptr_loop: "GetVarint32Ptr p = varint32_ptr_loop 0 0 p"
  by (auto simp: GetVarint32Ptr_def GetVarint32PtrFallback_def Let_def split: list.splits)

lemma GetVarint32_reads [simp]: "GetVarint32 (EncodeVarint32 v @ rest) = Some (v, rest)"
proof -
  have "unat v < 128 ^ 5" using unat_lt32 [of v] by simp
  then have "length (varint_bytes (unat v)) \<le> 5" by (rule length_varint_bytes) simp
  then show ?thesis
    using varint32_loop_reads [OF is_varint_varint_bytes, of 0 0 "unat v" 0 rest]
    by (simp add: GetVarint32_def GetVarint32Ptr_loop EncodeVarint32_eq group_value_varint_bytes)
qed

lemma GetVarint32Ptr_reads [simp]: "GetVarint32Ptr (EncodeVarint32 v @ rest) = Some (v, rest)"
  using GetVarint32_reads by (simp add: GetVarint32_def)

lemma GetVarint64_reads [simp]: "GetVarint64 (EncodeVarint64 v @ rest) = Some (v, rest)"
  using varint64_loop_reads [OF is_varint_varint_bytes, of 0 0 "unat v" 0 rest] length_varint_bytes_u64 [of v]
  by (simp add: GetVarint64_def GetVarint64Ptr_def EncodeVarint64_eq group_value_varint_bytes)

lemma GetLengthPrefixedSlice_reads [simp]:
  assumes "length v < 2 ^ 32"
  shows "GetLengthPrefixedSlice (EncodeVarint32 (of_nat (length v)) @ v @ rest) = (Some v, rest)"
    "GetLengthPrefixedSlicePtr (EncodeVarint32 (of_nat (length v)) @ v @ rest) = Some (v, rest)"
  using assms by (simp_all add: GetLengthPrefixedSlice_def GetLengthPrefixedSlicePtr_def unat_of_nat_lt)

lemma DecodeFixed_EncodeFixed [simp]:
  "DecodeFixed32 (EncodeFixed32 v @ rest) = v" "DecodeFixed64 (EncodeFixed64 w @ rest) = w"
  "DecodeFixed32 (EncodeFixed32 v) = v" "DecodeFixed64 (EncodeFixed64 w) = w"
  by (simp_all add: DecodeFixed32_def EncodeFixed32_def DecodeFixed64_def EncodeFixed64_def le_word_le_bytes)

lemma length_EncodeFixed [simp]: "length (EncodeFixed32 v) = 4" "length (EncodeFixed64 w) = 8"
  by (simp_all add: EncodeFixed32_def EncodeFixed64_def)

lemma length_EncodeVarint32: "1 \<le> length (EncodeVarint32 v)" "length (EncodeVarint32 v) \<le> 5"
proof -
  have "unat v < 128 ^ 5" using unat_lt32 [of v] by simp
  then show "length (EncodeVarint32 v) \<le> 5" unfolding EncodeVarint32_eq by (rule length_varint_bytes) simp
  show "1 \<le> length (EncodeVarint32 v)"
    unfolding EncodeVarint32_eq using varint_bytes_nonempty [of "unat v"] by (cases "varint_bytes (unat v)") simp_all
qed

section \<open>Readers stay in their input\<close>

text \<open>\<open>reads d\<close>: whatever the bytes, a success of \<open>d\<close> consumes between one and \<open>n\<close> of them.\<close>

definition consumes :: "nat \<Rightarrow> slice \<Rightarrow> ('a \<times> slice) option \<Rightarrow> bool" where
  "consumes n p r \<longleftrightarrow> (case r of None \<Rightarrow> True
     | Some (v, p') \<Rightarrow> \<exists>k. 1 \<le> k \<and> k \<le> n \<and> k \<le> length p \<and> p' = drop k p)"

lemma consumes_Cons: "consumes n p r \<Longrightarrow> consumes (Suc n) (b # p) r"
proof (cases r)
  case (Some a)
  assume "consumes n p r"
  then obtain v k where "r = Some (v, drop k p)" "1 \<le> k" "k \<le> n" "k \<le> length p"
    using Some by (cases a) (auto simp: consumes_def)
  then show ?thesis by (auto simp: consumes_def intro!: exI [of _ "Suc k"])
qed (simp add: consumes_def)

lemma varint32_loop_consumes:
  "unat shift = 7 * k \<Longrightarrow> k \<le> 5 \<Longrightarrow> consumes (5 - k) p (varint32_ptr_loop shift r p)"
proof (induction p arbitrary: shift k r)
  case (Cons b p)
  show ?case
  proof (cases "shift \<le> 28")
    case True
    then have k: "Suc k \<le> 5" "5 - k = Suc (5 - Suc k)" using Cons.prems by (auto simp: word_le_nat_alt)
    have "unat (shift + 7) = 7 * Suc k" using Cons.prems by (simp add: unat_word_ariths)
    then have ih: "consumes (5 - Suc k) p (varint32_ptr_loop (shift + 7) r' p)" for r'
      using Cons.IH k(1) by blast
    have "consumes (5 - k) (b # p) (Some (v, p))" for v :: u32
      using k by (auto simp: consumes_def intro!: exI [of _ 1])
    then show ?thesis using True consumes_Cons [OF ih] k by (simp add: Let_def)
  qed (simp add: consumes_def)
qed (simp add: consumes_def)

lemma varint64_loop_consumes:
  "unat shift = 7 * k \<Longrightarrow> k \<le> 10 \<Longrightarrow> consumes (10 - k) p (varint64_ptr_loop shift r p)"
proof (induction p arbitrary: shift k r)
  case (Cons b p)
  show ?case
  proof (cases "shift \<le> 63")
    case True
    then have k: "Suc k \<le> 10" "10 - k = Suc (10 - Suc k)" using Cons.prems by (auto simp: word_le_nat_alt)
    have "unat (shift + 7) = 7 * Suc k" using Cons.prems by (simp add: unat_word_ariths)
    then have ih: "consumes (10 - Suc k) p (varint64_ptr_loop (shift + 7) r' p)" for r'
      using Cons.IH k(1) by blast
    have "consumes (10 - k) (b # p) (Some (v, p))" for v :: u64
      using k by (auto simp: consumes_def intro!: exI [of _ 1])
    then show ?thesis using True consumes_Cons [OF ih] k by (simp add: Let_def)
  qed (simp add: consumes_def)
qed (simp add: consumes_def)

lemma GetVarint_consumes: "consumes 5 p (GetVarint32 p)" "consumes 10 p (GetVarint64 p)"
  using varint32_loop_consumes [of 0 0 p 0] varint64_loop_consumes [of 0 0 p 0]
  by (simp_all add: GetVarint32_def GetVarint32Ptr_loop GetVarint64_def GetVarint64Ptr_def)

text \<open>A varint that is cut is not read.\<close>

lemma varint32_loop_cut: "\<forall>b \<in> set p. 128 \<le> unat b \<Longrightarrow> varint32_ptr_loop shift r p = None"
proof (induction p arbitrary: shift r)
  case (Cons b p)
  then show ?case using ucast_and_128 [of b, where 'a = 32] by (simp add: Let_def)
qed simp

lemma GetVarint32_cut:
  assumes "j < length (EncodeVarint32 v)"
  shows "GetVarint32 (take j (EncodeVarint32 v)) = None"
proof -
  obtain cs b where c: "EncodeVarint32 v = cs @ [b]" "\<forall>c\<in>set cs. 128 \<le> unat c"
    using is_varint_split [OF is_varint_varint_bytes [of "unat v"]] by (auto simp: EncodeVarint32_eq)
  then have "take j (EncodeVarint32 v) = take j cs" using assms by simp
  then show ?thesis
    using c(2) varint32_loop_cut [of "take j cs" 0 0] by (auto simp: GetVarint32_def GetVarint32Ptr_loop dest: in_set_takeD)
qed

section \<open>Properties\<close>

text \<open>
  The unrolled \<open>EncodeVarint32\<close> and the loop of \<open>EncodeVarint64\<close> write the same bytes,
  the base-128 encoding of the value, and \<open>VarintLength\<close> is their number.
\<close>

theorem varint_writers_agree:
  "EncodeVarint64 w = varint_bytes (unat w) \<and> EncodeVarint32 v = EncodeVarint64 (ucast v)
   \<and> VarintLength w = int (length (EncodeVarint64 w))"
  by (simp_all add: EncodeVarint32_eq EncodeVarint64_eq VarintLength_def varint_length_loop_eq unat_ucast_up)

text \<open>
  What the \<open>Put\<close> routines append is what the \<open>Get\<close> routines take off: numbers of 32 and
  64 bits, and slices of less than 4 GiB.
\<close>

theorem coding_roundtrip:
  assumes "length x < 2 ^ 32"
  shows "GetVarint32 (drop (length dst) (PutVarint32 dst v) @ rest) = Some (v, rest)
    \<and> GetVarint64 (drop (length dst) (PutVarint64 dst w) @ rest) = Some (w, rest)
    \<and> GetLengthPrefixedSlice (drop (length dst) (PutLengthPrefixedSlice dst x) @ rest) = (Some x, rest)
    \<and> DecodeFixed32 (drop (length dst) (PutFixed32 dst v)) = v
    \<and> DecodeFixed64 (drop (length dst) (PutFixed64 dst w)) = w"
  using assms by (simp add: PutVarint32_def PutVarint64_def PutLengthPrefixedSlice_def PutFixed32_def PutFixed64_def)

theorem coding_roundtrip_witness:
  "GetVarint32 ([172, 2] @ [9]) = Some (300, [9]) \<and> GetLengthPrefixedSlice ([2, 65, 66] @ [9]) = (Some [65, 66], [9])"
proof -
  have l: "length [65, 66 :: u8] < 2 ^ 32" by simp
  have e: "PutVarint32 [] 300 = [172, 2]" "PutLengthPrefixedSlice [] [65, 66] = [2, 65, 66]"
    by code_simp+
  show ?thesis using coding_roundtrip [OF l, of "[]" 300 "[9]"] unfolding e by simp
qed

lemma coding_shorter: "length (snd (GetLengthPrefixedSlice p)) \<le> length p"
proof (cases "GetVarint32 p")
  case (Some a)
  then obtain len q where "a = (len, q)" "length q \<le> length p"
    using GetVarint_consumes(1) [of p] by (cases a) (auto simp: consumes_def)
  then show ?thesis using Some by (auto simp: GetLengthPrefixedSlice_def)
qed (simp add: GetLengthPrefixedSlice_def)

text \<open>
  On any bytes, a varint that is read is between one and five (ten) of them, from the
  front; and a length-prefixed slice lies within its input.
\<close>

theorem coding_bounds:
  "consumes 5 p (GetVarint32 p) \<and> consumes 10 p (GetVarint64 p)
   \<and> (\<exists>k \<le> length p. snd (GetLengthPrefixedSlice p) = drop k p
       \<and> (case fst (GetLengthPrefixedSlice p) of
            None \<Rightarrow> True | Some x \<Rightarrow> \<exists>i. x @ drop k p = drop i p))"
proof -
  note c = GetVarint_consumes [of p]
  have "\<exists>k \<le> length p. snd (GetLengthPrefixedSlice p) = drop k p
      \<and> (case fst (GetLengthPrefixedSlice p) of
           None \<Rightarrow> True | Some x \<Rightarrow> \<exists>i. x @ drop k p = drop i p)"
  proof (cases "GetVarint32 p")
    case None
    then show ?thesis by (auto simp: GetLengthPrefixedSlice_def intro!: exI [of _ 0])
  next
    case (Some a)
    then obtain len k where k: "GetVarint32 p = Some (len, drop k p)" "k \<le> length p"
      using c(1) by (cases a) (auto simp: consumes_def)
    show ?thesis
    proof (cases "length (drop k p) \<ge> unat len")
      case True
      then have "take (unat len) (drop k p) @ drop (k + unat len) p = drop k p"
        by (metis append_take_drop_id drop_drop add.commute)
      then show ?thesis using k True
        by (intro exI [of _ "k + unat len"])
           (auto simp: GetLengthPrefixedSlice_def add.commute simp del: length_drop simp flip: drop_drop; simp add: add.commute)
    next
      case False
      then show ?thesis using k by (intro exI [of _ k]) (auto simp: GetLengthPrefixedSlice_def)
    qed
  qed
  then show ?thesis using c by blast
qed

end
