(* ===== verification/LdbComparator.thy ===== *)
theory LdbComparator
  imports LdbCoding
begin

text \<open>
  Comparators (\<open>include/leveldb/comparator.h\<close>, \<open>util/comparator.cc\<close>, \<open>Slice::compare\<close> of
  \<open>include/leveldb/slice.h\<close>): the interface as a locale, and the bytewise comparator, whose
  order is the lexicographic one.
\<close>

section \<open>The interface\<close>

text \<open>
  \<open>cmp\<close> is a three-way comparison that orders the valid keys totally. \<open>sep start limit\<close> is
  \<open>*start\<close> after \<open>FindShortestSeparator\<close>, \<open>succ key\<close> is \<open>*key\<close> after
  \<open>FindShortSuccessor\<close>.
\<close>

locale comparator =
  fixes cmp :: "slice \<Rightarrow> slice \<Rightarrow> int"
    and sep :: "slice \<Rightarrow> slice \<Rightarrow> slice"
    and succ :: "slice \<Rightarrow> slice"
    and valid :: "slice \<Rightarrow> bool"
  assumes cmp_eq: "valid a \<Longrightarrow> valid b \<Longrightarrow> cmp a b = 0 \<longleftrightarrow> a = b"
    and cmp_swap: "valid a \<Longrightarrow> valid b \<Longrightarrow> cmp b a > 0 \<longleftrightarrow> cmp a b < 0"
    and cmp_trans: "valid a \<Longrightarrow> valid b \<Longrightarrow> valid c \<Longrightarrow> cmp a b < 0 \<Longrightarrow> cmp b c < 0 \<Longrightarrow> cmp a c < 0"
    and sep_between: "valid a \<Longrightarrow> valid b \<Longrightarrow> cmp a b < 0 \<Longrightarrow>
      valid (sep a b) \<and> cmp a (sep a b) \<le> 0 \<and> cmp (sep a b) b < 0"
    and sep_same: "valid a \<Longrightarrow> sep a a = a"
    and succ_above: "valid a \<Longrightarrow> valid (succ a) \<and> cmp a (succ a) \<le> 0"
begin

lemma cmp_refl [simp]: "valid a \<Longrightarrow> cmp a a = 0"
  by (simp add: cmp_eq)

lemma cmp_irrefl: "valid a \<Longrightarrow> \<not> cmp a a < 0"
  by simp

lemma cmp_total: "valid a \<Longrightarrow> valid b \<Longrightarrow> cmp a b < 0 \<or> a = b \<or> cmp b a < 0"
  using cmp_eq [of a b] cmp_swap [of b a] by fastforce

lemma cmp_le_trans:
  assumes "valid a" "valid b" "valid c" "cmp a b \<le> 0" "cmp b c \<le> 0"
  shows "cmp a c \<le> 0"
proof -
  have "cmp a b < 0 \<or> a = b" "cmp b c < 0 \<or> b = c"
    using assms cmp_eq [of a b] cmp_eq [of b c] by auto
  then show ?thesis using assms cmp_trans [of a b c] by auto
qed

lemma cmp_le_less_trans:
  "valid a \<Longrightarrow> valid b \<Longrightarrow> valid c \<Longrightarrow> cmp a b \<le> 0 \<Longrightarrow> cmp b c < 0 \<Longrightarrow> cmp a c < 0"
  using cmp_trans [of a b c] cmp_eq [of a b] by (cases "cmp a b = 0") auto

lemma cmp_less_le_trans:
  "valid a \<Longrightarrow> valid b \<Longrightarrow> valid c \<Longrightarrow> cmp a b < 0 \<Longrightarrow> cmp b c \<le> 0 \<Longrightarrow> cmp a c < 0"
  using cmp_trans [of a b c] cmp_eq [of b c] by (cases "cmp b c = 0") auto

lemma not_less_iff: "valid a \<Longrightarrow> valid b \<Longrightarrow> \<not> cmp a b < 0 \<longleftrightarrow> cmp b a \<le> 0"
  using cmp_swap [of a b] by auto

end

section \<open>Comparing bytes\<close>

text \<open>The sign of \<open>memcmp\<close>.\<close>

fun memcmp :: "slice \<Rightarrow> slice \<Rightarrow> nat \<Rightarrow> int" where
  "memcmp (x # a) (y # b) (Suc n) =
     (if x < y then - 1 else if y < x then 1 else memcmp a b n)"
| "memcmp _ _ _ = 0"

definition Slice_compare :: "slice \<Rightarrow> slice \<Rightarrow> int" where
  "Slice_compare a b =
     (let min_len = (if length a < length b then length a else length b);
          r = memcmp a b min_len in
      if r = 0 then
        if length a < length b then - 1 else if length a > length b then 1 else r
      else r)"

definition starts_with :: "slice \<Rightarrow> slice \<Rightarrow> bool" where
  "starts_with s x \<longleftrightarrow> length s \<ge> length x \<and> memcmp s x (length x) = 0"

section \<open>The bytewise comparator\<close>

definition Bytewise_Compare :: "slice \<Rightarrow> slice \<Rightarrow> int" where
  "Bytewise_Compare a b = Slice_compare a b"

text \<open>The loop that finds the length of the common prefix.\<close>

fun diff_index :: "slice \<Rightarrow> slice \<Rightarrow> nat" where
  "diff_index (x # a) (y # b) = (if x = y then Suc (diff_index a b) else 0)"
| "diff_index _ _ = 0"

text \<open>\<open>diff_byte + 1\<close> is computed as an \<open>int\<close>.\<close>

definition Bytewise_FindShortestSeparator :: "slice \<Rightarrow> slice \<Rightarrow> slice" where
  "Bytewise_FindShortestSeparator start limit =
     (let min_length = min (length start) (length limit); i = diff_index start limit in
      if i \<ge> min_length then start
      else
        let diff_byte = start ! i in
        if diff_byte < 0xff \<and> unat diff_byte + 1 < unat (limit ! i)
        then take (i + 1) (start[i := start ! i + 1])
        else start)"

text \<open>The loop over \<open>i\<close>; the bytes before \<open>i\<close> are the first argument.\<close>

fun successor_loop :: "slice \<Rightarrow> slice \<Rightarrow> slice" where
  "successor_loop pre [] = pre"
| "successor_loop pre (b # rest) = (if b \<noteq> 0xff then pre @ [b + 1] else successor_loop (pre @ [b]) rest)"

definition Bytewise_FindShortSuccessor :: "slice \<Rightarrow> slice" where
  "Bytewise_FindShortSuccessor key = successor_loop [] key"

section \<open>The order of bytes\<close>

text \<open>The lexicographic order, as the reference.\<close>

fun bytes_less :: "slice \<Rightarrow> slice \<Rightarrow> bool" where
  "bytes_less _ [] = False"
| "bytes_less [] (y # b) = True"
| "bytes_less (x # a) (y # b) = (x < y \<or> x = y \<and> bytes_less a b)"

lemma Slice_compare_Cons [simp]:
  "Slice_compare (x # a) (y # b) = (if x < y then - 1 else if y < x then 1 else Slice_compare a b)"
  by (simp add: Slice_compare_def Let_def)

lemma Slice_compare_Nil [simp]:
  "Slice_compare [] (y # b) = - 1" "Slice_compare (x # a) [] = 1" "Slice_compare [] [] = 0"
  by (simp_all add: Slice_compare_def Let_def)

lemma compare_less: "Slice_compare a b < 0 \<longleftrightarrow> bytes_less a b"
  by (induction a b rule: bytes_less.induct)
     (auto simp: neq_Nil_conv split: list.splits, metis Slice_compare_Nil(2,3) list.exhaust not_one_less_zero order_less_irrefl)

lemma compare_eq: "Slice_compare a b = 0 \<longleftrightarrow> a = b"
proof (induction a arbitrary: b)
  case Nil
  then show ?case by (cases b) simp_all
next
  case (Cons x a)
  then show ?case by (cases b) auto
qed

lemma compare_swap: "Slice_compare b a = - Slice_compare a b"
proof (induction a arbitrary: b)
  case Nil
  then show ?case by (cases b) simp_all
next
  case (Cons x a)
  then show ?case by (cases b) auto
qed

lemma bytes_less_trans: "bytes_less a b \<Longrightarrow> bytes_less b c \<Longrightarrow> bytes_less a c"
proof (induction a arbitrary: b c)
  case Nil
  then show ?case by (cases b; cases c) auto
next
  case (Cons x a)
  then show ?case by (cases b; cases c) auto
qed

lemma diff_index_bounds: "diff_index a b \<le> length a" "diff_index a b \<le> length b"
  by (induction a b rule: diff_index.induct) auto

lemma diff_index_split:
  "diff_index a b < length a \<Longrightarrow> diff_index a b < length b \<Longrightarrow>
   take (diff_index a b) a = take (diff_index a b) b \<and> a ! diff_index a b \<noteq> b ! diff_index a b"
  by (induction a b rule: diff_index.induct) auto

lemma bytes_less_append: "bytes_less (p @ a) (p @ b) = bytes_less a b"
  by (induction p) simp_all

lemma less_plus_1: "(b :: u8) \<noteq> 0xff \<Longrightarrow> b < b + 1 \<and> unat (b + 1) = unat b + 1"
proof -
  assume b: "b \<noteq> 0xff"
  have "unat b \<noteq> 255"
  proof
    assume "unat b = 255"
    then have "b = of_nat 255" by (metis of_nat_unat ucast_id)
    then show False using b by simp
  qed
  then have "unat b + 1 < 256" using unat_u8 [of b] by simp
  then have "unat (b + 1) = unat b + 1" by (simp add: unat_word_ariths)
  then show ?thesis by (simp add: word_less_nat_alt)
qed

lemma separator_between:
  assumes "bytes_less a b"
  shows "Slice_compare a (Bytewise_FindShortestSeparator a b) \<le> 0"
    "bytes_less (Bytewise_FindShortestSeparator a b) b"
    "length (Bytewise_FindShortestSeparator a b) \<le> length a"
proof -
  let ?i = "diff_index a b" and ?s = "Bytewise_FindShortestSeparator a b"
  have "Slice_compare a ?s \<le> 0 \<and> bytes_less ?s b \<and> length ?s \<le> length a"
  proof (cases "?s = a")
    case True
    then show ?thesis using assms compare_eq [of a a] by simp
  next
    case False
    then have c: "?i < length a" "?i < length b" "a ! ?i < 0xff" "unat (a ! ?i) + 1 < unat (b ! ?i)"
      and s: "?s = take (?i + 1) (a[?i := a ! ?i + 1])"
      by (auto simp: Bytewise_FindShortestSeparator_def Let_def split: if_splits)
    let ?p = "take ?i a"
    note d = diff_index_split [OF c(1,2)]
    have a: "a = ?p @ a ! ?i # drop (Suc ?i) a" using c(1) by (rule id_take_nth_drop)
    have b: "b = ?p @ b ! ?i # drop (Suc ?i) b" using id_take_nth_drop [OF c(2)] d by simp
    have s': "?s = ?p @ [a ! ?i + 1]"
      unfolding s using c(1) by (simp add: take_Suc_conv_app_nth)
    have n: "a ! ?i < a ! ?i + 1" "unat (a ! ?i + 1) = unat (a ! ?i) + 1"
      using less_plus_1 [of "a ! ?i"] c(3) by auto
    have "bytes_less a ?s" unfolding s' by (subst a) (simp add: bytes_less_append n)
    moreover have "bytes_less ?s b" unfolding s'
      by (subst b) (use c(4) n in \<open>simp add: bytes_less_append word_less_nat_alt\<close>)
    moreover have "length ?s \<le> length a" unfolding s' using c(1) by simp
    ultimately show ?thesis using compare_less [of a ?s] by simp
  qed
  then show "Slice_compare a ?s \<le> 0" "bytes_less ?s b" "length ?s \<le> length a" by blast+
qed

lemma diff_index_same [simp]: "diff_index a a = length a"
  by (induction a) simp_all

lemma successor_loop_above: "successor_loop pre key = pre @ key \<or> bytes_less (pre @ key) (successor_loop pre key)"
proof (induction key arbitrary: pre)
  case (Cons b rest)
  show ?case
  proof (cases "b = 0xff")
    case True
    then show ?thesis using Cons [of "pre @ [b]"] by simp
  next
    case False
    then show ?thesis using less_plus_1 [OF False] by (simp add: bytes_less_append)
  qed
qed simp

interpretation bytewise: comparator Bytewise_Compare Bytewise_FindShortestSeparator
  Bytewise_FindShortSuccessor "\<lambda>_. True"
proof unfold_locales
  fix a b c :: slice
  show "Bytewise_Compare a b = 0 \<longleftrightarrow> a = b" by (simp add: Bytewise_Compare_def compare_eq)
  show "Bytewise_Compare b a > 0 \<longleftrightarrow> Bytewise_Compare a b < 0"
    using compare_swap [of b a] by (simp add: Bytewise_Compare_def)
  show "Bytewise_Compare a b < 0 \<Longrightarrow> Bytewise_Compare b c < 0 \<Longrightarrow> Bytewise_Compare a c < 0"
    using bytes_less_trans by (simp add: Bytewise_Compare_def compare_less)
  show "Bytewise_Compare a b < 0 \<Longrightarrow> True \<and> Bytewise_Compare a (Bytewise_FindShortestSeparator a b) \<le> 0
      \<and> Bytewise_Compare (Bytewise_FindShortestSeparator a b) b < 0"
    using separator_between [of a b] by (simp add: Bytewise_Compare_def compare_less)
  show "Bytewise_FindShortestSeparator a a = a"
    by (simp add: Bytewise_FindShortestSeparator_def)
  show "True \<and> Bytewise_Compare a (Bytewise_FindShortSuccessor a) \<le> 0"
    using successor_loop_above [of "[]" a] compare_less [of a "successor_loop [] a"] compare_eq [of a a]
    by (auto simp: Bytewise_Compare_def Bytewise_FindShortSuccessor_def)
qed

section \<open>Properties\<close>

text \<open>
  The bytewise comparator is the lexicographic order of the bytes, unsigned: its sign is
  that order's, it is zero on equal keys only, and the order is total and transitive.
\<close>

theorem bytewise_order:
  "(Bytewise_Compare a b < 0 \<longleftrightarrow> bytes_less a b) \<and> (Bytewise_Compare a b = 0 \<longleftrightarrow> a = b)
   \<and> (Bytewise_Compare a b < 0 \<or> a = b \<or> Bytewise_Compare b a < 0)
   \<and> Bytewise_Compare b a = - Bytewise_Compare a b
   \<and> \<not> (Bytewise_Compare a b < 0 \<and> Bytewise_Compare b c < 0 \<and> \<not> Bytewise_Compare a c < 0)"
  using bytewise.cmp_total [of a b] bytewise.cmp_trans [of a b c] compare_swap [of b a]
  by (auto simp: Bytewise_Compare_def compare_less compare_eq)

text \<open>
  \<open>FindShortestSeparator\<close> returns a key from \<open>start\<close> to below \<open>limit\<close>, no longer than
  \<open>start\<close>, and \<open>FindShortSuccessor\<close> one at or above its key.
\<close>

theorem bytewise_separator:
  assumes "Bytewise_Compare start limit < 0"
  shows "Bytewise_Compare start (Bytewise_FindShortestSeparator start limit) \<le> 0
    \<and> Bytewise_Compare (Bytewise_FindShortestSeparator start limit) limit < 0
    \<and> length (Bytewise_FindShortestSeparator start limit) \<le> length start
    \<and> Bytewise_Compare key (Bytewise_FindShortSuccessor key) \<le> 0"
  using bytewise.sep_between [of start limit] bytewise.succ_above [of key] assms
    separator_between(3) [of start limit] by (simp add: Bytewise_Compare_def compare_less)

theorem bytewise_separator_witness:
  "Bytewise_FindShortestSeparator [97, 98, 99] [97, 101] = [97, 99]
   \<and> Bytewise_Compare [97, 99] [97, 101] < 0"
proof -
  have s: "Bytewise_FindShortestSeparator [97, 98, 99] [97, 101] = [97, 99]"
    by (simp add: Bytewise_FindShortestSeparator_def)
  have "Bytewise_Compare [97, 98, 99] [97, 101] < 0" by (simp add: Bytewise_Compare_def)
  from bytewise_separator [OF this] s show ?thesis by simp
qed

end
