(* ===== verification/LdbBloom.thy ===== *)
theory LdbBloom
  imports LdbCoding
begin

text \<open>
  The hash function of LevelDB (\<open>util/hash.cc\<close>) and the Bloom filters it feeds
  (\<open>util/bloom.cc\<close>), through the interface \<open>FilterPolicy\<close>.
\<close>

section \<open>The interface of a filter policy\<close>

text \<open>
  \<open>create keys dst\<close> appends a filter to \<open>dst\<close>; \<open>may_match\<close> must find the keys it was made
  from, and may find others (\<open>include/leveldb/filter_policy.h\<close>).
\<close>

locale filter_policy =
  fixes create :: "slice list \<Rightarrow> slice \<Rightarrow> slice"
    and may_match :: "slice \<Rightarrow> slice \<Rightarrow> bool"
    and fits_policy :: "slice list \<Rightarrow> bool"
  assumes appends: "create keys dst = dst @ create keys []"
    and finds: "fits_policy keys \<Longrightarrow> key \<in> set keys \<Longrightarrow> may_match key (create keys [])"

section \<open>Hash\<close>

function hash_words :: "u32 \<Rightarrow> slice \<Rightarrow> u32 \<times> slice" where
  "hash_words h data =
     (if 4 \<le> length data then
        let h1 = (h + DecodeFixed32 data) * 0xc6a4a793 in
        hash_words (h1 XOR drop_bit 16 h1) (drop 4 data)
      else (h, data))"
  by pat_completeness auto
termination by (relation "measure (\<lambda>(h, data). length data)") auto

declare hash_words.simps [simp del]

text \<open>
  The switch on the bytes that remain, with its fallthrough; \<open>data[2] << 16\<close> is the byte,
  unsigned, shifted as an \<open>int\<close>.
\<close>

definition hash_tail :: "u32 \<Rightarrow> slice \<Rightarrow> u32" where
  "hash_tail h data =
     (if length data = 0 then h
      else
        let h = (if 3 \<le> length data then h + push_bit 16 (ucast (data ! 2)) else h);
            h = (if 2 \<le> length data then h + push_bit 8 (ucast (data ! 1)) else h);
            h = (h + ucast (data ! 0)) * 0xc6a4a793
        in h XOR drop_bit 24 h)"

definition Hash :: "slice \<Rightarrow> u32 \<Rightarrow> u32" where
  "Hash data seed =
     (case hash_words (seed XOR (of_nat (length data) * 0xc6a4a793)) data of
        (h, rest) \<Rightarrow> hash_tail h rest)"

section \<open>Bloom filters\<close>

definition BloomHash :: "slice \<Rightarrow> u32" where
  "BloomHash key = Hash key 0xbc9f1d34"

text \<open>
  The number of probes, \<open>bits_per_key * 0.69\<close> rounded down and kept between 1 and 30: below
  the cap, the product in double precision has the integer part of the rational one.
\<close>

definition bloom_k :: "nat \<Rightarrow> nat" where
  "bloom_k bits_per_key = min 30 (max 1 (bits_per_key * 69 div 100))"

definition bloom_delta :: "u32 \<Rightarrow> u32" where
  "bloom_delta h = drop_bit 17 h OR push_bit 15 h"

text \<open>\<open>array[bitpos/8] |= (1 << (bitpos % 8))\<close>\<close>

definition set_bit_at :: "nat \<Rightarrow> slice \<Rightarrow> slice" where
  "set_bit_at bitpos array = array[bitpos div 8 := array ! (bitpos div 8) OR push_bit (bitpos mod 8) 1]"

definition bloom_bitpos :: "u32 \<Rightarrow> u64 \<Rightarrow> nat" where
  "bloom_bitpos h bits = unat (ucast ((ucast h :: u64) mod bits) :: u32)"

fun bloom_probes :: "nat \<Rightarrow> u64 \<Rightarrow> u32 \<Rightarrow> u32 \<Rightarrow> slice \<Rightarrow> slice" where
  "bloom_probes 0 bits delta h array = array"
| "bloom_probes (Suc j) bits delta h array =
     bloom_probes j bits delta (h + delta) (set_bit_at (bloom_bitpos h bits) array)"

definition bloom_add :: "nat \<Rightarrow> u64 \<Rightarrow> slice \<Rightarrow> slice \<Rightarrow> slice" where
  "bloom_add k bits key array =
     (let h = BloomHash key in bloom_probes k bits (bloom_delta h) h array)"

definition CreateFilter :: "nat \<Rightarrow> slice list \<Rightarrow> slice \<Rightarrow> slice" where
  "CreateFilter bits_per_key keys dst =
     (let bits = of_nat (length keys) * of_nat bits_per_key :: u64;
          bits = (if bits < 64 then 64 else bits);
          bytes = (bits + 7) div 8;
          bits = bytes * 8;
          array = fold (bloom_add (bloom_k bits_per_key) bits) keys (replicate (unat bytes) 0)
      in dst @ array @ [of_nat (bloom_k bits_per_key)])"

fun bloom_test :: "nat \<Rightarrow> u64 \<Rightarrow> u32 \<Rightarrow> u32 \<Rightarrow> slice \<Rightarrow> bool" where
  "bloom_test 0 bits delta h array = True"
| "bloom_test (Suc j) bits delta h array =
     (let bitpos = bloom_bitpos h bits in
      if array ! (bitpos div 8) AND push_bit (bitpos mod 8) 1 = 0 then False
      else bloom_test j bits delta (h + delta) array)"

text \<open>\<open>char\<close> is signed: \<open>array[len-1]\<close> is sign extended to \<open>size_t\<close>.\<close>

definition KeyMayMatch :: "slice \<Rightarrow> slice \<Rightarrow> bool" where
  "KeyMayMatch key bloom_filter =
     (let len = length bloom_filter in
      if len < 2 then False
      else
        let bits = (of_nat len - 1) * 8 :: u64;
            k = scast (bloom_filter ! (len - 1)) :: u64
        in if k > 30 then True
           else
             let h = BloomHash key in
             bloom_test (unat k) bits (bloom_delta h) h bloom_filter)"

section \<open>No false negatives\<close>

definition has_bit :: "slice \<Rightarrow> nat \<Rightarrow> bool" where
  "has_bit array i \<longleftrightarrow> bit (array ! (i div 8)) (i mod 8)"

lemma bit_single: "n < 8 \<Longrightarrow> k < 8 \<Longrightarrow> bit (push_bit n 1 :: u8) k \<longleftrightarrow> k = n"
  by (auto simp: bit_simps)

lemma and_single_bit: "n < 8 \<Longrightarrow> (b :: u8) AND push_bit n 1 = 0 \<longleftrightarrow> \<not> bit b n"
proof -
  assume n: "n < 8"
  note s = bit_single [OF n]
  show ?thesis
  proof
    assume "b AND push_bit n 1 = 0"
    then have "\<not> bit (b AND push_bit n 1) n" by simp
    then show "\<not> bit b n" using s [OF n] by (simp only: bit_and_iff) simp
  next
    assume "\<not> bit b n"
    then show "b AND push_bit n 1 = 0" using s by (intro bit_word_eqI) (auto simp: bit_and_iff)
  qed
qed

lemma set_bit_at:
  assumes "i < 8 * length array"
  shows "length (set_bit_at i array) = length array" "has_bit (set_bit_at i array) i"
    "has_bit array j \<Longrightarrow> has_bit (set_bit_at i array) j"
proof -
  show "length (set_bit_at i array) = length array" by (simp add: set_bit_at_def)
  have l: "i div 8 < length array" using assms by (simp add: div_less_iff_less_mult mult.commute)
  have b: "bit (push_bit (i mod 8) 1 :: u8) (i mod 8)" using bit_single [of "i mod 8" "i mod 8"] by simp
  show "has_bit (set_bit_at i array) i"
    using l b by (simp add: has_bit_def set_bit_at_def bit_or_iff)
  show "has_bit (set_bit_at i array) j" if "has_bit array j"
    using that l by (cases "i div 8 = j div 8") (auto simp: has_bit_def set_bit_at_def bit_or_iff)
qed

text \<open>The positions that a key probes.\<close>

definition probe :: "u64 \<Rightarrow> u32 \<Rightarrow> u32 \<Rightarrow> nat \<Rightarrow> nat" where
  "probe bits delta h j = bloom_bitpos (h + of_nat j * delta) bits"

lemma probe_0: "probe bits delta h 0 = bloom_bitpos h bits"
  and probe_Suc: "probe bits delta (h + delta) j = probe bits delta h (Suc j)"
  by (simp_all add: probe_def algebra_simps)

lemma bitpos_bound:
  assumes "unat bits = 8 * n" "0 < n"
  shows "bloom_bitpos h bits < 8 * n"
proof -
  have "unat ((ucast h :: u64) mod bits) = unat h mod (8 * n)" by (simp add: unat_mod unat_ucast_up assms)
  moreover have "unat h mod (8 * n) < 2 ^ 32"
    by (rule le_less_trans [OF mod_less_eq_dividend unat_lt32])
  ultimately have "bloom_bitpos h bits = unat h mod (8 * n)"
    by (simp add: bloom_bitpos_def unsigned_ucast_eq take_bit_eq_mod)
  then show ?thesis using assms(2) by simp
qed

lemma bloom_probes_bits:
  assumes "unat bits = 8 * length array" "array \<noteq> []"
  shows "length (bloom_probes k bits delta h array) = length array"
    "has_bit array i \<Longrightarrow> has_bit (bloom_probes k bits delta h array) i"
    "j < k \<Longrightarrow> has_bit (bloom_probes k bits delta h array) (probe bits delta h j)"
proof -
  have "length (bloom_probes k bits delta h array) = length array
    \<and> (\<forall>i. has_bit array i \<longrightarrow> has_bit (bloom_probes k bits delta h array) i)
    \<and> (\<forall>j < k. has_bit (bloom_probes k bits delta h array) (probe bits delta h j))"
    using assms
  proof (induction k arbitrary: h array)
    case (Suc k)
    let ?i = "bloom_bitpos h bits"
    have i: "?i < 8 * length array" using bitpos_bound [of bits "length array"] Suc.prems by simp
    note s = set_bit_at [OF i]
    have a: "unat bits = 8 * length (set_bit_at ?i array)" "set_bit_at ?i array \<noteq> []"
      using Suc.prems s(1) by (auto simp: set_bit_at_def)
    note ih = Suc.IH [OF a, of "h + delta"]
    show ?case using ih s probe_0 [of bits delta h] probe_Suc [of bits delta h]
      by (auto simp: less_Suc_eq_0_disj)
  qed simp
  then show "length (bloom_probes k bits delta h array) = length array"
    "has_bit array i \<Longrightarrow> has_bit (bloom_probes k bits delta h array) i"
    "j < k \<Longrightarrow> has_bit (bloom_probes k bits delta h array) (probe bits delta h j)"
    by blast+
qed

lemma bloom_test_bits:
  "(\<And>j. j < k \<Longrightarrow> has_bit array (probe bits delta h j)) \<Longrightarrow> bloom_test k bits delta h array"
proof (induction k arbitrary: h)
  case (Suc k)
  have "has_bit array (bloom_bitpos h bits)" using Suc.prems [of 0] by (simp add: probe_0)
  moreover have "bloom_test k bits delta (h + delta) array"
    using Suc.prems probe_Suc [of bits delta h] by (intro Suc.IH) (metis Suc_less_eq)
  ultimately show ?case
    using and_single_bit [of "bloom_bitpos h bits mod 8" "array ! (bloom_bitpos h bits div 8)"]
    by (simp add: has_bit_def Let_def)
qed simp

definition key_bits :: "nat \<Rightarrow> u64 \<Rightarrow> slice \<Rightarrow> slice \<Rightarrow> bool" where
  "key_bits k bits array key \<longleftrightarrow>
     (\<forall>j < k. has_bit array (probe bits (bloom_delta (BloomHash key)) (BloomHash key) j))"

lemma bloom_add_bits:
  assumes "unat bits = 8 * length array" "array \<noteq> []"
  shows "length (bloom_add k bits key array) = length array" "key_bits k bits (bloom_add k bits key array) key"
    "key_bits k bits array key' \<Longrightarrow> key_bits k bits (bloom_add k bits key array) key'"
  using bloom_probes_bits [OF assms] by (simp_all add: bloom_add_def key_bits_def Let_def)

lemma fold_add_bits:
  assumes "unat bits = 8 * length array" "array \<noteq> []"
  shows "length (fold (bloom_add k bits) keys array) = length array
    \<and> (\<forall>key. key \<in> set keys \<or> key_bits k bits array key \<longrightarrow> key_bits k bits (fold (bloom_add k bits) keys array) key)"
  using assms
proof (induction keys arbitrary: array)
  case (Cons key keys)
  note a = bloom_add_bits [OF Cons.prems, of k]
  have "unat bits = 8 * length (bloom_add k bits key array)" "bloom_add k bits key array \<noteq> []"
    using Cons.prems a(1) [of key] by (simp, metis length_0_conv)
  from Cons.IH [OF this] show ?case using a by auto
qed simp

text \<open>Filters whose size does not overflow \<open>size_t\<close>.\<close>

definition bloom_fits :: "nat \<Rightarrow> slice list \<Rightarrow> bool" where
  "bloom_fits bits_per_key keys \<longleftrightarrow> length keys * bits_per_key < 2 ^ 60"

lemma bloom_k_bounds: "1 \<le> bloom_k b" "bloom_k b \<le> 30"
  by (simp_all add: bloom_k_def)

lemma bloom_finds:
  assumes "bloom_fits bits_per_key keys" "key \<in> set keys"
  shows "KeyMayMatch key (drop (length dst) (CreateFilter bits_per_key keys dst))"
proof -
  let ?n = "max 64 (length keys * bits_per_key)"
  let ?bits0 = "of_nat ?n :: u64"
  let ?bytes = "(?bits0 + 7) div 8" and ?k = "bloom_k bits_per_key"
  let ?nb = "(?n + 7) div 8"
  have small: "?n < 2 ^ 60" using assms(1) by (simp add: bloom_fits_def)
  have u0: "unat ?bits0 = ?n" using small by (intro unat_of_nat_lt) simp
  have b0: "(if (of_nat (length keys) * of_nat bits_per_key :: u64) < 64 then 64
      else of_nat (length keys) * of_nat bits_per_key) = ?bits0"
  proof -
    have "length keys * bits_per_key < 2 ^ 64" using assms(1) by (simp add: bloom_fits_def)
    then have u: "unat (of_nat (length keys * bits_per_key) :: u64) = length keys * bits_per_key"
      by (intro unat_of_nat_lt) simp
    show ?thesis
    proof (cases "length keys * bits_per_key < 64")
      case True
      then have "(of_nat (length keys * bits_per_key) :: u64) < 64" using u by (simp only: word_less_nat_alt) simp
      then show ?thesis using True by simp
    next
      case False
      then have "\<not> (of_nat (length keys * bits_per_key) :: u64) < 64" using u by (simp only: word_less_nat_alt) simp
      then show ?thesis using False by (simp add: max_def)
    qed
  qed
  have "unat (?bits0 + 7) = ?n + 7" using u0 small by (simp add: unat_word_ariths)
  then have ub: "unat ?bytes = ?nb" by (simp add: unat_div)
  have nb: "0 < ?nb" "8 * ?nb < 2 ^ 64" using small by (simp_all add: div_greater_zero_iff)
  have "unat (?bytes * 8) = 8 * ?nb" using ub nb(2) by (simp add: unat_word_ariths)
  let ?array = "fold (bloom_add ?k (?bytes * 8)) keys (replicate (unat ?bytes) 0)"
  have l0: "unat (?bytes * 8) = 8 * length (replicate (unat ?bytes) (0 :: u8))" "replicate (unat ?bytes) (0 :: u8) \<noteq> []"
    using \<open>unat (?bytes * 8) = 8 * ?nb\<close> ub nb(1) by (simp_all del: unat_eq_0)
  note f = fold_add_bits [OF l0, of ?k keys]
  have la: "length ?array = ?nb" using f ub by simp
  have flt: "drop (length dst) (CreateFilter bits_per_key keys dst) = ?array @ [of_nat ?k]"
    unfolding CreateFilter_def Let_def b0 by simp
  have k: "scast (of_nat ?k :: u8) = (of_nat ?k :: u64)" "unat (of_nat ?k :: u64) = ?k"
  proof -
    have kk: "?k \<le> 30" by (rule bloom_k_bounds)
    then show "unat (of_nat ?k :: u64) = ?k" by (intro unat_of_nat_lt) simp
    have u: "unat (of_nat ?k :: u8) = ?k" using kk by (intro unat_of_nat_lt) simp
    then have uu: "uint (of_nat ?k :: u8) = int ?k" by (simp only: uint_nat)
    have "sint (of_nat ?k :: u8) = signed_take_bit 7 (uint (of_nat ?k :: u8))" by (simp only: sint_uint) simp
    also have "\<dots> = int ?k" unfolding uu using kk by (intro signed_take_bit_int_eq_self) simp_all
    finally have "sint (of_nat ?k :: u8) = int ?k" .
    then show "scast (of_nat ?k :: u8) = (of_nat ?k :: u64)" by (metis of_int_of_nat_eq of_int_sint)
  qed
  have bits: "(of_nat (length (?array @ [of_nat ?k])) - 1) * 8 = ?bytes * 8"
  proof -
    have "of_nat (unat ?bytes) = ?bytes" by (simp only: of_nat_unat ucast_id)
    then have "(of_nat ?nb :: u64) = ?bytes" by (simp only: ub)
    then show ?thesis using la by simp
  qed
  have "key_bits ?k (?bytes * 8) ?array key" using f assms(2) by blast
  then have "has_bit (?array @ [of_nat ?k]) (probe (?bytes * 8) (bloom_delta (BloomHash key)) (BloomHash key) j)"
    if "j < ?k" for j
    using that bitpos_bound [of "?bytes * 8" ?nb] l0(1) ub nb(1) la
    by (simp add: key_bits_def has_bit_def nth_append probe_def div_less_iff_less_mult mult.commute)
  then have "bloom_test ?k (?bytes * 8) (bloom_delta (BloomHash key)) (BloomHash key) (?array @ [of_nat ?k])"
    by (rule bloom_test_bits)
  then show ?thesis
    unfolding KeyMayMatch_def Let_def flt bits using la nb(1) k by (auto simp: nth_append)
qed

section \<open>The policy\<close>

interpretation bloom: filter_policy "CreateFilter b" KeyMayMatch "bloom_fits b" for b
proof unfold_locales
  show "CreateFilter b keys dst = dst @ CreateFilter b keys []" for keys dst
    by (simp add: CreateFilter_def Let_def)
  show "bloom_fits b keys \<Longrightarrow> key \<in> set keys \<Longrightarrow> KeyMayMatch key (CreateFilter b keys [])" for keys key
    using bloom_finds [of b keys key "[]"] by simp
qed

text \<open>
  C24: A Bloom filter has no false negatives: a key that a filter was created from may match
  it, for any number of bits per key and wherever in \<open>dst\<close> the filter was appended.
\<close>

theorem bloom_no_false_negatives:
  assumes "length keys * bits_per_key < 2 ^ 60" "key \<in> set keys"
  shows "KeyMayMatch key (drop (length dst) (CreateFilter bits_per_key keys dst))
    \<and> take (length dst) (CreateFilter bits_per_key keys dst) = dst"
  unfolding bloom.appends [of bits_per_key keys dst]
  using bloom.finds [of bits_per_key keys key] assms by (simp add: bloom_fits_def)

theorem bloom_no_false_negatives_witness:
  "KeyMayMatch [104, 105] (drop 1 (CreateFilter 10 [[104, 105], [49]] [7]))"
  using bloom_no_false_negatives [of "[[104, 105], [49]]" 10 "[104, 105]" "[7]"] by simp

end
