(* ===== verification/LdbFormat.thy ===== *)
theory LdbFormat
  imports LdbComparator LdbBloom
begin

text \<open>
  Internal keys (\<open>db/dbformat.cc\<close>, \<open>db/dbformat.h\<close>): a user key followed by eight bytes with
  a sequence number and a type, their comparator over any user comparator, the filter policy
  over user keys, and lookup keys.
\<close>

section \<open>Sequence numbers and types\<close>

definition kTypeDeletion :: u8 where "kTypeDeletion = 0x0"
definition kTypeValue :: u8 where "kTypeValue = 0x1"
definition kValueTypeForSeek :: u8 where "kValueTypeForSeek = kTypeValue"

definition kMaxSequenceNumber :: u64 where
  "kMaxSequenceNumber = push_bit 56 1 - 1"

text \<open>The type is an \<open>enum\<close>, which may hold any byte after a cast.\<close>

record parsed_internal_key =
  user_key :: slice
  sequence :: u64
  value_type :: u8

definition PackSequenceAndType :: "u64 \<Rightarrow> u8 \<Rightarrow> u64" where
  "PackSequenceAndType seq t = push_bit 8 seq OR ucast t"

definition InternalKeyEncodingLength :: "parsed_internal_key \<Rightarrow> nat" where
  "InternalKeyEncodingLength key = length (user_key key) + 8"

definition AppendInternalKey :: "slice \<Rightarrow> parsed_internal_key \<Rightarrow> slice" where
  "AppendInternalKey result key =
     PutFixed64 (result @ user_key key) (PackSequenceAndType (sequence key) (value_type key))"

text \<open>Callers pass at least eight bytes.\<close>

definition ExtractUserKey :: "slice \<Rightarrow> slice" where
  "ExtractUserKey internal_key = take (length internal_key - 8) internal_key"

definition packed_number :: "slice \<Rightarrow> u64" where
  "packed_number internal_key = DecodeFixed64 (drop (length internal_key - 8) internal_key)"

definition ExtractValueType :: "slice \<Rightarrow> u8" where
  "ExtractValueType internal_key = ucast (packed_number internal_key AND 0xff)"

definition ParseInternalKey :: "slice \<Rightarrow> parsed_internal_key option" where
  "ParseInternalKey internal_key =
     (if length internal_key < 8 then None
      else
        let num = packed_number internal_key; c = ucast (num AND 0xff) :: u8 in
        if c \<le> kTypeValue
        then Some \<lparr>user_key = take (length internal_key - 8) internal_key,
                   sequence = drop_bit 8 num, value_type = c\<rparr>
        else None)"

section \<open>The comparator\<close>

definition InternalKey_Compare :: "(slice \<Rightarrow> slice \<Rightarrow> int) \<Rightarrow> slice \<Rightarrow> slice \<Rightarrow> int" where
  "InternalKey_Compare user_compare akey bkey =
     (let r = user_compare (ExtractUserKey akey) (ExtractUserKey bkey) in
      if r = 0 then
        let anum = packed_number akey; bnum = packed_number bkey in
        if anum > bnum then - 1 else if anum < bnum then 1 else r
      else r)"

definition InternalKey_FindShortestSeparator ::
    "(slice \<Rightarrow> slice \<Rightarrow> int) \<Rightarrow> (slice \<Rightarrow> slice \<Rightarrow> slice) \<Rightarrow> slice \<Rightarrow> slice \<Rightarrow> slice" where
  "InternalKey_FindShortestSeparator user_compare user_sep start limit =
     (let user_start = ExtractUserKey start; user_limit = ExtractUserKey limit;
          tmp = user_sep user_start user_limit in
      if length tmp < length user_start \<and> user_compare user_start tmp < 0
      then PutFixed64 tmp (PackSequenceAndType kMaxSequenceNumber kValueTypeForSeek)
      else start)"

definition InternalKey_FindShortSuccessor ::
    "(slice \<Rightarrow> slice \<Rightarrow> int) \<Rightarrow> (slice \<Rightarrow> slice) \<Rightarrow> slice \<Rightarrow> slice" where
  "InternalKey_FindShortSuccessor user_compare user_succ key =
     (let ukey = ExtractUserKey key; tmp = user_succ ukey in
      if length tmp < length ukey \<and> user_compare ukey tmp < 0
      then PutFixed64 tmp (PackSequenceAndType kMaxSequenceNumber kValueTypeForSeek)
      else key)"

section \<open>The filter policy\<close>

definition Internal_CreateFilter :: "(slice list \<Rightarrow> slice \<Rightarrow> slice) \<Rightarrow> slice list \<Rightarrow> slice \<Rightarrow> slice" where
  "Internal_CreateFilter user_create keys dst = user_create (map ExtractUserKey keys) dst"

definition Internal_KeyMayMatch :: "(slice \<Rightarrow> slice \<Rightarrow> bool) \<Rightarrow> slice \<Rightarrow> slice \<Rightarrow> bool" where
  "Internal_KeyMayMatch user_match key f = user_match (ExtractUserKey key) f"

section \<open>Lookup keys\<close>

text \<open>The bytes from \<open>start_\<close> to \<open>end_\<close>, and \<open>kstart_ - start_\<close>.\<close>

record lookup_key =
  lk_bytes :: slice
  lk_kstart :: nat

definition LookupKey :: "slice \<Rightarrow> u64 \<Rightarrow> lookup_key" where
  "LookupKey ukey s =
     (let prefix = EncodeVarint32 (of_nat (length ukey + 8)) in
      \<lparr>lk_bytes = prefix @ ukey @ EncodeFixed64 (PackSequenceAndType s kValueTypeForSeek),
       lk_kstart = length prefix\<rparr>)"

definition memtable_key :: "lookup_key \<Rightarrow> slice" where
  "memtable_key k = lk_bytes k"

definition internal_key :: "lookup_key \<Rightarrow> slice" where
  "internal_key k = drop (lk_kstart k) (lk_bytes k)"

definition lookup_user_key :: "lookup_key \<Rightarrow> slice" where
  "lookup_user_key k = (let ik = drop (lk_kstart k) (lk_bytes k) in take (length ik - 8) ik)"

section \<open>Packing\<close>

lemma and_ff_mask: "(w :: 'a::len word) AND 0xff = take_bit 8 w"
  by (simp add: take_bit_eq_mask mask_eq_exp_minus_1)

lemma packed_append [simp]:
  "packed_number (u @ EncodeFixed64 n) = n" "ExtractUserKey (u @ EncodeFixed64 n) = u"
  by (simp_all add: packed_number_def ExtractUserKey_def)

lemma internal_key_split:
  assumes "8 \<le> length k"
  shows "k = ExtractUserKey k @ EncodeFixed64 (packed_number k)"
proof -
  have "EncodeFixed64 (packed_number k) = drop (length k - 8) k"
    using assms by (simp add: EncodeFixed64_def packed_number_def DecodeFixed64_def le_bytes_le_word)
  then show ?thesis by (simp add: ExtractUserKey_def)
qed

lemma unat_pack:
  assumes "unat seq < 2 ^ 56"
  shows "unat (PackSequenceAndType seq t) = unat seq * 256 + unat t"
proof -
  have t: "bit t n \<Longrightarrow> n < 8" for n by (auto dest: bit_imp_le_length)
  have "push_bit 8 seq AND ucast t = 0"
    by (rule bit_word_eqI) (auto simp: bit_simps dest: t)
  then have e: "PackSequenceAndType seq t = push_bit 8 seq + ucast t"
    by (simp add: PackSequenceAndType_def disjunctive_add_eq_or)
  have "unat seq * 256 + unat t < 2 ^ 64" using assms unat_u8 [of t] by simp
  then show ?thesis
    unfolding e using assms
    by (simp add: push_bit_eq_mult unat_word_ariths unat_ucast_up mult.commute)
qed

lemma pack_split:
  assumes "unat seq < 2 ^ 56"
  shows "drop_bit 8 (PackSequenceAndType seq t) = seq" "ucast (PackSequenceAndType seq t AND 0xff) = t"
proof -
  note u = unat_pack [OF assms, of t]
  have "unat (drop_bit 8 (PackSequenceAndType seq t)) = unat seq"
    using u unat_u8 [of t] by (simp add: unat_drop_bit)
  then show "drop_bit 8 (PackSequenceAndType seq t) = seq" by (simp only: word_unat_eq_iff)
  show "ucast (PackSequenceAndType seq t AND 0xff) = t"
    by (rule bit_word_eqI) (auto simp: bit_simps PackSequenceAndType_def and_ff_mask)
qed

section \<open>The comparator of internal keys\<close>

text \<open>Internal keys of valid user keys.\<close>

definition internal_valid :: "(slice \<Rightarrow> bool) \<Rightarrow> slice \<Rightarrow> bool" where
  "internal_valid valid k \<longleftrightarrow> 8 \<le> length k \<and> valid (ExtractUserKey k)"

context comparator
begin

lemma internal_less:
  "InternalKey_Compare cmp a b < 0 \<longleftrightarrow>
     cmp (ExtractUserKey a) (ExtractUserKey b) < 0
     \<or> cmp (ExtractUserKey a) (ExtractUserKey b) = 0 \<and> packed_number a > packed_number b"
  by (auto simp: InternalKey_Compare_def Let_def)

lemma internal_eq:
  assumes "internal_valid valid a" "internal_valid valid b"
  shows "InternalKey_Compare cmp a b = 0 \<longleftrightarrow> a = b"
proof
  assume "InternalKey_Compare cmp a b = 0"
  then have "cmp (ExtractUserKey a) (ExtractUserKey b) = 0" "packed_number a = packed_number b"
    by (auto simp: InternalKey_Compare_def Let_def not_less split: if_splits)
  then show "a = b"
    using assms internal_key_split [of a] internal_key_split [of b] cmp_eq by (simp add: internal_valid_def)
next
  assume "a = b"
  then show "InternalKey_Compare cmp a b = 0"
    using assms by (simp add: InternalKey_Compare_def internal_valid_def Let_def)
qed

lemma internal_swap:
  assumes "internal_valid valid a" "internal_valid valid b"
  shows "InternalKey_Compare cmp b a > 0 \<longleftrightarrow> InternalKey_Compare cmp a b < 0"
proof -
  let ?ua = "ExtractUserKey a" and ?ub = "ExtractUserKey b"
  have "cmp ?ub ?ua > 0 \<longleftrightarrow> cmp ?ua ?ub < 0" "cmp ?ub ?ua = 0 \<longleftrightarrow> cmp ?ua ?ub = 0"
    using assms cmp_swap [of ?ua ?ub] cmp_eq [of ?ua ?ub] cmp_eq [of ?ub ?ua] by (auto simp: internal_valid_def)
  then show ?thesis by (auto simp: InternalKey_Compare_def Let_def)
qed

lemma internal_trans:
  assumes v: "internal_valid valid a" "internal_valid valid b" "internal_valid valid c"
    and l: "InternalKey_Compare cmp a b < 0" "InternalKey_Compare cmp b c < 0"
  shows "InternalKey_Compare cmp a c < 0"
proof -
  let ?a = "ExtractUserKey a" and ?b = "ExtractUserKey b" and ?c = "ExtractUserKey c"
  have u: "valid ?a" "valid ?b" "valid ?c" using v by (simp_all add: internal_valid_def)
  consider "cmp ?a ?b < 0" | "?a = ?b" "packed_number a > packed_number b"
    using l(1) cmp_eq [OF u(1,2)] by (auto simp: internal_less)
  then show ?thesis
  proof cases
    case 1
    then have "cmp ?a ?c < 0"
      using l(2) u cmp_trans [of ?a ?b ?c] cmp_eq [OF u(2,3)] by (auto simp: internal_less)
    then show ?thesis by (simp add: internal_less)
  next
    case 2
    then show ?thesis using l(2) u by (auto simp: internal_less)
  qed
qed

lemma internal_shortened:
  assumes "internal_valid valid k" "valid tmp" "cmp (ExtractUserKey k) tmp < 0"
  shows "internal_valid valid (PutFixed64 tmp n)" "InternalKey_Compare cmp k (PutFixed64 tmp n) < 0"
  using assms by (simp_all add: internal_valid_def PutFixed64_def internal_less)

lemma internal_separator:
  assumes v: "internal_valid valid a" "internal_valid valid b" and l: "InternalKey_Compare cmp a b < 0"
  defines "s \<equiv> InternalKey_FindShortestSeparator cmp sep a b"
  shows "internal_valid valid s \<and> InternalKey_Compare cmp a s \<le> 0 \<and> InternalKey_Compare cmp s b < 0"
proof -
  let ?a = "ExtractUserKey a" and ?b = "ExtractUserKey b"
  let ?tmp = "sep ?a ?b"
  have u: "valid ?a" "valid ?b" using v by (simp_all add: internal_valid_def)
  have k: "InternalKey_Compare cmp a a = 0" using internal_eq [OF v(1) v(1)] by simp
  show ?thesis
  proof (cases "length ?tmp < length ?a \<and> cmp ?a ?tmp < 0")
    case False
    then have "s = a" by (auto simp: s_def InternalKey_FindShortestSeparator_def Let_def)
    then show ?thesis using v l k by simp
  next
    case True
    then have s: "s = PutFixed64 ?tmp (PackSequenceAndType kMaxSequenceNumber kValueTypeForSeek)"
      by (simp add: s_def InternalKey_FindShortestSeparator_def Let_def)
    have "cmp ?a ?b \<noteq> 0"
    proof
      assume "cmp ?a ?b = 0"
      then have "?tmp = ?a" using cmp_eq [OF u] sep_same [OF u(1)] by simp
      then show False using True by simp
    qed
    then have "cmp ?a ?b < 0" using l by (auto simp: internal_less)
    then have t: "valid ?tmp" "cmp ?tmp ?b < 0" using sep_between [OF u] by blast+
    have "internal_valid valid s" "InternalKey_Compare cmp a s < 0"
      unfolding s using internal_shortened [OF v(1) t(1)] True by blast+
    moreover have "InternalKey_Compare cmp s b < 0"
      unfolding s internal_less using t(2) by (simp add: PutFixed64_def)
    ultimately show ?thesis by simp
  qed
qed

lemma internal_successor:
  assumes v: "internal_valid valid a"
  shows "internal_valid valid (InternalKey_FindShortSuccessor cmp succ a)
    \<and> InternalKey_Compare cmp a (InternalKey_FindShortSuccessor cmp succ a) \<le> 0"
  using v internal_eq [OF v v] succ_above internal_shortened [OF v, of "succ (ExtractUserKey a)"]
  by (auto simp: InternalKey_FindShortSuccessor_def Let_def internal_valid_def order_less_imp_le)

text \<open>The internal keys of a comparator have a comparator.\<close>

lemma internal_comparator:
  "comparator (InternalKey_Compare cmp) (InternalKey_FindShortestSeparator cmp sep)
     (InternalKey_FindShortSuccessor cmp succ) (internal_valid valid)"
proof unfold_locales
  fix a b c
  show "internal_valid valid a \<Longrightarrow> internal_valid valid b \<Longrightarrow> InternalKey_Compare cmp a b = 0 \<longleftrightarrow> a = b"
    by (rule internal_eq)
  show "internal_valid valid a \<Longrightarrow> internal_valid valid b \<Longrightarrow>
      InternalKey_Compare cmp b a > 0 \<longleftrightarrow> InternalKey_Compare cmp a b < 0"
    by (rule internal_swap)
  show "internal_valid valid a \<Longrightarrow> internal_valid valid b \<Longrightarrow> internal_valid valid c \<Longrightarrow> InternalKey_Compare cmp a b < 0 \<Longrightarrow>
      InternalKey_Compare cmp b c < 0 \<Longrightarrow> InternalKey_Compare cmp a c < 0"
    by (rule internal_trans)
  show "internal_valid valid a \<Longrightarrow> internal_valid valid b \<Longrightarrow> InternalKey_Compare cmp a b < 0 \<Longrightarrow>
      internal_valid valid (InternalKey_FindShortestSeparator cmp sep a b)
      \<and> InternalKey_Compare cmp a (InternalKey_FindShortestSeparator cmp sep a b) \<le> 0
      \<and> InternalKey_Compare cmp (InternalKey_FindShortestSeparator cmp sep a b) b < 0"
    by (rule internal_separator)
  show "internal_valid valid a \<Longrightarrow> InternalKey_FindShortestSeparator cmp sep a a = a"
    using sep_same [of "ExtractUserKey a"]
    by (simp add: InternalKey_FindShortestSeparator_def internal_valid_def Let_def)
  show "internal_valid valid a \<Longrightarrow> internal_valid valid (InternalKey_FindShortSuccessor cmp succ a)
      \<and> InternalKey_Compare cmp a (InternalKey_FindShortSuccessor cmp succ a) \<le> 0"
    by (rule internal_successor)
qed

end

interpretation internal_bytewise: comparator "InternalKey_Compare Bytewise_Compare"
  "InternalKey_FindShortestSeparator Bytewise_Compare Bytewise_FindShortestSeparator"
  "InternalKey_FindShortSuccessor Bytewise_Compare Bytewise_FindShortSuccessor" "internal_valid (\<lambda>_. True)"
  by (rule bytewise.internal_comparator)

section \<open>The filter policy over user keys\<close>

context filter_policy
begin

lemma internal_policy:
  "filter_policy (Internal_CreateFilter create) (Internal_KeyMayMatch may_match)
     (\<lambda>keys. fits_policy (map ExtractUserKey keys))"
proof unfold_locales
  show "Internal_CreateFilter create keys dst = dst @ Internal_CreateFilter create keys []" for keys dst
    unfolding Internal_CreateFilter_def by (rule appends)
  show "fits_policy (map ExtractUserKey keys) \<Longrightarrow> key \<in> set keys \<Longrightarrow>
      Internal_KeyMayMatch may_match key (Internal_CreateFilter create keys [])" for keys key
    unfolding Internal_CreateFilter_def Internal_KeyMayMatch_def by (rule finds) simp_all
qed

end

interpretation internal_bloom: filter_policy "Internal_CreateFilter (CreateFilter b)" "Internal_KeyMayMatch KeyMayMatch"
  "\<lambda>keys. bloom_fits b (map ExtractUserKey keys)" for b
  by (rule bloom.internal_policy)

section \<open>Properties\<close>

lemma max_sequence: "(s \<le> kMaxSequenceNumber) \<longleftrightarrow> unat s < 2 ^ 56"
proof -
  have "unat kMaxSequenceNumber = 2 ^ 56 - 1" by (simp add: kMaxSequenceNumber_def push_bit_eq_mult)
  then show ?thesis unfolding word_le_nat_alt by auto
qed

lemma append_internal: "AppendInternalKey r k = r @ user_key k @ EncodeFixed64 (PackSequenceAndType (sequence k) (value_type k))"
  by (simp add: AppendInternalKey_def PutFixed64_def)

lemma packed_appended [simp]:
  "packed_number (AppendInternalKey [] k) = PackSequenceAndType (sequence k) (value_type k)"
  "ExtractUserKey (AppendInternalKey [] k) = user_key k"
  by (simp_all add: append_internal)

text \<open>
  For a sequence number of at most 56 bits and a known type, \<open>AppendInternalKey\<close> adds as many
  bytes as \<open>InternalKeyEncodingLength\<close> says, and \<open>ParseInternalKey\<close> and the two extractors read
  back what was written.
\<close>
theorem internal_key_roundtrip:
  assumes "sequence k \<le> kMaxSequenceNumber" "value_type k \<le> kTypeValue"
  shows "ParseInternalKey (AppendInternalKey [] k) = Some k
    \<and> ExtractUserKey (AppendInternalKey [] k) = user_key k
    \<and> ExtractValueType (AppendInternalKey [] k) = value_type k
    \<and> length (AppendInternalKey r k) = length r + InternalKeyEncodingLength k"
proof -
  have l: "length (AppendInternalKey [] k) = length (user_key k) + 8" by (simp add: append_internal)
  have u: "take (length (user_key k)) (AppendInternalKey [] k) = user_key k" by (simp add: append_internal)
  show ?thesis
    using assms pack_split [of "sequence k" "value_type k"]
    by (simp add: ParseInternalKey_def ExtractValueType_def max_sequence l u Let_def
        InternalKeyEncodingLength_def append_internal)
qed

theorem internal_key_roundtrip_witness:
  "ParseInternalKey (AppendInternalKey [] \<lparr>user_key = [0x61, 0x62], sequence = 0x123456, value_type = 1\<rparr>)
     = Some \<lparr>user_key = [0x61, 0x62], sequence = 0x123456, value_type = 1\<rparr>"
  using internal_key_roundtrip [of "\<lparr>user_key = [0x61, 0x62], sequence = 0x123456, value_type = 1\<rparr>"]
  by (simp add: max_sequence kTypeValue_def)

text \<open>
  C29: Internal keys are ordered by user key, and among the entries of a user key the newest comes
  first; the separator of two keys in that order is at or above the first and below the second, and
  a successor is not below its key, as the assertions of the comparator say.
\<close>
theorem internal_key_order:
  assumes "unat (sequence a) < 2 ^ 56" "unat (sequence b) < 2 ^ 56"
  defines "ka \<equiv> AppendInternalKey [] a" and "kb \<equiv> AppendInternalKey [] b"
  shows "(InternalKey_Compare Bytewise_Compare ka kb < 0 \<longleftrightarrow>
      bytes_less (user_key a) (user_key b)
      \<or> user_key a = user_key b
        \<and> (sequence b < sequence a \<or> sequence a = sequence b \<and> value_type b < value_type a))
    \<and> (InternalKey_Compare Bytewise_Compare ka kb < 0 \<longrightarrow>
        (let s = InternalKey_FindShortestSeparator Bytewise_Compare Bytewise_FindShortestSeparator ka kb in
         InternalKey_Compare Bytewise_Compare ka s \<le> 0 \<and> InternalKey_Compare Bytewise_Compare s kb < 0))
    \<and> InternalKey_Compare Bytewise_Compare ka
        (InternalKey_FindShortSuccessor Bytewise_Compare Bytewise_FindShortSuccessor ka) \<le> 0"
proof -
  have v: "internal_valid (\<lambda>_. True) ka" "internal_valid (\<lambda>_. True) kb"
    by (simp_all add: internal_valid_def ka_def kb_def append_internal)
  have "PackSequenceAndType (sequence b) (value_type b) < PackSequenceAndType (sequence a) (value_type a) \<longleftrightarrow>
      sequence b < sequence a \<or> sequence a = sequence b \<and> value_type b < value_type a"
    using unat_pack [OF assms(1), of "value_type a"] unat_pack [OF assms(2), of "value_type b"]
      unat_u8 [of "value_type a"] unat_u8 [of "value_type b"]
    by (auto simp: word_less_nat_alt word_unat_eq_iff)
  then have "InternalKey_Compare Bytewise_Compare ka kb < 0 \<longleftrightarrow>
      bytes_less (user_key a) (user_key b) \<or> user_key a = user_key b
        \<and> (sequence b < sequence a \<or> sequence a = sequence b \<and> value_type b < value_type a)"
    unfolding bytewise.internal_less ka_def kb_def by (simp add: Bytewise_Compare_def compare_eq compare_less)
  then show ?thesis
    using internal_bytewise.sep_between [OF v] internal_bytewise.succ_above [OF v(1)]
    by (simp add: Let_def)
qed

theorem internal_key_order_witness:
  "InternalKey_Compare Bytewise_Compare (AppendInternalKey [] \<lparr>user_key = [0x61], sequence = 7, value_type = 1\<rparr>)
     (AppendInternalKey [] \<lparr>user_key = [0x61], sequence = 5, value_type = 0\<rparr>) < 0"
  using internal_key_order [of "\<lparr>user_key = [0x61], sequence = 7, value_type = 1\<rparr>"
      "\<lparr>user_key = [0x61], sequence = 5, value_type = 0\<rparr>"]
  by simp

text \<open>
  C25: A lookup key is the length-prefixed internal key of the user key at its sequence number, fits
  the buffer that its constructor takes, and comes at or before exactly those entries of the user key
  that are visible at that sequence number.
\<close>
theorem lookup_key_finds_visible:
  assumes "unat s < 2 ^ 56" "unat s' < 2 ^ 56" "t \<le> kTypeValue" "length u + 8 < 2 ^ 32"
  shows "memtable_key (LookupKey u s) = PutLengthPrefixedSlice [] (internal_key (LookupKey u s))
    \<and> lookup_user_key (LookupKey u s) = u
    \<and> length (lk_bytes (LookupKey u s)) \<le> length u + 13
    \<and> (InternalKey_Compare Bytewise_Compare (internal_key (LookupKey u s))
          (AppendInternalKey [] \<lparr>user_key = u, sequence = s', value_type = t\<rparr>) \<le> 0 \<longleftrightarrow> s' \<le> s)"
proof -
  have ik: "internal_key (LookupKey u s) = AppendInternalKey [] \<lparr>user_key = u, sequence = s, value_type = 1\<rparr>"
    by (simp add: internal_key_def LookupKey_def append_internal Let_def kValueTypeForSeek_def kTypeValue_def)
  have lu: "lookup_user_key (LookupKey u s) = u"
    by (simp add: lookup_user_key_def LookupKey_def Let_def)
  have "unat t \<le> 1" using assms(3) by (simp add: kTypeValue_def word_le_nat_alt)
  then have "PackSequenceAndType s' t \<le> PackSequenceAndType s 1 \<longleftrightarrow> s' \<le> s"
    using unat_pack [OF assms(1), of 1] unat_pack [OF assms(2), of t]
    by (auto simp: word_le_nat_alt)
  then have "InternalKey_Compare Bytewise_Compare (internal_key (LookupKey u s))
      (AppendInternalKey [] \<lparr>user_key = u, sequence = s', value_type = t\<rparr>) \<le> 0 \<longleftrightarrow> s' \<le> s"
    unfolding ik by (auto simp: InternalKey_Compare_def Let_def bytewise.cmp_eq)
  moreover have "memtable_key (LookupKey u s) = PutLengthPrefixedSlice [] (internal_key (LookupKey u s))"
    unfolding ik by (simp add: memtable_key_def LookupKey_def Let_def PutLengthPrefixedSlice_def PutVarint32_def
        append_internal kValueTypeForSeek_def kTypeValue_def add.commute)
  moreover have "length (lk_bytes (LookupKey u s)) \<le> length u + 13"
    using length_EncodeVarint32 [of "of_nat (length u + 8)"] by (simp add: LookupKey_def Let_def)
  ultimately show ?thesis using lu by simp
qed

theorem lookup_key_finds_visible_witness:
  "InternalKey_Compare Bytewise_Compare (internal_key (LookupKey [0x6b] 9))
     (AppendInternalKey [] \<lparr>user_key = [0x6b], sequence = 9, value_type = 0\<rparr>) \<le> 0
   \<and> \<not> InternalKey_Compare Bytewise_Compare (internal_key (LookupKey [0x6b] 9))
     (AppendInternalKey [] \<lparr>user_key = [0x6b], sequence = 10, value_type = 1\<rparr>) \<le> 0"
  using lookup_key_finds_visible [of 9 9 0 "[0x6b]"] lookup_key_finds_visible [of 9 10 1 "[0x6b]"]
  by (simp add: kTypeValue_def)

end
