(* ===== verification/LdbStatus.thy ===== *)
theory LdbStatus
  imports LdbCoding
begin

text \<open>
  The result of LevelDB's operations (\<open>util/status.cc\<close>, \<open>include/leveldb/status.h\<close>): no state for
  success, or an array with the length of the message, the code and the message.
\<close>

text \<open>The bytes of a string literal.\<close>

definition cstr :: "string \<Rightarrow> slice" where
  "cstr s = map of_char s"

definition kOk :: u8 where "kOk = 0"
definition kNotFound :: u8 where "kNotFound = 1"
definition kCorruption :: u8 where "kCorruption = 2"
definition kNotSupported :: u8 where "kNotSupported = 3"
definition kInvalidArgument :: u8 where "kInvalidArgument = 4"
definition kIOError :: u8 where "kIOError = 5"

type_synonym ldb_status = "slice option"

definition OK :: ldb_status where "OK = None"

definition ok :: "ldb_status \<Rightarrow> bool" where
  "ok s \<longleftrightarrow> s = None"

definition new_Status :: "u8 \<Rightarrow> slice \<Rightarrow> slice \<Rightarrow> ldb_status" where
  "new_Status code msg msg2 =
     (let len1 = of_nat (length msg) :: u32; len2 = of_nat (length msg2) :: u32;
          size = len1 + (if len2 \<noteq> 0 then 2 + len2 else 0) in
      Some (EncodeFixed32 size @ [code] @ take (unat len1) msg
        @ (if len2 \<noteq> 0 then cstr '': '' @ take (unat len2) msg2 else [])))"

definition NotFound :: "slice \<Rightarrow> slice \<Rightarrow> ldb_status" where "NotFound = new_Status kNotFound"
definition Corruption :: "slice \<Rightarrow> slice \<Rightarrow> ldb_status" where "Corruption = new_Status kCorruption"
definition NotSupported :: "slice \<Rightarrow> slice \<Rightarrow> ldb_status" where "NotSupported = new_Status kNotSupported"
definition InvalidArgument :: "slice \<Rightarrow> slice \<Rightarrow> ldb_status" where "InvalidArgument = new_Status kInvalidArgument"
definition IOError :: "slice \<Rightarrow> slice \<Rightarrow> ldb_status" where "IOError = new_Status kIOError"

definition status_code :: "ldb_status \<Rightarrow> u8" where
  "status_code s = (case s of None \<Rightarrow> kOk | Some st \<Rightarrow> st ! 4)"

definition CopyState :: "slice \<Rightarrow> slice" where
  "CopyState state = (let size = DecodeFixed32 (take 4 state) in take (unat (size + 5)) state)"

definition copy_Status :: "ldb_status \<Rightarrow> ldb_status" where
  "copy_Status s = map_option CopyState s"

text \<open>The digits that \<open>%d\<close> and \<open>%llu\<close> print.\<close>

fun decimal_loop :: "nat \<Rightarrow> slice \<Rightarrow> slice" where
  "decimal_loop n acc =
     (let acc = of_nat (48 + n mod 10) # acc in if n < 10 then acc else decimal_loop (n div 10) acc)"

declare decimal_loop.simps [simp del]

definition decimal :: "nat \<Rightarrow> slice" where
  "decimal n = decimal_loop n []"

definition decimal_int :: "int \<Rightarrow> slice" where
  "decimal_int i = (if i < 0 then cstr ''-'' @ decimal (nat (- i)) else decimal (nat i))"

definition Status_ToString :: "ldb_status \<Rightarrow> slice" where
  "Status_ToString s =
     (case s of None \<Rightarrow> cstr ''OK''
      | Some st \<Rightarrow>
          (let code = status_code s;
               type =
                 (if code = kOk then cstr ''OK''
                  else if code = kNotFound then cstr ''NotFound: ''
                  else if code = kCorruption then cstr ''Corruption: ''
                  else if code = kNotSupported then cstr ''Not implemented: ''
                  else if code = kInvalidArgument then cstr ''Invalid argument: ''
                  else if code = kIOError then cstr ''IO error: ''
                  else cstr ''Unknown code('' @ decimal_int (sint code) @ cstr ''): '');
               len = DecodeFixed32 (take 4 st) in
           type @ take (unat len) (drop 5 st)))"

section \<open>What a status holds\<close>

lemmas status_codes = kOk_def kNotFound_def kCorruption_def kNotSupported_def kInvalidArgument_def kIOError_def

lemma ok_OK [simp]: "ok OK" "ok None"
  by (simp_all add: ok_def OK_def)

lemma not_ok_Some [simp]: "\<not> ok (Some s)"
  by (simp add: ok_def)

lemma not_ok_new_Status [simp]: "\<not> ok (new_Status c m m')"
  by (simp add: new_Status_def Let_def)

lemma not_ok_errors [simp]: "\<not> ok (NotFound m m')" "\<not> ok (Corruption m m')" "\<not> ok (NotSupported m m')"
  "\<not> ok (InvalidArgument m m')" "\<not> ok (IOError m m')"
  by (simp_all add: NotFound_def Corruption_def NotSupported_def InvalidArgument_def IOError_def)

lemma status_code_new [simp]: "status_code (new_Status c m m') = c"
  by (simp add: status_code_def new_Status_def Let_def nth_append)

definition message :: "slice \<Rightarrow> slice \<Rightarrow> slice" where
  "message m m' = m @ (if m' = [] then [] else cstr '': '' @ m')"

lemma new_Status_message:
  assumes "length m + length m' + 2 < 2 ^ 32"
  shows "new_Status c m m' = Some (EncodeFixed32 (of_nat (length (message m m'))) @ c # message m m')"
    "length (message m m') < 2 ^ 32"
proof -
  have l: "unat (of_nat (length m) :: u32) = length m" "unat (of_nat (length m') :: u32) = length m'"
    using assms by (simp_all add: unat_of_nat)
  have z: "(of_nat (length m') :: u32) = 0 \<longleftrightarrow> m' = []"
    using l(2) by (metis length_0_conv of_nat_0 unat_eq_zero)
  show "length (message m m') < 2 ^ 32" using assms by (simp add: message_def cstr_def)
  show "new_Status c m m' = Some (EncodeFixed32 (of_nat (length (message m m'))) @ c # message m m')"
    by (cases "m' = []") (simp_all add: new_Status_def Let_def z l message_def cstr_def ac_simps)
qed

lemma ToString_new_Status:
  assumes "length m + length m' + 2 < 2 ^ 32"
  shows "Status_ToString (new_Status kCorruption m m') = cstr ''Corruption: '' @ message m m'"
    "Status_ToString (new_Status kNotFound m m') = cstr ''NotFound: '' @ message m m'"
    "Status_ToString (new_Status kIOError m m') = cstr ''IO error: '' @ message m m'"
proof -
  note n = new_Status_message [OF assms]
  have d: "unat (of_nat (length (message m m')) :: u32) = length (message m m')"
    using n(2) by (simp add: unat_of_nat)
  note s = Status_ToString_def n(1) d Let_def status_code_def nth_append status_codes
  show "Status_ToString (new_Status kCorruption m m') = cstr ''Corruption: '' @ message m m'"
    "Status_ToString (new_Status kNotFound m m') = cstr ''NotFound: '' @ message m m'"
    "Status_ToString (new_Status kIOError m m') = cstr ''IO error: '' @ message m m'"
    by (simp_all add: s)
qed

lemma copy_new_Status:
  assumes "length m + length m' + 7 < 2 ^ 32"
  shows "copy_Status (new_Status c m m') = new_Status c m m'"
proof -
  have a: "length m + length m' + 2 < 2 ^ 32" using assms by simp
  have "length (message m m') + 5 < 2 ^ 32" using assms by (simp add: message_def cstr_def)
  then have "unat ((of_nat (length (message m m')) :: u32) + 5) = length (message m m') + 5"
    by (simp add: unat_word_ariths unat_of_nat)
  then show ?thesis by (simp add: copy_Status_def CopyState_def new_Status_message [OF a] Let_def)
qed

end
