(* ===== verification/LdbEnv.thy ===== *)
theory LdbEnv
  imports LdbStatus
begin

text \<open>
  Files as LevelDB reads and writes them: the interfaces \<open>SequentialFile\<close> and \<open>WritableFile\<close> of
  \<open>include/leveldb/env.h\<close> as locales, and the classes of \<open>util/env_posix.cc\<close> that implement them
  over the streams of the C library.
\<close>

section \<open>The interfaces\<close>

text \<open>
  A sequential file returns the next bytes of its contents, fewer than asked for only at the end,
  as long as it works (\<open>works\<close>); a skip may fail, but does not go back, and succeeds within the file.
\<close>

locale sequential_file =
  fixes file_read :: "'f \<Rightarrow> nat \<Rightarrow> ldb_status \<times> slice \<times> 'f"
    and file_skip :: "'f \<Rightarrow> u64 \<Rightarrow> ldb_status \<times> 'f"
    and works :: "'f \<Rightarrow> bool"
    and unread :: "'f \<Rightarrow> slice"
  assumes read_works: "works f \<Longrightarrow>
      \<exists>f'. file_read f n = (OK, take n (unread f), f') \<and> works f' \<and> unread f' = drop n (unread f)"
    and skip_keeps: "works f \<Longrightarrow> unat k < 2 ^ 63 \<Longrightarrow> file_skip f k = (s, f') \<Longrightarrow>
      works f' \<and> length (unread f') \<le> length (unread f)"
    and skip_works: "works f \<Longrightarrow> unat k \<le> length (unread f) \<Longrightarrow>
      \<exists>f'. file_skip f k = (OK, f') \<and> works f' \<and> unread f' = drop (unat k) (unread f)"

text \<open>
  A writable file never loses what was written; it takes a prefix of the data, and all of it when it
  reports success, which it does while it has room.
\<close>

locale writable_file =
  fixes file_append :: "'f \<Rightarrow> slice \<Rightarrow> ldb_status \<times> 'f"
    and file_flush :: "'f \<Rightarrow> ldb_status \<times> 'f"
    and written :: "'f \<Rightarrow> slice"
    and room :: "'f \<Rightarrow> nat"
  assumes append_grows: "file_append f d = (s, f') \<Longrightarrow>
      \<exists>k. written f' = written f @ take k d \<and> (ok s \<longrightarrow> length d \<le> k)"
    and append_works: "length d \<le> room f \<Longrightarrow>
      \<exists>f'. file_append f d = (OK, f') \<and> written f' = written f @ d \<and> room f' = room f - length d"
    and flush_keeps: "file_flush f = (s, f') \<Longrightarrow> written f' = written f \<and> room f' = room f"
    and flush_works: "\<exists>f'. file_flush f = (OK, f')"

section \<open>Streams of the C library\<close>

text \<open>
  An open stream: the bytes of the file, the position, the number of bytes that can still be stored,
  the position at which the device fails to read, if any, the end-of-file indicator, and the text
  that \<open>strerror\<close> gives for the last error.
\<close>

record c_stream =
  stream_bytes :: slice
  stream_pos :: nat
  stream_room :: nat
  bad_sector :: "nat option"
  end_of_file :: bool
  error_text :: slice

definition readable :: "c_stream \<Rightarrow> nat" where
  "readable f = (case bad_sector f of None \<Rightarrow> length (stream_bytes f) | Some b \<Rightarrow> min b (length (stream_bytes f)))"

definition fread :: "c_stream \<Rightarrow> nat \<Rightarrow> slice \<times> c_stream" where
  "fread f n =
     (let data = take (min n (readable f - stream_pos f)) (drop (stream_pos f) (stream_bytes f)) in
      (data, f\<lparr>stream_pos := stream_pos f + length data,
               end_of_file := end_of_file f
                 \<or> length data < n \<and> length (stream_bytes f) \<le> stream_pos f + length data\<rparr>))"

definition fseek_cur :: "c_stream \<Rightarrow> u64 \<Rightarrow> bool \<times> c_stream" where
  "fseek_cur f n =
     (let p = int (stream_pos f) + sint n in
      if 0 \<le> p \<and> p < 2 ^ 63 then (True, f\<lparr>stream_pos := nat p, end_of_file := False\<rparr>) else (False, f))"

definition fwrite :: "c_stream \<Rightarrow> slice \<Rightarrow> nat \<times> c_stream" where
  "fwrite f d =
     (let r = min (length d) (stream_room f) in
      (r, f\<lparr>stream_bytes := stream_bytes f @ take r d, stream_room := stream_room f - r\<rparr>))"

section \<open>The files of \<open>env_posix.cc\<close>\<close>

record posix_file =
  filename :: slice
  stream :: c_stream

definition posix_IOError :: "posix_file \<Rightarrow> ldb_status" where
  "posix_IOError f = IOError (filename f) (error_text (stream f))"

definition PosixSequentialFile_Read :: "posix_file \<Rightarrow> nat \<Rightarrow> ldb_status \<times> slice \<times> posix_file" where
  "PosixSequentialFile_Read f n =
     (let (data, st) = fread (stream f) n; f' = f\<lparr>stream := st\<rparr> in
      (if length data < n then if end_of_file st then OK else posix_IOError f' else OK, data, f'))"

definition PosixSequentialFile_Skip :: "posix_file \<Rightarrow> u64 \<Rightarrow> ldb_status \<times> posix_file" where
  "PosixSequentialFile_Skip f n =
     (let (done, st) = fseek_cur (stream f) n; f' = f\<lparr>stream := st\<rparr> in
      (if done then OK else posix_IOError f', f'))"

definition PosixWritableFile_Append :: "posix_file \<Rightarrow> slice \<Rightarrow> ldb_status \<times> posix_file" where
  "PosixWritableFile_Append f data =
     (let (r, st) = fwrite (stream f) data; f' = f\<lparr>stream := st\<rparr> in
      (if r \<noteq> length data then posix_IOError f' else OK, f'))"

text \<open>Here the bytes are in the file as soon as \<open>fwrite\<close> returns, so that a flush changes nothing.\<close>

definition PosixWritableFile_Flush :: "posix_file \<Rightarrow> ldb_status \<times> posix_file" where
  "PosixWritableFile_Flush f = (OK, f)"

definition posix_works :: "posix_file \<Rightarrow> bool" where
  "posix_works f \<longleftrightarrow> bad_sector (stream f) = None \<and> stream_pos (stream f) < 2 ^ 63
     \<and> length (stream_bytes (stream f)) < 2 ^ 63"

definition posix_unread :: "posix_file \<Rightarrow> slice" where
  "posix_unread f = drop (stream_pos (stream f)) (stream_bytes (stream f))"

lemma sint_of_nat: "unat (n :: u64) < 2 ^ 63 \<Longrightarrow> sint n = int (unat n)"
proof -
  assume "unat n < 2 ^ 63"
  then have "int (unat n) < int (2 ^ 63)" by (simp only: of_nat_less_iff)
  then have "uint n < 2 ^ 63" by simp
  moreover have "- (2 ^ 63) \<le> uint n" by (rule order_trans [OF _ uint_nonnegative]) simp
  ultimately have "signed_take_bit 63 (uint n) = uint n" by (rule signed_take_bit_int_eq_self [rotated])
  then show "sint n = int (unat n)" by (simp add: sint_uint)
qed

lemma fread_good:
  assumes "posix_works f"
  shows "fst (fread (stream f) n) = take n (posix_unread f)"
    "posix_works (f\<lparr>stream := snd (fread (stream f) n)\<rparr>)"
    "posix_unread (f\<lparr>stream := snd (fread (stream f) n)\<rparr>) = drop n (posix_unread f)"
    "length (fst (fread (stream f) n)) < n \<Longrightarrow> end_of_file (snd (fread (stream f) n))"
proof -
  define d where "d = take (min n (readable (stream f) - stream_pos (stream f))) (drop (stream_pos (stream f)) (stream_bytes (stream f)))"
  have r: "readable (stream f) = length (stream_bytes (stream f))" using assms by (simp add: posix_works_def readable_def)
  then have d: "d = take n (posix_unread f)" "length d = min n (length (posix_unread f))"
    by (simp_all add: d_def posix_unread_def min_def)
  have e: "fread (stream f) n = (d, stream f\<lparr>stream_pos := stream_pos (stream f) + length d,
      end_of_file := end_of_file (stream f) \<or> length d < n
        \<and> length (stream_bytes (stream f)) \<le> stream_pos (stream f) + length d\<rparr>)"
    by (simp add: fread_def d_def Let_def)
  show "fst (fread (stream f) n) = take n (posix_unread f)" by (simp add: e d(1))
  have l: "length d = min n (length (stream_bytes (stream f)) - stream_pos (stream f))"
    using d(2) by (simp add: posix_unread_def)
  show "posix_works (f\<lparr>stream := snd (fread (stream f) n)\<rparr>)"
    using assms l by (auto simp: e posix_works_def)
  show "posix_unread (f\<lparr>stream := snd (fread (stream f) n)\<rparr>) = drop n (posix_unread f)"
    using l by (simp add: e posix_unread_def min_def add.commute)
  show "length (fst (fread (stream f) n)) < n \<Longrightarrow> end_of_file (snd (fread (stream f) n))"
    using l by (auto simp: e)
qed

interpretation posix_sequential: sequential_file PosixSequentialFile_Read PosixSequentialFile_Skip
  posix_works posix_unread
proof unfold_locales
  fix f n assume w: "posix_works f"
  show "\<exists>f'. PosixSequentialFile_Read f n = (OK, take n (posix_unread f), f')
      \<and> posix_works f' \<and> posix_unread f' = drop n (posix_unread f)"
    using fread_good [OF w, of n]
    by (cases "fread (stream f) n") (simp add: PosixSequentialFile_Read_def Let_def)
next
  fix f f' and n :: u64 and s
  assume f: "posix_works f" and n: "unat n < 2 ^ 63" and s: "PosixSequentialFile_Skip f n = (s, f')"
  have "nat (int (stream_pos (stream f)) + uint n) = stream_pos (stream f) + unat n"
    by (simp add: nat_add_distrib)
  then show "posix_works f' \<and> length (posix_unread f') \<le> length (posix_unread f)"
    using f s unfolding PosixSequentialFile_Skip_def fseek_cur_def sint_of_nat [OF n]
    by (auto simp: posix_works_def posix_unread_def Let_def nat_less_iff split: if_splits)
next
  fix f and n :: u64 assume w: "posix_works f" and n: "unat n \<le> length (posix_unread f)"
  then have u: "unat n < 2 ^ 63" by (auto simp: posix_works_def posix_unread_def)
  have "stream_pos (stream f) + unat n < 2 ^ 63"
    using w n by (auto simp: posix_works_def posix_unread_def)
  then have "int (stream_pos (stream f) + unat n) < int (2 ^ 63)" by (simp only: of_nat_less_iff)
  moreover have p: "int (stream_pos (stream f)) + sint n = int (stream_pos (stream f) + unat n)"
    using sint_of_nat [OF u] by simp
  ultimately have "fseek_cur (stream f) n = (True, stream f
      \<lparr>stream_pos := stream_pos (stream f) + unat n, end_of_file := False\<rparr>)"
    by (simp add: fseek_cur_def p del: of_nat_add)
  then show "\<exists>f'. PosixSequentialFile_Skip f n = (OK, f') \<and> posix_works f'
      \<and> posix_unread f' = drop (unat n) (posix_unread f)"
    using w n by (auto simp: PosixSequentialFile_Skip_def posix_works_def posix_unread_def Let_def add.commute)
qed

lemma posix_append:
  "fst (PosixWritableFile_Append f d) = (if length d \<le> stream_room (stream f) then OK
     else posix_IOError (f\<lparr>stream := snd (fwrite (stream f) d)\<rparr>))"
  "stream_bytes (stream (snd (PosixWritableFile_Append f d))) = stream_bytes (stream f) @ take (stream_room (stream f)) d"
  "stream_room (stream (snd (PosixWritableFile_Append f d))) = stream_room (stream f) - length d"
  by (auto simp: PosixWritableFile_Append_def fwrite_def Let_def min_def)

interpretation posix_writable: writable_file PosixWritableFile_Append PosixWritableFile_Flush
  "\<lambda>f. stream_bytes (stream f)" "\<lambda>f. stream_room (stream f)"
proof unfold_locales
  fix f :: posix_file and d :: slice and s f'
  assume "PosixWritableFile_Append f d = (s, f')"
  then show "\<exists>k. stream_bytes (stream f') = stream_bytes (stream f) @ take k d \<and> (ok s \<longrightarrow> length d \<le> k)"
    using posix_append [of f d] by (intro exI [of _ "stream_room (stream f)"]) (auto simp: posix_IOError_def split: if_splits)
next
  fix f :: posix_file and d :: slice
  assume "length d \<le> stream_room (stream f)"
  then show "\<exists>f'. PosixWritableFile_Append f d = (OK, f')
      \<and> stream_bytes (stream f') = stream_bytes (stream f) @ d \<and> stream_room (stream f') = stream_room (stream f) - length d"
    using posix_append [of f d] by (cases "PosixWritableFile_Append f d") simp
qed (auto simp: PosixWritableFile_Flush_def)

end
