(* ===== verification/LdbLog.thy ===== *)
theory LdbLog
  imports LdbEnv LdbCrc32c
begin

text \<open>
  The write-ahead log: \<open>db/log_format.h\<close>, the writer of \<open>db/log_writer.cc\<close> over any writable file
  and the reader of \<open>db/log_reader.cc\<close> over any sequential file. A log is a sequence of blocks of
  32768 bytes, which hold records of a checksum, a length, a type and a fragment of the data. The
  result of \<open>Extend\<close> does not depend on the address of its buffer (\<open>Extend_correct\<close>), which is taken
  to be 0 here.
\<close>

section \<open>The format\<close>

definition kZeroType :: u32 where "kZeroType = 0"
definition kFullType :: u32 where "kFullType = 1"
definition kFirstType :: u32 where "kFirstType = 2"
definition kMiddleType :: u32 where "kMiddleType = 3"
definition kLastType :: u32 where "kLastType = 4"
definition kMaxRecordType :: u32 where "kMaxRecordType = kLastType"
definition kBlockSize :: nat where "kBlockSize = 32768"
definition kHeaderSize :: nat where "kHeaderSize = 4 + 2 + 1"

lemmas record_types = kZeroType_def kFullType_def kFirstType_def kMiddleType_def kLastType_def

section \<open>The writer\<close>

record 'f log_writer =
  dest_file :: 'f
  block_offset :: int
  type_crc :: "u32 list"

definition InitTypeCrc :: "u32 list" where
  "InitTypeCrc = map (\<lambda>i. crc_Value 0 [of_nat i]) [0..<unat kMaxRecordType + 1]"

definition new_Writer :: "'f \<Rightarrow> 'f log_writer" where
  "new_Writer dest = \<lparr>dest_file = dest, block_offset = 0, type_crc = InitTypeCrc\<rparr>"

definition reopen_Writer :: "'f \<Rightarrow> u64 \<Rightarrow> 'f log_writer" where
  "reopen_Writer dest dest_length =
     \<lparr>dest_file = dest, block_offset = int (unat dest_length mod kBlockSize), type_crc = InitTypeCrc\<rparr>"

text \<open>The file is given by its operations \<open>app\<close> and \<open>fl\<close>.\<close>

definition EmitPhysicalRecord ::
    "('f \<Rightarrow> slice \<Rightarrow> ldb_status \<times> 'f) \<Rightarrow> ('f \<Rightarrow> ldb_status \<times> 'f) \<Rightarrow> 'f log_writer \<Rightarrow> u32 \<Rightarrow> slice
     \<Rightarrow> ldb_status \<times> 'f log_writer" where
  "EmitPhysicalRecord app fl w t data =
     (let n = of_nat (length data) :: u64;
          crc = crc_Mask (Extend 0 (type_crc w ! unat t) data);
          buf = EncodeFixed32 crc @ [ucast (n AND 0xff), ucast (drop_bit 8 n), ucast t];
          (s, f) = app (dest_file w) buf;
          (s, f) = (if ok s then
                      let (s, f) = app f data in
                      if ok s then fl f else (s, f)
                    else (s, f)) in
      (s, w\<lparr>dest_file := f, block_offset := block_offset w + int kHeaderSize + int (length data)\<rparr>))"

lemma block_offset_Emit:
  "block_offset (snd (EmitPhysicalRecord app fl w t data)) = block_offset w + int kHeaderSize + int (length data)"
  by (auto simp: EmitPhysicalRecord_def Let_def split: prod.splits)

text \<open>Switch to a new block when the header does not fit in this one.\<close>

definition switch_block :: "('f \<Rightarrow> slice \<Rightarrow> ldb_status \<times> 'f) \<Rightarrow> 'f log_writer \<Rightarrow> 'f log_writer" where
  "switch_block app w =
     (let leftover = int kBlockSize - block_offset w in
      if leftover < int kHeaderSize then
        (if leftover > 0
         then w\<lparr>dest_file := snd (app (dest_file w) (replicate (nat leftover) 0)), block_offset := 0\<rparr>
         else w\<lparr>block_offset := 0\<rparr>)
      else w)"

function add_record_loop ::
    "('f \<Rightarrow> slice \<Rightarrow> ldb_status \<times> 'f) \<Rightarrow> ('f \<Rightarrow> ldb_status \<times> 'f) \<Rightarrow> 'f log_writer \<Rightarrow> bool \<Rightarrow> slice
     \<Rightarrow> ldb_status \<times> 'f log_writer" where
  "add_record_loop app fl w begin rest =
     (let w = switch_block app w;
          avail = nat (int kBlockSize - block_offset w - int kHeaderSize);
          fragment_length = (if length rest < avail then length rest else avail);
          end = (length rest = fragment_length);
          t = (if begin \<and> end then kFullType else if begin then kFirstType
               else if end then kLastType else kMiddleType);
          (s, w) = EmitPhysicalRecord app fl w t (take fragment_length rest);
          rest = drop fragment_length rest in
      if ok s \<and> length rest > 0 then add_record_loop app fl w False rest else (s, w))"
  by pat_completeness auto
termination
proof (relation "measures [\<lambda>(_, _, _, _, rest). length rest,
    \<lambda>(_, _, w, _, _). if block_offset w = int kBlockSize - int kHeaderSize then 1 else 0]", simp)
  fix app :: "'f \<Rightarrow> slice \<Rightarrow> ldb_status \<times> 'f" and fl :: "'f \<Rightarrow> ldb_status \<times> 'f"
    and w w1 w2 :: "'f log_writer" and begins :: bool and rest rest' :: slice and avail frag :: nat
    and t :: u32 and p s
  assume w1: "w1 = switch_block app w"
    and avail: "avail = nat (int kBlockSize - block_offset w1 - int kHeaderSize)"
    and frag: "frag = (if length rest < avail then length rest else avail)"
    and p: "p = EmitPhysicalRecord app fl w1 t (take frag rest)" and p': "(s, w2) = p"
    and r: "rest' = drop frag rest" and more: "ok s \<and> 0 < length rest'"
  have o: "block_offset w1 = (if int kBlockSize - block_offset w < int kHeaderSize then 0 else block_offset w)"
    by (simp add: w1 switch_block_def Let_def)
  have "block_offset w2 = block_offset w1 + int kHeaderSize + int (length (take frag rest))"
    using block_offset_Emit [of app fl w1 t "take frag rest"] p p' by (metis snd_conv)
  then show "((app, fl, w2, False, rest'), (app, fl, w, begins, rest)) \<in> measures [\<lambda>(_, _, _, _, rest). length rest,
      \<lambda>(_, _, w, _, _). if block_offset w = int kBlockSize - int kHeaderSize then 1 else 0]"
    using more o r frag avail by (auto simp: kBlockSize_def kHeaderSize_def split: if_splits)
qed

declare add_record_loop.simps [simp del]

definition AddRecord ::
    "('f \<Rightarrow> slice \<Rightarrow> ldb_status \<times> 'f) \<Rightarrow> ('f \<Rightarrow> ldb_status \<times> 'f) \<Rightarrow> 'f log_writer \<Rightarrow> slice
     \<Rightarrow> ldb_status \<times> 'f log_writer" where
  "AddRecord app fl w data = add_record_loop app fl w True data"

section \<open>The reader\<close>

text \<open>
  The reader's fields, and in \<open>reports\<close> the calls of its reporter, newest first, or \<open>None\<close> when it
  has none. \<open>reader_buffer\<close> holds the bytes of \<open>buffer_\<close>.
\<close>

record 'f log_reader =
  reader_file :: 'f
  reports :: "(u64 \<times> ldb_status) list option"
  checksum :: bool
  reader_buffer :: slice
  reader_eof :: bool
  last_record_offset :: u64
  end_of_buffer_offset :: u64
  initial_offset :: u64
  resyncing :: bool

definition kEof :: u32 where "kEof = kMaxRecordType + 1"
definition kBadRecord :: u32 where "kBadRecord = kMaxRecordType + 2"

definition new_Reader :: "'f \<Rightarrow> (u64 \<times> ldb_status) list option \<Rightarrow> bool \<Rightarrow> u64 \<Rightarrow> 'f log_reader" where
  "new_Reader file reporter check offset =
     \<lparr>reader_file = file, reports = reporter, checksum = check, reader_buffer = [], reader_eof = False,
      last_record_offset = 0, end_of_buffer_offset = 0, initial_offset = offset, resyncing = offset > 0\<rparr>"

definition ReportDrop :: "'f log_reader \<Rightarrow> u64 \<Rightarrow> ldb_status \<Rightarrow> 'f log_reader" where
  "ReportDrop r bytes reason =
     (case reports r of None \<Rightarrow> r
      | Some log \<Rightarrow>
          if end_of_buffer_offset r - of_nat (length (reader_buffer r)) - bytes \<ge> initial_offset r
          then r\<lparr>reports := Some ((bytes, reason) # log)\<rparr> else r)"

definition ReportCorruption :: "'f log_reader \<Rightarrow> u64 \<Rightarrow> slice \<Rightarrow> 'f log_reader" where
  "ReportCorruption r bytes reason = ReportDrop r bytes (Corruption reason [])"

definition SkipToInitialBlock :: "('f \<Rightarrow> u64 \<Rightarrow> ldb_status \<times> 'f) \<Rightarrow> 'f log_reader \<Rightarrow> bool \<times> 'f log_reader" where
  "SkipToInitialBlock skip r =
     (let offset_in_block = initial_offset r mod of_nat kBlockSize;
          block_start_location = initial_offset r - offset_in_block;
          block_start_location =
            (if offset_in_block > of_nat kBlockSize - 6 then block_start_location + of_nat kBlockSize
             else block_start_location);
          r = r\<lparr>end_of_buffer_offset := block_start_location\<rparr> in
      if block_start_location > 0 then
        let (skip_status, f) = skip (reader_file r) block_start_location; r = r\<lparr>reader_file := f\<rparr> in
        if \<not> ok skip_status then (False, ReportDrop r block_start_location skip_status) else (True, r)
      else (True, r))"

text \<open>
  The next physical record: its type or \<open>kEof\<close> or \<open>kBadRecord\<close>, and what \<open>*result\<close> holds then
  (\<open>fragment\<close> before). The type is a \<open>char\<close> on the way to an \<open>unsigned int\<close>. The first function is
  the loop body from the header on, the second the loop.
\<close>

definition parse_physical_record :: "'f log_reader \<Rightarrow> slice \<Rightarrow> u32 \<times> slice \<times> 'f log_reader" where
  "parse_physical_record r fragment =
     (let header = reader_buffer r;
          a = ucast (header ! 4) AND 0xff :: u32;
          b = ucast (header ! 5) AND 0xff :: u32;
          t = scast (header ! 6) :: u32;
          len = a OR push_bit 8 b;
          drop_size = of_nat (length header) in
      if kHeaderSize + unat len > length header then
        let r = r\<lparr>reader_buffer := []\<rparr> in
        if \<not> reader_eof r then (kBadRecord, fragment, ReportCorruption r drop_size (cstr ''bad record length''))
        else (kEof, fragment, r)
      else if t = kZeroType \<and> len = 0 then (kBadRecord, fragment, r\<lparr>reader_buffer := []\<rparr>)
      else if checksum r
          \<and> crc_Value 0 (take (1 + unat len) (drop 6 header)) \<noteq> crc_Unmask (DecodeFixed32 (take 4 header))
        then (kBadRecord, fragment, ReportCorruption (r\<lparr>reader_buffer := []\<rparr>) drop_size (cstr ''checksum mismatch''))
      else
        let r = r\<lparr>reader_buffer := drop (kHeaderSize + unat len) header\<rparr> in
        if end_of_buffer_offset r - of_nat (length (reader_buffer r)) - of_nat kHeaderSize - ucast len < initial_offset r
        then (kBadRecord, [], r)
        else (t, take (unat len) (drop kHeaderSize header), r))"

text \<open>At most two reads are needed: a read that gives less than a header is the end of the file.\<close>

function ReadPhysicalRecord ::
    "('f \<Rightarrow> nat \<Rightarrow> ldb_status \<times> slice \<times> 'f) \<Rightarrow> 'f log_reader \<Rightarrow> slice \<Rightarrow> u32 \<times> slice \<times> 'f log_reader" where
  "ReadPhysicalRecord read r fragment =
     (if length (reader_buffer r) < kHeaderSize then
        if \<not> reader_eof r then
          let (s, b, f) = read (reader_file r) kBlockSize;
              r = r\<lparr>reader_file := f, reader_buffer := b,
                    end_of_buffer_offset := end_of_buffer_offset r + of_nat (length b)\<rparr> in
          if \<not> ok s then
            (kEof, fragment, (ReportDrop (r\<lparr>reader_buffer := []\<rparr>) (of_nat kBlockSize) s)\<lparr>reader_eof := True\<rparr>)
          else
            let r = (if length b < kBlockSize then r\<lparr>reader_eof := True\<rparr> else r) in
            ReadPhysicalRecord read r fragment
        else (kEof, fragment, r\<lparr>reader_buffer := []\<rparr>)
      else parse_physical_record r fragment)"
  by pat_completeness auto
termination
  by (relation "measure (\<lambda>(_, r, _). if kHeaderSize \<le> length (reader_buffer r) then 0
      else if reader_eof r then 1 else 2)")
    (auto simp: kBlockSize_def kHeaderSize_def)

declare ReadPhysicalRecord.simps [simp del]

text \<open>
  The loop of \<open>ReadRecord\<close>, with the local variables \<open>fragment\<close>, \<open>scratch\<close>, \<open>in_fragmented_record\<close>
  and \<open>prospective_record_offset\<close>. A file may never end, so that the number of physical records read
  is limited by the fuel; \<open>Some (Some record, r)\<close> is a return of true with a record, \<open>Some (None, r)\<close>
  a return of false.
\<close>

fun read_record_loop ::
    "('f \<Rightarrow> nat \<Rightarrow> ldb_status \<times> slice \<times> 'f) \<Rightarrow> nat \<Rightarrow> 'f log_reader \<Rightarrow> slice \<Rightarrow> slice \<Rightarrow> bool \<Rightarrow> u64
     \<Rightarrow> (slice option \<times> 'f log_reader) option" where
  "read_record_loop read 0 r fragment scratch in_fragmented prospective = None"
| "read_record_loop read (Suc fuel) r fragment scratch in_fragmented prospective =
     (let (t, fragment, r) = ReadPhysicalRecord read r fragment;
          physical = end_of_buffer_offset r - of_nat (length (reader_buffer r)) - of_nat kHeaderSize
            - of_nat (length fragment);
          skip = (resyncing r \<and> (t = kMiddleType \<or> t = kLastType));
          r = (if resyncing r \<and> t \<noteq> kMiddleType then r\<lparr>resyncing := False\<rparr> else r) in
      if skip then read_record_loop read fuel r fragment scratch in_fragmented prospective
      else if t = kFullType then
        let r = (if in_fragmented \<and> scratch \<noteq> []
                 then ReportCorruption r (of_nat (length scratch)) (cstr ''partial record without end(1)'') else r) in
        Some (Some fragment, r\<lparr>last_record_offset := physical\<rparr>)
      else if t = kFirstType then
        let r = (if in_fragmented \<and> scratch \<noteq> []
                 then ReportCorruption r (of_nat (length scratch)) (cstr ''partial record without end(2)'') else r) in
        read_record_loop read fuel r fragment fragment True physical
      else if t = kMiddleType then
        if \<not> in_fragmented then
          read_record_loop read fuel
            (ReportCorruption r (of_nat (length fragment)) (cstr ''missing start of fragmented record(1)''))
            fragment scratch in_fragmented prospective
        else read_record_loop read fuel r fragment (scratch @ fragment) in_fragmented prospective
      else if t = kLastType then
        if \<not> in_fragmented then
          read_record_loop read fuel
            (ReportCorruption r (of_nat (length fragment)) (cstr ''missing start of fragmented record(2)''))
            fragment scratch in_fragmented prospective
        else Some (Some (scratch @ fragment), r\<lparr>last_record_offset := prospective\<rparr>)
      else if t = kEof then Some (None, r)
      else if t = kBadRecord then
        if in_fragmented then
          read_record_loop read fuel
            (ReportCorruption r (of_nat (length scratch)) (cstr ''error in middle of record'')) fragment [] False prospective
        else read_record_loop read fuel r fragment scratch in_fragmented prospective
      else
        read_record_loop read fuel
          (ReportCorruption r (of_nat (length fragment + (if in_fragmented then length scratch else 0)))
             (cstr ''unknown record type '' @ decimal (unat t)))
          fragment [] False prospective)"

definition ReadRecord ::
    "('f \<Rightarrow> nat \<Rightarrow> ldb_status \<times> slice \<times> 'f) \<Rightarrow> ('f \<Rightarrow> u64 \<Rightarrow> ldb_status \<times> 'f) \<Rightarrow> nat \<Rightarrow> 'f log_reader
     \<Rightarrow> (slice option \<times> 'f log_reader) option" where
  "ReadRecord read skip fuel r =
     (let (go, r) = (if last_record_offset r < initial_offset r then SkipToInitialBlock skip r else (True, r)) in
      if \<not> go then Some (None, r) else read_record_loop read fuel r [] [] False 0)"

definition LastRecordOffset :: "'f log_reader \<Rightarrow> u64" where
  "LastRecordOffset r = last_record_offset r"

end
