(* ===== verification/LdbLogWrite.thy ===== *)
theory LdbLogWrite
  imports LdbLog
begin

text \<open>
  What a log holds: the fragments of a record and their bytes, and the writer's refinement of that
  layout on any writable file with room.
\<close>


section \<open>The layout\<close>

definition physical :: "u32 \<Rightarrow> slice \<Rightarrow> slice" where
  "physical t p = EncodeFixed32 (crc_Mask (crc_Value 0 (ucast t # p)))
     @ [of_nat (length p mod 256), of_nat (length p div 256), ucast t] @ p"

definition pad :: "nat \<Rightarrow> nat" where
  "pad ofs = (if kBlockSize - ofs < kHeaderSize then kBlockSize - ofs else 0)"

definition base :: "nat \<Rightarrow> nat" where
  "base ofs = (if kBlockSize - ofs < kHeaderSize then 0 else ofs)"

definition step :: "nat \<Rightarrow> slice \<Rightarrow> nat" where
  "step ofs p = base ofs + kHeaderSize + length p"

text \<open>The fragments of a record from block offset \<open>ofs\<close>, with their types.\<close>

function frags :: "nat \<Rightarrow> bool \<Rightarrow> slice \<Rightarrow> (u32 \<times> slice) list" where
  "frags ofs first rest =
     (let n = min (length rest) (kBlockSize - base ofs - kHeaderSize); last = (length rest = n);
          t = (if first \<and> last then kFullType else if first then kFirstType
               else if last then kLastType else kMiddleType) in
      (t, take n rest) # (if last then [] else frags (base ofs + kHeaderSize + n) False (drop n rest)))"
  by pat_completeness auto
termination
  by (relation "measures [\<lambda>(_, _, rest). length rest,
      \<lambda>(ofs, _, _). if ofs = kBlockSize - kHeaderSize then 1 else 0]")
    (auto simp: kBlockSize_def kHeaderSize_def base_def min_def split: if_splits)

declare frags.simps [simp del]

fun frag_bytes :: "nat \<Rightarrow> (u32 \<times> slice) list \<Rightarrow> slice" where
  "frag_bytes ofs [] = []"
| "frag_bytes ofs ((t, p) # fs) = replicate (pad ofs) 0 @ physical t p @ frag_bytes (step ofs p) fs"

fun frag_end :: "nat \<Rightarrow> (u32 \<times> slice) list \<Rightarrow> nat" where
  "frag_end ofs [] = ofs"
| "frag_end ofs ((t, p) # fs) = frag_end (step ofs p) fs"

text \<open>The bytes of records, one after the other.\<close>

fun log_bytes :: "nat \<Rightarrow> slice list \<Rightarrow> slice" where
  "log_bytes ofs [] = []"
| "log_bytes ofs (d # ds) = frag_bytes ofs (frags ofs True d) @ log_bytes (frag_end ofs (frags ofs True d)) ds"

lemma length_physical [simp]: "length (physical t p) = kHeaderSize + length p"
  by (simp add: physical_def kHeaderSize_def)

lemma base_le: "base ofs + kHeaderSize \<le> kBlockSize"
  by (auto simp: base_def kBlockSize_def kHeaderSize_def)

lemma frags_fits: "(t, p) \<in> set (frags ofs first rest) \<Longrightarrow>
    kHeaderSize + length p \<le> kBlockSize \<and> t \<in> {kFullType, kFirstType, kMiddleType, kLastType}"
proof (induction ofs first rest rule: frags.induct)
  case (1 ofs first rest)
  show ?case
    using 1 base_le [of ofs] by (subst (asm) (2) frags.simps) (auto simp: Let_def min_def split: if_splits)
qed

section \<open>The writer\<close>

lemma length_InitTypeCrc [simp]: "length InitTypeCrc = 5"
  by (simp add: InitTypeCrc_def kMaxRecordType_def kLastType_def)

lemma InitTypeCrc_nth: "unat t < 5 \<Longrightarrow> InitTypeCrc ! unat t = crc_Value 0 [ucast (t :: u32)]"
  by (simp add: InitTypeCrc_def kMaxRecordType_def kLastType_def)

definition writer_at :: "nat \<Rightarrow> 'f log_writer \<Rightarrow> bool" where
  "writer_at ofs w \<longleftrightarrow> block_offset w = int ofs \<and> ofs \<le> kBlockSize \<and> type_crc w = InitTypeCrc"

lemma length_bytes:
  assumes "n < 2 ^ 16"
  shows "ucast ((of_nat n :: u64) AND 0xff) = (of_nat (n mod 256) :: u8)"
    "ucast (drop_bit 8 (of_nat n :: u64)) = (of_nat (n div 256) :: u8)"
proof -
  have n: "unat (of_nat n :: u64) = n" using assms by (simp add: unat_of_nat)
  have "unat ((of_nat n :: u64) AND 0xff) = n mod 256" unfolding and_ff
    using n by (simp add: unsigned_take_bit_eq take_bit_eq_mod unat_mod)
  then show "ucast ((of_nat n :: u64) AND 0xff) = (of_nat (n mod 256) :: u8)"
    by (simp add: word_unat_eq_iff unsigned_ucast_eq take_bit_eq_mod unat_of_nat)
  have "unat (drop_bit 8 (of_nat n :: u64)) = n div 256" using n by (simp add: unat_drop_bit)
  then show "ucast (drop_bit 8 (of_nat n :: u64)) = (of_nat (n div 256) :: u8)"
    using assms by (simp add: word_unat_eq_iff unsigned_ucast_eq take_bit_eq_mod unat_of_nat)
qed

context writable_file
begin

lemma emit_physical:
  assumes "writer_at ofs w" "unat t < 5" "length d < 2 ^ 16" "kHeaderSize + length d \<le> room (dest_file w)"
    "ofs + kHeaderSize + length d \<le> kBlockSize"
  shows "\<exists>w'. EmitPhysicalRecord file_append file_flush w t d = (OK, w') \<and> writer_at (ofs + kHeaderSize + length d) w'
    \<and> written (dest_file w') = written (dest_file w) @ physical t d
    \<and> room (dest_file w') = room (dest_file w) - (kHeaderSize + length d)"
proof -
  let ?hdr = "EncodeFixed32 (crc_Mask (crc_Value 0 (ucast t # d)))
      @ [of_nat (length d mod 256), of_nat (length d div 256), ucast t :: u8]"
  have c: "Extend 0 (type_crc w ! unat t) d = crc_Value 0 (ucast t # d)"
    using assms(1,2) Extend_spec by (simp add: writer_at_def InitTypeCrc_nth crc_Value_def crc32c_spec_def)
  have h: "kHeaderSize = length ?hdr" by (simp add: kHeaderSize_def)
  obtain f1 where f1: "file_append (dest_file w) ?hdr = (OK, f1)" "written f1 = written (dest_file w) @ ?hdr"
      "room f1 = room (dest_file w) - kHeaderSize"
    using append_works [of ?hdr "dest_file w"] assms(4) unfolding h by auto
  obtain f2 where f2: "file_append f1 d = (OK, f2)" "written f2 = written f1 @ d" "room f2 = room f1 - length d"
    using append_works [of d f1] assms(4) f1(3) by (metis add_le_imp_le_diff add.commute)
  obtain f3 where f3: "file_flush f2 = (OK, f3)" using flush_works by blast
  have e: "EmitPhysicalRecord file_append file_flush w t d =
      (OK, w\<lparr>dest_file := f3, block_offset := block_offset w + int kHeaderSize + int (length d)\<rparr>)"
    using f1(1) f2(1) f3 by (simp add: EmitPhysicalRecord_def Let_def c length_bytes [OF assms(3)])
  have "written f3 = written (dest_file w) @ physical t d \<and> room f3 = room (dest_file w) - (kHeaderSize + length d)"
    using flush_keeps [OF f3] f1(2,3) f2(2,3) by (simp add: physical_def)
  then show ?thesis unfolding e using assms(1,5) by (simp add: writer_at_def)
qed

lemma switch_pads:
  assumes "writer_at ofs w" "pad ofs \<le> room (dest_file w)"
  shows "writer_at (base ofs) (switch_block file_append w)
    \<and> written (dest_file (switch_block file_append w)) = written (dest_file w) @ replicate (pad ofs) 0
    \<and> room (dest_file (switch_block file_append w)) = room (dest_file w) - pad ofs"
proof (cases "kBlockSize - ofs < kHeaderSize \<and> ofs < kBlockSize")
  case True
  then have p: "pad ofs = kBlockSize - ofs" "base ofs = 0" by (simp_all add: pad_def base_def)
  have l: "nat (int kBlockSize - block_offset w) = pad ofs" using assms(1) by (simp add: writer_at_def p)
  obtain f where f: "file_append (dest_file w) (replicate (pad ofs) 0) = (OK, f)"
      "written f = written (dest_file w) @ replicate (pad ofs) 0" "room f = room (dest_file w) - pad ofs"
    using append_works [of "replicate (pad ofs) 0" "dest_file w"] assms(2) by auto
  have "switch_block file_append w = w\<lparr>dest_file := f, block_offset := 0\<rparr>"
    using True assms(1) f(1) unfolding switch_block_def Let_def l by (auto simp: writer_at_def kHeaderSize_def)
  then show ?thesis using f assms(1) by (simp add: writer_at_def p)
next
  case False
  then show ?thesis
    using assms(1) by (auto simp: switch_block_def Let_def writer_at_def pad_def base_def kBlockSize_def kHeaderSize_def)
qed

lemma record_written:
  "writer_at ofs w \<Longrightarrow> length (frag_bytes ofs (frags ofs first rest)) \<le> room (dest_file w) \<Longrightarrow>
   \<exists>w'. add_record_loop file_append file_flush w first rest = (OK, w')
     \<and> writer_at (frag_end ofs (frags ofs first rest)) w'
     \<and> written (dest_file w') = written (dest_file w) @ frag_bytes ofs (frags ofs first rest)
     \<and> room (dest_file w') = room (dest_file w) - length (frag_bytes ofs (frags ofs first rest))"
proof (induction ofs first rest arbitrary: w rule: frags.induct)
  case (1 ofs first rest)
  define n where "n = min (length rest) (kBlockSize - base ofs - kHeaderSize)"
  define t where "t = (if first \<and> length rest = n then kFullType else if first then kFirstType
      else if length rest = n then kLastType else kMiddleType)"
  define fs where "fs = (if length rest = n then [] else frags (base ofs + kHeaderSize + n) False (drop n rest))"
  have f: "frags ofs first rest = (t, take n rest) # fs"
    by (subst frags.simps) (simp add: Let_def n_def t_def fs_def)
  have ln: "length (take n rest) = n" by (simp add: n_def)
  have step: "step ofs (take n rest) = base ofs + kHeaderSize + n" unfolding step_def ln ..
  have n: "n < 2 ^ 16" "base ofs + kHeaderSize + n \<le> kBlockSize"
    using base_le [of ofs] by (auto simp: n_def kBlockSize_def)
  have room: "pad ofs + (kHeaderSize + n) + length (frag_bytes (base ofs + kHeaderSize + n) fs) \<le> room (dest_file w)"
    using 1(3) ln by (simp add: f step)
  let ?w1 = "switch_block file_append w"
  have w1: "writer_at (base ofs) ?w1" "written (dest_file ?w1) = written (dest_file w) @ replicate (pad ofs) 0"
    "room (dest_file ?w1) = room (dest_file w) - pad ofs"
    using switch_pads [OF 1(2)] room by simp_all
  have "unat t < 5" by (simp add: t_def record_types)
  moreover have "kHeaderSize + n \<le> room (dest_file ?w1)" using room w1(3) by linarith
  ultimately obtain w2 where w2: "EmitPhysicalRecord file_append file_flush ?w1 t (take n rest) = (OK, w2)"
      "writer_at (base ofs + kHeaderSize + n) w2"
      "written (dest_file w2) = written (dest_file ?w1) @ physical t (take n rest)"
      "room (dest_file w2) = room (dest_file ?w1) - (kHeaderSize + n)"
    using emit_physical [OF w1(1), of t "take n rest"] n unfolding ln by auto
  have a: "nat (int kBlockSize - block_offset ?w1 - int kHeaderSize) = kBlockSize - base ofs - kHeaderSize"
    using w1(1) by (simp add: writer_at_def)
  have m: "(if length rest < kBlockSize - base ofs - kHeaderSize then length rest
      else kBlockSize - base ofs - kHeaderSize) = n" by (simp add: n_def min_def)
  have nl: "n \<le> length rest" by (simp add: n_def)
  have r: "add_record_loop file_append file_flush w first rest =
      (if length rest \<noteq> n then add_record_loop file_append file_flush w2 False (drop n rest) else (OK, w2))"
    using nl unfolding add_record_loop.simps [of file_append file_flush w first rest] Let_def a m t_def [symmetric] w2(1)
    by auto
  show ?case
  proof (cases "length rest = n")
    case True
    then have fs: "fs = []" by (simp add: fs_def)
    show ?thesis using r w2 w1 True by (simp only: f fs frag_end.simps frag_bytes.simps step ln) simp
  next
    case False
    moreover have "length (frag_bytes (base ofs + kHeaderSize + n) fs) \<le> room (dest_file w2)"
      using room w2(4) w1(3) by linarith
    ultimately obtain w3 where w3: "add_record_loop file_append file_flush w2 False (drop n rest) = (OK, w3)"
        "writer_at (frag_end (base ofs + kHeaderSize + n) fs) w3"
        "written (dest_file w3) = written (dest_file w2) @ frag_bytes (base ofs + kHeaderSize + n) fs"
        "room (dest_file w3) = room (dest_file w2) - length (frag_bytes (base ofs + kHeaderSize + n) fs)"
      using 1(1) [OF n_def refl t_def, of w2] w2(2) by (auto simp: fs_def)
    then show ?thesis using r False w2(3,4) w1(2,3) nl by (simp add: f step min_absorb2)
  qed
qed

end

text \<open>A client that adds records until one fails.\<close>

fun add_all ::
    "('f \<Rightarrow> slice \<Rightarrow> ldb_status \<times> 'f) \<Rightarrow> ('f \<Rightarrow> ldb_status \<times> 'f) \<Rightarrow> 'f log_writer \<Rightarrow> slice list
     \<Rightarrow> ldb_status \<times> 'f log_writer" where
  "add_all app fl w [] = (OK, w)"
| "add_all app fl w (d # ds) = (case AddRecord app fl w d of (s, w') \<Rightarrow> if ok s then add_all app fl w' ds else (s, w'))"

context writable_file
begin

lemma all_written:
  "writer_at ofs w \<Longrightarrow> length (log_bytes ofs ds) \<le> room (dest_file w) \<Longrightarrow>
   \<exists>w'. add_all file_append file_flush w ds = (OK, w')
     \<and> written (dest_file w') = written (dest_file w) @ log_bytes ofs ds"
proof (induction ds arbitrary: ofs w)
  case (Cons d ds)
  obtain w1 where "add_record_loop file_append file_flush w True d = (OK, w1)"
      "writer_at (frag_end ofs (frags ofs True d)) w1"
      "written (dest_file w1) = written (dest_file w) @ frag_bytes ofs (frags ofs True d)"
      "room (dest_file w1) = room (dest_file w) - length (frag_bytes ofs (frags ofs True d))"
    using record_written [OF Cons.prems(1), of True d] Cons.prems(2) by auto
  then show ?case
    using Cons.IH [of "frag_end ofs (frags ofs True d)" w1] Cons.prems(2) by (simp add: AddRecord_def)
qed simp

end

end
