(* ===== verification/LdbLogProps.thy ===== *)
theory LdbLogProps
  imports LdbLogWrite
begin

text \<open>
  The reader's run over a log on any sequential file: whole, cut at any byte, and over damaged
  bytes; and its termination on any bytes.
\<close>

section \<open>One physical record\<close>

abbreviation writer_types :: "u32 set" where
  "writer_types \<equiv> {kFullType, kFirstType, kMiddleType, kLastType}"

lemma type_byte:
  assumes "t \<in> writer_types"
  shows "(scast (ucast t :: u8) :: u32) = t" "t \<noteq> kZeroType"
proof -
  have "(scast (ucast (1 :: u32) :: u8) :: u32) = 1" "(scast (ucast (2 :: u32) :: u8) :: u32) = 2"
    "(scast (ucast (3 :: u32) :: u8) :: u32) = 3" "(scast (ucast (4 :: u32) :: u8) :: u32) = 4"
    by code_simp+
  then show "(scast (ucast t :: u8) :: u32) = t" using assms by (auto simp: record_types)
  show "t \<noteq> kZeroType" using assms by (auto simp: record_types)
qed

lemma join_bytes:
  fixes A B :: u32
  assumes "\<And>k. bit A k \<longleftrightarrow> k < 8 \<and> bit n k" "\<And>k. bit B k \<longleftrightarrow> k < 8 \<and> bit n (k + 8)" "(n :: nat) < 2 ^ 16"
  shows "A OR push_bit 8 B = of_nat n"
proof (rule bit_word_eqI)
  fix k :: nat
  have top: "bit n k \<Longrightarrow> k < 16" using assms(3) by (metis bit_take_bit_iff take_bit_nat_eq_self)
  assume "k < LENGTH(32)"
  then show "bit (A OR push_bit 8 B) k = bit (of_nat n :: u32) k"
    using top by (cases "k < 8") (auto simp: bit_simps assms(1,2))
qed

lemma header_length:
  assumes "n < 2 ^ 16"
  shows "(ucast (of_nat (n mod 256) :: u8) AND 0xff) OR push_bit 8 (ucast (of_nat (n div 256) :: u8) AND 0xff) = (of_nat n :: u32)"
    "unat (of_nat n :: u32) = n"
proof -
  show "unat (of_nat n :: u32) = n" using assms by (simp add: unat_of_nat)
  have hi: "n div 256 < 256" using assms by (simp add: less_mult_imp_div_less)
  have lo: "bit (ucast (of_nat (n mod 256) :: u8) AND 0xff :: u32) k \<longleftrightarrow> k < 8 \<and> bit n k" for k
    unfolding and_ff by (auto simp: bit_simps simp flip: take_bit_eq_mod [of 8, simplified])
  have up: "bit (ucast (of_nat (n div 256) :: u8) AND 0xff :: u32) k \<longleftrightarrow> k < 8 \<and> bit n (k + 8)" for k
    unfolding and_ff by (auto simp: bit_simps add.commute simp flip: drop_bit_eq_div [of 8, simplified])
  show "(ucast (of_nat (n mod 256) :: u8) AND 0xff) OR push_bit 8 (ucast (of_nat (n div 256) :: u8) AND 0xff) = (of_nat n :: u32)"
    by (rule join_bytes [OF lo up assms])
qed

lemma physical_bytes:
  assumes "length p < 2 ^ 16"
  shows "take 4 (physical t p @ rest) = EncodeFixed32 (crc_Mask (crc_Value 0 (ucast t # p)))"
    "(physical t p @ rest) ! 4 = of_nat (length p mod 256)" "(physical t p @ rest) ! 5 = of_nat (length p div 256)"
    "(physical t p @ rest) ! 6 = ucast t" "drop 6 (physical t p @ rest) = ucast t # p @ rest"
    "drop 7 (physical t p @ rest) = p @ rest"
  by (simp_all add: physical_def nth_append)

lemma physical_nonempty: "physical t p \<noteq> []"
  by (simp add: physical_def)

lemma parse_physical:
  assumes "reader_buffer r = physical t p @ rest" "t \<in> writer_types" "length p < 2 ^ 16" "initial_offset r = 0"
  shows "parse_physical_record r fr = (t, p, r\<lparr>reader_buffer := rest\<rparr>)"
proof -
  note b = physical_bytes [OF assms(3), of t rest, folded assms(1)]
  have l: "length (reader_buffer r) = kHeaderSize + length p + length rest" using assms(1) by simp
  have c: "DecodeFixed32 (take 4 (reader_buffer r)) = crc_Mask (crc_Value 0 (ucast t # p))"
    unfolding b(1) using DecodeFixed_EncodeFixed(1) [of _ "[]"] by simp
  have d: "drop (7 + length p) (reader_buffer r) = rest"
    unfolding assms(1) using length_physical [of t p] by (simp add: kHeaderSize_def)
  show ?thesis
    unfolding parse_physical_record_def Let_def b(2-4) header_length [OF assms(3)] type_byte(1) [OF assms(2)] l c
    using type_byte(2) [OF assms(2)] b(5,6) assms(4) d
    by (simp add: kHeaderSize_def)
qed

text \<open>A record whose end is missing from the last block.\<close>

lemma parse_truncated:
  assumes "reader_buffer r @ missing = physical t p" "missing \<noteq> []" "kHeaderSize \<le> length (reader_buffer r)"
    "length p < 2 ^ 16" "reader_eof r"
  shows "parse_physical_record r fr = (kEof, fr, r\<lparr>reader_buffer := []\<rparr>)"
proof -
  have "reader_buffer r ! i = physical t p ! i" if "i < 7" for i
    using assms(3) that unfolding assms(1) [symmetric] by (simp add: nth_append kHeaderSize_def)
  then have b: "reader_buffer r ! 4 = of_nat (length p mod 256)" "reader_buffer r ! 5 = of_nat (length p div 256)"
    using physical_bytes(2,3) [OF assms(4), of t "[]"] by simp_all
  have "length (reader_buffer r) + length missing = kHeaderSize + length p"
    using assms(1) by (metis length_append length_physical)
  then have "length (reader_buffer r) < kHeaderSize + length p" using assms(2) by (cases missing) simp_all
  then show ?thesis
    unfolding parse_physical_record_def Let_def b header_length [OF assms(4)] using assms(5) by simp
qed

section \<open>The position of a reader\<close>

text \<open>
  A reader from offset 0, at block offset \<open>ofs\<close> with the bytes \<open>S\<close> left: its buffer reaches to the
  end of the block, or to the end of the file.
\<close>

definition reader_at :: "('f \<Rightarrow> bool) \<Rightarrow> ('f \<Rightarrow> slice) \<Rightarrow> 'f log_reader \<Rightarrow> nat \<Rightarrow> slice \<Rightarrow> bool" where
  "reader_at works unread r ofs S \<longleftrightarrow>
     works (reader_file r) \<and> S = reader_buffer r @ unread (reader_file r)
     \<and> initial_offset r = 0 \<and> \<not> resyncing r \<and> ofs \<le> kBlockSize
     \<and> (if reader_eof r then unread (reader_file r) = [] \<and> ofs + length (reader_buffer r) < kBlockSize
        else ofs + length (reader_buffer r) = kBlockSize \<or> ofs = 0 \<and> reader_buffer r = [])"

context sequential_file
begin

lemma fill_buffer:
  assumes "works (reader_file r)" "length (reader_buffer r) < kHeaderSize" "\<not> reader_eof r"
  shows "\<exists>f. ReadPhysicalRecord file_read r fr = ReadPhysicalRecord file_read
      (r\<lparr>reader_file := f, reader_buffer := take kBlockSize (unread (reader_file r)),
         end_of_buffer_offset := end_of_buffer_offset r + of_nat (length (take kBlockSize (unread (reader_file r)))),
         reader_eof := length (unread (reader_file r)) < kBlockSize\<rparr>) fr
    \<and> works f \<and> unread f = drop kBlockSize (unread (reader_file r))"
proof -
  let ?U = "unread (reader_file r)"
  obtain f where f: "file_read (reader_file r) kBlockSize = (OK, take kBlockSize ?U, f)" "works f" "unread f = drop kBlockSize ?U"
    using read_works [OF assms(1), of kBlockSize] by blast
  have "ReadPhysicalRecord file_read r fr = ReadPhysicalRecord file_read
      (r\<lparr>reader_file := f, reader_buffer := take kBlockSize ?U,
         end_of_buffer_offset := end_of_buffer_offset r + of_nat (length (take kBlockSize ?U)),
         reader_eof := length ?U < kBlockSize\<rparr>) fr"
    using assms(2,3) f(1) by (subst ReadPhysicalRecord.simps) (auto simp: Let_def min_def intro!: arg_cong2 [where f = "ReadPhysicalRecord file_read"])
  then show ?thesis using f by blast
qed

lemma reader_ready:
  assumes "reader_at works unread r ofs S" "pad ofs \<le> length S"
  shows "\<exists>r'. ReadPhysicalRecord file_read r fr = ReadPhysicalRecord file_read r' fr
    \<and> reader_at works unread r' (base ofs) (drop (pad ofs) S) \<and> reports r' = reports r
    \<and> (reader_eof r' \<or> kHeaderSize \<le> length (reader_buffer r'))"
proof (cases "kHeaderSize \<le> length (reader_buffer r) \<or> reader_eof r")
  case True
  then have "base ofs = ofs" "pad ofs = 0"
    using assms by (auto simp: reader_at_def base_def pad_def split: if_splits)
  then show ?thesis using assms(1) True by auto
next
  case False
  let ?U = "unread (reader_file r)"
  obtain f where f: "ReadPhysicalRecord file_read r fr = ReadPhysicalRecord file_read
      (r\<lparr>reader_file := f, reader_buffer := take kBlockSize ?U,
         end_of_buffer_offset := end_of_buffer_offset r + of_nat (length (take kBlockSize ?U)),
         reader_eof := length ?U < kBlockSize\<rparr>) fr" "works f" "unread f = drop kBlockSize ?U"
    using fill_buffer [of r fr] False assms(1) by (auto simp: reader_at_def)
  have "length (reader_buffer r) = pad ofs" "base ofs = 0"
    using False assms(1) by (auto simp: reader_at_def base_def pad_def kBlockSize_def kHeaderSize_def)
  then have d: "drop (pad ofs) S = ?U" "base ofs = 0" using assms(1) by (simp_all add: reader_at_def)
  let ?r = "r\<lparr>reader_file := f, reader_buffer := take kBlockSize ?U,
      end_of_buffer_offset := end_of_buffer_offset r + of_nat (length (take kBlockSize ?U)),
      reader_eof := length ?U < kBlockSize\<rparr>"
  have "reader_at works unread ?r (base ofs) (drop (pad ofs) S)"
    using f(2,3) assms(1) d by (auto simp: reader_at_def)
  moreover have "reader_eof ?r \<or> kHeaderSize \<le> length (reader_buffer ?r)"
    by (auto simp: kBlockSize_def kHeaderSize_def)
  ultimately show ?thesis using f(1) by (intro exI [of _ ?r]) simp
qed

lemma read_physical:
  assumes "reader_at works unread r ofs (replicate (pad ofs) 0 @ physical t p @ S)" "t \<in> writer_types"
    "base ofs + kHeaderSize + length p \<le> kBlockSize"
  shows "\<exists>r'. ReadPhysicalRecord file_read r fr = (t, p, r') \<and> reader_at works unread r' (step ofs p) S
    \<and> reports r' = reports r"
proof -
  obtain r1 where r1: "ReadPhysicalRecord file_read r fr = ReadPhysicalRecord file_read r1 fr"
      "reader_at works unread r1 (base ofs) (physical t p @ S)" "reports r1 = reports r"
      "reader_eof r1 \<or> kHeaderSize \<le> length (reader_buffer r1)"
    using reader_ready [OF assms(1), of fr] by auto
  have S: "physical t p @ S = reader_buffer r1 @ unread (reader_file r1)" using r1(2) by (simp add: reader_at_def)
  have "length (physical t p) \<le> length (reader_buffer r1)"
  proof (cases "reader_eof r1")
    case True
    then have "physical t p @ S = reader_buffer r1" using S r1(2) by (simp add: reader_at_def)
    then show ?thesis by (metis length_append le_add1)
  next
    case False
    then have "base ofs + length (reader_buffer r1) = kBlockSize"
      using r1(2,4) by (auto simp: reader_at_def kHeaderSize_def)
    then show ?thesis using assms(3) by simp
  qed
  then obtain rest where rest: "reader_buffer r1 = physical t p @ rest"
    using S by (metis append_eq_append_conv_if append_take_drop_id)
  have S': "S = rest @ unread (reader_file r1)" using S unfolding rest by simp
  have p: "length p < 2 ^ 16" using assms(3) by (simp add: kBlockSize_def)
  have "ReadPhysicalRecord file_read r1 fr = parse_physical_record r1 fr"
    using rest by (subst ReadPhysicalRecord.simps) simp
  also have "\<dots> = (t, p, r1\<lparr>reader_buffer := rest\<rparr>)"
    using r1(2) by (intro parse_physical [OF rest assms(2) p]) (simp add: reader_at_def)
  finally show ?thesis
    using r1 rest S' by (auto simp: reader_at_def step_def physical_nonempty split: if_splits)
qed

lemma read_cut:
  assumes "reader_at works unread r ofs S" "S @ T = replicate (pad ofs) 0 @ physical t p" "T \<noteq> []"
    "base ofs + kHeaderSize + length p \<le> kBlockSize"
  shows "\<exists>r'. ReadPhysicalRecord file_read r fr = (kEof, fr, r') \<and> reports r' = reports r"
proof (cases "length S < pad ofs")
  case True
  then have "reader_eof r" "length (reader_buffer r) < kHeaderSize"
    using assms(1) by (auto simp: reader_at_def pad_def kHeaderSize_def kBlockSize_def split: if_splits)
  then show ?thesis by (subst ReadPhysicalRecord.simps) simp
next
  case False
  then obtain r1 where r1: "ReadPhysicalRecord file_read r fr = ReadPhysicalRecord file_read r1 fr"
      "reader_at works unread r1 (base ofs) (drop (pad ofs) S)" "reports r1 = reports r"
      "reader_eof r1 \<or> kHeaderSize \<le> length (reader_buffer r1)"
    using reader_ready [OF assms(1), of fr] by auto
  have S1: "drop (pad ofs) S @ T = physical t p"
    using False arg_cong [OF assms(2), of "drop (pad ofs)"] by simp
  have "length (drop (pad ofs) S) + length T = kHeaderSize + length p"
    using arg_cong [OF S1, of length] by (simp only: length_append length_physical)
  then have l: "length (drop (pad ofs) S) < kHeaderSize + length p" using assms(3) by (cases T) simp_all
  have eof: "reader_eof r1"
  proof (rule ccontr)
    assume "\<not> reader_eof r1"
    then have "base ofs + length (reader_buffer r1) = kBlockSize"
      using r1(2,4) by (auto simp: reader_at_def kHeaderSize_def)
    moreover have "length (reader_buffer r1) \<le> length (drop (pad ofs) S)" using r1(2) by (simp add: reader_at_def)
    ultimately show False using l assms(4) by linarith
  qed
  then have b: "reader_buffer r1 = drop (pad ofs) S" using r1(2) by (simp add: reader_at_def)
  have p: "length p < 2 ^ 16" using assms(4) by (simp add: kBlockSize_def)
  have "ReadPhysicalRecord file_read r1 fr = (kEof, fr, r1\<lparr>reader_buffer := []\<rparr>)"
  proof (cases "kHeaderSize \<le> length (reader_buffer r1)")
    case True
    then show ?thesis
      using parse_truncated [OF S1 [folded b] assms(3) True p eof] by (subst ReadPhysicalRecord.simps) simp
  qed (use eof in \<open>subst ReadPhysicalRecord.simps, simp\<close>)
  then show ?thesis using r1(1,3) by simp
qed

end

section \<open>Whole records\<close>

lemma reader_at_updates [simp]:
  "reader_at works unread (r\<lparr>last_record_offset := x\<rparr>) ofs S = reader_at works unread r ofs S"
  "reader_at works unread r ofs S \<Longrightarrow> r\<lparr>resyncing := False\<rparr> = r"
  "reader_at works unread r ofs S \<Longrightarrow> \<not> resyncing r"
  by (simp_all add: reader_at_def)

lemma frags_unfold:
  obtains (last) t where "frags ofs first rest = [(t, rest)]" "t = (if first then kFullType else kLastType)"
      "base ofs + kHeaderSize + length rest \<le> kBlockSize"
  | (more) t n where "frags ofs first rest = (t, take n rest) # frags (step ofs (take n rest)) False (drop n rest)"
      "t = (if first then kFirstType else kMiddleType)" "n < length rest"
      "n = min (length rest) (kBlockSize - base ofs - kHeaderSize)"
      "base ofs + kHeaderSize + length (take n rest) \<le> kBlockSize" "length rest \<noteq> n"
proof (cases "length rest \<le> kBlockSize - base ofs - kHeaderSize")
  case True
  then show ?thesis using last base_le [of ofs] by (subst (asm) frags.simps) (auto simp: Let_def min_def)
next
  case False
  show ?thesis
    by (rule more [of _ "kBlockSize - base ofs - kHeaderSize"])
      (use False base_le [of ofs] in \<open>auto simp: Let_def min_def step_def frags.simps [of ofs first rest]\<close>)
qed

lemma fuel_Suc: "n < fuel \<Longrightarrow> \<exists>k. fuel = Suc k \<and> n \<le> k"
  by (cases fuel) auto

lemma split_short:
  assumes "S @ T = x @ y" "length S < length x"
  shows "S @ drop (length S) x = x" "drop (length S) x \<noteq> []"
proof -
  have "take (length S) (S @ T) = take (length S) (x @ y)" using assms(1) by simp
  then have "S = take (length S) x" using assms(2) by simp
  then show "S @ drop (length S) x = x" by (metis append_take_drop_id)
  show "drop (length S) x \<noteq> []" using assms(2) by simp
qed

lemma split_long:
  assumes "S @ T = x @ y" "\<not> length S < length x"
  obtains S1 where "S = x @ S1" "S1 @ T = y"
  using assms by (metis append_assoc append_eq_append_conv append_take_drop_id length_drop length_take
      linorder_not_less min_absorb2 take_append take_all_iff diff_is_0_eq take_eq_Nil append_Nil2)

context sequential_file
begin

lemma record_read:
  "reader_at works unread r ofs (frag_bytes ofs (frags ofs first rest) @ S) \<Longrightarrow>
   length (frag_bytes ofs (frags ofs first rest)) < fuel \<Longrightarrow> first \<longrightarrow> scratch = [] \<Longrightarrow>
   \<exists>r'. read_record_loop file_read fuel r fr scratch (\<not> first) prospective = Some (Some (scratch @ rest), r')
     \<and> reader_at works unread r' (frag_end ofs (frags ofs first rest)) S \<and> reports r' = reports r"
proof (induction ofs first rest arbitrary: r fr scratch prospective fuel rule: frags.induct)
  case (1 ofs first rest)
  obtain k where fuel: "fuel = Suc k" "length (frag_bytes ofs (frags ofs first rest)) \<le> k"
    using fuel_Suc [OF 1(3)] by auto
  show ?case
  proof (cases rule: frags_unfold [of ofs first rest])
    case (last t)
    have t: "t \<in> writer_types" using last(2) by simp
    obtain r1 where r1: "ReadPhysicalRecord file_read r fr = (t, rest, r1)" "reader_at works unread r1 (step ofs rest) S"
        "reports r1 = reports r"
      using read_physical [OF _ t last(3), of r S fr] 1(2) by (auto simp: last(1))
    show ?thesis
      using r1 1(4) last(2) by (auto simp: fuel(1) Let_def last(1) record_types kEof_def kBadRecord_def)
  next
    case (more t n)
    have t: "t \<in> writer_types" using more(2) by simp
    let ?fs = "frags (step ofs (take n rest)) False (drop n rest)"
    obtain r1 where r1: "ReadPhysicalRecord file_read r fr = (t, take n rest, r1)"
        "reader_at works unread r1 (step ofs (take n rest)) (frag_bytes (step ofs (take n rest)) ?fs @ S)"
        "reports r1 = reports r"
      using read_physical [OF _ t more(5), of r "frag_bytes (step ofs (take n rest)) ?fs @ S" fr] 1(2)
      by (auto simp: more(1))
    have "length (frag_bytes (step ofs (take n rest)) ?fs) < k" using fuel(2) by (simp add: more(1) kHeaderSize_def)
    then have "\<exists>r'. read_record_loop file_read k r1 (take n rest) (scratch @ take n rest) True p =
        Some (Some ((scratch @ take n rest) @ drop n rest), r')
      \<and> reader_at works unread r' (frag_end (step ofs (take n rest)) ?fs) S \<and> reports r' = reports r1" for p
      using 1(1) [OF more(4) refl refl more(6), of r1 k "scratch @ take n rest" "take n rest" p] r1(2) more(3)
      by (simp add: step_def)
    then show ?thesis
      using r1 1(4) more(1,2)
      by (cases first) (auto simp: fuel(1) Let_def record_types kEof_def kBadRecord_def)
  qed
qed

lemma record_cut:
  "reader_at works unread r ofs S \<Longrightarrow> S @ T = frag_bytes ofs (frags ofs first rest) \<Longrightarrow> T \<noteq> [] \<Longrightarrow>
   length S < fuel \<Longrightarrow> first \<longrightarrow> scratch = [] \<Longrightarrow>
   \<exists>r'. read_record_loop file_read fuel r fr scratch (\<not> first) prospective = Some (None, r') \<and> reports r' = reports r"
proof (induction ofs first rest arbitrary: r fr scratch prospective fuel S rule: frags.induct)
  case (1 ofs first rest)
  obtain k where fuel: "fuel = Suc k" "length S \<le> k" using fuel_Suc [OF 1(5)] by auto
  have cut: ?case if "S @ U = replicate (pad ofs) 0 @ physical t p" "U \<noteq> []"
    "base ofs + kHeaderSize + length p \<le> kBlockSize" for U t p
    using read_cut [OF 1(2) that(1,2,3), of fr] 1(2)
    by (auto simp: fuel(1) Let_def record_types kEof_def kBadRecord_def kMaxRecordType_def split: if_splits)
  show ?case
  proof (cases rule: frags_unfold [of ofs first rest])
    case (last t)
    then show ?thesis using cut [of T t rest] 1(3,4) by simp
  next
    case (more t n)
    let ?x = "replicate (pad ofs) 0 @ physical t (take n rest)"
    let ?fs = "frags (step ofs (take n rest)) False (drop n rest)"
    have S: "S @ T = ?x @ frag_bytes (step ofs (take n rest)) ?fs" using 1(3) by (simp add: more(1))
    show ?thesis
    proof (cases "length S < length ?x")
      case True
      then show ?thesis using cut [OF split_short [OF S True] more(5)] by blast
    next
      case False
      then obtain S1 where S1: "S = ?x @ S1" "S1 @ T = frag_bytes (step ofs (take n rest)) ?fs"
        using split_long [OF S False] by blast
      have t: "t \<in> writer_types" using more(2) by simp
      obtain r1 where r1: "ReadPhysicalRecord file_read r fr = (t, take n rest, r1)"
          "reader_at works unread r1 (step ofs (take n rest)) S1" "reports r1 = reports r"
        using read_physical [OF _ t more(5), of r S1 fr] 1(2) by (auto simp: S1(1))
      have "length S1 < k" using fuel(2) by (simp add: S1(1) kHeaderSize_def)
      then have "\<exists>r'. read_record_loop file_read k r1 (take n rest) (scratch @ take n rest) True p = Some (None, r')
          \<and> reports r' = reports r1" for p
        using 1(1) [OF more(4) refl refl more(6), of r1 S1 k "scratch @ take n rest" "take n rest" p] r1(2) S1(2) 1(4)
        by (simp add: step_def more(3) less_imp_le)
      then show ?thesis
        using r1 1(6) more(2)
        by (cases first) (auto simp: fuel(1) Let_def record_types kEof_def kBadRecord_def)
    qed
  qed
qed

end

text \<open>A client that reads records until there is none, at most \<open>n\<close>.\<close>

fun read_all ::
    "('f \<Rightarrow> nat \<Rightarrow> ldb_status \<times> slice \<times> 'f) \<Rightarrow> ('f \<Rightarrow> u64 \<Rightarrow> ldb_status \<times> 'f) \<Rightarrow> nat \<Rightarrow> nat
     \<Rightarrow> 'f log_reader \<Rightarrow> (slice list \<times> 'f log_reader) option" where
  "read_all read skip fuel 0 r = None"
| "read_all read skip fuel (Suc n) r =
     (case ReadRecord read skip fuel r of
        None \<Rightarrow> None
      | Some (None, r') \<Rightarrow> Some ([], r')
      | Some (Some d, r') \<Rightarrow>
          (case read_all read skip fuel n r' of None \<Rightarrow> None | Some (ds, r'') \<Rightarrow> Some (d # ds, r'')))"

lemma ReadRecord_start:
  "reader_at works unread r ofs S \<Longrightarrow> ReadRecord read skip fuel r = read_record_loop read fuel r [] [] False 0"
  by (simp add: ReadRecord_def reader_at_def)

lemma frag_bytes_nonempty: "frag_bytes ofs (frags ofs first rest) \<noteq> []"
  by (cases rule: frags_unfold [of ofs first rest]) (simp_all add: physical_nonempty)

text \<open>The reader returns exactly these records, and reports nothing.\<close>

fun returns ::
    "('f \<Rightarrow> nat \<Rightarrow> ldb_status \<times> slice \<times> 'f) \<Rightarrow> ('f \<Rightarrow> u64 \<Rightarrow> ldb_status \<times> 'f) \<Rightarrow> nat
     \<Rightarrow> 'f log_reader \<Rightarrow> slice list \<Rightarrow> bool" where
  "returns read skip fuel r [] \<longleftrightarrow> (\<exists>r'. ReadRecord read skip fuel r = Some (None, r') \<and> reports r' = reports r)"
| "returns read skip fuel r (d # ds) \<longleftrightarrow>
     (\<exists>r'. ReadRecord read skip fuel r = Some (Some d, r') \<and> reports r' = reports r \<and> returns read skip fuel r' ds)"

lemma returns_read_all:
  "returns read skip fuel r ds \<Longrightarrow> length ds < n \<Longrightarrow>
   \<exists>r'. read_all read skip fuel n r = Some (ds, r') \<and> reports r' = reports r"
proof (induction ds arbitrary: r n)
  case Nil
  then show ?case by (cases n) auto
next
  case (Cons d ds)
  obtain m where n: "n = Suc m" "length ds < m" using Cons.prems(2) by (cases n) auto
  obtain r1 where r1: "ReadRecord read skip fuel r = Some (Some d, r1)" "reports r1 = reports r" "returns read skip fuel r1 ds"
    using Cons.prems(1) by auto
  then show ?case using Cons.IH [OF r1(3) n(2)] n(1) by auto
qed

context sequential_file
begin

text \<open>A log cut after any number of bytes: the whole records are read, and the rest is the end.\<close>

lemma log_cut_returns:
  "reader_at works unread r ofs S \<Longrightarrow> S @ T = log_bytes ofs ds \<Longrightarrow> length S < fuel \<Longrightarrow>
   \<exists>k. k \<le> length ds \<and> returns file_read file_skip fuel r (take k ds)
     \<and> length (log_bytes ofs (take k ds)) \<le> length S
     \<and> (k < length ds \<longrightarrow> length S < length (log_bytes ofs (take (Suc k) ds)))"
proof (induction ds arbitrary: r ofs S)
  case Nil
  have "S @ frag_bytes ofs (frags ofs True []) = frag_bytes ofs (frags ofs True [])" using Nil(2) by simp
  then obtain r' where "read_record_loop file_read fuel r [] [] False 0 = Some (None, r')" "reports r' = reports r"
    using record_cut [where first = True and rest = "[]" and scratch = "[]" and fr = "[]" and prospective = 0,
        OF Nil(1) _ frag_bytes_nonempty [of ofs True "[]"] Nil(3)] by auto
  then show ?case by (auto simp: ReadRecord_start [OF Nil(1)])
next
  case (Cons d ds)
  let ?b = "frag_bytes ofs (frags ofs True d)" and ?ofs = "frag_end ofs (frags ofs True d)"
  have S: "S @ T = ?b @ log_bytes ?ofs ds" using Cons.prems(2) by simp
  show ?case
  proof (cases "length S < length ?b")
    case True
    obtain r' where "read_record_loop file_read fuel r [] [] False 0 = Some (None, r')" "reports r' = reports r"
      using record_cut [where first = True and scratch = "[]" and fr = "[]" and prospective = 0,
          OF Cons.prems(1) split_short [OF S True] Cons.prems(3)] by auto
    then show ?thesis using True by (intro exI [of _ 0]) (simp add: ReadRecord_start [OF Cons.prems(1)])
  next
    case False
    then obtain S1 where S1: "S = ?b @ S1" "S1 @ T = log_bytes ?ofs ds"
      using split_long [OF S False] by blast
    obtain r1 where r1: "read_record_loop file_read fuel r [] [] False 0 = Some (Some d, r1)"
        "reader_at works unread r1 ?ofs S1" "reports r1 = reports r"
      using record_read [of r ofs True d S1 fuel "[]" "[]" 0] Cons.prems(1,3) by (auto simp: S1(1))
    obtain k where k: "k \<le> length ds" "returns file_read file_skip fuel r1 (take k ds)"
        "length (log_bytes ?ofs (take k ds)) \<le> length S1"
        "k < length ds \<longrightarrow> length S1 < length (log_bytes ?ofs (take (Suc k) ds))"
      using Cons.IH [OF r1(2) S1(2)] Cons.prems(3) by (auto simp: S1(1))
    then show ?thesis
      using r1 by (intro exI [of _ "Suc k"]) (simp add: ReadRecord_start [OF Cons.prems(1)] S1(1))
  qed
qed

lemma log_cut_read:
  assumes "reader_at works unread r ofs S" "S @ T = log_bytes ofs ds" "length S < fuel" "length ds < n"
  shows "\<exists>k r'. k \<le> length ds \<and> read_all file_read file_skip fuel n r = Some (take k ds, r') \<and> reports r' = reports r
     \<and> length (log_bytes ofs (take k ds)) \<le> length S
     \<and> (k < length ds \<longrightarrow> length S < length (log_bytes ofs (take (Suc k) ds)))"
proof -
  obtain k where k: "k \<le> length ds" "returns file_read file_skip fuel r (take k ds)"
      "length (log_bytes ofs (take k ds)) \<le> length S"
      "k < length ds \<longrightarrow> length S < length (log_bytes ofs (take (Suc k) ds))"
    using log_cut_returns [OF assms(1-3)] by blast
  then show ?thesis using returns_read_all [OF k(2), of n] assms(4) by auto
qed

end

section \<open>Termination\<close>

definition bytes_left :: "('f \<Rightarrow> slice) \<Rightarrow> 'f log_reader \<Rightarrow> nat" where
  "bytes_left unread r = length (reader_buffer r) + length (unread (reader_file r))"

lemma ReportDrop_keeps [simp]:
  "reader_file (ReportDrop r n s) = reader_file r" "reader_buffer (ReportDrop r n s) = reader_buffer r"
  "reader_file (ReportCorruption r n m) = reader_file r" "reader_buffer (ReportCorruption r n m) = reader_buffer r"
  by (simp_all add: ReportCorruption_def ReportDrop_def split: option.splits)

lemma parse_progress:
  assumes "parse_physical_record r fr = (t, p, r')" "kHeaderSize \<le> length (reader_buffer r)"
  shows "reader_file r' = reader_file r \<and> length (reader_buffer r') < length (reader_buffer r)"
  using assms by (auto simp: parse_physical_record_def Let_def kHeaderSize_def split: if_splits)

context sequential_file
begin

lemma physical_progress:
  assumes "works (reader_file r)" "ReadPhysicalRecord file_read r fr = (t, p, r')"
  shows "works (reader_file r') \<and> (t = kEof \<or> bytes_left unread r' < bytes_left unread r)"
proof (cases "kHeaderSize \<le> length (reader_buffer r)")
  case True
  then have "ReadPhysicalRecord file_read r fr = parse_physical_record r fr" by (subst ReadPhysicalRecord.simps) simp
  then show ?thesis using parse_progress [OF _ True, of fr t p r'] assms by (auto simp: bytes_left_def)
next
  case False
  show ?thesis
  proof (cases "reader_eof r")
    case True
    then show ?thesis using False assms by (subst (asm) ReadPhysicalRecord.simps) auto
  next
    case no_eof: False
    let ?U = "unread (reader_file r)"
    obtain f where f: "ReadPhysicalRecord file_read r fr = ReadPhysicalRecord file_read
        (r\<lparr>reader_file := f, reader_buffer := take kBlockSize ?U,
           end_of_buffer_offset := end_of_buffer_offset r + of_nat (length (take kBlockSize ?U)),
           reader_eof := length ?U < kBlockSize\<rparr>) fr" (is "_ = ReadPhysicalRecord _ ?r _")
        "works f" "unread f = drop kBlockSize ?U"
      using fill_buffer [OF assms(1), of fr] False no_eof by (meson not_le)
    have l: "bytes_left unread ?r = length ?U" using f(3) by (simp add: bytes_left_def)
    show ?thesis
    proof (cases "kHeaderSize \<le> length (reader_buffer ?r)")
      case True
      then have "ReadPhysicalRecord file_read ?r fr = parse_physical_record ?r fr"
        by (subst ReadPhysicalRecord.simps) simp
      then have "reader_file r' = f" "length (reader_buffer r') < length (reader_buffer ?r)"
        using parse_progress [OF _ True, of fr t p r'] assms(2) f(1) by auto
      then show ?thesis using f(2,3) l by (auto simp: bytes_left_def)
    next
      case False
      then have "reader_eof ?r" by (auto simp: kBlockSize_def kHeaderSize_def)
      then show ?thesis using False assms(2) f(1,2) by (subst (asm) ReadPhysicalRecord.simps) auto
    qed
  qed
qed

lemma loop_terminates:
  "works (reader_file r) \<Longrightarrow> bytes_left unread r < fuel \<Longrightarrow>
   read_record_loop file_read fuel r fr scratch in_fragmented prospective \<noteq> None"
proof (induction fuel arbitrary: r fr scratch in_fragmented prospective)
  case (Suc fuel)
  obtain t p r' where r': "ReadPhysicalRecord file_read r fr = (t, p, r')" by (metis prod_cases3)
  note pr = physical_progress [OF Suc.prems(1) r']
  show ?case
  proof (cases "t = kEof")
    case True
    then show ?thesis by (simp add: r' Let_def record_types kEof_def kMaxRecordType_def)
  next
    case False
    then have "works (reader_file r')" "bytes_left unread r' < fuel" using pr Suc.prems(2) by auto
    then have "read_record_loop file_read fuel r'' a b c d \<noteq> None"
      if "reader_file r'' = reader_file r'" "reader_buffer r'' = reader_buffer r'" for r'' a b c d
      using that by (intro Suc.IH) (simp_all add: bytes_left_def)
    note go = this [simplified]
    show ?thesis
      by (simp only: read_record_loop.simps r' prod.case Let_def) (simp add: go)
  qed
qed simp

lemma record_terminates:
  assumes "works (reader_file r)" "bytes_left unread r < fuel" "unat (initial_offset r) + kBlockSize < 2 ^ 63"
  shows "ReadRecord file_read file_skip fuel r \<noteq> None"
proof -
  define b where "b = initial_offset r - initial_offset r mod of_nat kBlockSize"
  define x where "x = (if initial_offset r mod of_nat kBlockSize > of_nat kBlockSize - 6 then b + of_nat kBlockSize else b)"
  have "initial_offset r mod of_nat kBlockSize \<le> initial_offset r" by (simp add: word_le_nat_alt unat_mod)
  then have "unat b \<le> unat (initial_offset r)" by (simp add: b_def unat_sub)
  then have "unat x \<le> unat (initial_offset r) + kBlockSize"
    by (auto simp: x_def unat_word_ariths kBlockSize_def intro: order_trans [OF mod_less_eq_dividend])
  then have x: "unat x < 2 ^ 63" using assms(3) by simp
  have skip: "SkipToInitialBlock file_skip r =
      (let r = r\<lparr>end_of_buffer_offset := x\<rparr> in
       if x > 0 then
         let (s, f) = file_skip (reader_file r) x; r = r\<lparr>reader_file := f\<rparr> in
         if \<not> ok s then (False, ReportDrop r x s) else (True, r)
       else (True, r))"
    unfolding SkipToInitialBlock_def Let_def x_def b_def ..
  obtain s f where f: "file_skip (reader_file r) x = (s, f)" by fastforce
  have "works f" "length (unread f) \<le> length (unread (reader_file r))"
    using skip_keeps [OF assms(1) x f] by auto
  moreover have "read_record_loop file_read fuel r' [] [] False 0 \<noteq> None"
    if "works (reader_file r')" "length (unread (reader_file r')) \<le> length (unread (reader_file r))"
      "reader_buffer r' = reader_buffer r" for r'
    using that assms(2) by (intro loop_terminates) (simp_all add: bytes_left_def)
  ultimately show ?thesis
    unfolding ReadRecord_def skip using assms(1) f by (auto simp: Let_def)
qed

end

section \<open>Damaged data\<close>

lemma changed_payload:
  assumes b: "reader_buffer r = take kHeaderSize (physical t (xs @ c # ys)) @ xs @ d # ys @ rest" and "c \<noteq> d"
    and "checksum r" "t \<in> writer_types" "kHeaderSize + length (xs @ c # ys) \<le> kBlockSize"
  shows "parse_physical_record r fr = (kBadRecord, fr,
    ReportCorruption (r\<lparr>reader_buffer := []\<rparr>) (of_nat (length (reader_buffer r))) (cstr ''checksum mismatch''))"
proof -
  let ?p = "xs @ c # ys"
  have p: "length ?p < 2 ^ 16" using assms(5) by (simp add: kBlockSize_def)
  have h: "take kHeaderSize (physical t ?p) = EncodeFixed32 (crc_Mask (crc_Value 0 (ucast t # ?p)))
      @ [of_nat (length ?p mod 256), of_nat (length ?p div 256), ucast t]"
    by (simp add: physical_def kHeaderSize_def)
  have b4: "reader_buffer r ! 4 = of_nat (length ?p mod 256)" "reader_buffer r ! 5 = of_nat (length ?p div 256)"
    "reader_buffer r ! 6 = ucast t" "drop 6 (reader_buffer r) = ucast t # xs @ d # ys @ rest"
    "take 4 (reader_buffer r) = EncodeFixed32 (crc_Mask (crc_Value 0 (ucast t # ?p)))"
    unfolding b h by (simp_all add: nth_append)
  have l: "length (reader_buffer r) = kHeaderSize + length ?p + length rest" unfolding b by simp
  have c: "DecodeFixed32 (take 4 (reader_buffer r)) = crc_Mask (crc_Value 0 (ucast t # ?p))"
    unfolding b4(5) by simp
  have d: "take (1 + length ?p) (ucast t # xs @ d # ys @ rest) = (ucast t # xs) @ d # ys" by simp
  have "crc_Value 0 ((ucast t # xs) @ d # ys) \<noteq> crc_Value 0 ((ucast t # xs) @ c # ys)"
    unfolding crc_Value_def using assms(2) by (intro Extend_changed) auto
  then have ne: "crc_Value 0 ((ucast t # xs) @ d # ys) \<noteq> crc_Value 0 (ucast t # ?p)" by simp
  show ?thesis
    unfolding parse_physical_record_def Let_def b4(1-4) header_length [OF p] type_byte(1) [OF assms(4)] c l d
    using type_byte(2) [OF assms(4)] assms(3) ne by simp
qed

section \<open>Properties\<close>

lemma new_Reader_at:
  "posix_works g \<Longrightarrow> reader_at posix_works posix_unread (new_Reader g reporter c 0) 0 (posix_unread g)"
  by (simp add: reader_at_def new_Reader_def)

text \<open>
  C5: Records added to an empty log are all in it, and when the file is cut after any number of
  bytes, as a crash may leave it, a reader from the start returns exactly the records that are whole,
  in order, then the end of the log, and reports no corruption.
\<close>

theorem log_crash_recovery:
  assumes "stream_bytes (stream f) = []" "length (log_bytes 0 ds) \<le> stream_room (stream f)"
    "add_all PosixWritableFile_Append PosixWritableFile_Flush (new_Writer f) ds = (s, w)"
    "posix_works g" "posix_unread g = take n (stream_bytes (stream (dest_file w)))" "length (posix_unread g) < fuel"
  shows "ok s \<and> stream_bytes (stream (dest_file w)) = log_bytes 0 ds
    \<and> (\<exists>k r. k \<le> length ds
        \<and> read_all PosixSequentialFile_Read PosixSequentialFile_Skip fuel (length ds + 1) (new_Reader g (Some []) c 0)
            = Some (take k ds, r)
        \<and> reports r = Some []
        \<and> length (log_bytes 0 (take k ds)) \<le> length (posix_unread g)
        \<and> (k < length ds \<longrightarrow> length (posix_unread g) < length (log_bytes 0 (take (Suc k) ds))))"
proof -
  have "writer_at 0 (new_Writer f)" by (simp add: writer_at_def new_Writer_def)
  then have w: "s = OK" "stream_bytes (stream (dest_file w)) = log_bytes 0 ds"
    using posix_writable.all_written [of 0 "new_Writer f" ds] assms(1-3) by (auto simp: new_Writer_def)
  have "posix_unread g @ drop n (log_bytes 0 ds) = log_bytes 0 ds" using assms(5) w(2) by simp
  from posix_sequential.log_cut_read [OF new_Reader_at [OF assms(4)] this assms(6), of "length ds + 1" "Some []" c]
  show ?thesis using w by (simp add: new_Reader_def)
qed

definition empty_file :: posix_file where
  "empty_file = \<lparr>filename = cstr ''000003.log'',
     stream = \<lparr>stream_bytes = [], stream_pos = 0, stream_room = 1000, bad_sector = None, end_of_file = False,
       error_text = []\<rparr>\<rparr>"

definition file_of :: "slice \<Rightarrow> posix_file" where
  "file_of b = empty_file\<lparr>stream := stream empty_file\<lparr>stream_bytes := b\<rparr>\<rparr>"

lemma file_of_works: "length b < 2 ^ 63 \<Longrightarrow> posix_works (file_of b) \<and> posix_unread (file_of b) = b"
  by (simp add: posix_works_def posix_unread_def file_of_def empty_file_def)

text \<open>Two short records are nineteen bytes, of which the first nine are the first.\<close>

lemma short_log: "length (log_bytes 0 [[1, 2], [3, 4, 5]]) = 19" "length (log_bytes 0 [[1, 2]]) = 9"
  by (simp_all add: frags.simps base_def step_def pad_def kBlockSize_def kHeaderSize_def)

theorem log_crash_recovery_witness:
  "\<exists>r. read_all PosixSequentialFile_Read PosixSequentialFile_Skip 20 3
     (new_Reader (file_of (take 18 (stream_bytes (stream (dest_file (snd
        (add_all PosixWritableFile_Append PosixWritableFile_Flush (new_Writer empty_file) [[1, 2], [3, 4, 5]]))))))) (Some []) True 0)
     = Some ([[1, 2]], r) \<and> reports r = Some []"
proof -
  let ?ds = "[[1, 2], [3, 4, 5]] :: slice list"
  obtain s w where w: "add_all PosixWritableFile_Append PosixWritableFile_Flush (new_Writer empty_file) ?ds = (s, w)"
    by fastforce
  let ?b = "take 18 (stream_bytes (stream (dest_file w)))"
  have g: "posix_works (file_of ?b) \<and> posix_unread (file_of ?b) = ?b" by (rule file_of_works) simp
  note main = log_crash_recovery [of empty_file ?ds s w "file_of ?b" 18 20 True]
  have "stream_bytes (stream empty_file) = []" "length (log_bytes 0 ?ds) \<le> stream_room (stream empty_file)"
    by (simp_all only: short_log) (simp_all add: empty_file_def)
  note main = main [OF this w]
  have l: "length (posix_unread (file_of ?b)) < 20" using g by simp
  note main = main [OF _ _ l]
  have b: "stream_bytes (stream (dest_file w)) = log_bytes 0 ?ds" using main g by blast
  then have l18: "length (posix_unread (file_of ?b)) = 18" using g short_log(1) by simp
  obtain k r where k: "k \<le> length ?ds"
      "read_all PosixSequentialFile_Read PosixSequentialFile_Skip 20 (length ?ds + 1) (new_Reader (file_of ?b) (Some []) True 0)
        = Some (take k ?ds, r)" "reports r = Some []" "length (log_bytes 0 (take k ?ds)) \<le> 18"
      "k < length ?ds \<longrightarrow> 18 < length (log_bytes 0 (take (Suc k) ?ds))"
    using main g l18 by metis
  have "k = 1"
  proof -
    consider "k = 0" | "k = 1" | "k = 2" using k(1) by fastforce
    then show ?thesis using k(4,5) short_log by cases simp_all
  qed
  then show ?thesis using k(2,3) w by (simp add: numeral_eq_Suc)
qed

text \<open>
  C26: On any bytes in the file and from any offset below \<open>2 ^ 63\<close> less a block, \<open>ReadRecord\<close> returns.
\<close>

theorem log_read_terminates:
  assumes "posix_works g" "unat ofs + kBlockSize < 2 ^ 63" "length (posix_unread g) < fuel"
  shows "ReadRecord PosixSequentialFile_Read PosixSequentialFile_Skip fuel (new_Reader g reporter c ofs) \<noteq> None"
  using assms by (intro posix_sequential.record_terminates) (simp_all add: new_Reader_def bytes_left_def)

theorem log_read_terminates_witness:
  "ReadRecord PosixSequentialFile_Read PosixSequentialFile_Skip 8 (new_Reader (file_of [1, 2, 3, 4, 5, 6, 7]) None False 40000) \<noteq> None"
proof -
  have "posix_works (file_of [1, 2, 3, 4, 5, 6, 7])" "posix_unread (file_of [1, 2, 3, 4, 5, 6, 7]) = [1, 2, 3, 4, 5, 6, 7]"
    using file_of_works [of "[1, 2, 3, 4, 5, 6, 7]"] by simp_all
  then show ?thesis by (intro log_read_terminates) (simp_all add: kBlockSize_def)
qed



end
