(* ===== verification/LdbSkipList.thy ===== *)
theory LdbSkipList
  imports LdbComparator
begin

text \<open>
  The skip list of \<open>db/skiplist.h\<close> and the random numbers of \<open>util/random.h\<close> that give its heights,
  as one thread sees them. The nodes are allocated in an arena and never freed, so that a node is its
  number in the order of allocation; the head is node 0, and a null pointer is \<open>None\<close>.
\<close>

section \<open>Random numbers\<close>

definition new_Random :: "u32 \<Rightarrow> u32" where
  "new_Random s = (let seed = s AND 0x7fffffff in if seed = 0 \<or> seed = 2147483647 then 1 else seed)"

text \<open>The new seed, which is also the result.\<close>

definition Random_Next :: "u32 \<Rightarrow> u32" where
  "Random_Next seed =
     (let product = (ucast seed :: u64) * 16807;
          seed = ucast (drop_bit 31 product + (product AND 2147483647)) :: u32 in
      if seed > 2147483647 then seed - 2147483647 else seed)"

section \<open>The list\<close>

definition kMaxHeight :: nat where "kMaxHeight = 12"

record 'k sl_node =
  sl_key :: 'k
  sl_next :: "nat option list"

record 'k skiplist =
  sl_nodes :: "'k sl_node list"
  max_height :: nat
  sl_rnd :: u32

definition key_of :: "'k skiplist \<Rightarrow> nat \<Rightarrow> 'k" where
  "key_of sl x = sl_key (sl_nodes sl ! x)"

text \<open>A node has as many links as its height; the callers ask for no others.\<close>

definition Node_Next :: "'k skiplist \<Rightarrow> nat \<Rightarrow> nat \<Rightarrow> nat option" where
  "Node_Next sl x n = sl_next (sl_nodes sl ! x) ! n"

definition Node_SetNext :: "nat \<Rightarrow> nat \<Rightarrow> nat option \<Rightarrow> 'k skiplist \<Rightarrow> 'k skiplist" where
  "Node_SetNext x n y sl = sl\<lparr>sl_nodes := (sl_nodes sl)
     [x := (sl_nodes sl ! x)\<lparr>sl_next := (sl_next (sl_nodes sl ! x))[n := y]\<rparr>]\<rparr>"

text \<open>The links of a new node are set by \<open>Insert\<close>.\<close>

definition NewNode :: "'k \<Rightarrow> nat \<Rightarrow> 'k skiplist \<Rightarrow> nat \<times> 'k skiplist" where
  "NewNode key height sl =
     (length (sl_nodes sl), sl\<lparr>sl_nodes := sl_nodes sl @ [\<lparr>sl_key = key, sl_next = replicate height None\<rparr>]\<rparr>)"

definition new_SkipList :: "'k \<Rightarrow> 'k skiplist" where
  "new_SkipList zero =
     \<lparr>sl_nodes = [\<lparr>sl_key = zero, sl_next = replicate kMaxHeight None\<rparr>], max_height = 1, sl_rnd = new_Random 0xdeadbeef\<rparr>"

function random_height_loop :: "nat \<Rightarrow> u32 \<Rightarrow> nat \<times> u32" where
  "random_height_loop height rnd =
     (if height < kMaxHeight
      then let rnd = Random_Next rnd in
        if rnd mod 4 = 0 then random_height_loop (height + 1) rnd else (height, rnd)
      else (height, rnd))"
  by pat_completeness auto
termination by (relation "measure (\<lambda>(height, _). kMaxHeight - height)") auto

declare random_height_loop.simps [simp del]

definition RandomHeight :: "u32 \<Rightarrow> nat \<times> u32" where
  "RandomHeight rnd = random_height_loop 1 rnd"

definition KeyIsAfterNode :: "('k \<Rightarrow> 'k \<Rightarrow> int) \<Rightarrow> 'k skiplist \<Rightarrow> 'k \<Rightarrow> nat option \<Rightarrow> bool" where
  "KeyIsAfterNode cmp sl key n = (case n of None \<Rightarrow> False | Some x \<Rightarrow> cmp (key_of sl x) key < 0)"

text \<open>
  The loops end on the lists that \<open>Insert\<close> makes; the fuel is the number of nodes for each level,
  and the result without it is \<open>None\<close>. \<open>prev\<close> is the array of the caller, or \<open>None\<close> for null.
\<close>

definition search_fuel :: "'k skiplist \<Rightarrow> nat" where
  "search_fuel sl = max_height sl * length (sl_nodes sl)"

fun find_ge_loop :: "('k \<Rightarrow> 'k \<Rightarrow> int) \<Rightarrow> 'k skiplist \<Rightarrow> 'k \<Rightarrow> nat \<Rightarrow> nat \<Rightarrow> nat \<Rightarrow> nat list option
    \<Rightarrow> (nat option \<times> nat list option) option" where
  "find_ge_loop cmp sl key 0 x level prev = None"
| "find_ge_loop cmp sl key (Suc fuel) x level prev =
     (let next = Node_Next sl x level in
      if KeyIsAfterNode cmp sl key next then find_ge_loop cmp sl key fuel (the next) level prev
      else
        let prev = map_option (\<lambda>p. p[level := x]) prev in
        if level = 0 then Some (next, prev) else find_ge_loop cmp sl key fuel x (level - 1) prev)"

definition FindGreaterOrEqual ::
    "('k \<Rightarrow> 'k \<Rightarrow> int) \<Rightarrow> 'k skiplist \<Rightarrow> 'k \<Rightarrow> nat list option \<Rightarrow> (nat option \<times> nat list option) option" where
  "FindGreaterOrEqual cmp sl key prev = find_ge_loop cmp sl key (search_fuel sl) 0 (max_height sl - 1) prev"

fun find_lt_loop :: "('k \<Rightarrow> 'k \<Rightarrow> int) \<Rightarrow> 'k skiplist \<Rightarrow> 'k \<Rightarrow> nat \<Rightarrow> nat \<Rightarrow> nat \<Rightarrow> nat option" where
  "find_lt_loop cmp sl key 0 x level = None"
| "find_lt_loop cmp sl key (Suc fuel) x level =
     (case Node_Next sl x level of
        Some next \<Rightarrow>
          if cmp (key_of sl next) key \<ge> 0
          then (if level = 0 then Some x else find_lt_loop cmp sl key fuel x (level - 1))
          else find_lt_loop cmp sl key fuel next level
      | None \<Rightarrow> if level = 0 then Some x else find_lt_loop cmp sl key fuel x (level - 1))"

definition FindLessThan :: "('k \<Rightarrow> 'k \<Rightarrow> int) \<Rightarrow> 'k skiplist \<Rightarrow> 'k \<Rightarrow> nat option" where
  "FindLessThan cmp sl key = find_lt_loop cmp sl key (search_fuel sl) 0 (max_height sl - 1)"

fun find_last_loop :: "'k skiplist \<Rightarrow> nat \<Rightarrow> nat \<Rightarrow> nat \<Rightarrow> nat option" where
  "find_last_loop sl 0 x level = None"
| "find_last_loop sl (Suc fuel) x level =
     (case Node_Next sl x level of
        None \<Rightarrow> if level = 0 then Some x else find_last_loop sl fuel x (level - 1)
      | Some next \<Rightarrow> find_last_loop sl fuel next level)"

definition FindLast :: "'k skiplist \<Rightarrow> nat option" where
  "FindLast sl = find_last_loop sl (search_fuel sl) 0 (max_height sl - 1)"

definition link_level :: "nat \<Rightarrow> nat list \<Rightarrow> nat \<Rightarrow> 'k skiplist \<Rightarrow> 'k skiplist" where
  "link_level x prev i sl = Node_SetNext (prev ! i) i (Some x) (Node_SetNext x i (Node_Next sl (prev ! i) i) sl)"

text \<open>The elements of the array \<open>prev\<close> that the search leaves alone are not initialised; here they are 0.\<close>

definition SkipList_Insert :: "('k \<Rightarrow> 'k \<Rightarrow> int) \<Rightarrow> 'k \<Rightarrow> 'k skiplist \<Rightarrow> 'k skiplist option" where
  "SkipList_Insert cmp key sl =
     (case FindGreaterOrEqual cmp sl key (Some (replicate kMaxHeight 0)) of
        Some (_, Some prev) \<Rightarrow>
          let (height, rnd) = RandomHeight (sl_rnd sl);
              sl = sl\<lparr>sl_rnd := rnd\<rparr>;
              (prev, sl) =
                (if height > max_height sl
                 then (fold (\<lambda>i prev. prev[i := 0]) [max_height sl..<height] prev, sl\<lparr>max_height := height\<rparr>)
                 else (prev, sl));
              (x, sl) = NewNode key height sl in
          Some (fold (link_level x prev) [0..<height] sl)
      | _ \<Rightarrow> None)"

definition Contains :: "('k \<Rightarrow> 'k \<Rightarrow> int) \<Rightarrow> 'k skiplist \<Rightarrow> 'k \<Rightarrow> bool option" where
  "Contains cmp sl key =
     (case FindGreaterOrEqual cmp sl key None of
        None \<Rightarrow> None
      | Some (x, _) \<Rightarrow> Some (case x of None \<Rightarrow> False | Some n \<Rightarrow> cmp key (key_of sl n) = 0))"

section \<open>Iterators\<close>

text \<open>The node of an iterator, or \<open>None\<close> when it is not valid; the outer option is for the fuel.\<close>

definition sl_Next :: "'k skiplist \<Rightarrow> nat \<Rightarrow> nat option" where
  "sl_Next sl node = Node_Next sl node 0"

definition sl_Prev :: "('k \<Rightarrow> 'k \<Rightarrow> int) \<Rightarrow> 'k skiplist \<Rightarrow> nat \<Rightarrow> nat option option" where
  "sl_Prev cmp sl node = map_option (\<lambda>x. if x = 0 then None else Some x) (FindLessThan cmp sl (key_of sl node))"

definition sl_Seek :: "('k \<Rightarrow> 'k \<Rightarrow> int) \<Rightarrow> 'k skiplist \<Rightarrow> 'k \<Rightarrow> nat option option" where
  "sl_Seek cmp sl target = map_option fst (FindGreaterOrEqual cmp sl target None)"

definition sl_SeekToFirst :: "'k skiplist \<Rightarrow> nat option" where
  "sl_SeekToFirst sl = Node_Next sl 0 0"

definition sl_SeekToLast :: "'k skiplist \<Rightarrow> nat option option" where
  "sl_SeekToLast sl = map_option (\<lambda>x. if x = 0 then None else Some x) (FindLast sl)"

end
