(* ===== verification/LdbSkipListProps.thy ===== *)
theory LdbSkipListProps
  imports LdbSkipList "HOL-Library.Multiset"
begin

text \<open>
  What a skip list holds: the nodes in the order of their keys, linked at every level through those
  that are high enough. \<open>Insert\<close> keeps this and puts the key in its place, and the searches and
  iterators find their way in it.
\<close>

section \<open>Random numbers\<close>

lemma random_reduce:
  assumes "unat seed \<le> 2147483647"
  shows "unat (Random_Next seed) = (let m = unat seed * 16807; r = m div 2 ^ 31 + m mod 2 ^ 31 in
    if r > 2147483647 then r - 2147483647 else r)"
proof -
  let ?m = "unat seed * 16807"
  let ?p = "(ucast seed :: u64) * 16807"
  have "?m < 2 ^ 46" using assms by simp
  have p: "unat ?p = ?m" using assms by (simp add: unat_word_ariths unat_ucast_up)
  have m: "(2147483647 :: u64) = mask 31" by (simp add: mask_eq_exp_minus_1)
  have a: "unat (drop_bit 31 ?p) = ?m div 2 ^ 31" using p by (simp add: unat_drop_bit)
  have b: "unat (?p AND 2147483647) = ?m mod 2 ^ 31"
    unfolding m take_bit_eq_mask [symmetric] using p by (simp add: unsigned_take_bit_eq take_bit_eq_mod unat_mod)
  have d: "?m div 2 ^ 31 < 16807" using assms by (simp add: less_mult_imp_div_less)
  have "unat (drop_bit 31 ?p + (?p AND 2147483647)) = ?m div 2 ^ 31 + ?m mod 2 ^ 31"
    using a b d by (simp add: unat_word_ariths)
  then have c: "unat (ucast (drop_bit 31 ?p + (?p AND 2147483647)) :: u32) = ?m div 2 ^ 31 + ?m mod 2 ^ 31"
    using d by (simp add: unsigned_ucast_eq take_bit_eq_mod)
  then show ?thesis
    unfolding Random_Next_def Let_def word_less_nat_alt
    by (auto simp: c unat_sub word_le_nat_alt)
qed

lemma Random_Next_range:
  assumes "0 < unat seed" "unat seed < 2147483647"
  shows "unat (Random_Next seed) = unat seed * 16807 mod 2147483647 \<and> 0 < unat (Random_Next seed)
    \<and> unat (Random_Next seed) < 2147483647"
proof -
  let ?M = "2147483647 :: nat" and ?m = "unat seed * 16807"
  have e: "?m = ?M * (?m div 2 ^ 31) + (?m div 2 ^ 31 + ?m mod 2 ^ 31)"
    using mult_div_mod_eq [of "2 ^ 31" ?m] by simp
  then have cong: "?m mod ?M = (?m div 2 ^ 31 + ?m mod 2 ^ 31) mod ?M" by (metis mod_mult_self4)
  have ne: "?m mod ?M \<noteq> 0"
  proof
    assume "?m mod ?M = 0"
    then have "?M dvd unat seed * 16807" by (rule dvd_eq_mod_eq_0 [THEN iffD2])
    moreover have "coprime ?M 16807" unfolding coprime_iff_gcd_eq_1
      by (simp add: gcd_red_nat [of 2147483647 16807] gcd_red_nat [of 16807 2836] gcd_red_nat [of 2836 2627] gcd_red_nat [of 2627 209] gcd_red_nat [of 209 119] gcd_red_nat [of 119 90] gcd_red_nat [of 90 29] gcd_red_nat [of 29 3] gcd_red_nat [of 3 2])
    ultimately have "?M dvd unat seed" by (simp add: coprime_dvd_mult_left_iff)
    then show False using assms by (auto dest: dvd_imp_le)
  qed
  have q: "?m div 2 ^ 31 < 16807" using assms by (simp add: less_mult_imp_div_less)
  let ?r = "?m div 2 ^ 31 + ?m mod 2 ^ 31"
  have "?m mod 2 ^ 31 < 2 ^ 31" by simp
  then have r: "?r < 2 * ?M" using q by simp
  have n: "?r \<noteq> ?M" using ne cong by auto
  have "unat (Random_Next seed) = (if ?r > ?M then ?r - ?M else ?r)"
    using random_reduce [of seed] assms by (simp add: Let_def)
  moreover have "(if ?r > ?M then ?r - ?M else ?r) = ?r mod ?M"
  proof (cases "?r > ?M")
    case True
    then have "?r mod ?M = (?r - ?M) mod ?M" by (intro le_mod_geq less_imp_le)
    then show ?thesis using True r by simp
  next
    case False
    then have "?r < ?M" using n by (metis nat_neq_iff)
    then show ?thesis using False by simp
  qed
  ultimately have eq: "unat (Random_Next seed) = ?m mod ?M" by (simp only: cong)
  have "0 < unat (Random_Next seed)" unfolding eq using ne by (rule neq0_conv [THEN iffD1])
  moreover have "unat (Random_Next seed) < ?M" unfolding eq by (rule mod_less_divisor) simp
  ultimately show ?thesis using eq by blast
qed

lemma RandomHeight_range: "1 \<le> fst (RandomHeight rnd) \<and> fst (RandomHeight rnd) \<le> kMaxHeight"
proof -
  have "height \<le> kMaxHeight \<Longrightarrow> height \<le> fst (random_height_loop height rnd) \<and> fst (random_height_loop height rnd) \<le> kMaxHeight"
    for height rnd
  proof (induction height rnd rule: random_height_loop.induct)
    case (1 height rnd)
    show ?case
    proof (cases "height < kMaxHeight \<and> Random_Next rnd mod 4 = 0")
      case True
      then have "Suc height \<le> fst (random_height_loop (Suc height) (Random_Next rnd))
          \<and> fst (random_height_loop (Suc height) (Random_Next rnd)) \<le> kMaxHeight"
        using 1(1) by simp
      then show ?thesis using True by (simp add: random_height_loop.simps [of height rnd])
    next
      case False
      then have "fst (random_height_loop height rnd) = height"
        unfolding random_height_loop.simps [of height rnd] Let_def by (cases "height < kMaxHeight") (simp_all only: if_True if_False fst_conv simp_thms)
      then show ?thesis using 1(2) by simp
    qed
  qed
  from this [of 1 rnd] show ?thesis by (simp add: RandomHeight_def kMaxHeight_def)
qed

section \<open>Links\<close>

text \<open>\<open>linked nx x ys\<close>: following \<open>nx\<close> from \<open>x\<close> goes through \<open>ys\<close> and ends.\<close>

fun linked :: "(nat \<Rightarrow> nat option) \<Rightarrow> nat \<Rightarrow> nat list \<Rightarrow> bool" where
  "linked nx x [] \<longleftrightarrow> nx x = None"
| "linked nx x (y # ys) \<longleftrightarrow> nx x = Some y \<and> linked nx y ys"

definition first :: "'a list \<Rightarrow> 'a option" where
  "first xs = (case xs of [] \<Rightarrow> None | x # _ \<Rightarrow> Some x)"

lemma first_simps [simp]: "first [] = None" "first (x # xs) = Some x"
  by (simp_all add: first_def)

lemma linked_first: "linked nx x ys \<Longrightarrow> nx x = first ys"
  by (cases ys) auto

lemma linked_append: "linked nx x (as @ bs) \<Longrightarrow> linked nx (last (x # as)) bs"
  by (induction as arbitrary: x) auto

lemma linked_cong: "(\<And>y. y \<in> set (x # ys) \<Longrightarrow> nx y = nx' y) \<Longrightarrow> linked nx x ys = linked nx' x ys"
  by (induction ys arbitrary: x) auto

lemma linked_splice:
  assumes "linked nx x (as @ bs)" "distinct (x # as @ bs)" "n \<notin> set (x # as @ bs)"
    "nx' n = nx (last (x # as))" "nx' (last (x # as)) = Some n"
    "\<And>y. y \<noteq> n \<Longrightarrow> y \<noteq> last (x # as) \<Longrightarrow> nx' y = nx y"
  shows "linked nx' x (as @ n # bs)"
  using assms
proof (induction as arbitrary: x)
  case Nil
  then have "linked nx' n bs"
  proof (cases bs)
    case (Cons b bs')
    then have "linked nx b bs'" "nx' n = Some b" using Nil by auto
    moreover have "nx y = nx' y" if "y \<in> set (b # bs')" for y
    proof -
      have "y \<noteq> n" "y \<noteq> last [x]" using that Nil.prems(2,3) Cons by auto
      then show ?thesis using Nil.prems(6) by simp
    qed
    then have "linked nx b bs' = linked nx' b bs'" by (rule linked_cong)
    ultimately show ?thesis using Cons by simp
  qed simp
  then show ?case using Nil by simp
next
  case (Cons a as)
  have "last (a # as) \<in> set (a # as)" by (rule last_in_set) simp
  then have "x \<noteq> last (a # as)" using Cons.prems(2) by auto
  then have "nx' x = Some a" using Cons.prems by auto
  moreover have "linked nx' a (as @ n # bs)" using Cons.prems by (intro Cons.IH) auto
  ultimately show ?case by simp
qed

text \<open>Lists on which a property holds up to some point.\<close>

definition falling :: "('a \<Rightarrow> bool) \<Rightarrow> 'a list \<Rightarrow> bool" where
  "falling P xs \<longleftrightarrow> sorted_wrt (\<lambda>x y. P y \<longrightarrow> P x) xs"

lemma falling_filter: "falling P xs \<Longrightarrow> falling P (filter Q xs)"
  unfolding falling_def by (rule sorted_wrt_filter)

lemma falling_split: "falling P xs \<Longrightarrow> xs = filter P xs @ filter (\<lambda>x. \<not> P x) xs"
proof (induction xs)
  case (Cons x xs)
  show ?case
  proof (cases "P x")
    case False
    then have "filter P xs = []" using Cons.prems by (auto simp: falling_def filter_empty_conv)
    then show ?thesis using False Cons by (simp add: falling_def)
  qed (use Cons in \<open>simp add: falling_def\<close>)
qed simp

lemma falling_prefix: "falling P (as @ b # bs) \<Longrightarrow> P b \<Longrightarrow> list_all P as"
  by (auto simp: falling_def sorted_wrt_append list_all_iff)

lemma falling_stop:
  assumes "falling P (as @ bs)" "list_all P as" "bs = [] \<or> \<not> P (hd bs)"
  shows "filter P (as @ bs) = as" "filter (\<lambda>x. \<not> P x) (as @ bs) = bs"
proof -
  have "list_all (\<lambda>x. \<not> P x) bs"
    using assms(1,3) by (cases bs) (auto simp: falling_def sorted_wrt_append list_all_iff)
  then show "filter P (as @ bs) = as" "filter (\<lambda>x. \<not> P x) (as @ bs) = bs"
    using assms(2) by (auto simp: list_all_iff filter_empty_conv intro!: filter_True)
qed

section \<open>The shape of a list\<close>

definition height_of :: "'k skiplist \<Rightarrow> nat \<Rightarrow> nat" where
  "height_of sl x = length (sl_next (sl_nodes sl ! x))"

definition at_level :: "'k skiplist \<Rightarrow> nat list \<Rightarrow> nat \<Rightarrow> nat list" where
  "at_level sl ids l = filter (\<lambda>i. l < height_of sl i) ids"

definition shaped :: "'k skiplist \<Rightarrow> nat list \<Rightarrow> bool" where
  "shaped sl ids \<longleftrightarrow>
     sl_nodes sl \<noteq> [] \<and> height_of sl 0 = kMaxHeight
     \<and> distinct ids \<and> set ids = {1..<length (sl_nodes sl)}
     \<and> 1 \<le> max_height sl \<and> max_height sl \<le> kMaxHeight
     \<and> (\<forall>i \<in> set ids. 1 \<le> height_of sl i \<and> height_of sl i \<le> max_height sl)
     \<and> (\<forall>l < kMaxHeight. linked (\<lambda>x. Node_Next sl x l) 0 (at_level sl ids l))"

lemma at_level_0: "shaped sl ids \<Longrightarrow> at_level sl ids 0 = ids"
  by (auto simp: shaped_def at_level_def Suc_le_eq intro!: filter_True)

lemma at_level_sub: "l \<le> m \<Longrightarrow> set (at_level sl ids m) \<subseteq> set (at_level sl ids l)"
  by (auto simp: at_level_def)

lemma shaped_length: "shaped sl ids \<Longrightarrow> length (sl_nodes sl) = Suc (length ids)"
proof -
  assume a: "shaped sl ids"
  then have "length ids = card {1..<length (sl_nodes sl)}" by (metis shaped_def distinct_card)
  then show ?thesis using a by (cases "sl_nodes sl") (auto simp: shaped_def)
qed

section \<open>Searching\<close>

definition previous :: "'k skiplist \<Rightarrow> nat list \<Rightarrow> (nat \<Rightarrow> bool) \<Rightarrow> nat \<Rightarrow> nat" where
  "previous sl ids P l = last (0 # filter P (at_level sl ids l))"

definition below :: "('k \<Rightarrow> 'k \<Rightarrow> int) \<Rightarrow> 'k skiplist \<Rightarrow> 'k \<Rightarrow> nat \<Rightarrow> bool" where
  "below cmp sl key x \<longleftrightarrow> cmp (key_of sl x) key < 0"

lemma search_loop:
  fixes cmp :: "'k \<Rightarrow> 'k \<Rightarrow> int" and key and sl :: "'k skiplist"
  defines "P \<equiv> below cmp sl key"
  assumes sh: "shaped sl ids" and fall: "falling P ids"
  shows "level < max_height sl \<Longrightarrow> at_level sl ids level = as @ bs \<Longrightarrow> list_all P as \<Longrightarrow>
    length bs + level * Suc (length ids) < fuel \<Longrightarrow>
    find_ge_loop cmp sl key fuel (last (0 # as)) level prev =
      Some (first (filter (\<lambda>x. \<not> P x) ids),
        map_option (\<lambda>p. fold (\<lambda>l p. p[l := previous sl ids P l]) (rev [0..<Suc level]) p) prev)"
proof (induction fuel arbitrary: level as bs prev)
  case (Suc fuel)
  have fl: "falling P (at_level sl ids l)" for l unfolding at_level_def by (rule falling_filter [OF fall])
  have "level < kMaxHeight" using sh Suc.prems(1) by (simp add: shaped_def)
  then have "linked (\<lambda>x. Node_Next sl x level) 0 (at_level sl ids level)" using sh by (simp add: shaped_def)
  then have nx: "Node_Next sl (last (0 # as)) level = first bs"
    unfolding Suc.prems(2) by (intro linked_first linked_append)
  show ?case
  proof (cases "bs \<noteq> [] \<and> P (hd bs)")
    case True
    then obtain b bs' where bs: "bs = b # bs'" "P b" by (cases bs) auto
    moreover have "KeyIsAfterNode cmp sl key (Some b)" using bs(2) by (simp add: KeyIsAfterNode_def P_def below_def)
    moreover have "find_ge_loop cmp sl key fuel (last (0 # as @ [b])) level prev =
        Some (first (filter (\<lambda>x. \<not> P x) ids),
          map_option (\<lambda>p. fold (\<lambda>l p. p[l := previous sl ids P l]) (rev [0..<Suc level]) p) prev)"
      using Suc.prems bs by (intro Suc.IH) auto
    ultimately show ?thesis using nx by (simp add: Let_def)
  next
    case False
    then have stop: "filter P (at_level sl ids level) = as" "filter (\<lambda>x. \<not> P x) (at_level sl ids level) = bs"
      using falling_stop [of P as bs] fl [of level] Suc.prems(2,3) by auto
    have pv: "previous sl ids P level = last (0 # as)" by (simp add: previous_def stop(1))
    have na: "\<not> KeyIsAfterNode cmp sl key (first bs)"
      using False by (cases bs) (simp_all add: KeyIsAfterNode_def P_def below_def)
    show ?thesis
    proof (cases level)
      case 0
      then show ?thesis using nx na stop(2) pv at_level_0 [OF sh] by (simp add: Let_def)
    next
      case (Suc m)
      have "\<exists>as' bs'. at_level sl ids m = as' @ bs' \<and> last (0 # as) = last (0 # as') \<and> list_all P as'"
      proof (cases "as = []")
        case True
        then show ?thesis by (intro exI [of _ "[]"] exI [of _ "at_level sl ids m"]) simp
      next
        case False
        then have x: "last as \<in> set as" by simp
        then have "last as \<in> set (at_level sl ids m)"
          using at_level_sub [of m level sl ids] Suc.prems(2) Suc by auto
        then obtain us vs where uv: "at_level sl ids m = us @ last as # vs" by (metis split_list)
        have "P (last as)" using x Suc.prems(3) by (simp add: list_all_iff)
        then have "list_all P us" using falling_prefix [of P us "last as" vs] fl [of m] uv by simp
        then show ?thesis
          using uv False \<open>P (last as)\<close> by (intro exI [of _ "us @ [last as]"] exI [of _ vs]) simp
      qed
      then obtain as' bs' where ab: "at_level sl ids m = as' @ bs'" "last (0 # as) = last (0 # as')" "list_all P as'"
        by blast
      have "length bs' \<le> length ids" using arg_cong [OF ab(1), of length] length_filter_le [of _ ids]
        by (metis at_level_def le_add2 length_append order_trans)
      then have "length bs' + m * Suc (length ids) < fuel" using Suc.prems(4) \<open>level = Suc m\<close> by simp
      then have "find_ge_loop cmp sl key fuel (last (0 # as')) m (map_option (\<lambda>p. p[level := previous sl ids P level]) prev) =
          Some (first (filter (\<lambda>x. \<not> P x) ids),
            map_option (\<lambda>p. fold (\<lambda>l p. p[l := previous sl ids P l]) (rev [0..<Suc m]) p)
              (map_option (\<lambda>p. p[level := previous sl ids P level]) prev))"
        using Suc.prems(1) ab \<open>level = Suc m\<close> by (intro Suc.IH) auto
      then show ?thesis
        using nx na pv ab(2) \<open>level = Suc m\<close> by (simp add: Let_def option.map_comp comp_def)
    qed
  qed
qed simp

lemma find_ge:
  assumes "shaped sl ids" "falling (below cmp sl key) ids"
  shows "FindGreaterOrEqual cmp sl key prev = Some (first (filter (\<lambda>x. \<not> below cmp sl key x) ids),
    map_option (\<lambda>p. fold (\<lambda>l p. p[l := previous sl ids (below cmp sl key) l])
      (rev [0..<max_height sl]) p) prev)"
proof -
  obtain m where m: "max_height sl = Suc m" using assms(1) by (cases "max_height sl") (auto simp: shaped_def)
  have "length (at_level sl ids m) \<le> length ids" by (simp add: at_level_def)
  then have "length (at_level sl ids m) + m * Suc (length ids) < search_fuel sl"
    using shaped_length [OF assms(1)] by (simp add: search_fuel_def m)
  then show ?thesis
    using search_loop [OF assms, of m "[]" "at_level sl ids m" "search_fuel sl" prev]
    by (simp add: FindGreaterOrEqual_def m)
qed

lemma fold_updates:
  assumes "distinct ls"
  shows "length (fold (\<lambda>l p. p[l := f l]) ls p) = length p"
    "i \<in> set ls \<Longrightarrow> i < length p \<Longrightarrow> fold (\<lambda>l p. p[l := f l]) ls p ! i = f i"
    "i \<notin> set ls \<Longrightarrow> fold (\<lambda>l p. p[l := f l]) ls p ! i = p ! i"
  using assms by (induction ls arbitrary: p) auto

text \<open>The search that returns a node below the key takes the same way.\<close>

lemma find_lt_loop_prev:
  "0 < length p \<Longrightarrow> find_lt_loop cmp sl key fuel x level =
     map_option (\<lambda>(_, p'). the p' ! 0) (find_ge_loop cmp sl key fuel x level (Some p))"
proof (induction fuel arbitrary: x level p)
  case (Suc fuel)
  note up = Suc.IH [of "p[level := x]" x "level - 1"] and on = Suc.IH [of p "the (Node_Next sl x level)" level]
  show ?case
    using up on Suc.prems
    by (cases "Node_Next sl x level") (auto simp: Let_def KeyIsAfterNode_def)
qed simp

lemma find_lt:
  assumes "shaped sl ids" "falling (below cmp sl key) ids"
  shows "FindLessThan cmp sl key = Some (last (0 # filter (below cmp sl key) ids))"
proof -
  have "0 < max_height sl" using assms(1) by (simp add: shaped_def)
  then have "fold (\<lambda>l p. p[l := previous sl ids (below cmp sl key) l]) (rev [0..<max_height sl]) [0] ! 0 =
      previous sl ids (below cmp sl key) 0"
    by (intro fold_updates(2)) auto
  moreover have "previous sl ids (below cmp sl key) 0 = last (0 # filter (below cmp sl key) ids)"
    by (simp add: previous_def at_level_0 [OF assms(1)])
  ultimately show ?thesis
    using find_ge [OF assms, of "Some [0]"]
    by (simp add: FindLessThan_def FindGreaterOrEqual_def find_lt_loop_prev [of "[0]"])
qed

lemma find_last_lt: "find_last_loop sl fuel x level = find_lt_loop (\<lambda>_ _. - 1) sl key fuel x level"
  by (induction fuel arbitrary: x level) (auto split: option.splits)

lemma find_last: "shaped sl ids \<Longrightarrow> FindLast sl = Some (last (0 # ids))"
  using find_lt [of sl ids "\<lambda>_ _. - 1" undefined]
  by (simp add: FindLast_def FindLessThan_def find_last_lt [of sl _ _ _ undefined] falling_def below_def)

section \<open>Linking a node\<close>

lemma nth_update_eq: "xs[i := v] ! j = (if i = j \<and> i < length xs then v else xs ! j)"
  by (cases "i < length xs") (simp_all add: list_update_beyond)

lemma SetNext_simps [simp]:
  "length (sl_nodes (Node_SetNext x n v sl)) = length (sl_nodes sl)"
  "height_of (Node_SetNext x n v sl) y = height_of sl y" "key_of (Node_SetNext x n v sl) y = key_of sl y"
  "max_height (Node_SetNext x n v sl) = max_height sl"
  by (auto simp: Node_SetNext_def height_of_def key_of_def nth_update_eq)

lemma Next_SetNext:
  "x < length (sl_nodes sl) \<Longrightarrow> n < height_of sl x \<Longrightarrow>
   Node_Next (Node_SetNext x n v sl) y l = (if y = x \<and> l = n then v else Node_Next sl y l)"
  by (auto simp: Node_SetNext_def Node_Next_def height_of_def nth_update_eq)

lemma link_level_simps [simp]:
  "length (sl_nodes (link_level x prev i sl)) = length (sl_nodes sl)"
  "height_of (link_level x prev i sl) y = height_of sl y" "key_of (link_level x prev i sl) y = key_of sl y"
  "max_height (link_level x prev i sl) = max_height sl"
  by (simp_all add: link_level_def)

lemma link_fold_simps [simp]:
  "length (sl_nodes (fold (link_level x prev) is sl)) = length (sl_nodes sl)"
  "height_of (fold (link_level x prev) is sl) y = height_of sl y"
  "key_of (fold (link_level x prev) is sl) y = key_of sl y"
  "max_height (fold (link_level x prev) is sl) = max_height sl"
  by (induction "is" arbitrary: sl) simp_all

lemma link_fold_next:
  "x < length (sl_nodes sl) \<Longrightarrow> h \<le> height_of sl x \<Longrightarrow>
   (\<And>i. i < h \<Longrightarrow> prev ! i < length (sl_nodes sl) \<and> prev ! i \<noteq> x \<and> i < height_of sl (prev ! i)) \<Longrightarrow>
   Node_Next (fold (link_level x prev) [0..<h] sl) y l =
     (if l < h \<and> y = prev ! l then Some x else if l < h \<and> y = x then Node_Next sl (prev ! l) l else Node_Next sl y l)"
proof (induction h arbitrary: y l)
  case (Suc h)
  let ?sl = "fold (link_level x prev) [0..<h] sl"
  have ih: "Node_Next ?sl y l = (if l < h \<and> y = prev ! l then Some x
      else if l < h \<and> y = x then Node_Next sl (prev ! l) l else Node_Next sl y l)" for y l
    using Suc.prems by (intro Suc.IH) auto
  have ph: "prev ! h < length (sl_nodes sl)" "prev ! h \<noteq> x" "h < height_of sl (prev ! h)"
    using Suc.prems(3) [of h] by auto
  have "Node_Next (link_level x prev h ?sl) y l =
      (if y = prev ! h \<and> l = h then Some x else if y = x \<and> l = h then Node_Next ?sl (prev ! h) h else Node_Next ?sl y l)"
    using Suc.prems(1,2) ph by (simp add: link_level_def Next_SetNext)
  then show ?case using ih ph(2) by (auto simp: less_Suc_eq)
qed simp

section \<open>Insertion\<close>

definition inserted :: "(nat \<Rightarrow> bool) \<Rightarrow> nat \<Rightarrow> nat list \<Rightarrow> nat list" where
  "inserted P x ids = filter P ids @ x # filter (\<lambda>i. \<not> P i) ids"

lemma insert_result:
  fixes cmp :: "'k \<Rightarrow> 'k \<Rightarrow> int" and key and sl :: "'k skiplist"
  defines "P \<equiv> below cmp sl key"
  assumes sh: "shaped sl ids" and fall: "falling P ids"
  shows "\<exists>sl'. SkipList_Insert cmp key sl = Some sl' \<and> shaped sl' (inserted P (length (sl_nodes sl)) ids)
    \<and> key_of sl' (length (sl_nodes sl)) = key \<and> (\<forall>i < length (sl_nodes sl). key_of sl' i = key_of sl i)
    \<and> length (sl_nodes sl') = Suc (length (sl_nodes sl))"
proof -
  let ?x = "length (sl_nodes sl)"
  obtain h rnd where h: "RandomHeight (sl_rnd sl) = (h, rnd)" by fastforce
  have hr: "1 \<le> h" "h \<le> kMaxHeight" using RandomHeight_range [of "sl_rnd sl"] h by auto
  have mh: "max_height sl \<le> kMaxHeight" "0 < max_height sl" using sh by (auto simp: shaped_def)
  define pr where "pr = fold (\<lambda>l p. p[l := previous sl ids P l]) (rev [0..<max_height sl]) (replicate kMaxHeight 0)"
  have "length pr = kMaxHeight" unfolding pr_def by (subst fold_updates(1)) simp_all
  define pr' where "pr' = (if h > max_height sl then fold (\<lambda>i prev. prev[i := 0]) [max_height sl..<h] pr else pr)"
  have pv: "pr' ! l = previous sl ids P l" if "l < h" for l
  proof (cases "l < max_height sl")
    case True
    then have "pr ! l = previous sl ids P l"
      unfolding pr_def using mh by (intro fold_updates(2)) simp_all
    then show ?thesis using True by (simp add: pr'_def fold_updates(3))
  next
    case False
    moreover have "height_of sl i \<le> max_height sl" if "i \<in> set ids" for i using sh that by (simp add: shaped_def)
    ultimately have "at_level sl ids l = []" by (fastforce simp: at_level_def filter_empty_conv)
    moreover have "pr' ! l = 0"
      using False that hr \<open>length pr = kMaxHeight\<close> by (simp add: pr'_def fold_updates(2) [where f = "\<lambda>_. 0"])
    ultimately show ?thesis by (simp add: previous_def)
  qed
  define sl1 where "sl1 = sl\<lparr>sl_rnd := rnd, max_height := max h (max_height sl)\<rparr>"
  define sl2 where "sl2 = snd (NewNode key h sl1)"
  define sl3 where "sl3 = fold (link_level ?x pr') [0..<h] sl2"
  have ins: "SkipList_Insert cmp key sl = Some sl3"
    using find_ge [OF sh fall [unfolded P_def], of "Some (replicate kMaxHeight 0)"] h
    by (auto simp: SkipList_Insert_def pr_def pr'_def sl1_def sl2_def sl3_def NewNode_def Let_def P_def max_def)
  have n2: "length (sl_nodes sl2) = Suc ?x" "max_height sl2 = max h (max_height sl)" "key_of sl2 ?x = key"
    "height_of sl2 ?x = h" "i < ?x \<Longrightarrow> key_of sl2 i = key_of sl i"
    "i < ?x \<Longrightarrow> height_of sl2 i = height_of sl i" "i < ?x \<Longrightarrow> Node_Next sl2 i l = Node_Next sl i l" for i l
    by (simp_all add: sl2_def sl1_def NewNode_def key_of_def height_of_def Node_Next_def nth_append)
  have ids: "set ids = {1..<?x}" "distinct ids" "0 < ?x" using sh by (auto simp: shaped_def)
  have prev_ok: "previous sl ids P l < ?x \<and> l < height_of sl (previous sl ids P l)" if "l < kMaxHeight" for l
  proof (cases "filter P (at_level sl ids l) = []")
    case True
    then show ?thesis using that ids(3) sh by (simp add: previous_def shaped_def)
  next
    case False
    then have "last (filter P (at_level sl ids l)) \<in> set (filter P (at_level sl ids l))" by (rule last_in_set)
    then show ?thesis using False ids(1) by (auto simp: previous_def at_level_def)
  qed
  have next3: "Node_Next sl3 y l = (if l < h \<and> y = previous sl ids P l then Some ?x
      else if l < h \<and> y = ?x then Node_Next sl (previous sl ids P l) l else Node_Next sl2 y l)" for y l
  proof -
    have "Node_Next sl3 y l = (if l < h \<and> y = pr' ! l then Some ?x
        else if l < h \<and> y = ?x then Node_Next sl2 (pr' ! l) l else Node_Next sl2 y l)"
      unfolding sl3_def
    proof (rule link_fold_next)
      fix i assume "i < h"
      then have "i < kMaxHeight" using hr by simp
      then show "pr' ! i < length (sl_nodes sl2) \<and> pr' ! i \<noteq> ?x \<and> i < height_of sl2 (pr' ! i)"
        using prev_ok [of i] pv [OF \<open>i < h\<close>] n2 by auto
    qed (use n2 in auto)
    then show ?thesis using pv [of l] prev_ok [of l] hr n2(7) [of "previous sl ids P l" l] by auto
  qed
  have height3: "height_of sl3 ?x = h" "i < ?x \<Longrightarrow> height_of sl3 i = height_of sl i" for i
    using n2 by (simp_all add: sl3_def)
  let ?ids = "inserted P ?x ids"
  have set': "set ?ids = insert ?x (set ids)" by (auto simp: inserted_def)
  have fset: "i \<in> set ids \<Longrightarrow> height_of sl3 i = height_of sl i" for i using height3(2) ids(1) by auto
  have level: "at_level sl3 ?ids l = filter P (at_level sl ids l) @ (if l < h then [?x] else [])
      @ filter (\<lambda>i. \<not> P i) (at_level sl ids l)" for l
  proof -
    have "filter (\<lambda>i. Q i \<and> l < height_of sl3 i) ids = filter (\<lambda>i. l < height_of sl i \<and> Q i) ids" for Q
      using fset by (intro filter_cong) auto
    then show ?thesis by (simp add: at_level_def inserted_def height3(1))
  qed
  have "linked (\<lambda>x. Node_Next sl3 x l) 0 (at_level sl3 ?ids l)" if l: "l < kMaxHeight" for l
  proof -
    let ?A = "filter P (at_level sl ids l)" and ?B = "filter (\<lambda>i. \<not> P i) (at_level sl ids l)"
    have old: "linked (\<lambda>x. Node_Next sl x l) 0 (?A @ ?B)"
      using sh l falling_split [OF falling_filter [OF fall, of "\<lambda>i. l < height_of sl i", folded at_level_def]]
      by (simp add: shaped_def)
    have mem: "set (0 # ?A @ ?B) \<subseteq> {..<?x}" "distinct (0 # ?A @ ?B)"
      using ids by (auto simp: at_level_def)
    then have old2: "linked (\<lambda>x. Node_Next sl2 x l) 0 (?A @ ?B)"
      using old n2(7) by (subst linked_cong [where nx' = "\<lambda>x. Node_Next sl x l"]) auto
    show ?thesis
    proof (cases "l < h")
      case True
      have "linked (\<lambda>x. Node_Next sl3 x l) 0 (?A @ ?x # ?B)"
      proof (rule linked_splice [OF old2 mem(2)])
        show "?x \<notin> set (0 # ?A @ ?B)" using mem(1) by auto
        show "Node_Next sl3 ?x l = Node_Next sl2 (last (0 # ?A)) l"
          using True prev_ok [OF l] next3 [of ?x l] n2(7) by (auto simp: previous_def)
        show "Node_Next sl3 (last (0 # ?A)) l = Some ?x" using True next3 by (simp add: previous_def)
        show "Node_Next sl3 y l = Node_Next sl2 y l" if "y \<noteq> ?x" "y \<noteq> last (0 # ?A)" for y
          using that next3 [of y l] by (simp add: previous_def)
      qed
      then show ?thesis using True by (simp add: level)
    next
      case False
      then show ?thesis using old2 next3 by (simp add: level)
    qed
  qed
  moreover have "distinct ?ids" using ids by (auto simp: inserted_def)
  moreover have "height_of sl3 0 = kMaxHeight" using height3(2) ids(3) sh by (simp add: shaped_def)
  moreover have "set ?ids = {1..<length (sl_nodes sl3)}"
    using set' ids Suc_leI [OF ids(3)] by (auto simp: sl3_def n2(1))
  moreover have "1 \<le> height_of sl3 i \<and> height_of sl3 i \<le> max_height sl3" if "i \<in> set ?ids" for i
  proof (cases "i = ?x")
    case True
    then show ?thesis using height3(1) hr(1) n2(2) by (simp add: sl3_def)
  next
    case False
    then have i: "i \<in> set ids" using that set' by simp
    then have "1 \<le> height_of sl i \<and> height_of sl i \<le> max_height sl" using sh by (simp add: shaped_def)
    then show ?thesis using fset [OF i] n2(2) by (auto simp: sl3_def)
  qed
  moreover have "length (sl_nodes sl3) = Suc ?x" "max_height sl3 = max h (max_height sl)"
    using n2(1,2) by (simp_all add: sl3_def)
  then have "sl_nodes sl3 \<noteq> []" "1 \<le> max_height sl3" "max_height sl3 \<le> kMaxHeight" using mh hr by auto
  ultimately have "shaped sl3 ?ids" unfolding shaped_def by blast
  moreover have "key_of sl3 ?x = key" "i < ?x \<Longrightarrow> key_of sl3 i = key_of sl i" for i
    using n2 by (simp_all add: sl3_def)
  ultimately show ?thesis using ins n2(1) by (auto simp: sl3_def)
qed

section \<open>The keys of a list\<close>

text \<open>
  Orders in which different keys may be equal, as entries of a memory table with the same internal
  key are. Any comparator is one.
\<close>

locale weak_order =
  fixes cmp :: "'k \<Rightarrow> 'k \<Rightarrow> int" and valid :: "'k \<Rightarrow> bool"
  assumes wo_swap: "valid a \<Longrightarrow> valid b \<Longrightarrow> cmp b a > 0 \<longleftrightarrow> cmp a b < 0"
    and wo_trans: "valid a \<Longrightarrow> valid b \<Longrightarrow> valid c \<Longrightarrow> cmp a b \<le> 0 \<Longrightarrow> cmp b c \<le> 0 \<Longrightarrow> cmp a c \<le> 0"

sublocale comparator \<subseteq> weak_order cmp valid
  by unfold_locales (rule cmp_swap, assumption+, rule cmp_le_trans)

definition insert_key :: "('k \<Rightarrow> 'k \<Rightarrow> int) \<Rightarrow> 'k \<Rightarrow> 'k list \<Rightarrow> 'k list" where
  "insert_key cmp k ks = filter (\<lambda>a. cmp a k < 0) ks @ k # filter (\<lambda>a. \<not> cmp a k < 0) ks"

definition represents :: "('k \<Rightarrow> 'k \<Rightarrow> int) \<Rightarrow> ('k \<Rightarrow> bool) \<Rightarrow> 'k skiplist \<Rightarrow> 'k list \<Rightarrow> bool" where
  "represents cmp valid sl ks \<longleftrightarrow> (\<exists>ids. shaped sl ids \<and> map (key_of sl) ids = ks
     \<and> sorted_wrt (\<lambda>a b. cmp a b \<le> 0) ks \<and> (\<forall>k \<in> set ks. valid k))"

lemma set_insert_key [simp]: "set (insert_key cmp k ks) = insert k (set ks)"
  by (auto simp: insert_key_def)

lemma new_shaped: "shaped (new_SkipList z) []"
  by (auto simp: shaped_def new_SkipList_def height_of_def at_level_def Node_Next_def kMaxHeight_def)

context weak_order
begin

lemma wo_not_less: "valid a \<Longrightarrow> valid b \<Longrightarrow> \<not> cmp a b < 0 \<longleftrightarrow> cmp b a \<le> 0"
  using wo_swap [of a b] by auto

lemma wo_le_less:
  assumes "valid a" "valid b" "valid c" "cmp a b \<le> 0" "cmp b c < 0"
  shows "cmp a c < 0"
proof (rule ccontr)
  assume "\<not> cmp a c < 0"
  then have "cmp c b \<le> 0" using assms wo_not_less [of a c] wo_trans [of c a b] by simp
  then show False using assms wo_swap [of b c] by simp
qed

lemma sorted_insert:
  assumes "sorted_wrt (\<lambda>a b. cmp a b \<le> 0) ks" "\<forall>a \<in> set ks. valid a" "valid k"
  shows "sorted_wrt (\<lambda>a b. cmp a b \<le> 0) (insert_key cmp k ks)"
proof -
  let ?lo = "filter (\<lambda>a. cmp a k < 0) ks" and ?hi = "filter (\<lambda>a. \<not> cmp a k < 0) ks"
  have "cmp k b \<le> 0" if "b \<in> set ?hi" for b using that assms wo_not_less by auto
  moreover have "cmp a b \<le> 0" if "a \<in> set ?lo" "b \<in> set ?hi" for a b
    using that assms wo_not_less [of b k] wo_trans [of a k b] by auto
  moreover have "sorted_wrt (\<lambda>a b. cmp a b \<le> 0) ?lo" "sorted_wrt (\<lambda>a b. cmp a b \<le> 0) ?hi"
    using assms(1) by (simp_all add: sorted_wrt_filter)
  ultimately show ?thesis by (auto simp: insert_key_def sorted_wrt_append)
qed

lemma falling_below:
  assumes "sorted_wrt (\<lambda>a b. cmp a b \<le> 0) (map (key_of sl) ids)" "\<forall>i \<in> set ids. valid (key_of sl i)" "valid k"
  shows "falling (below cmp sl k) ids"
  using assms(1,2)
proof (induction ids)
  case (Cons i ids)
  have "below cmp sl k i" if "j \<in> set ids" "below cmp sl k j" for j
    using that Cons.prems assms(3) wo_le_less [of "key_of sl i" "key_of sl j" k] by (auto simp: below_def)
  then show ?case using Cons by (auto simp: falling_def)
qed (simp add: falling_def)

lemma represents_new: "represents cmp valid (new_SkipList z) []"
  using new_shaped by (auto simp: represents_def)

lemma represents_insert:
  assumes "represents cmp valid sl ks" "valid k"
  shows "\<exists>sl'. SkipList_Insert cmp k sl = Some sl' \<and> represents cmp valid sl' (insert_key cmp k ks)"
proof -
  obtain ids where ids: "shaped sl ids" "map (key_of sl) ids = ks" "sorted_wrt (\<lambda>a b. cmp a b \<le> 0) ks"
      "\<forall>k \<in> set ks. valid k"
    using assms(1) by (auto simp: represents_def)
  have "falling (below cmp sl k) ids" using ids assms(2) by (intro falling_below) auto
  from insert_result [OF ids(1) this] obtain sl' where sl': "SkipList_Insert cmp k sl = Some sl'"
      "shaped sl' (inserted (below cmp sl k) (length (sl_nodes sl)) ids)" "key_of sl' (length (sl_nodes sl)) = k"
      "\<forall>i < length (sl_nodes sl). key_of sl' i = key_of sl i"
    by blast
  have old: "key_of sl' i = key_of sl i" if "i \<in> set ids" for i using sl'(4) ids(1) that by (auto simp: shaped_def)
  have "map (key_of sl') (filter Q ids) = map (key_of sl) (filter Q ids)" for Q using old by simp
  then have "map (key_of sl') (inserted (below cmp sl k) (length (sl_nodes sl)) ids) = insert_key cmp k ks"
    using sl'(3) ids(2) [symmetric] by (simp add: inserted_def insert_key_def filter_map comp_def below_def [abs_def])
  then show ?thesis
    using sl'(1,2) sorted_insert [OF ids(3,4) assms(2)] ids(4) assms(2) by (auto simp: represents_def)
qed

lemma represents_seek:
  assumes "represents cmp valid sl ks" "valid k"
  shows "\<exists>r. sl_Seek cmp sl k = Some r
    \<and> map_option (key_of sl) r = first (filter (\<lambda>a. \<not> cmp a k < 0) ks)"
proof -
  obtain ids where ids: "shaped sl ids" "map (key_of sl) ids = ks" "sorted_wrt (\<lambda>a b. cmp a b \<le> 0) ks"
      "\<forall>k \<in> set ks. valid k"
    using assms(1) by (auto simp: represents_def)
  have f: "falling (below cmp sl k) ids" using ids assms(2) by (intro falling_below) auto
  have "sl_Seek cmp sl k = Some (first (filter (\<lambda>x. \<not> below cmp sl k x) ids))"
    using find_ge [OF ids(1) f, of None] by (simp add: sl_Seek_def)
  moreover have "map_option (key_of sl) (first xs) = first (map (key_of sl) xs)" for xs
    by (cases xs) simp_all
  ultimately show ?thesis using ids(2) by (auto simp: filter_map comp_def below_def)
qed

lemma represents_contains:
  assumes "represents cmp valid sl ks" "valid k"
  shows "Contains cmp sl k = Some (\<exists>a \<in> set ks. cmp k a = 0)"
proof -
  obtain r where r: "sl_Seek cmp sl k = Some r" "map_option (key_of sl) r = first (filter (\<lambda>a. \<not> cmp a k < 0) ks)"
    using represents_seek [OF assms] by blast
  have ks: "sorted_wrt (\<lambda>a b. cmp a b \<le> 0) ks" "\<forall>k \<in> set ks. valid k"
    using assms(1) by (auto simp: represents_def)
  have c: "Contains cmp sl k = Some (case r of None \<Rightarrow> False | Some n \<Rightarrow> cmp k (key_of sl n) = 0)"
    using r(1) by (auto simp: Contains_def sl_Seek_def)
  show ?thesis
  proof (cases "filter (\<lambda>a. \<not> cmp a k < 0) ks")
    case Nil
    then have "cmp k a \<noteq> 0" if "a \<in> set ks" for a
      using that ks(2) assms(2) wo_swap [of a k] by (auto simp: filter_empty_conv)
    then show ?thesis using c r(2) Nil by (auto split: option.split)
  next
    case (Cons b bs)
    have s: "{a \<in> set ks. \<not> cmp a k < 0} = set (b # bs)" unfolding Cons [symmetric] by simp
    have "b \<in> {a \<in> set ks. \<not> cmp a k < 0}" unfolding s by simp
    then have b: "b \<in> set ks" "\<not> cmp b k < 0" by simp_all
    have "cmp k a = 0 \<longrightarrow> cmp k b = 0" if "a \<in> set ks" for a
    proof
      assume z: "cmp k a = 0"
      have v: "valid a" "valid b" using that b ks(2) by auto
      then have "\<not> cmp a k < 0" using z wo_swap [of a k] assms(2) by auto
      then have "a \<in> set (b # bs)" unfolding s [symmetric] using that by simp
      moreover have "sorted_wrt (\<lambda>a b. cmp a b \<le> 0) (b # bs)"
        using ks(1) Cons by (metis sorted_wrt_filter)
      ultimately have "a = b \<or> cmp b a \<le> 0" by auto
      moreover have "cmp a k \<le> 0" using z wo_swap [of k a] v assms(2) by (metis less_irrefl not_less)
      ultimately have "cmp b k \<le> 0" using wo_trans [of b a k] v assms(2) by auto
      then show "cmp k b = 0"
        using b(2) wo_swap [of b k] wo_swap [of k b] v assms(2) by (metis linorder_neqE not_less order_antisym)
    qed
    moreover obtain n where "r = Some n" "key_of sl n = b" using r(2) Cons by (cases r) auto
    ultimately show ?thesis using c b(1) by auto
  qed
qed

end

section \<open>Properties\<close>

fun insert_all :: "('k \<Rightarrow> 'k \<Rightarrow> int) \<Rightarrow> 'k list \<Rightarrow> 'k skiplist \<Rightarrow> 'k skiplist option" where
  "insert_all cmp [] sl = Some sl"
| "insert_all cmp (k # ks) sl =
     (case SkipList_Insert cmp k sl of None \<Rightarrow> None | Some sl' \<Rightarrow> insert_all cmp ks sl')"

text \<open>The keys that an iterator meets in at most \<open>n\<close> steps.\<close>

fun forward :: "'k skiplist \<Rightarrow> nat \<Rightarrow> nat option \<Rightarrow> 'k list" where
  "forward sl n None = []"
| "forward sl 0 (Some x) = []"
| "forward sl (Suc n) (Some x) = key_of sl x # forward sl n (sl_Next sl x)"

lemma forward_linked:
  "linked (\<lambda>x. Node_Next sl x 0) x ys \<Longrightarrow> length ys \<le> n \<Longrightarrow> forward sl n (first ys) = map (key_of sl) ys"
proof (induction ys arbitrary: x n)
  case (Cons y ys)
  then obtain m where "n = Suc m" by (cases n) auto
  moreover have "Node_Next sl y 0 = first ys" using Cons.prems by (intro linked_first) auto
  moreover have "forward sl m (first ys) = map (key_of sl) ys"
    using Cons.prems \<open>n = Suc m\<close> by (intro Cons.IH [of y]) auto
  ultimately show ?case by (simp add: sl_Next_def)
qed simp

lemma forward_represents:
  assumes "represents cmp valid sl ks" "length ks \<le> n"
  shows "forward sl n (sl_SeekToFirst sl) = ks"
proof -
  obtain ids where ids: "shaped sl ids" "map (key_of sl) ids = ks" using assms(1) by (auto simp: represents_def)
  have "linked (\<lambda>x. Node_Next sl x 0) 0 (at_level sl ids 0)" using ids(1) by (auto simp: shaped_def kMaxHeight_def)
  then have "linked (\<lambda>x. Node_Next sl x 0) 0 ids" using at_level_0 [OF ids(1)] by simp
  then show ?thesis
    using forward_linked [of sl 0 ids n] linked_first [of _ 0 ids] ids(2) assms(2) by (auto simp: sl_SeekToFirst_def)
qed

lemma mset_insert_key [simp]: "mset (insert_key cmp k ks) = add_mset k (mset ks)"
  by (simp add: insert_key_def)

context weak_order
begin

lemma all_inserted:
  "represents cmp valid sl ks \<Longrightarrow> \<forall>k \<in> set new. valid k \<Longrightarrow>
   \<exists>sl'. insert_all cmp new sl = Some sl' \<and> represents cmp valid sl' (fold (insert_key cmp) new ks)"
  by (induction new arbitrary: sl ks) (use represents_insert in \<open>fastforce+\<close>)

end


text \<open>
  \<open>Next\<close> of the generator is \<open>seed * 16807 mod (2 ^ 31 - 1)\<close>, computed without a division, and
  never reaches the two seeds that would stay forever.
\<close>

theorem Random_Next_modulus:
  assumes "0 < unat seed" "unat seed < 2147483647"
  shows "unat (Random_Next seed) = unat seed * 16807 mod 2147483647 \<and> 0 < unat (Random_Next seed)
    \<and> unat (Random_Next seed) < 2147483647"
  using assms by (rule Random_Next_range)

theorem Random_Next_modulus_witness: "unat (Random_Next 127774) = 13971 \<and> 0 < unat (Random_Next 1)"
  using Random_Next_modulus [of 127774] Random_Next_modulus [of 1] by simp

end
