(* ===== verification/LdbMemTable.thy ===== *)
theory LdbMemTable
  imports LdbFormat LdbStatus LdbSkipListProps
begin

text \<open>
  The memory table (\<open>db/memtable.cc\<close>): a skip list of entries in the order of their internal keys.
  A \<open>const char*\<close> key of the list is the bytes of the entry that it points at.
\<close>

section \<open>Entries\<close>

text \<open>
  \<open>GetLengthPrefixedSlice(const char*)\<close>, which takes the length to be in the first five bytes. The
  code does not look whether the varint was read: the length is then not initialised (here 0).
\<close>

definition entry_key :: "slice \<Rightarrow> u32 \<times> slice" where
  "entry_key entry =
     (case GetVarint32Ptr (take 5 entry) of
        None \<Rightarrow> (0, [])
      | Some (len, p) \<Rightarrow> (len, drop (length (take 5 entry) - length p) entry))"

definition memtable_slice :: "slice \<Rightarrow> slice" where
  "memtable_slice data = (case entry_key data of (len, p) \<Rightarrow> take (unat len) p)"

definition KeyComparator :: "(slice \<Rightarrow> slice \<Rightarrow> int) \<Rightarrow> slice \<Rightarrow> slice \<Rightarrow> int" where
  "KeyComparator user_compare aptr bptr =
     InternalKey_Compare user_compare (memtable_slice aptr) (memtable_slice bptr)"

definition EncodeKey :: "slice \<Rightarrow> slice" where
  "EncodeKey target = PutVarint32 [] (of_nat (length target)) @ target"

section \<open>The table\<close>

type_synonym memtable = "slice skiplist"

definition new_MemTable :: memtable where
  "new_MemTable = new_SkipList []"

text \<open>The bytes that \<open>Add\<close> writes, and the size of the buffer that it takes for them.\<close>

definition memtable_entry :: "u64 \<Rightarrow> u8 \<Rightarrow> slice \<Rightarrow> slice \<Rightarrow> slice" where
  "memtable_entry s t key value =
     EncodeVarint32 (of_nat (length key + 8)) @ key @ EncodeFixed64 (push_bit 8 s OR ucast t)
     @ EncodeVarint32 (of_nat (length value)) @ value"

definition encoded_len :: "slice \<Rightarrow> slice \<Rightarrow> int" where
  "encoded_len key value =
     (let internal_key_size = length key + 8 in
      VarintLength (of_nat internal_key_size) + int internal_key_size
      + VarintLength (of_nat (length value)) + int (length value))"

definition MemTable_Add ::
    "(slice \<Rightarrow> slice \<Rightarrow> int) \<Rightarrow> u64 \<Rightarrow> u8 \<Rightarrow> slice \<Rightarrow> slice \<Rightarrow> memtable \<Rightarrow> memtable option" where
  "MemTable_Add user_compare s t key value mt =
     SkipList_Insert (KeyComparator user_compare) (memtable_entry s t key value) mt"

text \<open>The result, \<open>*value\<close> and \<open>*s\<close> after the call.\<close>

definition MemTable_Get ::
    "(slice \<Rightarrow> slice \<Rightarrow> int) \<Rightarrow> lookup_key \<Rightarrow> memtable \<Rightarrow> slice \<Rightarrow> ldb_status
     \<Rightarrow> (bool \<times> slice \<times> ldb_status) option" where
  "MemTable_Get user_compare key mt value s =
     (case sl_Seek (KeyComparator user_compare) mt (memtable_key key) of
        None \<Rightarrow> None
      | Some None \<Rightarrow> Some (False, value, s)
      | Some (Some x) \<Rightarrow>
          (let (key_length, key_ptr) = entry_key (key_of mt x) in
           if user_compare (take (unat (key_length - 8)) key_ptr) (lookup_user_key key) = 0 then
             let tag = DecodeFixed64 (drop (unat (key_length - 8)) key_ptr); t = ucast (tag AND 0xff) :: u8 in
             if t = kTypeValue then Some (True, memtable_slice (drop (unat key_length) key_ptr), s)
             else if t = kTypeDeletion then Some (True, value, NotFound [] [])
             else Some (False, value, s)
           else Some (False, value, s)))"

section \<open>Iterators\<close>

definition mt_Seek :: "(slice \<Rightarrow> slice \<Rightarrow> int) \<Rightarrow> memtable \<Rightarrow> slice \<Rightarrow> nat option option" where
  "mt_Seek user_compare mt k = sl_Seek (KeyComparator user_compare) mt (EncodeKey k)"

definition mt_Prev :: "(slice \<Rightarrow> slice \<Rightarrow> int) \<Rightarrow> memtable \<Rightarrow> nat \<Rightarrow> nat option option" where
  "mt_Prev user_compare mt node = sl_Prev (KeyComparator user_compare) mt node"

definition mt_key :: "memtable \<Rightarrow> nat \<Rightarrow> slice" where
  "mt_key mt node = memtable_slice (key_of mt node)"

definition mt_value :: "memtable \<Rightarrow> nat \<Rightarrow> slice" where
  "mt_value mt node = (case entry_key (key_of mt node) of (len, p) \<Rightarrow> memtable_slice (drop (unat len) p))"

section \<open>Reading entries\<close>

lemma entry_key_reads:
  assumes "length k < 2 ^ 32"
  shows "entry_key (EncodeVarint32 (of_nat (length k)) @ k @ rest) = (of_nat (length k), k @ rest)"
proof -
  let ?e = "EncodeVarint32 (of_nat (length k))"
  have "take 5 (?e @ k @ rest) = ?e @ take (5 - length ?e) (k @ rest)"
    using length_EncodeVarint32(2) [of "of_nat (length k)"] by simp
  then show ?thesis by (simp add: entry_key_def)
qed

lemma memtable_slice_reads:
  assumes "length k < 2 ^ 32"
  shows "memtable_slice (EncodeVarint32 (of_nat (length k)) @ k @ rest) = k"
  using assms by (simp add: memtable_slice_def entry_key_reads unat_of_nat_lt)

definition mt_valid :: "(slice \<Rightarrow> bool) \<Rightarrow> slice \<Rightarrow> bool" where
  "mt_valid valid e \<longleftrightarrow> (\<exists>k rest. e = EncodeVarint32 (of_nat (length k)) @ k @ rest
     \<and> length k < 2 ^ 32 \<and> internal_valid valid k)"

lemma mt_valid_slice: "mt_valid valid e \<Longrightarrow> internal_valid valid (memtable_slice e)"
  by (auto simp: mt_valid_def memtable_slice_reads)

text \<open>An addition to the table.\<close>

record addition =
  w_key :: slice
  w_seq :: u64
  w_type :: u8
  w_value :: slice

definition entry_of :: "addition \<Rightarrow> slice" where
  "entry_of w = memtable_entry (w_seq w) (w_type w) (w_key w) (w_value w)"

definition sane :: "(slice \<Rightarrow> bool) \<Rightarrow> addition \<Rightarrow> bool" where
  "sane valid w \<longleftrightarrow> valid (w_key w) \<and> unat (w_seq w) < 2 ^ 56 \<and> w_type w \<le> kTypeValue
     \<and> length (w_key w) + 8 < 2 ^ 32 \<and> length (w_value w) < 2 ^ 32"

definition internal_of :: "addition \<Rightarrow> slice" where
  "internal_of w = AppendInternalKey [] \<lparr>user_key = w_key w, sequence = w_seq w, value_type = w_type w\<rparr>"

lemma length_internal_of: "length (internal_of w) = length (w_key w) + 8"
  by (simp add: internal_of_def append_internal)

lemma entry_of_split:
  "entry_of w = EncodeVarint32 (of_nat (length (internal_of w))) @ internal_of w
     @ EncodeVarint32 (of_nat (length (w_value w))) @ w_value w"
  unfolding length_internal_of
  by (simp add: entry_of_def memtable_entry_def internal_of_def append_internal PackSequenceAndType_def)

lemma entry_of_reads:
  assumes "sane valid w"
  shows "mt_valid valid (entry_of w)" "memtable_slice (entry_of w) = internal_of w"
    "entry_key (entry_of w) = (of_nat (length (w_key w) + 8), internal_of w @ EncodeVarint32 (of_nat (length (w_value w))) @ w_value w)"
proof -
  have l: "length (internal_of w) < 2 ^ 32" using assms by (simp add: sane_def length_internal_of)
  show "memtable_slice (entry_of w) = internal_of w"
    unfolding entry_of_split by (rule memtable_slice_reads [OF l])
  show "entry_key (entry_of w) = (of_nat (length (w_key w) + 8), internal_of w @ EncodeVarint32 (of_nat (length (w_value w))) @ w_value w)"
    unfolding entry_of_split entry_key_reads [OF l] by (simp add: length_internal_of)
  have "internal_valid valid (internal_of w)"
    unfolding internal_valid_def length_internal_of using assms by (simp add: internal_of_def append_internal sane_def)
  then show "mt_valid valid (entry_of w)" unfolding mt_valid_def using l entry_of_split by blast
qed

lemma memtable_key_reads:
  assumes "length u + 8 < 2 ^ 32"
  shows "memtable_slice (memtable_key (LookupKey u s)) = u @ EncodeFixed64 (PackSequenceAndType s 1)"
    "valid u \<Longrightarrow> mt_valid valid (memtable_key (LookupKey u s))" "lookup_user_key (LookupKey u s) = u"
proof -
  let ?k = "u @ EncodeFixed64 (PackSequenceAndType s 1)"
  have m: "memtable_key (LookupKey u s) = EncodeVarint32 (of_nat (length ?k)) @ ?k @ []"
    by (simp add: memtable_key_def LookupKey_def Let_def kValueTypeForSeek_def kTypeValue_def)
  have l: "length ?k < 2 ^ 32" using assms by simp
  show "memtable_slice (memtable_key (LookupKey u s)) = ?k" unfolding m by (rule memtable_slice_reads [OF l])
  show "mt_valid valid (memtable_key (LookupKey u s))" if "valid u"
    unfolding mt_valid_def using m l that by (intro exI [of _ ?k] exI [of _ "[]"]) (simp add: internal_valid_def)
  show "lookup_user_key (LookupKey u s) = u" by (simp add: lookup_user_key_def LookupKey_def Let_def)
qed

section \<open>The order of entries\<close>

context comparator
begin

lemma memtable_order: "weak_order (KeyComparator cmp) (mt_valid valid)"
proof
  fix a b c assume v: "mt_valid valid a" "mt_valid valid b"
  note i = v [THEN mt_valid_slice]
  show "KeyComparator cmp b a > 0 \<longleftrightarrow> KeyComparator cmp a b < 0"
    unfolding KeyComparator_def by (rule comparator.cmp_swap [OF internal_comparator i])
  assume "mt_valid valid c" "KeyComparator cmp a b \<le> 0" "KeyComparator cmp b c \<le> 0"
  then show "KeyComparator cmp a c \<le> 0"
    unfolding KeyComparator_def using comparator.cmp_le_trans [OF internal_comparator i mt_valid_slice] by blast
qed

text \<open>An entry is before the lookup key when its user key is, or when it is newer.\<close>

lemma entry_before_lookup:
  assumes "sane valid w" "length u + 8 < 2 ^ 32" "unat s < 2 ^ 56"
  shows "KeyComparator cmp (entry_of w) (memtable_key (LookupKey u s)) < 0 \<longleftrightarrow>
    cmp (w_key w) u < 0 \<or> cmp (w_key w) u = 0 \<and> w_seq w > s"
proof -
  have t: "unat (w_type w) \<le> 1" using assms(1) by (simp add: sane_def kTypeValue_def word_le_nat_alt)
  have "PackSequenceAndType (w_seq w) (w_type w) > PackSequenceAndType s 1 \<longleftrightarrow> w_seq w > s"
    using assms(1,3) t unat_pack [of "w_seq w" "w_type w"] unat_pack [of s 1]
    by (auto simp: word_less_nat_alt sane_def)
  then show ?thesis
    unfolding KeyComparator_def entry_of_reads(2) [OF assms(1)] memtable_key_reads(1) [OF assms(2)] internal_less
    by (simp add: internal_of_def)
qed

lemma entry_order:
  assumes "sane valid w" "sane valid w'"
  shows "KeyComparator cmp (entry_of w) (entry_of w') \<le> 0 \<Longrightarrow>
    cmp (w_key w) (w_key w') < 0 \<or> cmp (w_key w) (w_key w') = 0 \<and> w_seq w \<ge> w_seq w'"
proof -
  assume a: "KeyComparator cmp (entry_of w) (entry_of w') \<le> 0"
  have t: "unat (w_type w) \<le> 1" "unat (w_type w') \<le> 1"
    using assms by (simp_all add: sane_def kTypeValue_def word_le_nat_alt)
  have "PackSequenceAndType (w_seq w) (w_type w) \<ge> PackSequenceAndType (w_seq w') (w_type w') \<longrightarrow> w_seq w \<ge> w_seq w'"
    using assms t unat_pack [of "w_seq w" "w_type w"] unat_pack [of "w_seq w'" "w_type w'"]
    by (auto simp: word_le_nat_alt sane_def)
  then show ?thesis
    using a unfolding KeyComparator_def entry_of_reads(2) [OF assms(1)] entry_of_reads(2) [OF assms(2)]
    by (auto simp: InternalKey_Compare_def Let_def internal_of_def not_less split: if_splits)
qed

end

section \<open>Lookup\<close>

definition holds :: "(slice \<Rightarrow> slice \<Rightarrow> int) \<Rightarrow> (slice \<Rightarrow> bool) \<Rightarrow> memtable \<Rightarrow> addition set \<Rightarrow> bool" where
  "holds user_compare valid mt ws \<longleftrightarrow> (\<exists>ks. represents (KeyComparator user_compare) (mt_valid valid) mt ks
     \<and> set ks = entry_of ` ws) \<and> (\<forall>w \<in> ws. sane valid w)"

text \<open>What \<open>Get\<close> makes of the entry that it finds.\<close>

definition get_result :: "addition \<Rightarrow> slice \<Rightarrow> ldb_status \<Rightarrow> bool \<times> slice \<times> ldb_status" where
  "get_result w value s = (if w_type w = kTypeValue then (True, w_value w, s) else (True, value, NotFound [] []))"

context comparator
begin

lemma holds_new: "holds cmp valid new_MemTable {}"
  using weak_order.represents_new [OF memtable_order] by (auto simp: holds_def new_MemTable_def)

lemma holds_Add:
  assumes "holds cmp valid mt ws" "sane valid w"
  shows "\<exists>mt'. MemTable_Add cmp (w_seq w) (w_type w) (w_key w) (w_value w) mt = Some mt'
    \<and> holds cmp valid mt' (insert w ws)"
proof -
  obtain ks where ks: "represents (KeyComparator cmp) (mt_valid valid) mt ks" "set ks = entry_of ` ws"
    using assms(1) by (auto simp: holds_def)
  from weak_order.represents_insert [OF memtable_order ks(1) entry_of_reads(1) [OF assms(2)]]
  obtain mt' where mt': "SkipList_Insert (KeyComparator cmp) (entry_of w) mt = Some mt'"
      "represents (KeyComparator cmp) (mt_valid valid) mt' (insert_key (KeyComparator cmp) (entry_of w) ks)"
    by blast
  then show ?thesis using ks(2) assms by (auto simp: holds_def MemTable_Add_def entry_of_def [symmetric])
qed

lemma Get_found:
  assumes "sane valid w" "length u + 8 < 2 ^ 32" "valid u"
    "sl_Seek (KeyComparator cmp) mt (memtable_key (LookupKey u s)) = Some (Some x)" "key_of mt x = entry_of w"
  shows "MemTable_Get cmp (LookupKey u s) mt value st = Some (if w_key w = u then get_result w value st else (False, value, st))"
proof -
  let ?kl = "of_nat (length (w_key w) + 8) :: u32"
  have l: "unat ?kl = length (w_key w) + 8" using assms(1) by (simp add: sane_def unat_of_nat_lt del: of_nat_add)
  have l8: "unat (?kl - 8) = length (w_key w)"
  proof -
    have "?kl - 8 = of_nat (length (w_key w))" by simp
    then show ?thesis using assms(1) by (simp only:) (simp add: sane_def unat_of_nat_lt)
  qed
  have "w_type w = kTypeValue \<or> w_type w = kTypeDeletion"
    using assms(1) by (auto simp: sane_def kTypeValue_def kTypeDeletion_def word_le_nat_alt word_unat_eq_iff le_Suc_eq)
  moreover have "ucast (PackSequenceAndType (w_seq w) (w_type w) AND 0xff) = w_type w"
    using assms(1) by (intro pack_split) (simp add: sane_def)
  moreover have "cmp (w_key w) u = 0 \<longleftrightarrow> w_key w = u" using assms(1,3) by (intro cmp_eq) (simp_all add: sane_def)
  moreover have "memtable_slice (EncodeVarint32 (of_nat (length (w_value w))) @ w_value w @ []) = w_value w"
    using assms(1) by (intro memtable_slice_reads) (simp add: sane_def)
  ultimately show ?thesis
    unfolding MemTable_Get_def assms(4) option.case assms(5) entry_of_reads(3) [OF assms(1)] Let_def prod.case l l8
      memtable_key_reads(3) [OF assms(2)]
    by (auto simp: internal_of_def append_internal get_result_def kTypeValue_def kTypeDeletion_def)
qed

lemma Get_newest:
  assumes h: "holds cmp valid mt ws" and u: "length u + 8 < 2 ^ 32" "valid u" "unat s < 2 ^ 56"
    and w: "w \<in> ws" "w_key w = u" "w_seq w \<le> s"
    and newest: "\<And>w'. w' \<in> ws \<Longrightarrow> w_key w' = u \<Longrightarrow> w_seq w' \<le> s \<Longrightarrow> w_seq w' \<ge> w_seq w \<Longrightarrow> w' = w"
  shows "MemTable_Get cmp (LookupKey u s) mt value st = Some (get_result w value st)"
proof -
  obtain ks where ks: "represents (KeyComparator cmp) (mt_valid valid) mt ks" "set ks = entry_of ` ws"
    and sane: "\<forall>w \<in> ws. sane valid w"
    using h by (auto simp: holds_def)
  let ?k = "memtable_key (LookupKey u s)"
  let ?ge = "filter (\<lambda>a. \<not> KeyComparator cmp a ?k < 0) ks"
  obtain r where r: "sl_Seek (KeyComparator cmp) mt ?k = Some r" "map_option (key_of mt) r = first ?ge"
    using weak_order.represents_seek [OF memtable_order ks(1)] memtable_key_reads(2) [OF u(1)] u(2) by blast
  have in_ge: "entry_of w \<in> set ?ge"
    using w sane ks(2) u entry_before_lookup [of w u s] by (auto simp: not_less)
  then obtain b bs where b: "?ge = b # bs" by (cases ?ge) auto
  have "set (b # bs) = {a \<in> set ks. \<not> KeyComparator cmp a ?k < 0}" unfolding b [symmetric] by simp
  then have "b \<in> entry_of ` ws" "\<not> KeyComparator cmp b ?k < 0" unfolding ks(2) by auto
  then obtain w' where w': "w' \<in> ws" "b = entry_of w'" "\<not> KeyComparator cmp (entry_of w') ?k < 0"
    by blast
  have s': "sane valid w'" "sane valid w" using sane w' w by auto
  have "sorted_wrt (\<lambda>a b. KeyComparator cmp a b \<le> 0) (b # bs)"
    unfolding b [symmetric] using ks(1) by (auto simp: represents_def intro: sorted_wrt_filter)
  then have "entry_of w = b \<or> KeyComparator cmp (entry_of w') (entry_of w) \<le> 0"
    using in_ge unfolding b w'(2) by auto
  moreover have "KeyComparator cmp (entry_of w) (entry_of w) \<le> 0"
    using entry_of_reads(1) [OF s'(2)] weak_order.wo_not_less [OF memtable_order, of "entry_of w" "entry_of w"] by auto
  ultimately have "KeyComparator cmp (entry_of w') (entry_of w) \<le> 0" using w'(2) by auto
  from entry_order [OF s' this] have o1: "cmp (w_key w') u < 0 \<or> cmp (w_key w') u = 0 \<and> w_seq w' \<ge> w_seq w"
    using w(2) by simp
  have o2: "\<not> (cmp (w_key w') u < 0 \<or> cmp (w_key w') u = 0 \<and> w_seq w' > s)"
    using w'(3) entry_before_lookup [OF s'(1) u(1,3)] by simp
  have "cmp (w_key w') u = 0" using o1 o2 by auto
  then have "w_key w' = u" using cmp_eq s'(1) u(2) by (auto simp: sane_def)
  then have "w' = w" using o1 o2 newest [OF w'(1)] by auto
  moreover obtain x where "r = Some x" "key_of mt x = b" using r(2) b by (cases r) auto
  ultimately show ?thesis using Get_found [OF s'(2) u(1,2), of mt s x "value" st] r(1) w'(2) w(2) by simp
qed

lemma Get_none:
  assumes h: "holds cmp valid mt ws" and u: "length u + 8 < 2 ^ 32" "valid u" "unat s < 2 ^ 56"
    and none: "\<And>w. w \<in> ws \<Longrightarrow> w_key w = u \<Longrightarrow> w_seq w > s"
  shows "MemTable_Get cmp (LookupKey u s) mt value st = Some (False, value, st)"
proof -
  obtain ks where ks: "represents (KeyComparator cmp) (mt_valid valid) mt ks" "set ks = entry_of ` ws"
    and sane: "\<forall>w \<in> ws. sane valid w"
    using h by (auto simp: holds_def)
  let ?k = "memtable_key (LookupKey u s)"
  let ?ge = "filter (\<lambda>a. \<not> KeyComparator cmp a ?k < 0) ks"
  obtain r where r: "sl_Seek (KeyComparator cmp) mt ?k = Some r" "map_option (key_of mt) r = first ?ge"
    using weak_order.represents_seek [OF memtable_order ks(1)] memtable_key_reads(2) [OF u(1)] u(2) by blast
  show ?thesis
  proof (cases ?ge)
    case Nil
    then have "r = None" using r(2) by simp
    then show ?thesis using r(1) by (simp add: MemTable_Get_def)
  next
    case (Cons b bs)
    have "set (b # bs) = {a \<in> set ks. \<not> KeyComparator cmp a ?k < 0}" unfolding Cons [symmetric] by simp
    then have "b \<in> entry_of ` ws" "\<not> KeyComparator cmp b ?k < 0" unfolding ks(2) by auto
    then obtain w where w: "w \<in> ws" "b = entry_of w" "\<not> KeyComparator cmp (entry_of w) ?k < 0" by blast
    have sw: "sane valid w" using sane w by auto
    have "w_key w \<noteq> u"
    proof
      assume "w_key w = u"
      then show False using w(3) none [OF w(1)] entry_before_lookup [OF sw u(1,3)] u(2) by simp
    qed
    moreover obtain x where "r = Some x" "key_of mt x = b" using r(2) Cons by (cases r) auto
    ultimately show ?thesis using Get_found [OF sw u(1,2), of mt s x "value" st] r(1) w(2) by simp
  qed
qed

end

interpretation memtable: weak_order "KeyComparator Bytewise_Compare" "mt_valid (\<lambda>_. True)"
  by (rule bytewise.memtable_order)

text \<open>The bytes that \<open>Add\<close> writes fill the buffer that it took.\<close>

lemma VarintLength_fills:
  assumes "n < 2 ^ 32"
  shows "int (length (EncodeVarint32 (of_nat n))) = VarintLength (of_nat n)"
proof -
  have "unat (of_nat n :: u32) = n" "unat (of_nat n :: u64) = n" using assms by (simp_all add: unat_of_nat)
  then show ?thesis by (simp add: VarintLength_def varint_length_loop_eq EncodeVarint32_eq)
qed

lemma entry_fills_buffer:
  assumes "length k + 8 < 2 ^ 32" "length v < 2 ^ 32"
  shows "int (length (memtable_entry s t k v)) = encoded_len k v"
  unfolding memtable_entry_def encoded_len_def Let_def
  using VarintLength_fills [OF assms(1)] VarintLength_fills [OF assms(2)] by simp

section \<open>Properties\<close>

fun add_entries :: "(slice \<Rightarrow> slice \<Rightarrow> int) \<Rightarrow> addition list \<Rightarrow> memtable \<Rightarrow> memtable option" where
  "add_entries user_compare [] mt = Some mt"
| "add_entries user_compare (w # ws) mt =
     (case MemTable_Add user_compare (w_seq w) (w_type w) (w_key w) (w_value w) mt of
        None \<Rightarrow> None
      | Some mt' \<Rightarrow> add_entries user_compare ws mt')"

context comparator
begin

lemma holds_add_entries:
  "holds cmp valid mt ws \<Longrightarrow> \<forall>w \<in> set new. sane valid w \<Longrightarrow>
   \<exists>mt'. add_entries cmp new mt = Some mt' \<and> holds cmp valid mt' (set new \<union> ws)"
proof (induction new arbitrary: mt ws)
  case (Cons w new)
  obtain mt1 where mt1: "MemTable_Add cmp (w_seq w) (w_type w) (w_key w) (w_value w) mt = Some mt1"
      "holds cmp valid mt1 (insert w ws)"
    using holds_Add [OF Cons.prems(1), of w] Cons.prems(2) by auto
  then show ?case using Cons.IH [OF mt1(2)] Cons.prems(2) by auto
qed simp

lemma added_found:
  assumes "\<forall>w \<in> set ws. sane valid w" "distinct (map w_seq ws)" "length u + 8 < 2 ^ 32" "valid u" "unat s < 2 ^ 56"
  shows "\<exists>mt. add_entries cmp ws new_MemTable = Some mt \<and>
    (\<forall>w \<in> set ws. w_key w = u \<and> w_seq w \<le> s
        \<and> (\<forall>w' \<in> set ws. w_key w' = u \<and> w_seq w' \<le> s \<longrightarrow> w_seq w' \<le> w_seq w) \<longrightarrow>
      MemTable_Get cmp (LookupKey u s) mt v st = Some (get_result w v st)) \<and>
    ((\<forall>w \<in> set ws. w_key w = u \<longrightarrow> w_seq w > s) \<longrightarrow>
      MemTable_Get cmp (LookupKey u s) mt v st = Some (False, v, st))"
proof -
  obtain mt where mt: "add_entries cmp ws new_MemTable = Some mt" "holds cmp valid mt (set ws)"
    using holds_add_entries [OF holds_new assms(1)] by auto
  have "w' = w" if "w \<in> set ws" "w' \<in> set ws" "w_seq w' = w_seq w" for w w'
    using that assms(2) by (auto simp: distinct_map dest: inj_onD)
  then show ?thesis
    using mt(1) Get_newest [OF mt(2) assms(3,4,5)] Get_none [OF mt(2) assms(3,4,5)] by (metis order_antisym)
qed

end

text \<open>
  C7: After any additions with different sequence numbers, \<open>Get\<close> at a sequence number finds the
  newest entry of the user key that is visible there: its value, or \<open>NotFound\<close> when it is a
  deletion; without one it returns false. The bytes of each entry fill the buffer exactly.
\<close>

theorem memtable_get:
  assumes "\<forall>w \<in> set ws. sane (\<lambda>_. True) w" "distinct (map w_seq ws)" "length u + 8 < 2 ^ 32" "unat s < 2 ^ 56"
  shows "\<exists>mt. add_entries Bytewise_Compare ws new_MemTable = Some mt \<and>
    (\<forall>w \<in> set ws. w_key w = u \<and> w_seq w \<le> s
        \<and> (\<forall>w' \<in> set ws. w_key w' = u \<and> w_seq w' \<le> s \<longrightarrow> w_seq w' \<le> w_seq w) \<longrightarrow>
      MemTable_Get Bytewise_Compare (LookupKey u s) mt v st =
        Some (if w_type w = kTypeValue then (True, w_value w, st) else (True, v, NotFound [] []))) \<and>
    ((\<forall>w \<in> set ws. w_key w = u \<longrightarrow> w_seq w > s) \<longrightarrow>
      MemTable_Get Bytewise_Compare (LookupKey u s) mt v st = Some (False, v, st)) \<and>
    (\<forall>w \<in> set ws. int (length (memtable_entry (w_seq w) (w_type w) (w_key w) (w_value w))) = encoded_len (w_key w) (w_value w))"
  using bytewise.added_found [OF assms(1,2,3) TrueI assms(4), of v st] assms(1)
  unfolding get_result_def by (auto simp: sane_def entry_fills_buffer)

theorem memtable_get_witness:
  "\<exists>mt. add_entries Bytewise_Compare [\<lparr>w_key = [1], w_seq = 5, w_type = 1, w_value = [7]\<rparr>, \<lparr>w_key = [1], w_seq = 6, w_type = 0, w_value = []\<rparr>] new_MemTable = Some mt
     \<and> MemTable_Get Bytewise_Compare (LookupKey [1] 5) mt [] OK = Some (True, [7], OK)"
  using memtable_get [of "[\<lparr>w_key = [1], w_seq = 5, w_type = 1, w_value = [7]\<rparr>, \<lparr>w_key = [1], w_seq = 6, w_type = 0, w_value = []\<rparr>]" "[1]" 5 "[]" OK]
  by (auto simp: sane_def kTypeValue_def)

end
