(* ===== verification/LdbArena.thy ===== *)
theory LdbArena
  imports LdbMemTable
begin

text \<open>
  The arena (\<open>util/arena.cc\<close>, \<open>util/arena.h\<close>) from which a memory table takes its entries and nodes,
  and the memory that a table uses. A pointer is a block and an offset, or \<open>None\<close> for null; the
  blocks come from \<open>new\<close>, and so start at a multiple of eight.
\<close>

section \<open>The arena\<close>

definition kArenaBlockSize :: nat where "kArenaBlockSize = 4096"

type_synonym arena_ptr = "(nat \<times> nat) option"

text \<open>\<open>ar_blocks\<close> has the sizes of the blocks.\<close>

record arena =
  alloc_ptr :: arena_ptr
  alloc_bytes_remaining :: nat
  ar_blocks :: "nat list"
  memory_usage :: nat

definition new_Arena :: arena where
  "new_Arena = \<lparr>alloc_ptr = None, alloc_bytes_remaining = 0, ar_blocks = [], memory_usage = 0\<rparr>"

definition MemoryUsage :: "arena \<Rightarrow> nat" where
  "MemoryUsage a = memory_usage a"

definition advance :: "nat \<Rightarrow> arena_ptr \<Rightarrow> arena_ptr" where
  "advance n p = map_option (\<lambda>(b, ofs). (b, ofs + n)) p"

definition AllocateNewBlock :: "nat \<Rightarrow> arena \<Rightarrow> arena_ptr \<times> arena" where
  "AllocateNewBlock block_bytes a =
     (Some (length (ar_blocks a), 0),
      a\<lparr>ar_blocks := ar_blocks a @ [block_bytes], memory_usage := MemoryUsage a + block_bytes + 8\<rparr>)"

definition AllocateFallback :: "nat \<Rightarrow> arena \<Rightarrow> arena_ptr \<times> arena" where
  "AllocateFallback bytes a =
     (if bytes > kArenaBlockSize div 4 then AllocateNewBlock bytes a
      else
        let (p, a) = AllocateNewBlock kArenaBlockSize a;
            a = a\<lparr>alloc_ptr := p, alloc_bytes_remaining := kArenaBlockSize\<rparr>;
            result = alloc_ptr a in
        (result, a\<lparr>alloc_ptr := advance bytes (alloc_ptr a), alloc_bytes_remaining := alloc_bytes_remaining a - bytes\<rparr>))"

definition Allocate :: "nat \<Rightarrow> arena \<Rightarrow> arena_ptr \<times> arena" where
  "Allocate bytes a =
     (if bytes \<le> alloc_bytes_remaining a
      then (alloc_ptr a,
            a\<lparr>alloc_ptr := advance bytes (alloc_ptr a), alloc_bytes_remaining := alloc_bytes_remaining a - bytes\<rparr>)
      else AllocateFallback bytes a)"

definition AllocateAligned :: "nat \<Rightarrow> arena \<Rightarrow> arena_ptr \<times> arena" where
  "AllocateAligned bytes a =
     (let align = 8;
          current_mod = (case alloc_ptr a of None \<Rightarrow> 0 | Some (b, ofs) \<Rightarrow> ofs mod align);
          slop = (if current_mod = 0 then 0 else align - current_mod);
          needed = bytes + slop in
      if needed \<le> alloc_bytes_remaining a
      then (advance slop (alloc_ptr a),
            a\<lparr>alloc_ptr := advance needed (alloc_ptr a), alloc_bytes_remaining := alloc_bytes_remaining a - needed\<rparr>)
      else AllocateFallback bytes a)"

section \<open>The memory of a table\<close>

text \<open>
  \<open>Add\<close> allocates the entry and then \<open>Insert\<close> its node, of a key and as many links as it is high,
  and the nodes are in the order of allocation; the head is allocated with the table.
\<close>

definition node_bytes :: "nat \<Rightarrow> nat" where
  "node_bytes height = 16 + 8 * (height - 1)"

fun table_arena_loop :: "slice sl_node list \<Rightarrow> arena \<Rightarrow> arena" where
  "table_arena_loop [] a = a"
| "table_arena_loop (x # xs) a =
     table_arena_loop xs (snd (AllocateAligned (node_bytes (length (sl_next x))) (snd (Allocate (length (sl_key x)) a))))"

definition table_arena :: "memtable \<Rightarrow> arena" where
  "table_arena mt =
     table_arena_loop (tl (sl_nodes mt)) (snd (AllocateAligned (node_bytes (length (sl_next (hd (sl_nodes mt))))) new_Arena))"

definition ApproximateMemoryUsage :: "memtable \<Rightarrow> nat" where
  "ApproximateMemoryUsage mt = MemoryUsage (table_arena mt)"

section \<open>Allocations\<close>

text \<open>A request for a number of bytes, aligned or not, and the ranges handed out so far.\<close>

type_synonym range = "nat \<times> nat \<times> nat"

definition request :: "bool \<times> nat \<Rightarrow> arena \<Rightarrow> arena_ptr \<times> arena" where
  "request q a = (if fst q then AllocateAligned (snd q) a else Allocate (snd q) a)"

fun requests :: "(bool \<times> nat) list \<Rightarrow> arena \<Rightarrow> arena_ptr list \<times> arena" where
  "requests [] a = ([], a)"
| "requests (q # qs) a =
     (let (p, a) = request q a; (ps, a) = requests qs a in (p # ps, a))"

fun ranges :: "(bool \<times> nat) list \<Rightarrow> arena_ptr list \<Rightarrow> range list" where
  "ranges (q # qs) (Some (b, ofs) # ps) = (b, ofs, snd q) # ranges qs ps"
| "ranges _ _ = []"

definition within :: "nat list \<Rightarrow> range \<Rightarrow> bool" where
  "within blocks r = (case r of (b, ofs, n) \<Rightarrow> b < length blocks \<and> ofs + n \<le> blocks ! b)"

definition apart :: "range \<Rightarrow> range \<Rightarrow> bool" where
  "apart r r' = (case (r, r') of ((b, ofs, n), (b', ofs', n')) \<Rightarrow> b \<noteq> b' \<or> ofs + n \<le> ofs' \<or> ofs' + n' \<le> ofs)"

text \<open>The free part of the current block is apart from all ranges.\<close>

definition arena_ok :: "arena \<Rightarrow> range list \<Rightarrow> bool" where
  "arena_ok a rs \<longleftrightarrow>
     (case alloc_ptr a of None \<Rightarrow> alloc_bytes_remaining a = 0
      | Some (b, ofs) \<Rightarrow> within (ar_blocks a) (b, ofs, alloc_bytes_remaining a)
          \<and> (\<forall>r \<in> set rs. apart r (b, ofs, alloc_bytes_remaining a)))
     \<and> (\<forall>r \<in> set rs. within (ar_blocks a) r) \<and> sorted_wrt apart rs
     \<and> memory_usage a = sum_list (ar_blocks a) + 8 * length (ar_blocks a)"

lemma within_more: "within bs r \<Longrightarrow> within (bs @ [n]) r"
  by (auto simp: within_def nth_append)

lemma apart_new: "within bs r \<Longrightarrow> apart r (length bs, ofs, n)"
  by (auto simp: within_def apart_def)

lemma apart_sub: "apart r (b, ofs, n) \<Longrightarrow> ofs \<le> ofs' \<Longrightarrow> ofs' + n' \<le> ofs + n \<Longrightarrow> apart r (b, ofs', n')"
  by (auto simp: apart_def)

lemma new_Arena_ok: "arena_ok new_Arena []"
  by (simp add: arena_ok_def new_Arena_def)

lemma fallback_ok:
  assumes "arena_ok a rs"
  shows "\<exists>b. fst (AllocateFallback n a) = Some (b, 0) \<and> arena_ok (snd (AllocateFallback n a)) (rs @ [(b, 0, n)])"
proof -
  have old: "\<forall>r \<in> set rs. within (ar_blocks a) r" using assms by (simp add: arena_ok_def)
  have new: "\<forall>r \<in> set rs. within (ar_blocks a @ [m]) r \<and> apart r (length (ar_blocks a), ofs, n')" for m ofs n'
    using old within_more apart_new by blast
  show ?thesis
  proof (cases "n > kArenaBlockSize div 4")
    case True
    have "apart (length (ar_blocks a), 0, n) (b, ofs, k)" if "alloc_ptr a = Some (b, ofs)" for b ofs k
      using that assms by (auto simp: arena_ok_def within_def apart_def)
    then show ?thesis
      using True assms new [of n 0 n]
      by (auto simp: AllocateFallback_def AllocateNewBlock_def arena_ok_def MemoryUsage_def within_more sorted_wrt_append
          within_def [of _ "(length _, _)"] split: option.splits)
  next
    case False
    then show ?thesis
      using assms new [of kArenaBlockSize 0 n] new [of kArenaBlockSize n "kArenaBlockSize - n"]
      by (auto simp: AllocateFallback_def AllocateNewBlock_def arena_ok_def MemoryUsage_def sorted_wrt_append Let_def
          advance_def within_def [of _ "(length _, _)"] apart_def [of "(length _, _)"] split: option.splits)
  qed
qed

lemma bump_ok:
  assumes "arena_ok a rs" "alloc_ptr a = Some (b, ofs)" "slop + n \<le> alloc_bytes_remaining a"
  shows "arena_ok (a\<lparr>alloc_ptr := Some (b, ofs + (slop + n)), alloc_bytes_remaining := alloc_bytes_remaining a - (slop + n)\<rparr>)
    (rs @ [(b, ofs + slop, n)])"
proof -
  let ?rem = "alloc_bytes_remaining a"
  have w: "within (ar_blocks a) (b, ofs, ?rem)" "\<forall>r \<in> set rs. apart r (b, ofs, ?rem)"
    using assms by (auto simp: arena_ok_def)
  have "\<forall>r \<in> set rs. apart r (b, ofs + slop, n) \<and> apart r (b, ofs + (slop + n), ?rem - (slop + n))"
    using w(2) assms(3) by (auto intro: apart_sub)
  moreover have "within (ar_blocks a) (b, ofs + slop, n)" "within (ar_blocks a) (b, ofs + (slop + n), ?rem - (slop + n))"
    using w(1) assms(3) by (auto simp: within_def)
  ultimately show ?thesis using assms by (auto simp: arena_ok_def sorted_wrt_append apart_def [of "(b, _)"])
qed

lemma request_ok:
  assumes "arena_ok a rs" "0 < snd q"
  shows "\<exists>b ofs. fst (request q a) = Some (b, ofs) \<and> (fst q \<longrightarrow> 8 dvd ofs)
    \<and> arena_ok (snd (request q a)) (rs @ [(b, ofs, snd q)])"
proof (cases "alloc_ptr a")
  case None
  then have "alloc_bytes_remaining a = 0" using assms(1) by (simp add: arena_ok_def)
  then have "request q a = AllocateFallback (snd q) a"
    using assms(2) None by (simp add: request_def Allocate_def AllocateAligned_def)
  then show ?thesis using fallback_ok [OF assms(1)] by fastforce
next
  case (Some p)
  then obtain b ofs where p: "alloc_ptr a = Some (b, ofs)" by (cases p) auto
  define slop where "slop = (if fst q \<and> ofs mod 8 \<noteq> 0 then 8 - ofs mod 8 else 0)"
  have r: "request q a = (if slop + snd q \<le> alloc_bytes_remaining a
      then (Some (b, ofs + slop), a\<lparr>alloc_ptr := Some (b, ofs + (slop + snd q)),
              alloc_bytes_remaining := alloc_bytes_remaining a - (slop + snd q)\<rparr>)
      else AllocateFallback (snd q) a)"
    using p by (auto simp: request_def Allocate_def AllocateAligned_def Let_def advance_def slop_def ac_simps)
  have "fst q \<longrightarrow> 8 dvd ofs + slop" unfolding slop_def by (cases "fst q"; simp; presburger)
  then show ?thesis
    using r bump_ok [OF assms(1) p, of slop "snd q"] fallback_ok [OF assms(1), of "snd q"] by fastforce
qed

lemma requests_ok:
  "arena_ok a rs \<Longrightarrow> \<forall>q \<in> set qs. 0 < snd q \<Longrightarrow> requests qs a = (ps, a') \<Longrightarrow>
   arena_ok a' (rs @ ranges qs ps) \<and> length (ranges qs ps) = length qs
   \<and> (\<forall>i < length qs. fst (qs ! i) \<longrightarrow> 8 dvd fst (snd (ranges qs ps ! i)))"
proof (induction qs arbitrary: a rs ps)
  case (Cons q qs)
  obtain b ofs where r: "fst (request q a) = Some (b, ofs)" "fst q \<longrightarrow> 8 dvd ofs"
      "arena_ok (snd (request q a)) (rs @ [(b, ofs, snd q)])"
    using request_ok [OF Cons.prems(1), of q] Cons.prems(2) by auto
  obtain ps' where ps': "requests qs (snd (request q a)) = (ps', a')" "ps = Some (b, ofs) # ps'"
    using Cons.prems(3) r(1) by (cases "request q a") (auto split: prod.splits)
  show ?case using Cons.IH [OF r(3) _ ps'(1)] Cons.prems(2) r(2) ps'(2) by (auto simp: nth_Cons')
qed simp



end
