(* ===== verification/LdbBatch.thy ===== *)
theory LdbBatch
  imports LdbMemTable
begin

text \<open>
  Write batches (\<open>db/write_batch.cc\<close>, \<open>db/write_batch_internal.h\<close>): the updates of a batch as the
  bytes of \<open>rep_\<close>, their replay into a handler, and the handler that adds them to a memory table.
\<close>

section \<open>Batches\<close>

type_synonym write_batch = slice

definition kHeader :: nat where "kHeader = 12"

definition WriteBatch_Clear :: "write_batch \<Rightarrow> write_batch" where
  "WriteBatch_Clear rep = replicate kHeader 0"

definition new_WriteBatch :: write_batch where
  "new_WriteBatch = WriteBatch_Clear []"

definition Contents :: "write_batch \<Rightarrow> slice" where "Contents batch = batch"

definition ByteSize :: "write_batch \<Rightarrow> nat" where "ByteSize batch = length batch"

definition Count :: "write_batch \<Rightarrow> int" where
  "Count b = sint (DecodeFixed32 (drop 8 b))"

definition SetCount :: "write_batch \<Rightarrow> int \<Rightarrow> write_batch" where
  "SetCount b n = take 8 b @ EncodeFixed32 (word_of_int n) @ drop 12 b"

definition Sequence :: "write_batch \<Rightarrow> u64" where
  "Sequence b = DecodeFixed64 b"

definition SetSequence :: "write_batch \<Rightarrow> u64 \<Rightarrow> write_batch" where
  "SetSequence b seq = EncodeFixed64 seq @ drop 8 b"

definition WriteBatch_Put :: "slice \<Rightarrow> slice \<Rightarrow> write_batch \<Rightarrow> write_batch" where
  "WriteBatch_Put key value rep =
     (let rep = SetCount rep (Count rep + 1); rep = rep @ [kTypeValue];
          rep = PutLengthPrefixedSlice rep key in
      PutLengthPrefixedSlice rep value)"

definition WriteBatch_Delete :: "slice \<Rightarrow> write_batch \<Rightarrow> write_batch" where
  "WriteBatch_Delete key rep =
     (let rep = SetCount rep (Count rep + 1); rep = rep @ [kTypeDeletion] in
      PutLengthPrefixedSlice rep key)"

definition SetContents :: "write_batch \<Rightarrow> slice \<Rightarrow> write_batch" where
  "SetContents b contents = contents"

definition Append :: "write_batch \<Rightarrow> write_batch \<Rightarrow> write_batch" where
  "Append dst src = SetCount dst (Count dst + Count src) @ drop kHeader src"

section \<open>Replay\<close>

lemma GetLengthPrefixedSlice_shorter:
  "GetLengthPrefixedSlice p = (Some x, q) \<Longrightarrow> length q \<le> length p"
  using coding_shorter [of p] by simp

text \<open>
  The loop of \<open>Iterate\<close> over the handler's two operations, with the handler's state \<open>h\<close>: the status
  with which it returns, or none when it comes to the end, the number of records found, the state.
\<close>

function iterate_loop ::
    "(slice \<Rightarrow> slice \<Rightarrow> 'h \<Rightarrow> 'h) \<Rightarrow> (slice \<Rightarrow> 'h \<Rightarrow> 'h) \<Rightarrow> slice \<Rightarrow> int \<Rightarrow> 'h
     \<Rightarrow> ldb_status option \<times> int \<times> 'h" where
  "iterate_loop put delete [] found h = (None, found, h)"
| "iterate_loop put delete (tag # input) found h =
     (let found = found + 1 in
      if tag = kTypeValue then
        (case GetLengthPrefixedSlice input of
           (None, _) \<Rightarrow> (Some (Corruption (cstr ''bad WriteBatch Put'') []), found, h)
         | (Some key, input1) \<Rightarrow>
             (case GetLengthPrefixedSlice input1 of
                (None, _) \<Rightarrow> (Some (Corruption (cstr ''bad WriteBatch Put'') []), found, h)
              | (Some value, input2) \<Rightarrow> iterate_loop put delete input2 found (put key value h)))
      else if tag = kTypeDeletion then
        (case GetLengthPrefixedSlice input of
           (None, _) \<Rightarrow> (Some (Corruption (cstr ''bad WriteBatch Delete'') []), found, h)
         | (Some key, input1) \<Rightarrow> iterate_loop put delete input1 found (delete key h))
      else (Some (Corruption (cstr ''unknown WriteBatch tag'') []), found, h))"
  by pat_completeness auto
termination
  by (relation "measure (\<lambda>(_, _, input, _, _). length input)")
    (auto dest!: GetLengthPrefixedSlice_shorter [OF sym])

definition Iterate ::
    "(slice \<Rightarrow> slice \<Rightarrow> 'h \<Rightarrow> 'h) \<Rightarrow> (slice \<Rightarrow> 'h \<Rightarrow> 'h) \<Rightarrow> write_batch \<Rightarrow> 'h \<Rightarrow> ldb_status \<times> 'h" where
  "Iterate put delete rep h =
     (if length rep < kHeader then (Corruption (cstr ''malformed WriteBatch (too small)'') [], h)
      else
        (case iterate_loop put delete (drop kHeader rep) 0 h of
           (Some s, _, h) \<Rightarrow> (s, h)
         | (None, found, h) \<Rightarrow>
             if found \<noteq> Count rep then (Corruption (cstr ''WriteBatch has wrong count'') [], h)
             else (OK, h)))"

section \<open>The handler of memory tables\<close>

text \<open>The table is \<open>None\<close> when an insertion before did not return.\<close>

record inserter =
  ins_sequence :: u64
  ins_mem :: "memtable option"

definition inserter_Put ::
    "(slice \<Rightarrow> slice \<Rightarrow> int) \<Rightarrow> slice \<Rightarrow> slice \<Rightarrow> inserter \<Rightarrow> inserter" where
  "inserter_Put user_compare key value h =
     \<lparr>ins_sequence = ins_sequence h + 1,
      ins_mem = Option.bind (ins_mem h) (MemTable_Add user_compare (ins_sequence h) kTypeValue key value)\<rparr>"

definition inserter_Delete :: "(slice \<Rightarrow> slice \<Rightarrow> int) \<Rightarrow> slice \<Rightarrow> inserter \<Rightarrow> inserter" where
  "inserter_Delete user_compare key h =
     \<lparr>ins_sequence = ins_sequence h + 1,
      ins_mem = Option.bind (ins_mem h) (MemTable_Add user_compare (ins_sequence h) kTypeDeletion key [])\<rparr>"

definition InsertInto ::
    "(slice \<Rightarrow> slice \<Rightarrow> int) \<Rightarrow> write_batch \<Rightarrow> memtable \<Rightarrow> (ldb_status \<times> memtable) option" where
  "InsertInto user_compare b mt =
     (let (s, h) = Iterate (inserter_Put user_compare) (inserter_Delete user_compare) b
                     \<lparr>ins_sequence = Sequence b, ins_mem = Some mt\<rparr> in
      map_option (\<lambda>mt. (s, mt)) (ins_mem h))"

section \<open>The bytes of updates\<close>

datatype update =
    Put_op slice slice
  | Delete_op slice

definition varstring :: "slice \<Rightarrow> slice" where
  "varstring v = EncodeVarint32 (of_nat (length v)) @ v"

fun record_bytes :: "update \<Rightarrow> slice" where
  "record_bytes (Put_op k v) = kTypeValue # varstring k @ varstring v"
| "record_bytes (Delete_op k) = kTypeDeletion # varstring k"

fun op_key :: "update \<Rightarrow> slice" where
  "op_key (Put_op k v) = k"
| "op_key (Delete_op k) = k"

fun op_value :: "update \<Rightarrow> slice option" where
  "op_value (Put_op k v) = Some v"
| "op_value (Delete_op k) = None"

definition op_fits :: "update \<Rightarrow> bool" where
  "op_fits u \<longleftrightarrow> length (op_key u) + 8 < 2 ^ 32 \<and> (case op_value u of None \<Rightarrow> True | Some v \<Rightarrow> length v < 2 ^ 32)"

definition batch_bytes :: "u64 \<Rightarrow> u32 \<Rightarrow> update list \<Rightarrow> write_batch" where
  "batch_bytes s n us = EncodeFixed64 s @ EncodeFixed32 n @ concat (map record_bytes us)"

text \<open>A batch of updates, as a client makes it.\<close>

fun write_update :: "update \<Rightarrow> write_batch \<Rightarrow> write_batch" where
  "write_update (Put_op k v) b = WriteBatch_Put k v b"
| "write_update (Delete_op k) b = WriteBatch_Delete k b"

definition batch_of :: "update list \<Rightarrow> write_batch" where
  "batch_of us = fold write_update us new_WriteBatch"

fun handle :: "(slice \<Rightarrow> slice \<Rightarrow> 'h \<Rightarrow> 'h) \<Rightarrow> (slice \<Rightarrow> 'h \<Rightarrow> 'h) \<Rightarrow> update \<Rightarrow> 'h \<Rightarrow> 'h" where
  "handle put delete (Put_op k v) h = put k v h"
| "handle put delete (Delete_op k) h = delete k h"

lemma word_of_sint_add: "word_of_int (sint (n :: u32) + m) = n + word_of_int m"
  by simp

lemma batch_parts [simp]:
  "Count (batch_bytes s n us) = sint n" "Sequence (batch_bytes s n us) = s"
  "SetSequence (batch_bytes s n us) s' = batch_bytes s' n us"
  "SetCount (batch_bytes s n us) m = batch_bytes s (word_of_int m) us"
  "length (batch_bytes s n us) = 12 + length (concat (map record_bytes us))"
  "drop kHeader (batch_bytes s n us) = concat (map record_bytes us)"
  by (simp_all add: Count_def Sequence_def SetSequence_def SetCount_def batch_bytes_def kHeader_def)

lemma count_one_more: "SetCount (batch_bytes s n us) (Count (batch_bytes s n us) + 1) = batch_bytes s (n + 1) us"
  by simp

lemma write_update_bytes: "write_update u (batch_bytes s n us) = batch_bytes s (n + 1) (us @ [u])"
  by (cases u) (simp_all only: write_update.simps WriteBatch_Put_def WriteBatch_Delete_def Let_def count_one_more,
      simp_all add: PutLengthPrefixedSlice_def PutVarint32_def batch_bytes_def varstring_def)

lemma write_updates_bytes:
  "fold write_update vs (batch_bytes s n us) = batch_bytes s (n + of_nat (length vs)) (us @ vs)"
  by (induction vs arbitrary: n us) (simp_all add: write_update_bytes ac_simps)

lemma new_batch: "new_WriteBatch = batch_bytes 0 0 []"
  by (simp add: new_WriteBatch_def WriteBatch_Clear_def batch_bytes_def EncodeFixed64_def EncodeFixed32_def kHeader_def
      numeral_eq_Suc)

lemma batch_of_bytes: "batch_of us = batch_bytes 0 (of_nat (length us)) us"
  by (simp add: batch_of_def new_batch write_updates_bytes)

lemma Append_bytes: "Append (batch_bytes s n us) (batch_bytes s' m vs) = batch_bytes s (n + m) (us @ vs)"
  by (simp add: Append_def) (simp add: batch_bytes_def)

section \<open>Replay of whole and of cut batches\<close>

lemma varstring_cut:
  assumes "length v < 2 ^ 32"
  shows "GetLengthPrefixedSlice (take j (varstring v @ rest)) =
    (if j < length (varstring v) then (None, snd (GetLengthPrefixedSlice (take j (varstring v @ rest))))
     else (Some v, take (j - length (varstring v)) rest))"
proof (cases "j < length (varstring v)")
  case False
  then have "take j (varstring v @ rest) = EncodeVarint32 (of_nat (length v)) @ v @ take (j - length (varstring v)) rest"
    by (simp add: varstring_def)
  then show ?thesis using False assms by simp
next
  case True
  let ?e = "EncodeVarint32 (of_nat (length v))"
  have "fst (GetLengthPrefixedSlice (take j (varstring v @ rest))) = None"
  proof (cases "j < length ?e")
    case True
    then show ?thesis using GetVarint32_cut [of j] by (simp add: varstring_def GetLengthPrefixedSlice_def)
  next
    case False
    then have "take j (varstring v @ rest) = ?e @ take (j - length ?e) v"
      using True by (simp add: varstring_def)
    then show ?thesis using True False assms by (simp add: GetLengthPrefixedSlice_def varstring_def unat_of_nat_lt)
  qed
  then show ?thesis using True by (metis prod.collapse)
qed

lemma iterate_record:
  assumes "op_fits u"
  shows "\<exists>m. iterate_loop put delete (take j (record_bytes u @ rest)) found h =
    (if j = 0 then (None, found, h)
     else if j < length (record_bytes u) then (Some (Corruption m []), found + 1, h)
     else iterate_loop put delete (take (j - length (record_bytes u)) rest) (found + 1) (handle put delete u h))"
proof (cases j)
  case (Suc i)
  show ?thesis
  proof (cases u)
    case (Put_op k v)
    then have "length k < 2 ^ 32" "length v < 2 ^ 32" using assms by (simp_all add: op_fits_def)
    note cut = varstring_cut [OF this(1), of i "varstring v @ rest"]
      varstring_cut [OF this(2), of "i - length (varstring k)" rest]
    show ?thesis
      using Suc Put_op cut by (cases "i < length (varstring k)"; cases "i - length (varstring k) < length (varstring v)")
        (auto simp: Let_def split: prod.splits)
  next
    case (Delete_op k)
    then have "length k < 2 ^ 32" using assms by (simp add: op_fits_def)
    note cut = varstring_cut [OF this(1), of i rest]
    show ?thesis
      using Suc Delete_op cut by (cases "i < length (varstring k)")
        (auto simp: Let_def kTypeValue_def kTypeDeletion_def split: prod.splits)
  qed
qed simp

text \<open>
  The loop over the first \<open>j\<close> bytes of the records replays the updates that are whole, and fails
  exactly when it ends inside a record.
\<close>

lemma iterate_cut:
  assumes "\<forall>u \<in> set us. op_fits u" "j \<le> length (concat (map record_bytes us))"
  shows "\<exists>k r f. iterate_loop put delete (take j (concat (map record_bytes us))) found h =
      (r, f, fold (handle put delete) (take k us) h) \<and> k \<le> length us
    \<and> (r = None \<and> f = found + int k \<and> j = length (concat (map record_bytes (take k us)))
       \<or> (\<exists>m. r = Some (Corruption m [])) \<and> k < length us)"
  using assms
proof (induction us arbitrary: j found h)
  case (Cons u us)
  let ?rest = "concat (map record_bytes us)" and ?l = "length (record_bytes u)"
  obtain m where m: "iterate_loop put delete (take j (record_bytes u @ ?rest)) found h =
      (if j = 0 then (None, found, h) else if j < ?l then (Some (Corruption m []), found + 1, h)
       else iterate_loop put delete (take (j - ?l) ?rest) (found + 1) (handle put delete u h))"
    using iterate_record [of u put delete j ?rest found h] Cons.prems(1) by auto
  consider "j = 0" | "0 < j" "j < ?l" | "0 < j" "?l \<le> j" by linarith
  then show ?case
  proof cases
    case 1
    then show ?thesis by (intro exI [of _ 0] exI [of _ None] exI [of _ found]) simp
  next
    case 2
    then show ?thesis using m by (intro exI [of _ 0] exI [of _ "Some (Corruption m [])"] exI [of _ "found + 1"]) auto
  next
    case 3
    have "\<forall>u \<in> set us. op_fits u" "j - ?l \<le> length ?rest" using Cons.prems by simp_all
    from Cons.IH [OF this, of "found + 1" "handle put delete u h"] obtain k r f where
      k: "iterate_loop put delete (take (j - ?l) ?rest) (found + 1) (handle put delete u h)
          = (r, f, fold (handle put delete) (take k us) (handle put delete u h))" "k \<le> length us"
        "r = None \<and> f = found + 1 + int k \<and> j - ?l = length (concat (map record_bytes (take k us)))
          \<or> (\<exists>m. r = Some (Corruption m [])) \<and> k < length us"
      by blast
    show ?thesis using m 3 k by (intro exI [of _ "Suc k"] exI [of _ r] exI [of _ f]) auto
  qed
qed simp

lemma iterate_whole:
  assumes "\<forall>u \<in> set us. op_fits u"
  shows "iterate_loop put delete (concat (map record_bytes us)) found h = (None, found + int (length us), fold (handle put delete) us h)"
  using assms
proof (induction us arbitrary: found h)
  case (Cons u us)
  then show ?case
    using iterate_record [of u put delete "length (record_bytes u @ concat (map record_bytes us))" "concat (map record_bytes us)" found h]
    by (cases u) auto
qed simp

lemma Iterate_whole:
  assumes "\<forall>u \<in> set us. op_fits u" "sint n = int (length us)"
  shows "Iterate put delete (batch_bytes s n us) h = (OK, fold (handle put delete) us h)"
  using assms by (simp add: Iterate_def iterate_whole) (simp add: kHeader_def)

section \<open>Batches and memory tables\<close>

text \<open>The entries that updates become, from a sequence number on.\<close>

definition addition_of :: "u64 \<Rightarrow> update \<Rightarrow> addition" where
  "addition_of s u = \<lparr>w_key = op_key u, w_seq = s,
     w_type = (case op_value u of None \<Rightarrow> kTypeDeletion | Some v \<Rightarrow> kTypeValue),
     w_value = (case op_value u of None \<Rightarrow> [] | Some v \<Rightarrow> v)\<rparr>"

fun additions :: "u64 \<Rightarrow> update list \<Rightarrow> addition list" where
  "additions s [] = []"
| "additions s (u # us) = addition_of s u # additions (s + 1) us"

lemma length_additions [simp]: "length (additions s us) = length us"
  by (induction us arbitrary: s) simp_all

lemma nth_additions: "i < length us \<Longrightarrow> additions s us ! i = addition_of (s + of_nat i) (us ! i)"
  by (induction us arbitrary: s i) (auto simp: nth_Cons' ac_simps of_nat_diff)

lemma inserter_fold:
  "fold (handle (inserter_Put cmp) (inserter_Delete cmp)) us \<lparr>ins_sequence = s, ins_mem = m\<rparr>
     = \<lparr>ins_sequence = s + of_nat (length us), ins_mem = Option.bind m (add_entries cmp (additions s us))\<rparr>"
proof (induction us arbitrary: s m)
  case (Cons u us)
  have "handle (inserter_Put cmp) (inserter_Delete cmp) u \<lparr>ins_sequence = s, ins_mem = m\<rparr> =
      \<lparr>ins_sequence = s + 1, ins_mem = Option.bind m (add_entries cmp [addition_of s u])\<rparr>"
    by (cases u; cases m) (auto simp: inserter_Put_def inserter_Delete_def addition_of_def split: option.split)
  then show ?case using Cons by (cases m) (auto simp: ac_simps split: option.split)
next
  case Nil
  then show ?case by (cases m) simp_all
qed

lemma InsertInto_adds:
  assumes "\<forall>u \<in> set us. op_fits u" "sint n = int (length us)"
  shows "InsertInto cmp (batch_bytes s n us) mt = map_option (\<lambda>mt. (OK, mt)) (add_entries cmp (additions s us) mt)"
  using Iterate_whole [OF assms, of "inserter_Put cmp" "inserter_Delete cmp" s "\<lparr>ins_sequence = s, ins_mem = Some mt\<rparr>"]
  by (simp add: InsertInto_def inserter_fold)

text \<open>The map that updates leave: a deleted key is bound to \<open>None\<close>.\<close>

definition updated :: "update list \<Rightarrow> slice \<rightharpoonup> slice option" where
  "updated us = fold (\<lambda>u m. m(op_key u \<mapsto> op_value u)) us Map.empty"

text \<open>What \<open>Get\<close> has to answer.\<close>

definition get_answer :: "(slice \<rightharpoonup> slice option) \<Rightarrow> slice \<Rightarrow> slice \<Rightarrow> ldb_status \<Rightarrow> bool \<times> slice \<times> ldb_status" where
  "get_answer m u v st =
     (case m u of None \<Rightarrow> (False, v, st) | Some None \<Rightarrow> (True, v, NotFound [] []) | Some (Some x) \<Rightarrow> (True, x, st))"

lemma updated_snoc [simp]: "updated (us @ [u]) = (updated us)(op_key u \<mapsto> op_value u)"
  by (simp add: updated_def)

lemma updated_last:
  "case updated us k of
     None \<Rightarrow> \<forall>i < length us. op_key (us ! i) \<noteq> k
   | Some r \<Rightarrow> \<exists>i < length us. op_key (us ! i) = k \<and> op_value (us ! i) = r
       \<and> (\<forall>i' < length us. op_key (us ! i') = k \<longrightarrow> i' \<le> i)"
proof (induction us rule: rev_induct)
  case (snoc u us)
  show ?case
  proof (cases "op_key u = k")
    case True
    then show ?thesis by (auto simp: intro!: exI [of _ "length us"])
  next
    case False
    then have l: "op_key ((us @ [u]) ! i) = k \<Longrightarrow> i < Suc (length us) \<Longrightarrow> i < length us \<and> op_key (us ! i) = k" for i
      by (auto simp: nth_append less_Suc_eq split: if_splits)
    show ?thesis
    proof (cases "updated us k")
      case None
      then show ?thesis using snoc False l by auto
    next
      case (Some r)
      then obtain i where i: "i < length us" "op_key (us ! i) = k" "op_value (us ! i) = r"
          "\<forall>i' < length us. op_key (us ! i') = k \<longrightarrow> i' \<le> i"
        using snoc by auto
      have r: "updated (us @ [u]) k = Some r" using Some False by simp
      have "i < length (us @ [u])" using i(1) by simp
      moreover have "op_key ((us @ [u]) ! i) = k" "op_value ((us @ [u]) ! i) = r" using i by (simp_all add: nth_append)
      moreover have "i' \<le> i" if "i' < length (us @ [u])" "op_key ((us @ [u]) ! i') = k" for i'
        using l [OF that(2)] that(1) i(4) by simp
      ultimately show ?thesis unfolding r option.case by blast
    qed
  qed
qed (simp add: updated_def)

lemma seq_number:
  assumes "unat (s :: u64) + n < 2 ^ 56" "i \<le> n"
  shows "unat (s + of_nat i) = unat s + i"
  using assms by (simp add: unat_word_ariths unat_of_nat)

lemma additions_sane:
  assumes "\<forall>u \<in> set us. op_fits u" "unat s + length us < 2 ^ 56" "\<forall>u \<in> set us. valid (op_key u)"
  shows "\<forall>w \<in> set (additions (s + 1) us). sane valid w"
proof
  fix w assume "w \<in> set (additions (s + 1) us)"
  then obtain i where i: "i < length us" "w = addition_of (s + 1 + of_nat i) (us ! i)"
    by (auto simp: in_set_conv_nth nth_additions)
  have "s + 1 + of_nat i = s + of_nat (Suc i)" by simp
  then have "unat (s + 1 + of_nat i) = unat s + Suc i" using seq_number [OF assms(2), of "Suc i"] i(1) by presburger
  moreover have "op_fits (us ! i)" "valid (op_key (us ! i))" using assms i(1) by auto
  ultimately show "sane valid w"
    using i assms(2) by (auto simp: sane_def addition_of_def op_fits_def kTypeValue_def kTypeDeletion_def split: option.splits)
qed

context comparator
begin

text \<open>A table that holds updates from one past \<open>s\<close> answers, at \<open>j\<close> past \<open>s\<close>, as the first \<open>j\<close> of them say.\<close>

lemma holds_lookup:
  assumes h: "holds cmp valid mt (set (additions (s + 1) us))" and n: "unat s + length us < 2 ^ 56"
    and j: "j \<le> length us" and k: "length k + 8 < 2 ^ 32" "valid k"
  shows "MemTable_Get cmp (LookupKey k (s + of_nat j)) mt v st = Some (get_answer (updated (take j us)) k v st)"
proof -
  let ?w = "\<lambda>i. addition_of (s + 1 + of_nat i) (us ! i)"
  have mem: "w \<in> set (additions (s + 1) us) \<longleftrightarrow> (\<exists>i < length us. w = ?w i)" for w
    by (auto simp: in_set_conv_nth nth_additions)
  have suc: "s + 1 + of_nat i = s + of_nat (Suc i)" for i by simp
  have num: "unat (s + 1 + of_nat i) = unat s + Suc i" if "i < length us" for i
    using seq_number [OF n, of "Suc i"] that unfolding suc by simp
  have sj: "unat (s + of_nat j) = unat s + j" using seq_number [OF n j] .
  then have s56: "unat (s + of_nat j) < 2 ^ 56" using n j by simp
  have vis: "s + 1 + of_nat i \<le> s + of_nat j \<longleftrightarrow> i < j" if "i < length us" for i
    unfolding word_le_nat_alt sj num [OF that] by auto
  note last = updated_last [of "take j us" k]
  show ?thesis
  proof (cases "updated (take j us) k")
    case None
    have "s + of_nat j < w_seq w" if w: "w \<in> set (additions (s + 1) us)" "w_key w = k" for w
    proof -
      obtain i where i: "i < length us" "w = ?w i" using w(1) unfolding mem by blast
      then have "op_key (us ! i) = k" using w(2) by (simp add: addition_of_def)
      then have "\<not> i < j" using last None i(1) by auto
      then show ?thesis using vis [OF i(1)] i(2) by (simp add: addition_of_def not_le)
    qed
    then show ?thesis using Get_none [OF h k s56] None by (simp add: get_answer_def)
  next
    case (Some r)
    obtain i where i0: "i < length (take j us)" "op_key (take j us ! i) = k" "op_value (take j us ! i) = r"
        "\<forall>i' < length (take j us). op_key (take j us ! i') = k \<longrightarrow> i' \<le> i"
      using last unfolding Some option.case by blast
    have i: "i < length us" "i < j" "op_key (us ! i) = k" "op_value (us ! i) = r" using i0(1-3) by simp_all
    have newest: "i' \<le> i" if "i' < length us" "i' < j" "op_key (us ! i') = k" for i' using i0(4) that by simp
    have "?w i \<in> set (additions (s + 1) us)" unfolding mem using i(1) by blast
    moreover have "w_key (?w i) = k" "w_seq (?w i) \<le> s + of_nat j"
      using i vis by (simp_all add: addition_of_def)
    moreover have "w' = ?w i" if w': "w' \<in> set (additions (s + 1) us)" "w_key w' = k" "w_seq w' \<le> s + of_nat j"
        "w_seq (?w i) \<le> w_seq w'" for w'
    proof -
      obtain i' where i': "i' < length us" "w' = ?w i'" using w'(1) unfolding mem by blast
      then have "i' < j" "op_key (us ! i') = k" using w'(2,3) vis [OF i'(1)] by (simp_all add: addition_of_def)
      then have "i' \<le> i" by (intro newest i'(1))
      moreover have "i \<le> i'"
        using w'(4) num [OF i(1)] num [OF i'(1)] i'(2) by (simp add: addition_of_def word_le_nat_alt)
      ultimately show ?thesis using i'(2) by simp
    qed
    ultimately have "MemTable_Get cmp (LookupKey k (s + of_nat j)) mt v st = Some (get_result (?w i) v st)"
      by (rule Get_newest [OF h k s56])
    then show ?thesis using Some i(4)
      by (cases r) (auto simp: get_answer_def get_result_def addition_of_def kTypeValue_def kTypeDeletion_def)
  qed
qed

end

section \<open>Properties\<close>

lemma sint_of_nat_count: "n < 2 ^ 31 \<Longrightarrow> sint (of_nat n :: u32) = int n"
  by (simp add: signed_of_nat signed_take_bit_int_eq_self)

text \<open>
  C14: A batch that a client fills, and another that is appended to it, are replayed as exactly the
  updates that were written, in order, and \<open>Count\<close> is their number.
\<close>

theorem batch_replay:
  assumes "\<forall>u \<in> set (us @ vs). op_fits u" "length (us @ vs) < 2 ^ 31"
  shows "Iterate put delete (Append (batch_of us) (batch_of vs)) h = (OK, fold (handle put delete) (us @ vs) h)
    \<and> Count (Append (batch_of us) (batch_of vs)) = int (length us + length vs)
    \<and> Append (batch_of us) new_WriteBatch = batch_of us"
proof -
  have c: "sint (of_nat (length us) + of_nat (length vs) :: u32) = int (length (us @ vs))"
    using sint_of_nat_count [OF assms(2)] by simp
  show ?thesis
    unfolding batch_of_bytes new_batch Append_bytes batch_parts c Iterate_whole [OF assms(1) c] by simp
qed

theorem batch_replay_witness:
  "Iterate (\<lambda>k v m. m(k \<mapsto> v)) (\<lambda>k m. m(k := None))
     (Append (batch_of [Put_op [1] [2], Put_op [3] [4]]) (batch_of [Delete_op [1]])) Map.empty = (OK, [[3] \<mapsto> [4]])"
  using batch_replay [of "[Put_op [1] [2], Put_op [3] [4]]" "[Delete_op [1]]" "\<lambda>k v m. m(k \<mapsto> v)" "\<lambda>k m. m(k := None)" Map.empty]
  by (simp add: op_fits_def fun_upd_twist fun_eq_iff)

text \<open>
  C15: A batch that is cut short anywhere is reported as corrupt; the updates that were replayed
  before that are the first ones.
\<close>

theorem batch_cut_refused:
  assumes "\<forall>u \<in> set us. op_fits u" "length us < 2 ^ 31" "n < length (batch_of us)"
  shows "\<exists>m k. Iterate put delete (take n (batch_of us)) h = (Corruption m [], fold (handle put delete) (take k us) h)
    \<and> k \<le> length us"
proof (cases "n < kHeader")
  case True
  then show ?thesis by (auto simp: Iterate_def intro!: exI [of _ 0])
next
  case False
  let ?b = "batch_bytes 0 (of_nat (length us)) us" and ?all = "concat (map record_bytes us)"
  have n: "n - kHeader < length ?all" using assms(3) False by (simp add: batch_of_bytes kHeader_def)
  have d: "drop kHeader (take n ?b) = take (n - kHeader) ?all" by (simp add: drop_take)
  have "take 4 (drop 8 (take n ?b)) = take 4 (drop 8 ?b)" using False by (simp add: take_drop kHeader_def)
  then have "Count (take n ?b) = Count ?b" unfolding Count_def DecodeFixed32_def by (rule arg_cong)
  then have c: "Count (take n ?b) = int (length us)" using sint_of_nat_count [OF assms(2)] by simp
  obtain k r f where k: "iterate_loop put delete (take (n - kHeader) ?all) 0 h = (r, f, fold (handle put delete) (take k us) h)"
      "k \<le> length us" "r = None \<and> f = int k \<and> n - kHeader = length (concat (map record_bytes (take k us)))
        \<or> (\<exists>m. r = Some (Corruption m [])) \<and> k < length us"
    using iterate_cut [OF assms(1) order_less_imp_le [OF n], of put delete 0 h] by auto
  have "r = None \<Longrightarrow> f \<noteq> Count (take n ?b)" using k(2,3) n c by auto
  then show ?thesis
    unfolding batch_of_bytes Iterate_def d k(1) using k(2,3) assms(3) False
    by (cases r) (auto simp: batch_of_bytes intro!: exI [of _ k])
qed

theorem batch_cut_refused_witness:
  "\<exists>m k. Iterate (\<lambda>k v m. m(k \<mapsto> v)) (\<lambda>k m. m(k := None)) (take 16 (batch_of [Put_op [1] [2]])) Map.empty
     = (Corruption m [], fold (handle (\<lambda>k v m. m(k \<mapsto> v)) (\<lambda>k m. m(k := None))) (take k [Put_op [1] [2]]) Map.empty) \<and> k \<le> 1"
  using batch_cut_refused [of "[Put_op [1] [2]]" 16 "\<lambda>k v m. m(k \<mapsto> v)" "\<lambda>k m. m(k := None)" Map.empty]
  by (simp add: op_fits_def batch_of_bytes varstring_def EncodeVarint32_def)



end
