(* ===== verification/LdbDb.thy ===== *)
theory LdbDb
  imports LdbArena LdbBatch LdbLogProps
begin

text \<open>
  Writing, reading and recovering a database (\<open>db/db_impl.cc\<close>): the queue of writers and the groups
  that their batches are committed in, the log and the memory table that a group goes to, lookups
  at a snapshot, and the replay of a log. Each function is what one thread does between taking and
  leaving the front of the queue; the threads meet in \<open>op_wait\<close> and \<open>op_delay\<close>.
\<close>

section \<open>State\<close>

definition kL0_SlowdownWritesTrigger :: nat where "kL0_SlowdownWritesTrigger = 8"
definition kL0_StopWritesTrigger :: nat where "kL0_StopWritesTrigger = 12"

record db_writer =
  wr_batch :: "write_batch option"
  wr_sync :: bool

text \<open>\<open>db_env\<close> is everything else: the versions and their files.\<close>

record ('f, 'e) db =
  db_log :: "'f log_writer"
  db_mem :: memtable
  db_imm :: "memtable option"
  db_last_sequence :: u64
  db_bg_error :: ldb_status
  db_writers :: "db_writer list"
  db_env :: 'e

text \<open>
  What the functions here call: the operations of the log file, the number of files of level 0, a new
  log file, the scheduling of a compaction, and what other threads do to the state while this one
  waits for the background work or sleeps.
\<close>

record ('f, 'e) db_ops =
  op_append :: "'f \<Rightarrow> slice \<Rightarrow> ldb_status \<times> 'f"
  op_flush :: "'f \<Rightarrow> ldb_status \<times> 'f"
  op_sync :: "'f \<Rightarrow> ldb_status \<times> 'f"
  op_level0 :: "'e \<Rightarrow> nat"
  op_new_log :: "'e \<Rightarrow> (ldb_status + 'f) \<times> 'e"
  op_schedule :: "('f, 'e) db \<Rightarrow> ('f, 'e) db"
  op_wait :: "('f, 'e) db \<Rightarrow> ('f, 'e) db"
  op_delay :: "('f, 'e) db \<Rightarrow> ('f, 'e) db"

definition RecordBackgroundError :: "ldb_status \<Rightarrow> ('f, 'e) db \<Rightarrow> ('f, 'e) db" where
  "RecordBackgroundError s db = (if ok (db_bg_error db) then db\<lparr>db_bg_error := s\<rparr> else db)"

section \<open>Room for a write\<close>

text \<open>The loop: \<open>None\<close> when the fuel, a bound on the number of turns, runs out.\<close>

fun MakeRoomForWrite ::
    "('f, 'e) db_ops \<Rightarrow> nat \<Rightarrow> nat \<Rightarrow> bool \<Rightarrow> bool \<Rightarrow> ('f, 'e) db \<Rightarrow> (ldb_status \<times> ('f, 'e) db) option" where
  "MakeRoomForWrite ops write_buffer_size 0 force allow_delay db = None"
| "MakeRoomForWrite ops write_buffer_size (Suc fuel) force allow_delay db =
     (if \<not> ok (db_bg_error db) then Some (db_bg_error db, db)
      else if allow_delay \<and> op_level0 ops (db_env db) \<ge> kL0_SlowdownWritesTrigger
        then MakeRoomForWrite ops write_buffer_size fuel force False (op_delay ops db)
      else if \<not> force \<and> ApproximateMemoryUsage (db_mem db) \<le> write_buffer_size then Some (OK, db)
      else if db_imm db \<noteq> None
        then MakeRoomForWrite ops write_buffer_size fuel force allow_delay (op_wait ops db)
      else if op_level0 ops (db_env db) \<ge> kL0_StopWritesTrigger
        then MakeRoomForWrite ops write_buffer_size fuel force allow_delay (op_wait ops db)
      else
        (case op_new_log ops (db_env db) of
           (Inl s, e) \<Rightarrow> Some (s, db\<lparr>db_env := e\<rparr>)
         | (Inr lfile, e) \<Rightarrow>
             MakeRoomForWrite ops write_buffer_size fuel False allow_delay
               (op_schedule ops (db\<lparr>db_log := new_Writer lfile, db_imm := Some (db_mem db), db_mem := new_MemTable,
                                    db_env := e\<rparr>))))"

section \<open>Groups of writers\<close>

text \<open>
  The loop of \<open>BuildBatchGroup\<close> over the writers behind the first: \<open>tmp\<close> is \<open>tmp_batch_\<close> once the
  result is there and not the first writer's own batch, and \<open>n\<close> the number of writers up to
  \<open>*last_writer\<close>.
\<close>

fun group_loop ::
    "bool \<Rightarrow> nat \<Rightarrow> write_batch \<Rightarrow> db_writer list \<Rightarrow> nat \<Rightarrow> write_batch option \<Rightarrow> nat \<Rightarrow> write_batch \<times> nat" where
  "group_loop first_sync max_size leader [] sz tmp n = (case tmp of None \<Rightarrow> leader | Some r \<Rightarrow> r, n)"
| "group_loop first_sync max_size leader (w # ws) sz tmp n =
     (let result = (case tmp of None \<Rightarrow> leader | Some r \<Rightarrow> r) in
      if wr_sync w \<and> \<not> first_sync then (result, n)
      else
        (case wr_batch w of
           None \<Rightarrow> group_loop first_sync max_size leader ws sz tmp (n + 1)
         | Some b \<Rightarrow>
             (let sz = sz + ByteSize b in
              if sz > max_size then (result, n)
              else
                let result = (case tmp of None \<Rightarrow> Append new_WriteBatch leader | Some r \<Rightarrow> r) in
                group_loop first_sync max_size leader ws sz (Some (Append result b)) (n + 1))))"

definition BuildBatchGroup :: "write_batch \<Rightarrow> bool \<Rightarrow> db_writer list \<Rightarrow> write_batch \<times> nat" where
  "BuildBatchGroup leader first_sync rest =
     (let sz = ByteSize leader;
          max_size = (if sz \<le> push_bit 10 128 then sz + push_bit 10 128 else push_bit 20 1) in
      group_loop first_sync max_size leader rest sz None 1)"

section \<open>Writing\<close>

definition enqueue :: "db_writer \<Rightarrow> ('f, 'e) db \<Rightarrow> ('f, 'e) db" where
  "enqueue w db = db\<lparr>db_writers := db_writers db @ [w]\<rparr>"

text \<open>
  The writer at the front: the status that it and the other writers of its group return, how many
  they are, and the state after they have left the queue.
\<close>

definition Write_front ::
    "('f, 'e) db_ops \<Rightarrow> (slice \<Rightarrow> slice \<Rightarrow> int) \<Rightarrow> nat \<Rightarrow> nat \<Rightarrow> ('f, 'e) db \<Rightarrow> (ldb_status \<times> nat \<times> ('f, 'e) db) option" where
  "Write_front ops user_compare write_buffer_size fuel db =
     (let w = hd (db_writers db) in
      case MakeRoomForWrite ops write_buffer_size fuel (wr_batch w = None) (wr_batch w \<noteq> None) db of
        None \<Rightarrow> None
      | Some (status, db) \<Rightarrow>
          (case (if ok status then wr_batch w else None) of
             None \<Rightarrow> Some (status, 1, db\<lparr>db_writers := drop 1 (db_writers db)\<rparr>)
           | Some b \<Rightarrow>
               (let (updates, n) = BuildBatchGroup b (wr_sync w) (tl (db_writers db));
                    last_sequence = db_last_sequence db;
                    updates = SetSequence updates (last_sequence + 1);
                    last_sequence = last_sequence + word_of_int (Count updates);
                    (status, lw) = AddRecord (op_append ops) (op_flush ops) (db_log db) (Contents updates);
                    (status, sync_error, lw) =
                      (if ok status \<and> wr_sync w
                       then let (s, f) = op_sync ops (dest_file lw) in (s, \<not> ok s, lw\<lparr>dest_file := f\<rparr>)
                       else (status, False, lw)) in
                map_option
                  (\<lambda>(status, mem).
                     let db = db\<lparr>db_log := lw, db_mem := mem\<rparr>;
                         db = (if sync_error then RecordBackgroundError status db else db) in
                     (status, n, db\<lparr>db_last_sequence := last_sequence, db_writers := drop n (db_writers db)\<rparr>))
                  (if ok status then InsertInto user_compare updates (db_mem db) else Some (status, db_mem db)))))"

definition DB_Put :: "bool \<Rightarrow> slice \<Rightarrow> slice \<Rightarrow> ('f, 'e) db \<Rightarrow> ('f, 'e) db" where
  "DB_Put sync key value db = enqueue \<lparr>wr_batch = Some (WriteBatch_Put key value new_WriteBatch), wr_sync = sync\<rparr> db"

definition DB_Delete :: "bool \<Rightarrow> slice \<Rightarrow> ('f, 'e) db \<Rightarrow> ('f, 'e) db" where
  "DB_Delete sync key db = enqueue \<lparr>wr_batch = Some (WriteBatch_Delete key new_WriteBatch), wr_sync = sync\<rparr> db"

section \<open>Reading\<close>

text \<open>\<open>current_get\<close> is the lookup in the tables of the current version.\<close>

definition DB_Get ::
    "(slice \<Rightarrow> slice \<Rightarrow> int) \<Rightarrow> ('e \<Rightarrow> lookup_key \<Rightarrow> slice \<Rightarrow> ldb_status \<times> slice) \<Rightarrow> u64 option \<Rightarrow> ('f, 'e) db
     \<Rightarrow> slice \<Rightarrow> slice \<Rightarrow> (ldb_status \<times> slice) option" where
  "DB_Get user_compare current_get snapshot db key v =
     (let number = (case snapshot of Some s \<Rightarrow> s | None \<Rightarrow> db_last_sequence db);
          lkey = LookupKey key number in
      case MemTable_Get user_compare lkey (db_mem db) v OK of
        None \<Rightarrow> None
      | Some (True, v, s) \<Rightarrow> Some (s, v)
      | Some (False, v, s) \<Rightarrow>
          (case db_imm db of
             None \<Rightarrow> Some (current_get (db_env db) lkey v)
           | Some imm \<Rightarrow>
               (case MemTable_Get user_compare lkey imm v s of
                  None \<Rightarrow> None
                | Some (True, v, s) \<Rightarrow> Some (s, v)
                | Some (False, v, s) \<Rightarrow> Some (current_get (db_env db) lkey v))))"

section \<open>Recovery\<close>

text \<open>
  \<open>status\<close> after reports of the reader, whose reporter has a pointer to it when the checks are
  paranoid, and keeps the first error; the reports are newest first.
\<close>

definition note_reports :: "bool \<Rightarrow> 'f log_reader \<Rightarrow> 'f log_reader \<Rightarrow> ldb_status \<Rightarrow> ldb_status" where
  "note_reports paranoid before after status =
     (case (reports before, reports after) of
        (Some old, Some new) \<Rightarrow>
          fold (\<lambda>(bytes, s) status. if paranoid \<and> ok status then s else status)
            (rev (take (length new - length old) new)) status
      | _ \<Rightarrow> status)"

definition MaybeIgnoreError :: "bool \<Rightarrow> ldb_status \<Rightarrow> ldb_status" where
  "MaybeIgnoreError paranoid s = (if ok s \<or> paranoid then s else OK)"

text \<open>
  The loop over the records of a log, with the table, the largest sequence number and the number of
  compactions so far; \<open>full\<close> is whether a table has outgrown \<open>write_buffer_size\<close>, and
  \<open>write_level0\<close> writes it to a file of level 0.
\<close>

fun recover_loop ::
    "('f \<Rightarrow> nat \<Rightarrow> ldb_status \<times> slice \<times> 'f) \<Rightarrow> ('f \<Rightarrow> u64 \<Rightarrow> ldb_status \<times> 'f) \<Rightarrow> nat \<Rightarrow> (slice \<Rightarrow> slice \<Rightarrow> int)
     \<Rightarrow> bool \<Rightarrow> nat \<Rightarrow> (memtable \<Rightarrow> 'e \<Rightarrow> ldb_status \<times> 'e) \<Rightarrow> nat \<Rightarrow> 'f log_reader \<Rightarrow> ldb_status \<Rightarrow> memtable option
     \<Rightarrow> u64 \<Rightarrow> nat \<Rightarrow> 'e \<Rightarrow> (ldb_status \<times> memtable option \<times> u64 \<times> nat \<times> 'e) option" where
  "recover_loop read skip rfuel user_compare paranoid write_buffer_size write_level0 0 r status mem max_sequence compactions e = None"
| "recover_loop read skip rfuel user_compare paranoid write_buffer_size write_level0 (Suc fuel) r status mem max_sequence compactions e =
     (case ReadRecord read skip rfuel r of
        None \<Rightarrow> None
      | Some (rec, r') \<Rightarrow>
          (let status = note_reports paranoid r r' status in
           case rec of
             None \<Rightarrow> Some (status, mem, max_sequence, compactions, e)
           | Some record \<Rightarrow>
               if \<not> ok status then Some (status, mem, max_sequence, compactions, e)
               else if length record < 12 then
                 recover_loop read skip rfuel user_compare paranoid write_buffer_size write_level0 fuel r'
                   (if paranoid then Corruption (cstr ''log record too small'') [] else status) mem max_sequence compactions e
               else
                 (let batch = SetContents [] record;
                      table = (case mem of None \<Rightarrow> new_MemTable | Some m \<Rightarrow> m) in
                  case InsertInto user_compare batch table of
                    None \<Rightarrow> None
                  | Some (status, table) \<Rightarrow>
                      (let status = MaybeIgnoreError paranoid status in
                       if \<not> ok status then Some (status, Some table, max_sequence, compactions, e)
                       else
                         (let last_seq = Sequence batch + word_of_int (Count batch) - 1;
                              max_sequence = (if last_seq > max_sequence then last_seq else max_sequence) in
                          if ApproximateMemoryUsage table > write_buffer_size then
                            (let (status, e) = write_level0 table e in
                             if \<not> ok status then Some (status, None, max_sequence, compactions + 1, e)
                             else recover_loop read skip rfuel user_compare paranoid write_buffer_size write_level0 fuel r'
                                    status None max_sequence (compactions + 1) e)
                          else recover_loop read skip rfuel user_compare paranoid write_buffer_size write_level0 fuel r'
                                 status (Some table) max_sequence compactions e)))))"

text \<open>
  \<open>RecoverLogFile\<close> on the result of opening the log; \<open>reuse\<close> is whether the log is kept for writing:
  it is the last one, the options say so, and its size is known and it can be opened. The result is
  the status, the table that is kept for the database, and the rest of the state.
\<close>

definition RecoverLogFile ::
    "('f \<Rightarrow> nat \<Rightarrow> ldb_status \<times> slice \<times> 'f) \<Rightarrow> ('f \<Rightarrow> u64 \<Rightarrow> ldb_status \<times> 'f) \<Rightarrow> nat \<Rightarrow> (slice \<Rightarrow> slice \<Rightarrow> int)
     \<Rightarrow> bool \<Rightarrow> nat \<Rightarrow> (memtable \<Rightarrow> 'e \<Rightarrow> ldb_status \<times> 'e) \<Rightarrow> nat \<Rightarrow> bool \<Rightarrow> ldb_status + 'f \<Rightarrow> u64 \<Rightarrow> 'e
     \<Rightarrow> (ldb_status \<times> memtable option \<times> u64 \<times> 'e) option" where
  "RecoverLogFile read skip rfuel user_compare paranoid write_buffer_size write_level0 fuel reuse opened max_sequence e =
     (case opened of
        Inl s \<Rightarrow> Some (MaybeIgnoreError paranoid s, None, max_sequence, e)
      | Inr file \<Rightarrow>
          (case recover_loop read skip rfuel user_compare paranoid write_buffer_size write_level0 fuel
                  (new_Reader file (Some []) True 0) OK None max_sequence 0 e of
             None \<Rightarrow> None
           | Some (status, mem, max_sequence, compactions, e) \<Rightarrow>
               if ok status \<and> reuse \<and> compactions = 0
               then Some (status, Some (case mem of None \<Rightarrow> new_MemTable | Some m \<Rightarrow> m), max_sequence, e)
               else
                 (case mem of
                    None \<Rightarrow> Some (status, None, max_sequence, e)
                  | Some m \<Rightarrow>
                      let (status, e) = (if ok status then write_level0 m e else (status, e)) in
                      Some (status, None, max_sequence, e))))"

end
