(* ===== verification/LdbDbProps.thy ===== *)
theory LdbDbProps
  imports LdbDb
begin

text \<open>
  What writers and readers of a database rely on: writers are committed whole and in the order of the
  queue, a snapshot sees a prefix of the updates, and a log that was cut by a crash brings back the
  table of a prefix of the groups.
\<close>

section \<open>Groups\<close>

text \<open>A writer of a client: its updates and whether it waits for the disk.\<close>

definition writer_of :: "update list \<times> bool \<Rightarrow> db_writer" where
  "writer_of w = \<lparr>wr_batch = Some (batch_of (fst w)), wr_sync = snd w\<rparr>"

definition updates_of :: "(update list \<times> bool) list \<Rightarrow> update list" where
  "updates_of ws = concat (map fst ws)"

lemma updates_of_simps [simp]:
  "updates_of [] = []" "updates_of (w # ws) = fst w @ updates_of ws" "updates_of (ws @ vs) = updates_of ws @ updates_of vs"
  by (simp_all add: updates_of_def)

lemma Append_batch_of: "Append (batch_of us) (batch_of vs) = batch_of (us @ vs)"
  by (simp add: batch_of_bytes Append_bytes)

lemma Append_new: "Append new_WriteBatch (batch_of us) = batch_of us"
  using Append_batch_of [of "[]" us] by (simp add: batch_of_def)

lemma group_loop_takes:
  "(case tmp of None \<Rightarrow> leader | Some r \<Rightarrow> r) = batch_of us \<Longrightarrow>
   \<exists>m \<le> length ws. group_loop first_sync mx leader (map writer_of ws) sz tmp n = (batch_of (us @ updates_of (take m ws)), n + m)
     \<and> (\<forall>w \<in> set (take m ws). snd w \<longrightarrow> first_sync)"
proof (induction ws arbitrary: sz tmp n us)
  case (Cons w ws)
  show ?case
  proof (cases "snd w \<and> \<not> first_sync \<or> sz + ByteSize (batch_of (fst w)) > mx")
    case True
    then show ?thesis using Cons.prems by (intro exI [of _ 0]) (auto simp: writer_of_def Let_def)
  next
    case False
    let ?r = "case tmp of None \<Rightarrow> Append new_WriteBatch leader | Some r \<Rightarrow> r"
    have "?r = batch_of us" using Cons.prems Append_new by (cases tmp) auto
    then have r: "Append ?r (batch_of (fst w)) = batch_of (us @ fst w)" by (simp add: Append_batch_of)
    obtain m where m: "m \<le> length ws" "group_loop first_sync mx leader (map writer_of ws) (sz + ByteSize (batch_of (fst w)))
          (Some (batch_of (us @ fst w))) (n + 1) = (batch_of ((us @ fst w) @ updates_of (take m ws)), n + 1 + m)"
        "\<forall>w \<in> set (take m ws). snd w \<longrightarrow> first_sync"
      using Cons.IH [where tmp = "Some (batch_of (us @ fst w))" and us = "us @ fst w" and n = "n + 1"
          and sz = "sz + ByteSize (batch_of (fst w))"] by auto
    show ?thesis
    proof (intro exI [of _ "Suc m"] conjI)
      show "group_loop first_sync mx leader (map writer_of (w # ws)) sz tmp n =
          (batch_of (us @ updates_of (take (Suc m) (w # ws))), n + Suc m)"
        using m(2) False r by (auto simp: writer_of_def Let_def)
    qed (use m False in auto)
  qed
qed simp

lemma BuildBatchGroup_takes:
  obtains m where "m \<le> length ws"
    "BuildBatchGroup (batch_of us) s (map writer_of ws) = (batch_of (us @ updates_of (take m ws)), Suc m)"
    "\<forall>w \<in> set (take m ws). snd w \<longrightarrow> s"
  using group_loop_takes [where tmp = None and leader = "batch_of us" and us = us and ws = ws and first_sync = s and n = 1]
  unfolding BuildBatchGroup_def Let_def by (metis option.simps(4) plus_1_eq_Suc)

section \<open>Commits\<close>

text \<open>The records of the log that groups of updates become, from a sequence number on.\<close>

fun commit_records :: "u64 \<Rightarrow> update list list \<Rightarrow> slice list" where
  "commit_records s [] = []"
| "commit_records s (g # gs) = batch_bytes (s + 1) (of_nat (length g)) g # commit_records (s + of_nat (length g)) gs"

fun log_end :: "nat \<Rightarrow> slice list \<Rightarrow> nat" where
  "log_end ofs [] = ofs"
| "log_end ofs (d # ds) = log_end (frag_end ofs (frags ofs True d)) ds"

lemma log_bytes_snoc:
  "log_bytes ofs (ds @ [d]) = log_bytes ofs ds @ frag_bytes (log_end ofs ds) (frags (log_end ofs ds) True d)"
  "log_end ofs (ds @ [d]) = frag_end (log_end ofs ds) (frags (log_end ofs ds) True d)"
  by (induction ds arbitrary: ofs) simp_all

lemma commit_records_snoc:
  "commit_records s (gs @ [g]) = commit_records s gs @ [batch_bytes (s + of_nat (length (concat gs)) + 1) (of_nat (length g)) g]"
  by (induction gs arbitrary: s) (simp_all add: ac_simps)

lemma additions_append: "additions s (us @ vs) = additions s us @ additions (s + of_nat (length us)) vs"
  by (induction us arbitrary: s) (simp_all add: ac_simps)

lemma add_entries_append:
  "add_entries cmp (ws @ vs) mt = Option.bind (add_entries cmp ws mt) (add_entries cmp vs)"
  by (induction ws arbitrary: mt) (auto split: option.split)

text \<open>The table of updates from the first on.\<close>

definition table_of :: "update list \<Rightarrow> memtable option" where
  "table_of us = add_entries Bytewise_Compare (additions 1 us) new_MemTable"

lemma table_of_append:
  "table_of us = Some mt \<Longrightarrow> table_of (us @ vs) = add_entries Bytewise_Compare (additions (of_nat (length us) + 1) vs) mt"
  by (simp add: table_of_def additions_append add_entries_append add.commute)

lemma table_of_some:
  assumes "\<forall>u \<in> set us. op_fits u" "length us < 2 ^ 56"
  obtains mt where "table_of us = Some mt" "holds Bytewise_Compare (\<lambda>_. True) mt (set (additions 1 us))"
proof -
  have "\<forall>w \<in> set (additions (0 + 1) us). sane (\<lambda>_. True) w" using assms by (intro additions_sane) auto
  from bytewise.holds_add_entries [OF bytewise.holds_new this] show ?thesis
    using that by (auto simp: table_of_def)
qed

lemma table_of_get:
  assumes "table_of us = Some mt" "\<forall>u \<in> set us. op_fits u" "length us < 2 ^ 56" "j \<le> length us" "length k + 8 < 2 ^ 32"
  shows "MemTable_Get Bytewise_Compare (LookupKey k (of_nat j)) mt v st = Some (get_answer (updated (take j us)) k v st)"
proof -
  obtain mt' where "table_of us = Some mt'" "holds Bytewise_Compare (\<lambda>_. True) mt' (set (additions 1 us))"
    using table_of_some [OF assms(2,3)] by blast
  then show ?thesis using bytewise.holds_lookup [of mt 0 us j k v st] assms by simp
qed

text \<open>The groups in the log, and in the table.\<close>

definition committed ::
    "('f \<Rightarrow> slice) \<Rightarrow> nat \<Rightarrow> ('f, 'e) db \<Rightarrow> update list list \<Rightarrow> bool" where
  "committed written buf db gs \<longleftrightarrow>
     db_last_sequence db = of_nat (length (concat gs)) \<and> db_imm db = None \<and> table_of (concat gs) = Some (db_mem db)
     \<and> writer_at (log_end 0 (commit_records 0 gs)) (db_log db)
     \<and> written (dest_file (db_log db)) = log_bytes 0 (commit_records 0 gs)
     \<and> (\<forall>i < length gs. \<exists>mt. table_of (concat (take i gs)) = Some mt \<and> ApproximateMemoryUsage mt \<le> buf)"

text \<open>
  The write at the front goes ahead at once: no error so far, few files in level 0, room in the table,
  and room on the device for the record.
\<close>

definition next_record :: "('f, 'e) db \<Rightarrow> slice" where
  "next_record db =
     (let w = hd (db_writers db) in
      SetSequence (fst (BuildBatchGroup (the (wr_batch w)) (wr_sync w) (tl (db_writers db)))) (db_last_sequence db + 1))"

definition has_room :: "('f, 'e) db_ops \<Rightarrow> nat \<Rightarrow> ('f \<Rightarrow> nat) \<Rightarrow> ('f, 'e) db \<Rightarrow> bool" where
  "has_room ops buf room db \<longleftrightarrow>
     ok (db_bg_error db) \<and> op_level0 ops (db_env db) < kL0_SlowdownWritesTrigger
     \<and> ApproximateMemoryUsage (db_mem db) \<le> buf
     \<and> (let ofs = nat (block_offset (db_log db)) in
        length (frag_bytes ofs (frags ofs True (next_record db))) \<le> room (dest_file (db_log db)))"

context writable_file
begin

lemma front_commits:
  assumes c: "committed written buf db gs" and w: "db_writers db = map writer_of ((us, s) # ws)"
    and room: "has_room ops buf room db"
    and ops: "op_append ops = file_append" "op_flush ops = file_flush" "\<And>f. op_sync ops f = (OK, f)"
    and fits: "\<forall>u \<in> set (concat gs @ us @ updates_of ws). op_fits u" "length (concat gs @ us @ updates_of ws) < 2 ^ 31"
  shows "\<exists>m db'. m \<le> length ws \<and> Write_front ops Bytewise_Compare buf (Suc fuel) db = Some (OK, Suc m, db')
    \<and> committed written buf db' (gs @ [us @ updates_of (take m ws)]) \<and> db_writers db' = map writer_of (drop m ws)"
proof -
  obtain m where m: "m \<le> length ws"
      "BuildBatchGroup (batch_of us) s (map writer_of ws) = (batch_of (us @ updates_of (take m ws)), Suc m)"
    by (rule BuildBatchGroup_takes)
  define g where "g = us @ updates_of (take m ws)"
  define last where "last = db_last_sequence db"
  define rec where "rec = batch_bytes (last + 1) (of_nat (length g)) g"
  have ups: "updates_of ws = updates_of (take m ws) @ updates_of (drop m ws)"
    by (simp only: append_take_drop_id flip: updates_of_simps(3))
  have g: "\<forall>u \<in> set g. op_fits u" "length g < 2 ^ 31" "length (concat gs @ g) < 2 ^ 31" "\<forall>u \<in> set (concat gs @ g). op_fits u"
    using fits unfolding ups g_def by auto
  have seq: "SetSequence (batch_of g) (db_last_sequence db + 1) = rec" by (simp add: batch_of_bytes rec_def last_def)
  have hd: "hd (db_writers db) = \<lparr>wr_batch = Some (batch_of us), wr_sync = s\<rparr>" "tl (db_writers db) = map writer_of ws"
    using w by (simp_all add: writer_of_def)
  note group = m(2) [folded g_def]
  have nr: "next_record db = rec" by (simp add: next_record_def hd group seq)
  have room': "MakeRoomForWrite ops buf (Suc fuel) False True db = Some (OK, db)"
    using room by (simp add: has_room_def)
  note cm = c [unfolded committed_def]
  let ?ofs = "log_end 0 (commit_records 0 gs)"
  have "nat (block_offset (db_log db)) = ?ofs" using cm by (simp add: writer_at_def)
  then have "length (frag_bytes ?ofs (frags ?ofs True rec)) \<le> room (dest_file (db_log db))"
    using room unfolding has_room_def nr Let_def by simp
  then obtain lw where lw: "AddRecord file_append file_flush (db_log db) rec = (OK, lw)"
      "writer_at (frag_end ?ofs (frags ?ofs True rec)) lw"
      "written (dest_file lw) = written (dest_file (db_log db)) @ frag_bytes ?ofs (frags ?ofs True rec)"
    using record_written [of ?ofs "db_log db" True rec] cm unfolding AddRecord_def by blast
  have last: "last = of_nat (length (concat gs))" using cm by (simp add: last_def)
  obtain mt where mt: "table_of (concat gs @ g) = Some mt"
    using table_of_some [OF g(4)] g(3) by force
  then have "add_entries Bytewise_Compare (additions (last + 1) g) (db_mem db) = Some mt"
    using table_of_append [of "concat gs" "db_mem db" g] cm unfolding last by simp
  then have ins: "InsertInto Bytewise_Compare rec (db_mem db) = Some (OK, mt)"
    unfolding rec_def using InsertInto_adds [OF g(1) sint_of_nat_count [OF g(2)]] by simp
  have cnt: "word_of_int (Count rec) = (of_nat (length g) :: u64)"
    using sint_of_nat_count [OF g(2)] by (simp add: rec_def)
  define db' where "db' = db\<lparr>db_log := lw, db_mem := mt, db_last_sequence := last + of_nat (length g),
      db_writers := map writer_of (drop m ws)\<rparr>"
  have "Write_front ops Bytewise_Compare buf (Suc fuel) db = Some (OK, Suc m, db')"
    unfolding Write_front_def hd Let_def db_writer.simps
    by (simp add: room' group seq cnt lw(1) ins ops Contents_def db'_def last_def w drop_map del: MakeRoomForWrite.simps)
  moreover have "committed written buf db' (gs @ [g])"
  proof -
    have rec': "commit_records 0 (gs @ [g]) = commit_records 0 gs @ [rec]"
      unfolding commit_records_snoc rec_def last by simp
    have "\<exists>mt. table_of (concat (take i (gs @ [g]))) = Some mt \<and> ApproximateMemoryUsage mt \<le> buf" if "i < length (gs @ [g])" for i
      using that cm room by (cases "i = length gs") (auto simp: has_room_def)
    then show ?thesis
      unfolding committed_def rec' log_bytes_snoc db'_def using cm lw(2,3) mt last by (simp add: add.commute)
  qed
  ultimately show ?thesis using m(1) by (auto simp: db'_def g_def)
qed

end

section \<open>Recovery\<close>

lemma note_reports_same: "reports r' = reports r \<Longrightarrow> note_reports paranoid r r' status = status"
  by (simp add: note_reports_def split: option.split)

definition the_table :: "memtable option \<Rightarrow> memtable" where
  "the_table mem = (case mem of None \<Rightarrow> new_MemTable | Some m \<Rightarrow> m)"

lemma max_of_nat:
  assumes "a + b < 2 ^ 31"
  shows "(if (of_nat a + of_nat b :: u64) > of_nat a then of_nat a + of_nat b else of_nat a) = (of_nat a + of_nat b :: u64)"
proof (cases "b = 0")
  case False
  have "unat (of_nat a + of_nat b :: u64) = a + b" using assms by (simp add: unat_word_ariths unat_of_nat)
  moreover have "unat (of_nat a :: u64) = a" using assms by (simp add: unat_of_nat)
  ultimately show ?thesis using False by (simp add: word_less_nat_alt)
qed simp

lemma recover_records:
  "returns read skip rfuel r (commit_records (of_nat (length (concat pre))) gs) \<Longrightarrow>
   table_of (concat pre) = Some (the_table mem) \<Longrightarrow>
   \<forall>u \<in> set (concat (pre @ gs)). op_fits u \<Longrightarrow> length (concat (pre @ gs)) < 2 ^ 31 \<Longrightarrow> length gs < fuel \<Longrightarrow>
   \<forall>i. length pre < i \<and> i \<le> length (pre @ gs) \<longrightarrow>
     (\<exists>mt. table_of (concat (take i (pre @ gs))) = Some mt \<and> ApproximateMemoryUsage mt \<le> buf) \<Longrightarrow>
   \<exists>mem'. recover_loop read skip rfuel Bytewise_Compare paranoid buf level0 fuel r OK mem (of_nat (length (concat pre))) c e
       = Some (OK, mem', of_nat (length (concat (pre @ gs))), c, e)
     \<and> table_of (concat (pre @ gs)) = Some (the_table mem')"
proof (induction gs arbitrary: pre r mem fuel)
  case Nil
  obtain k where "fuel = Suc k" using Nil.prems(5) by (cases fuel) auto
  then show ?case using Nil.prems(1,2) note_reports_same by (auto simp: OK_def)
next
  case (Cons g gs)
  obtain k where fuel: "fuel = Suc k" "length gs < k" using Cons.prems(5) by (cases fuel) auto
  define s where "s = (of_nat (length (concat pre)) :: u64)"
  define rec where "rec = batch_bytes (s + 1) (of_nat (length g)) g"
  obtain r' where r': "ReadRecord read skip rfuel r = Some (Some rec, r')" "reports r' = reports r"
      "returns read skip rfuel r' (commit_records (s + of_nat (length g)) gs)"
    using Cons.prems(1) by (auto simp: rec_def s_def)
  have len: "length (concat pre) + length g < 2 ^ 31" "length g < 2 ^ 31" using Cons.prems(4) by simp_all
  have s': "s + of_nat (length g) = of_nat (length (concat (pre @ [g])))" by (simp add: s_def)
  obtain mt where mt: "table_of (concat (pre @ [g])) = Some mt" "ApproximateMemoryUsage mt \<le> buf"
    using Cons.prems(6) [rule_format, of "Suc (length pre)"] by auto
  have fits: "\<forall>u \<in> set g. op_fits u" using Cons.prems(3) by simp
  have "add_entries Bytewise_Compare (additions (s + 1) g) (the_table mem) = Some mt"
    using table_of_append [OF Cons.prems(2), of g] mt(1) by (simp add: s_def)
  then have ins: "InsertInto Bytewise_Compare rec (the_table mem) = Some (OK, mt)"
    unfolding rec_def using InsertInto_adds [OF fits sint_of_nat_count [OF len(2)]] by simp
  have big: "\<not> length rec < 12" by (simp add: rec_def)
  have seq: "Sequence rec + word_of_int (Count rec) - 1 = s + of_nat (length g)"
    using sint_of_nat_count [OF len(2)] by (simp add: rec_def)
  have mx: "(if s + of_nat (length g) > s then s + of_nat (length g) else s) = s + of_nat (length g)"
    unfolding s_def by (rule max_of_nat [OF len(1)])
  have step: "recover_loop read skip rfuel Bytewise_Compare paranoid buf level0 fuel r OK mem s c e
      = recover_loop read skip rfuel Bytewise_Compare paranoid buf level0 k r' OK (Some mt) (s + of_nat (length g)) c e"
    using ins mt(2) unfolding fuel recover_loop.simps r'(1) option.case prod.case note_reports_same [OF r'(2)] SetContents_def
      the_table_def Let_def seq mx
    by (simp add: big MaybeIgnoreError_def)
  have "\<exists>mem'. recover_loop read skip rfuel Bytewise_Compare paranoid buf level0 k r' OK (Some mt) (of_nat (length (concat (pre @ [g])))) c e
       = Some (OK, mem', of_nat (length (concat ((pre @ [g]) @ gs))), c, e)
     \<and> table_of (concat ((pre @ [g]) @ gs)) = Some (the_table mem')"
  proof (rule Cons.IH)
    show "returns read skip rfuel r' (commit_records (of_nat (length (concat (pre @ [g])))) gs)" using r'(3) unfolding s' .
    show "\<forall>i. length (pre @ [g]) < i \<and> i \<le> length ((pre @ [g]) @ gs) \<longrightarrow>
        (\<exists>mt. table_of (concat (take i ((pre @ [g]) @ gs))) = Some mt \<and> ApproximateMemoryUsage mt \<le> buf)"
      using Cons.prems(6) by simp
  qed (use mt(1) Cons.prems(3,4) fuel(2) in \<open>simp_all add: the_table_def\<close>)
  then show ?case using step unfolding s' by (simp add: s_def)
qed

lemma log_bytes_take: "length (log_bytes ofs (take m ds)) \<le> length (log_bytes ofs ds)"
proof (induction ds arbitrary: ofs m)
  case (Cons d ds)
  then show ?case by (cases m) auto
qed simp

lemma commit_records_take: "take m (commit_records s gs) = commit_records s (take m gs)"
proof (induction gs arbitrary: s m)
  case (Cons g gs)
  then show ?case by (cases m) auto
qed simp

lemma length_commit_records [simp]: "length (commit_records s gs) = length gs"
  by (induction gs arbitrary: s) simp_all

lemma log_bytes_count: "length ds \<le> length (log_bytes ofs ds)"
proof (induction ds arbitrary: ofs)
  case (Cons d ds)
  have "Suc 0 \<le> length (frag_bytes ofs (frags ofs True d))"
    using frag_bytes_nonempty [of ofs True d] by (simp add: Suc_le_eq)
  then show ?case using Cons [of "frag_end ofs (frags ofs True d)"] by (simp del: length_greater_0_conv)
qed simp

section \<open>Runs\<close>

definition open_db :: "'f \<Rightarrow> 'e \<Rightarrow> ('f, 'e) db" where
  "open_db f e = \<lparr>db_log = new_Writer f, db_mem = new_MemTable, db_imm = None, db_last_sequence = 0, db_bg_error = OK,
     db_writers = [], db_env = e\<rparr>"

text \<open>
  The runs of a database: writers come to the queue, and the one at the front writes, in any order.
  \<open>all\<close> is every writer so far, of which the first \<open>k\<close> are done.
\<close>

inductive db_reach ::
    "('f, 'e) db_ops \<Rightarrow> nat \<Rightarrow> ('f \<Rightarrow> nat) \<Rightarrow> nat \<Rightarrow> ('f, 'e) db \<Rightarrow> (update list \<times> bool) list \<Rightarrow> nat \<Rightarrow> ('f, 'e) db \<Rightarrow> bool"
  for ops buf room fuel db0 where
  reach_start: "db_reach ops buf room fuel db0 [] 0 db0"
| reach_enqueue: "db_reach ops buf room fuel db0 all k db \<Longrightarrow> \<forall>u \<in> set (fst w). op_fits u \<Longrightarrow>
    db_reach ops buf room fuel db0 (all @ [w]) k (enqueue (writer_of w) db)"
| reach_write: "db_reach ops buf room fuel db0 all k db \<Longrightarrow> k < length all \<Longrightarrow> has_room ops buf room db \<Longrightarrow>
    Write_front ops Bytewise_Compare buf fuel db = Some (s, n, db') \<Longrightarrow>
    db_reach ops buf room fuel db0 all (k + n) db'"

definition run_ok :: "('f \<Rightarrow> slice) \<Rightarrow> nat \<Rightarrow> (update list \<times> bool) list \<Rightarrow> nat \<Rightarrow> ('f, 'e) db \<Rightarrow> bool" where
  "run_ok written buf all k db \<longleftrightarrow> k \<le> length all \<and> db_writers db = map writer_of (drop k all)
     \<and> (\<exists>parts. concat parts = take k all \<and> [] \<notin> set parts \<and> committed written buf db (map updates_of parts))"

lemma updates_of_concat: "concat (map updates_of parts) = updates_of (concat parts)"
  by (induction parts) simp_all

lemma open_db_ok: "written f = [] \<Longrightarrow> run_ok written buf [] 0 (open_db f e)"
  by (auto simp: run_ok_def committed_def open_db_def table_of_def writer_at_def new_Writer_def intro!: exI [of _ "[]"])

context writable_file
begin

lemma write_progress:
  assumes r: "run_ok written buf all k db" and k: "k < length all" and room: "has_room ops buf room db"
    and ops: "op_append ops = file_append" "op_flush ops = file_flush" "\<And>f. op_sync ops f = (OK, f)"
    and fits: "\<forall>u \<in> set (updates_of all). op_fits u" "length (updates_of all) < 2 ^ 31"
  shows "\<exists>n db'. Write_front ops Bytewise_Compare buf (Suc fuel) db = Some (OK, n, db') \<and> 0 < n
    \<and> run_ok written buf all (k + n) db'"
proof -
  obtain parts where p: "concat parts = take k all" "committed written buf db (map updates_of parts)" "[] \<notin> set parts"
    using r by (auto simp: run_ok_def)
  obtain us s where w: "all ! k = (us, s)" by (cases "all ! k")
  let ?ws = "drop (Suc k) all"
  have d: "drop k all = (us, s) # ?ws" using Cons_nth_drop_Suc [OF k] w by simp
  have split: "updates_of all = concat (map updates_of parts) @ us @ updates_of ?ws"
    unfolding updates_of_concat p(1) using d by (metis append_take_drop_id fst_conv updates_of_simps(2,3))
  have "db_writers db = map writer_of ((us, s) # ?ws)" using r d by (simp add: run_ok_def)
  from front_commits [where fuel = fuel, OF p(2) this room ops] fits split obtain m db' where m: "m \<le> length ?ws"
      "Write_front ops Bytewise_Compare buf (Suc fuel) db = Some (OK, Suc m, db')"
      "committed written buf db' (map updates_of parts @ [us @ updates_of (take m ?ws)])"
      "db_writers db' = map writer_of (drop m ?ws)"
    by auto
  have "take (k + Suc m) all = concat (parts @ [(us, s) # take m ?ws])"
    using p(1) d by (metis append_Nil2 concat.simps concat_append take_Suc_Cons take_add)
  moreover have "map updates_of (parts @ [(us, s) # take m ?ws]) = map updates_of parts @ [us @ updates_of (take m ?ws)]"
    by simp
  ultimately have "run_ok written buf all (k + Suc m) db'"
    unfolding run_ok_def using m k p(3) by (auto simp: add.commute intro!: exI [of _ "parts @ [(us, s) # take m ?ws]"])
  then show ?thesis using m(2) by blast
qed

lemma run_invariant:
  assumes "db_reach ops buf room (Suc fuel) db0 all k db" "run_ok written buf [] 0 db0"
    "op_append ops = file_append" "op_flush ops = file_flush" "\<And>f. op_sync ops f = (OK, f)"
    "length (updates_of all) < 2 ^ 31"
  shows "run_ok written buf all k db \<and> (\<forall>u \<in> set (updates_of all). op_fits u)"
  using assms(1,6)
proof (induction rule: db_reach.induct)
  case reach_start
  then show ?case using assms(2) by simp
next
  case (reach_enqueue all k db w)
  then have "run_ok written buf all k db" by simp
  then have "run_ok written buf (all @ [w]) k (enqueue (writer_of w) db)"
    by (auto simp: run_ok_def enqueue_def committed_def)
  then show ?case using reach_enqueue by auto
next
  case (reach_write all k db s n db')
  then have r: "run_ok written buf all k db" "\<forall>u \<in> set (updates_of all). op_fits u" by auto
  from write_progress [OF r(1) reach_write.hyps(2,3) assms(3-5) r(2) reach_write.prems, of fuel] reach_write.hyps(4) r(2)
  show ?case by auto
qed

end

section \<open>Switching tables\<close>

text \<open>Two states in which every lookup at every snapshot has the same answer.\<close>

definition same_reads ::
    "(slice \<Rightarrow> slice \<Rightarrow> int) \<Rightarrow> ('e \<Rightarrow> lookup_key \<Rightarrow> slice \<Rightarrow> ldb_status \<times> slice) \<Rightarrow> ('f, 'e) db \<Rightarrow> ('f, 'e) db \<Rightarrow> bool" where
  "same_reads cmp current db db' \<longleftrightarrow>
     (\<forall>number key v. DB_Get cmp current (Some number) db' key v = DB_Get cmp current (Some number) db key v)"

lemma Get_new: "MemTable_Get cmp lkey new_MemTable v st = Some (False, v, st)"
  by (simp add: MemTable_Get_def sl_Seek_def FindGreaterOrEqual_def new_MemTable_def new_SkipList_def search_fuel_def
      Node_Next_def KeyIsAfterNode_def kMaxHeight_def Let_def)

lemma switch_reads:
  assumes "db_imm db = None" "\<And>lkey v. current e lkey v = current (db_env db) lkey v"
  shows "same_reads cmp current db (db\<lparr>db_log := lw, db_imm := Some (db_mem db), db_mem := new_MemTable, db_env := e\<rparr>)"
  using assms by (auto simp: same_reads_def DB_Get_def Get_new Let_def split: option.splits bool.splits)

lemma env_reads:
  assumes "\<And>lkey v. current e lkey v = current (db_env db) lkey v"
  shows "same_reads cmp current db (db\<lparr>db_env := e\<rparr>)"
  using assms by (auto simp: same_reads_def DB_Get_def Let_def split: option.splits bool.splits)

lemma same_reads_trans: "same_reads cmp cur db db1 \<Longrightarrow> same_reads cmp cur db1 db2 \<Longrightarrow> same_reads cmp cur db db2"
  by (simp add: same_reads_def)

lemma make_room:
  assumes keep: "\<And>db. same_reads cmp cur db (op_wait ops db)" "\<And>db. same_reads cmp cur db (op_delay ops db)"
      "\<And>db. same_reads cmp cur db (op_schedule ops db)" "\<And>e lkey v. cur (snd (op_new_log ops e)) lkey v = cur e lkey v"
      "\<And>e s. fst (op_new_log ops e) = Inl s \<Longrightarrow> \<not> ok s"
  shows "MakeRoomForWrite ops buf fuel force delay db = Some (s, db') \<Longrightarrow>
    same_reads cmp cur db db' \<and> (ok s \<longrightarrow> ok (db_bg_error db') \<and> ApproximateMemoryUsage (db_mem db') \<le> buf)"
proof (induction fuel arbitrary: force delay db)
  case (Suc fuel)
  have again: ?case if "MakeRoomForWrite ops buf fuel f d db1 = Some (s, db')" "same_reads cmp cur db db1" for f d db1
    using Suc.IH [OF that(1)] same_reads_trans [OF that(2)] by blast
  consider "\<not> ok (db_bg_error db)"
    | "ok (db_bg_error db)" "delay \<and> op_level0 ops (db_env db) \<ge> kL0_SlowdownWritesTrigger"
    | "ok (db_bg_error db)" "\<not> (delay \<and> op_level0 ops (db_env db) \<ge> kL0_SlowdownWritesTrigger)"
      "\<not> force \<and> ApproximateMemoryUsage (db_mem db) \<le> buf"
    | "ok (db_bg_error db)" "\<not> (delay \<and> op_level0 ops (db_env db) \<ge> kL0_SlowdownWritesTrigger)"
      "\<not> (\<not> force \<and> ApproximateMemoryUsage (db_mem db) \<le> buf)"
      "db_imm db \<noteq> None \<or> op_level0 ops (db_env db) \<ge> kL0_StopWritesTrigger"
    | "ok (db_bg_error db)" "\<not> (delay \<and> op_level0 ops (db_env db) \<ge> kL0_SlowdownWritesTrigger)"
      "\<not> (\<not> force \<and> ApproximateMemoryUsage (db_mem db) \<le> buf)"
      "db_imm db = None" "\<not> op_level0 ops (db_env db) \<ge> kL0_StopWritesTrigger"
    by blast
  then show ?case
  proof cases
    case 1
    then show ?thesis using Suc.prems by (auto simp: same_reads_def)
  next
    case 2
    then show ?thesis using Suc.prems again [OF _ keep(2)] by auto
  next
    case 3
    then show ?thesis using Suc.prems by (auto simp: same_reads_def)
  next
    case 4
    then have "MakeRoomForWrite ops buf fuel force delay (op_wait ops db) = Some (s, db')"
      using Suc.prems by (auto split: if_splits)
    then show ?thesis using again keep(1) by blast
  next
    case 5
    obtain r e where r: "op_new_log ops (db_env db) = (r, e)" by fastforce
    have e: "cur e lkey v = cur (db_env db) lkey v" for lkey v using keep(4) [of "db_env db"] r by simp
    show ?thesis
    proof (cases r)
      case (Inl st)
      have "\<not> ok st" using keep(5) [of "db_env db" st] r Inl by simp
      moreover have "db' = db\<lparr>db_env := e\<rparr>" "s = st" using Suc.prems 5 r Inl by auto
      ultimately show ?thesis using env_reads [where current = cur, OF e] by simp
    next
      case (Inr lfile)
      let ?db = "db\<lparr>db_log := new_Writer lfile, db_imm := Some (db_mem db), db_mem := new_MemTable, db_env := e\<rparr>"
      have "MakeRoomForWrite ops buf fuel False delay (op_schedule ops ?db) = Some (s, db')"
        using Suc.prems 5 r Inr by auto
      then show ?thesis
        using again same_reads_trans [OF switch_reads [where current = cur, OF 5(4) e] keep(3)] by blast
    qed
  qed
qed simp

section \<open>A run\<close>

text \<open>Operations on files of the C library whose \<open>fdatasync\<close> succeeds, with nothing in the background.\<close>

definition posix_ops :: "(posix_file, unit) db_ops" where
  "posix_ops = \<lparr>op_append = PosixWritableFile_Append, op_flush = PosixWritableFile_Flush, op_sync = (\<lambda>f. (OK, f)),
     op_level0 = (\<lambda>_. 0), op_new_log = (\<lambda>e. (Inl OK, e)), op_schedule = id, op_wait = id, op_delay = id\<rparr>"

lemma posix_ops_simps [simp]:
  "op_append posix_ops = PosixWritableFile_Append" "op_flush posix_ops = PosixWritableFile_Flush"
  "op_sync posix_ops f = (OK, f)" "op_level0 posix_ops e = 0"
  by (simp_all add: posix_ops_def)

definition one_put :: "(update list \<times> bool) list" where
  "one_put = [([Put_op [1] [2]], True)]"

lemma one_put_simps [simp]: "length one_put = 1" "updates_of one_put = [Put_op [1] [2]]" "take (Suc 0) one_put = one_put"
  by (simp_all add: one_put_def)

lemma first_height: "RandomHeight (new_Random 0xdeadbeef) = (2, 386994929)"
  by (simp add: RandomHeight_def new_Random_def random_height_loop.simps Random_Next_def kMaxHeight_def Let_def)

lemma first_insert:
  "SkipList_Insert cmp key (new_SkipList z) = Some
     \<lparr>sl_nodes = [\<lparr>sl_key = z, sl_next = Some 1 # Some 1 # replicate 10 None\<rparr>, \<lparr>sl_key = key, sl_next = [None, None]\<rparr>],
      max_height = 2, sl_rnd = 386994929\<rparr>"
  using first_height
  by (simp add: SkipList_Insert_def FindGreaterOrEqual_def new_SkipList_def search_fuel_def Node_Next_def
      KeyIsAfterNode_def Let_def kMaxHeight_def NewNode_def link_level_def Node_SetNext_def numeral_eq_Suc)

lemmas arena_defs = ApproximateMemoryUsage_def table_arena_def node_bytes_def MemoryUsage_def Allocate_def
  AllocateAligned_def AllocateFallback_def AllocateNewBlock_def new_Arena_def kArenaBlockSize_def advance_def

lemma new_usage: "ApproximateMemoryUsage new_MemTable = 4104"
  by (simp add: arena_defs new_MemTable_def new_SkipList_def kMaxHeight_def Let_def)

lemma one_usage: "table_of [Put_op [1] [2]] = Some mt \<Longrightarrow> ApproximateMemoryUsage mt = 4104"
  unfolding table_of_def new_MemTable_def
  by (auto simp: MemTable_Add_def first_insert addition_of_def memtable_entry_def EncodeVarint32_def arena_defs Let_def)

lemma one_record: "length (frag_bytes 0 (frags 0 True (batch_bytes 1 1 [Put_op [1] [2]]))) = 24"
  by (simp add: frags.simps varstring_def EncodeVarint32_def base_def step_def pad_def kBlockSize_def kHeaderSize_def)

lemma one_run:
  obtains db where
    "db_reach posix_ops 10000 (\<lambda>f. stream_room (stream f)) (Suc 0) (open_db empty_file ()) one_put (Suc 0) db"
    "ApproximateMemoryUsage (db_mem db) \<le> 10000" "length (stream_bytes (stream (dest_file (db_log db)))) = 24"
proof -
  let ?room = "\<lambda>f. stream_room (stream f)" and ?written = "\<lambda>f. stream_bytes (stream f)"
  let ?start = "open_db empty_file ()" and ?w = "([Put_op [1] [2]], True)"
  let ?db = "enqueue (writer_of ?w) ?start"
  have fits: "\<forall>u \<in> set (fst ?w). op_fits u" by (simp add: op_fits_def)
  have reach: "db_reach posix_ops 10000 ?room (Suc 0) ?start ([] @ [?w]) 0 ?db"
    by (rule reach_enqueue [OF reach_start fits])
  have w: "db_writers ?db = [\<lparr>wr_batch = Some (batch_of [Put_op [1] [2]]), wr_sync = True\<rparr>]"
    by (simp add: enqueue_def open_db_def writer_of_def)
  have rec: "next_record ?db = batch_bytes 1 1 [Put_op [1] [2]]"
    by (simp add: next_record_def w BuildBatchGroup_def batch_of_bytes Let_def) (simp add: enqueue_def open_db_def)
  have r0: "run_ok ?written 10000 one_put 0 ?db"
    using open_db_ok [of ?written empty_file 10000 "()"]
    by (auto simp: run_ok_def committed_def enqueue_def open_db_def one_put_def empty_file_def)
  have room: "has_room posix_ops 10000 ?room ?db"
    unfolding has_room_def rec using one_record
    by (simp add: enqueue_def open_db_def new_Writer_def new_usage empty_file_def kL0_SlowdownWritesTrigger_def)
  obtain n db' where n: "Write_front posix_ops Bytewise_Compare 10000 (Suc 0) ?db = Some (OK, n, db')" "0 < n"
      "run_ok ?written 10000 one_put (0 + n) db'"
    using posix_writable.write_progress [OF r0 _ room, of 0] by (auto simp: op_fits_def)
  have n1: "n = 1" using n(2,3) by (simp add: run_ok_def)
  have "db_reach posix_ops 10000 ?room (Suc 0) ?start one_put (0 + n) db'"
    using reach_write [OF reach _ room n(1)] by (simp add: one_put_def)
  moreover obtain parts where p: "concat parts = one_put" "[] \<notin> set parts" "committed ?written 10000 db' (map updates_of parts)"
    using n(3) n1 by (auto simp: run_ok_def)
  then have "parts = [one_put]" by (cases parts; cases "hd parts"; cases "tl parts") (auto simp: one_put_def)
  then have "ApproximateMemoryUsage (db_mem db') \<le> 10000" "length (?written (dest_file (db_log db'))) = 24"
    using p(3) one_usage one_record by (auto simp: committed_def)
  ultimately show ?thesis using that n1 by simp
qed

section \<open>Properties\<close>







end
