(* ===== verification/LdbBlock.thy ===== *)
theory LdbBlock
  imports LdbComparator LdbStatus
begin

text \<open>
  Blocks of a table: the builder of \<open>table/block_builder.cc\<close> and the reader and its iterator of
  \<open>table/block.cc\<close>. Keys are stored without the prefix that they share with the one before, except at
  restart points, whose offsets stand at the end of the block.
\<close>

section \<open>The builder\<close>

record block_builder =
  bb_restart_interval :: int
  bb_buffer :: slice
  bb_restarts :: "u32 list"
  bb_counter :: int
  bb_finished :: bool
  bb_last_key :: slice

definition new_BlockBuilder :: "int \<Rightarrow> block_builder" where
  "new_BlockBuilder interval = \<lparr>bb_restart_interval = interval, bb_buffer = [], bb_restarts = [0], bb_counter = 0,
     bb_finished = False, bb_last_key = []\<rparr>"

definition BlockBuilder_Reset :: "block_builder \<Rightarrow> block_builder" where
  "BlockBuilder_Reset b = b\<lparr>bb_buffer := [], bb_restarts := [0], bb_counter := 0, bb_finished := False, bb_last_key := []\<rparr>"

definition CurrentSizeEstimate :: "block_builder \<Rightarrow> nat" where
  "CurrentSizeEstimate b = length (bb_buffer b) + length (bb_restarts b) * 4 + 4"

definition BlockBuilder_Finish :: "block_builder \<Rightarrow> slice \<times> block_builder" where
  "BlockBuilder_Finish b =
     (let buffer = fold (\<lambda>r buffer. PutFixed32 buffer r) (bb_restarts b) (bb_buffer b);
          buffer = PutFixed32 buffer (of_nat (length (bb_restarts b))) in
      (buffer, b\<lparr>bb_buffer := buffer, bb_finished := True\<rparr>))"

text \<open>The loop that counts the bytes that two keys share.\<close>

fun shared_loop :: "slice \<Rightarrow> slice \<Rightarrow> nat" where
  "shared_loop (a # as) (b # bs) = (if a = b then Suc (shared_loop as bs) else 0)"
| "shared_loop _ _ = 0"

definition BlockBuilder_Add :: "slice \<Rightarrow> slice \<Rightarrow> block_builder \<Rightarrow> block_builder" where
  "BlockBuilder_Add key value b =
     (let (shared, b) =
        (if bb_counter b < bb_restart_interval b then (shared_loop (bb_last_key b) key, b)
         else (0, b\<lparr>bb_restarts := bb_restarts b @ [of_nat (length (bb_buffer b))], bb_counter := 0\<rparr>));
          non_shared = length key - shared;
          buffer = PutVarint32 (bb_buffer b) (of_nat shared);
          buffer = PutVarint32 buffer (of_nat non_shared);
          buffer = PutVarint32 buffer (of_nat (length value));
          buffer = buffer @ take non_shared (drop shared key) @ value in
      b\<lparr>bb_buffer := buffer, bb_last_key := take shared (bb_last_key b) @ take non_shared (drop shared key),
        bb_counter := bb_counter b + 1\<rparr>)"

section \<open>The reader\<close>

record block =
  bl_data :: slice
  bl_size :: nat
  restart_offset :: u32

definition NumRestarts :: "block \<Rightarrow> u32" where
  "NumRestarts b = DecodeFixed32 (drop (bl_size b - 4) (bl_data b))"

text \<open>The offset of the restart array is not set in a block that is marked as bad (here 0).\<close>

definition new_Block :: "slice \<Rightarrow> block" where
  "new_Block contents =
     (let b = \<lparr>bl_data = contents, bl_size = length contents, restart_offset = 0\<rparr> in
      if bl_size b < 4 then b\<lparr>bl_size := 0\<rparr>
      else
        let max_restarts_allowed = (bl_size b - 4) div 4 in
        if unat (NumRestarts b) > max_restarts_allowed then b\<lparr>bl_size := 0\<rparr>
        else b\<lparr>restart_offset := of_nat (bl_size b - unat (1 + NumRestarts b) * 4)\<rparr>)"

text \<open>
  The entry at offset \<open>p\<close>: the three numbers and the offset just past them. The sum of the two lengths
  is a \<open>uint32_t\<close>, as in the code.
\<close>

definition DecodeEntry :: "slice \<Rightarrow> nat \<Rightarrow> nat \<Rightarrow> (u32 \<times> u32 \<times> u32 \<times> nat) option" where
  "DecodeEntry data p limit =
     (if int limit - int p < 3 then None
      else
        let bs = drop p (take limit data);
            shared = ucast (bs ! 0) :: u32; non_shared = ucast (bs ! 1) :: u32; value_length = ucast (bs ! 2) :: u32;
            decoded =
              (if (shared OR non_shared OR value_length) < 128 then Some (shared, non_shared, value_length, drop 3 bs)
               else
                 case GetVarint32Ptr bs of None \<Rightarrow> None
                 | Some (shared, bs) \<Rightarrow>
                     (case GetVarint32Ptr bs of None \<Rightarrow> None
                      | Some (non_shared, bs) \<Rightarrow>
                          (case GetVarint32Ptr bs of None \<Rightarrow> None
                           | Some (value_length, bs) \<Rightarrow> Some (shared, non_shared, value_length, bs)))) in
        case decoded of None \<Rightarrow> None
        | Some (shared, non_shared, value_length, bs) \<Rightarrow>
            if (of_nat (length bs) :: u32) < non_shared + value_length then None
            else Some (shared, non_shared, value_length, limit - length bs))"

section \<open>The iterator\<close>

text \<open>
  \<open>value_\<close> is an offset in the block and a length. A result \<open>Undef\<close> is a read past the end of the
  block, and \<open>Diverge\<close> a loop that has not ended within its fuel. A function of type \<open>bool\<close> returns
  true with \<open>Ok\<close> and false with \<open>Fail\<close>, one of type \<open>void\<close> returns with \<open>Ok\<close>.
\<close>

record block_iter =
  bi_data :: slice
  bi_restarts :: u32
  bi_num_restarts :: u32
  bi_current :: u32
  bi_restart_index :: u32
  bi_key :: slice
  bi_value :: "nat \<times> nat"
  bi_status :: ldb_status

definition new_Iter :: "slice \<Rightarrow> u32 \<Rightarrow> u32 \<Rightarrow> block_iter" where
  "new_Iter data restarts num_restarts = \<lparr>bi_data = data, bi_restarts = restarts, bi_num_restarts = num_restarts,
     bi_current = restarts, bi_restart_index = num_restarts, bi_key = [], bi_value = (0, 0), bi_status = OK\<rparr>"

definition bi_Valid :: "block_iter \<Rightarrow> bool" where
  "bi_Valid it \<longleftrightarrow> bi_current it < bi_restarts it"

definition bi_read_value :: "block_iter \<Rightarrow> slice option" where
  "bi_read_value it = (case bi_value it of (ofs, n) \<Rightarrow>
     if ofs + n \<le> length (bi_data it) then Some (take n (drop ofs (bi_data it))) else None)"

definition NextEntryOffset :: "block_iter \<Rightarrow> u32" where
  "NextEntryOffset it = (case bi_value it of (ofs, n) \<Rightarrow> of_nat (ofs + n))"

definition GetRestartPoint :: "block_iter \<Rightarrow> u32 \<Rightarrow> u32" where
  "GetRestartPoint it index = DecodeFixed32 (drop (unat (bi_restarts it) + unat index * 4) (bi_data it))"

definition SeekToRestartPoint :: "u32 \<Rightarrow> block_iter \<Rightarrow> block_iter" where
  "SeekToRestartPoint index it =
     (let it = it\<lparr>bi_key := [], bi_restart_index := index\<rparr> in it\<lparr>bi_value := (unat (GetRestartPoint it index), 0)\<rparr>)"

definition CorruptionError :: "block_iter \<Rightarrow> block_iter" where
  "CorruptionError it = it\<lparr>bi_current := bi_restarts it, bi_restart_index := bi_num_restarts it,
     bi_status := Corruption (cstr ''bad entry in block'') [], bi_key := [], bi_value := (0, 0)\<rparr>"

text \<open>The loop that moves the restart index forward; the index may wrap around once.\<close>

function restart_index_loop :: "block_iter \<Rightarrow> u32 \<Rightarrow> u32" where
  "restart_index_loop it i =
     (if i + 1 < bi_num_restarts it \<and> GetRestartPoint it (i + 1) < bi_current it
      then restart_index_loop it (i + 1) else i)"
  by pat_completeness auto
termination
proof (relation "measure (\<lambda>(it, i). if i + 1 = 0 then Suc (unat (bi_num_restarts it)) else unat (bi_num_restarts it) - unat i)", simp)
  fix it :: block_iter and i :: u32
  assume "i + 1 < bi_num_restarts it \<and> GetRestartPoint it (i + 1) < bi_current it"
  then have l: "unat (i + 1) < unat (bi_num_restarts it)" by (simp add: word_less_nat_alt)
  have "i + 1 + 1 \<noteq> 0"
  proof
    assume "i + 1 + 1 = 0"
    then have "i + 1 = - 1" by (simp add: eq_neg_iff_add_eq_0)
    then have "unat (i + 1) = unat (- 1 :: u32)" by (rule arg_cong)
    then have "unat (i + 1) = 2 ^ 32 - 1" by (simp only: unsigned_minus_1_eq_mask) (simp add: mask_eq_exp_minus_1)
    then show False using l unat_lt32 [of "bi_num_restarts it"] by simp
  qed
  moreover have "i + 1 \<noteq> 0 \<Longrightarrow> unat (i + 1) = Suc (unat i)" using unatSuc [of i] by (simp add: add.commute)
  ultimately show "((it, i + 1), (it, i)) \<in> measure (\<lambda>(it, i). if i + 1 = 0 then Suc (unat (bi_num_restarts it))
      else unat (bi_num_restarts it) - unat i)"
    using l by auto
qed

declare restart_index_loop.simps [simp del]

definition ParseNextKey :: "block_iter \<Rightarrow> status \<times> block_iter" where
  "ParseNextKey it =
     (let it = it\<lparr>bi_current := NextEntryOffset it\<rparr> in
      if bi_current it \<ge> bi_restarts it
      then (Fail, it\<lparr>bi_current := bi_restarts it, bi_restart_index := bi_num_restarts it\<rparr>)
      else
        case DecodeEntry (bi_data it) (unat (bi_current it)) (unat (bi_restarts it)) of
          None \<Rightarrow> (Fail, CorruptionError it)
        | Some (shared, non_shared, value_length, p) \<Rightarrow>
            if length (bi_key it) < unat shared then (Fail, CorruptionError it)
            else if p + unat non_shared > length (bi_data it) then (Undef, it)
            else
              let it = it\<lparr>bi_key := take (unat shared) (bi_key it) @ take (unat non_shared) (drop p (bi_data it)),
                          bi_value := (p + unat non_shared, unat value_length)\<rparr> in
              (Ok, it\<lparr>bi_restart_index := restart_index_loop it (bi_restart_index it)\<rparr>))"

definition bi_Next :: "block_iter \<Rightarrow> status \<times> block_iter" where
  "bi_Next it = (case ParseNextKey it of (st, it) \<Rightarrow> (if st = Fail then Ok else st, it))"

text \<open>The loop that parses entries up to an offset, of \<open>Prev\<close> and \<open>SeekToLast\<close>.\<close>

fun scan_until :: "nat \<Rightarrow> u32 \<Rightarrow> block_iter \<Rightarrow> status \<times> block_iter" where
  "scan_until 0 bound it = (Diverge, it)"
| "scan_until (Suc fuel) bound it =
     (case ParseNextKey it of (st, it) \<Rightarrow>
        if st = Ok then (if NextEntryOffset it < bound then scan_until fuel bound it else (Ok, it))
        else (if st = Fail then Ok else st, it))"

text \<open>The last restart point before an offset, from an index down.\<close>

fun prev_restart :: "block_iter \<Rightarrow> u32 \<Rightarrow> nat \<Rightarrow> nat option" where
  "prev_restart it original 0 = (if GetRestartPoint it 0 \<ge> original then None else Some 0)"
| "prev_restart it original (Suc i) =
     (if GetRestartPoint it (of_nat (Suc i)) \<ge> original then prev_restart it original i else Some (Suc i))"

definition bi_Prev :: "nat \<Rightarrow> block_iter \<Rightarrow> status \<times> block_iter" where
  "bi_Prev fuel it =
     (let original = bi_current it in
      case prev_restart it original (unat (bi_restart_index it)) of
        None \<Rightarrow> (Ok, it\<lparr>bi_current := bi_restarts it, bi_restart_index := bi_num_restarts it\<rparr>)
      | Some i \<Rightarrow> scan_until fuel original (SeekToRestartPoint (of_nat i) it))"

definition bi_SeekToFirst :: "block_iter \<Rightarrow> status \<times> block_iter" where
  "bi_SeekToFirst it = bi_Next (SeekToRestartPoint 0 it)"

definition bi_SeekToLast :: "nat \<Rightarrow> block_iter \<Rightarrow> status \<times> block_iter" where
  "bi_SeekToLast fuel it = scan_until fuel (bi_restarts it) (SeekToRestartPoint (bi_num_restarts it - 1) it)"

text \<open>The binary search of \<open>Seek\<close>: \<open>Fail\<close> is its return after an error in the block.\<close>

fun seek_search ::
    "(slice \<Rightarrow> slice \<Rightarrow> int) \<Rightarrow> slice \<Rightarrow> nat \<Rightarrow> u32 \<Rightarrow> u32 \<Rightarrow> block_iter \<Rightarrow> status \<times> u32 \<times> block_iter" where
  "seek_search cmp target 0 left right it = (Diverge, left, it)"
| "seek_search cmp target (Suc fuel) left right it =
     (if left < right then
        let mid = (left + right + 1) div 2; region_offset = GetRestartPoint it mid in
        case DecodeEntry (bi_data it) (unat region_offset) (unat (bi_restarts it)) of
          None \<Rightarrow> (Fail, left, CorruptionError it)
        | Some (shared, non_shared, value_length, p) \<Rightarrow>
            if shared \<noteq> 0 then (Fail, left, CorruptionError it)
            else if p + unat non_shared > length (bi_data it) then (Undef, left, it)
            else if cmp (take (unat non_shared) (drop p (bi_data it))) target < 0
              then seek_search cmp target fuel mid right it
              else seek_search cmp target fuel left (mid - 1) it
      else (Ok, left, it))"

fun seek_scan :: "(slice \<Rightarrow> slice \<Rightarrow> int) \<Rightarrow> slice \<Rightarrow> nat \<Rightarrow> block_iter \<Rightarrow> status \<times> block_iter" where
  "seek_scan cmp target 0 it = (Diverge, it)"
| "seek_scan cmp target (Suc fuel) it =
     (case ParseNextKey it of (st, it) \<Rightarrow>
        if st = Ok then (if cmp (bi_key it) target \<ge> 0 then (Ok, it) else seek_scan cmp target fuel it)
        else (if st = Fail then Ok else st, it))"

definition bi_Seek :: "(slice \<Rightarrow> slice \<Rightarrow> int) \<Rightarrow> nat \<Rightarrow> slice \<Rightarrow> block_iter \<Rightarrow> status \<times> block_iter" where
  "bi_Seek cmp fuel target it =
     (case seek_search cmp target fuel 0 (bi_num_restarts it - 1) it of
        (Ok, left, it) \<Rightarrow> seek_scan cmp target fuel (SeekToRestartPoint left it)
      | (st, left, it) \<Rightarrow> (if st = Fail then Ok else st, it))"

datatype block_iterator =
    Error_iterator ldb_status
  | Empty_iterator
  | Block_iterator block_iter

definition Block_NewIterator :: "block \<Rightarrow> block_iterator" where
  "Block_NewIterator b =
     (if bl_size b < 4 then Error_iterator (Corruption (cstr ''bad block contents'') [])
      else if NumRestarts b = 0 then Empty_iterator
      else Block_iterator (new_Iter (bl_data b) (restart_offset b) (NumRestarts b)))"

end
