(* ===== verification/LdbBlockProps.thy ===== *)
theory LdbBlockProps
  imports LdbBlock
begin

text \<open>
  The layout of a block, that the builder writes it, and that the iterator reads it: in order from
  either end, and by binary search for a key.
\<close>

section \<open>The layout\<close>

type_synonym kv = "slice \<times> slice"

definition shared_at :: "nat \<Rightarrow> kv list \<Rightarrow> nat \<Rightarrow> nat" where
  "shared_at r es i = (if i mod r = 0 then 0 else shared_loop (fst (es ! (i - 1))) (fst (es ! i)))"

definition entry_header :: "nat \<Rightarrow> kv \<Rightarrow> slice" where
  "entry_header sh e = EncodeVarint32 (of_nat sh) @ EncodeVarint32 (of_nat (length (fst e) - sh))
     @ EncodeVarint32 (of_nat (length (snd e)))"

definition entry_at :: "nat \<Rightarrow> kv list \<Rightarrow> nat \<Rightarrow> slice" where
  "entry_at r es i = entry_header (shared_at r es i) (es ! i) @ drop (shared_at r es i) (fst (es ! i)) @ snd (es ! i)"

text \<open>The first \<open>n\<close> entries, and where the next one starts.\<close>

definition body :: "nat \<Rightarrow> kv list \<Rightarrow> nat \<Rightarrow> slice" where
  "body r es n = concat (map (entry_at r es) [0..<n])"

definition off :: "nat \<Rightarrow> kv list \<Rightarrow> nat \<Rightarrow> nat" where
  "off r es n = length (body r es n)"

definition restart_count :: "nat \<Rightarrow> nat \<Rightarrow> nat" where
  "restart_count r n = (if n = 0 then 1 else Suc ((n - 1) div r))"

definition restart_list :: "nat \<Rightarrow> kv list \<Rightarrow> u32 list" where
  "restart_list r es = map (\<lambda>k. of_nat (off r es (k * r))) [0..<restart_count r (length es)]"

definition block_bytes :: "nat \<Rightarrow> kv list \<Rightarrow> slice" where
  "block_bytes r es = body r es (length es) @ concat (map EncodeFixed32 (restart_list r es))
     @ EncodeFixed32 (of_nat (length (restart_list r es)))"

lemma shared_loop_le: "shared_loop a b \<le> length a" "shared_loop a b \<le> length b"
  by (induction a b rule: shared_loop.induct) auto

lemma shared_loop_take: "take (shared_loop a b) a = take (shared_loop a b) b"
  by (induction a b rule: shared_loop.induct) auto

lemma shared_at_le: "shared_at r es i \<le> length (fst (es ! i))"
  using shared_loop_le by (simp add: shared_at_def)

lemma body_Suc [simp]: "body r es (Suc n) = body r es n @ entry_at r es n"
  by (simp add: body_def)

lemma body_0 [simp]: "body r es 0 = []" "off r es 0 = 0"
  by (simp_all add: body_def off_def)

lemma off_Suc: "off r es (Suc n) = off r es n + length (entry_at r es n)"
  by (simp add: off_def)

lemma entry_header_length: "3 \<le> length (entry_header sh e)"
proof -
  have "1 \<le> length (EncodeVarint32 v)" for v using length_EncodeVarint32 [of v] by simp
  from this [of "of_nat sh"] this [of "of_nat (length (fst e) - sh)"] this [of "of_nat (length (snd e))"]
  show ?thesis by (simp add: entry_header_def)
qed

lemma off_step: "off r es n + 3 \<le> off r es (Suc n)"
  using entry_header_length [of "shared_at r es n" "es ! n"] by (simp add: off_Suc entry_at_def)

lemma off_less: "i < j \<Longrightarrow> off r es i < off r es j"
proof (induction j)
  case (Suc j)
  have "off r es j < off r es (Suc j)" using off_step [of r es j] by simp
  then show ?case using Suc by (cases "i = j") auto
qed simp

lemma off_less_iff [simp]: "off r es i < off r es j \<longleftrightarrow> i < j" "off r es i \<le> off r es j \<longleftrightarrow> i \<le> j"
  using off_less [of i j r es] off_less [of j i r es] by (metis linorder_neqE_nat order_less_asym order_less_irrefl, metis linorder_neqE_nat not_le order_less_asym order_le_less)

lemma body_split: "i \<le> n \<Longrightarrow> \<exists>rest. body r es n = body r es i @ rest"
  by (induction n) (auto simp: le_Suc_eq)

lemma body_append: "n \<le> length es \<Longrightarrow> body r (es @ es') n = body r es n"
  by (auto simp: body_def entry_at_def shared_at_def nth_append intro!: arg_cong [of _ _ concat])

lemma off_append: "n \<le> length es \<Longrightarrow> off r (es @ es') n = off r es n"
  by (simp add: off_def body_append)

section \<open>The builder writes it\<close>

definition add_block :: "kv list \<Rightarrow> block_builder \<Rightarrow> block_builder" where
  "add_block es b = fold (\<lambda>(k, v). BlockBuilder_Add k v) es b"

lemma restart_list_snoc:
  assumes "0 < r"
  shows "restart_list r (es @ [e]) = (if length es mod r = 0 \<and> es \<noteq> []
    then restart_list r es @ [of_nat (off r es (length es))] else restart_list r es)"
proof -
  let ?n = "length es"
  have less: "k * r \<le> ?n" if "k < restart_count r ?n" for k
    using that assms by (auto simp: restart_count_def less_Suc_eq_le split: if_splits)
      (metis div_times_less_eq_dividend le_trans mult_le_mono1 diff_le_self)
  have old: "map (\<lambda>k. of_nat (off r (es @ [e]) (k * r))) [0..<restart_count r ?n] = restart_list r es"
    unfolding restart_list_def by (rule map_cong) (auto simp: off_append less)
  show ?thesis
  proof (cases "?n mod r = 0 \<and> es \<noteq> []")
    case True
    then obtain c where c: "?n = r * c" by (auto elim: dvdE)
    then obtain q where "c = Suc q" using True by (cases c) auto
    then have q: "?n = Suc q * r" using c by simp
    have "(Suc q * r - 1) div r = q" using assms by (intro div_nat_eqI) (auto simp: mult.commute)
    then have c: "restart_count r ?n = Suc q" "restart_count r (Suc ?n) = Suc (Suc q)"
      using assms q by (simp_all add: restart_count_def)
    have "restart_list r (es @ [e]) = map (\<lambda>k. of_nat (off r (es @ [e]) (k * r))) [0..<Suc q] @ [of_nat (off r (es @ [e]) (Suc q * r))]"
      using c(2) by (simp add: restart_list_def)
    moreover have "restart_list r es = map (\<lambda>k. of_nat (off r (es @ [e]) (k * r))) [0..<Suc q]" using old q c(1) by simp
    moreover have "off r (es @ [e]) (Suc q * r) = off r es (length es)" unfolding q [symmetric] by (simp add: off_append)
    ultimately show ?thesis using True by (simp only: if_True) simp
  next
    case False
    have "restart_count r (Suc ?n) = restart_count r ?n"
    proof (cases "?n = 0")
      case False
      then obtain k where k: "?n = Suc k" by (cases ?n) auto
      have "Suc k mod r \<noteq> 0" using False \<open>\<not> (?n mod r = 0 \<and> es \<noteq> [])\<close> k by auto
      then show ?thesis using k by (simp add: restart_count_def div_Suc)
    qed (simp add: restart_count_def)
    then show ?thesis using False old by (auto simp: restart_list_def)
  qed
qed

lemma builder_state:
  assumes "0 < r"
  shows "add_block es (new_BlockBuilder (int r)) = \<lparr>bb_restart_interval = int r, bb_buffer = body r es (length es),
    bb_restarts = restart_list r es, bb_counter = (if es = [] then 0 else int ((length es - 1) mod r) + 1),
    bb_finished = False, bb_last_key = (if es = [] then [] else fst (last es))\<rparr>"
proof (induction es rule: rev_induct)
  case Nil
  then show ?case by (simp add: add_block_def new_BlockBuilder_def restart_list_def restart_count_def)
next
  case (snoc e es)
  obtain k v where e: "e = (k, v)" by (cases e)
  let ?n = "length es"
  let ?es = "es @ [e]"
  let ?sh = "shared_at r ?es ?n"
  let ?b = "add_block es (new_BlockBuilder (int r))"
  have again: "bb_counter ?b < bb_restart_interval ?b \<longleftrightarrow> \<not> (?n mod r = 0 \<and> es \<noteq> [])"
  proof (cases "es = []")
    case False
    then obtain q where q: "?n = Suc q" by (cases ?n) auto
    have "Suc q mod r = (if Suc (q mod r) = r then 0 else Suc (q mod r))" by (rule mod_Suc)
    moreover have "q mod r < r" using assms by simp
    ultimately show ?thesis using snoc False q by auto
  qed (use snoc assms in simp)
  have last: "es \<noteq> [] \<Longrightarrow> fst (?es ! (?n - 1)) = fst (last es)" by (simp add: nth_append last_conv_nth)
  have sh: "?sh = (if ?n mod r = 0 \<and> es \<noteq> [] then 0 else shared_loop (bb_last_key ?b) k)"
    using last by (auto simp: shared_at_def e snoc)
  have key: "take ?sh (bb_last_key ?b) @ drop ?sh k = k"
    unfolding sh using shared_loop_take [of "bb_last_key ?b" k] by auto
  have cnt: "(if ?n mod r = 0 \<and> es \<noteq> [] then 0 else bb_counter ?b) = int (?n mod r)"
  proof (cases "es = []")
    case False
    then obtain q where q: "?n = Suc q" by (cases ?n) auto
    have "Suc q mod r = (if Suc (q mod r) = r then 0 else Suc (q mod r))" by (rule mod_Suc)
    then show ?thesis using snoc False q by auto
  qed (use snoc in simp)
  have buf: "body r ?es (length ?es) = PutVarint32 (PutVarint32 (PutVarint32 (bb_buffer ?b) (of_nat ?sh))
      (of_nat (length k - ?sh))) (of_nat (length v)) @ take (length k - ?sh) (drop ?sh k) @ v"
    by (simp add: snoc body_append entry_at_def entry_header_def PutVarint32_def e)
  have "add_block ?es (new_BlockBuilder (int r)) = BlockBuilder_Add k v ?b" by (simp add: add_block_def e)
  also have "\<dots> = ?b\<lparr>bb_restarts := (if ?n mod r = 0 \<and> es \<noteq> [] then bb_restarts ?b @ [of_nat (length (bb_buffer ?b))]
        else bb_restarts ?b), bb_buffer := body r ?es (length ?es), bb_last_key := k,
      bb_counter := (if ?n mod r = 0 \<and> es \<noteq> [] then 0 else bb_counter ?b) + 1\<rparr>"
    unfolding BlockBuilder_Add_def again buf using sh key by (auto simp: Let_def)
  finally show ?case
    unfolding cnt using snoc restart_list_snoc [OF assms, of es e] by (auto simp: off_def e)
qed

lemma put_restarts: "fold (\<lambda>r buffer. PutFixed32 buffer r) rs buffer = buffer @ concat (map EncodeFixed32 rs)"
  by (induction rs arbitrary: buffer) (simp_all add: PutFixed32_def)

lemma builder_writes:
  assumes "0 < r"
  shows "fst (BlockBuilder_Finish (add_block es (new_BlockBuilder (int r)))) = block_bytes r es"
    "CurrentSizeEstimate (add_block es (new_BlockBuilder (int r))) = length (block_bytes r es)"
proof -
  have "length (concat (map EncodeFixed32 rs)) = 4 * length rs" for rs by (induction rs) simp_all
  then show "CurrentSizeEstimate (add_block es (new_BlockBuilder (int r))) = length (block_bytes r es)"
    unfolding builder_state [OF assms] by (simp add: CurrentSizeEstimate_def block_bytes_def)
  show "fst (BlockBuilder_Finish (add_block es (new_BlockBuilder (int r)))) = block_bytes r es"
    unfolding builder_state [OF assms] BlockBuilder_Finish_def Let_def put_restarts
    by (simp add: block_bytes_def PutFixed32_def)
qed

section \<open>Entries are read\<close>

lemma or_less_128:
  fixes a b c :: u32
  assumes "(a OR b OR c) < 128"
  shows "a < 128" "b < 128" "c < 128"
proof -
  have le: "x \<le> x OR y" "y \<le> x OR y" for x y :: u32
    by (simp_all add: word_le_def uint_or or_greater_eq) (metis or.commute or_greater_eq uint_ge_0)
  show "a < 128" using le(1) [of a "b OR c"] assms by (rule order_le_less_trans)
  have "b \<le> a OR b OR c" using le(1) [of b c] le(2) [of "b OR c" a] by (rule order_trans)
  then show "b < 128" using assms by (rule order_le_less_trans)
  have "c \<le> a OR b OR c" using le(2) [of c b] le(2) [of "b OR c" a] by (rule order_trans)
  then show "c < 128" using assms by (rule order_le_less_trans)
qed

lemma ucast_less_128: "(ucast (b :: u8) :: u32) < 128 \<Longrightarrow> GetVarint32Ptr (b # bs) = Some (ucast b, bs)"
proof -
  assume "(ucast b :: u32) < 128"
  then have "unat b < 128" by (simp add: word_less_nat_alt unat_ucast_up)
  then show ?thesis using ucast_and_128 [of b, where 'a = 32] by (simp add: GetVarint32Ptr_def Let_def)
qed

text \<open>The fast path agrees with the general one.\<close>

lemma DecodeEntry_varints:
  assumes "p + 3 \<le> limit" "limit \<le> length data"
  shows "DecodeEntry data p limit =
    (case GetVarint32Ptr (drop p (take limit data)) of None \<Rightarrow> None
     | Some (shared, bs) \<Rightarrow>
         (case GetVarint32Ptr bs of None \<Rightarrow> None
          | Some (non_shared, bs) \<Rightarrow>
              (case GetVarint32Ptr bs of None \<Rightarrow> None
               | Some (value_length, bs) \<Rightarrow>
                   if (of_nat (length bs) :: u32) < non_shared + value_length then None
                   else Some (shared, non_shared, value_length, limit - length bs))))"
proof -
  let ?bs = "drop p (take limit data)"
  have "3 \<le> length ?bs" using assms by simp
  then obtain a b c rest where bs: "?bs = a # b # c # rest"
    by (cases ?bs; cases "tl ?bs"; cases "tl (tl ?bs)") auto
  show ?thesis
  proof (cases "((ucast a :: u32) OR ucast b OR ucast c) < 128")
    case True
    note small = or_less_128 [OF True]
    show ?thesis
      using assms(1) True unfolding DecodeEntry_def bs
      by (simp add: Let_def ucast_less_128 [OF small(1)] ucast_less_128 [OF small(2)] ucast_less_128 [OF small(3)])
  next
    case False
    then show ?thesis using assms(1) unfolding DecodeEntry_def bs by (auto simp: Let_def split: option.splits)
  qed
qed

text \<open>A block whose offsets are those of the code.\<close>

definition block_fits :: "nat \<Rightarrow> kv list \<Rightarrow> bool" where
  "block_fits r es \<longleftrightarrow> 0 < r \<and> length (block_bytes r es) < 2 ^ 32"

lemma fits_bounds:
  assumes "block_fits r es"
  shows "0 < r" "i \<le> length es \<Longrightarrow> off r es i < 2 ^ 32" "restart_count r (length es) + 1 < 2 ^ 32"
    "length (block_bytes r es) = off r es (length es) + restart_count r (length es) * 4 + 4"
    "i < length es \<Longrightarrow> length (fst (es ! i)) - shared_at r es i + length (snd (es ! i)) < 2 ^ 32"
proof -
  have "length (concat (map EncodeFixed32 rs)) = 4 * length rs" for rs by (induction rs) simp_all
  from this [of "restart_list r es"]
  show len: "length (block_bytes r es) = off r es (length es) + restart_count r (length es) * 4 + 4"
    by (simp only: block_bytes_def length_append off_def length_EncodeFixed) (simp add: restart_list_def)
  then have b: "off r es (length es) < 2 ^ 32" "restart_count r (length es) + 1 < 2 ^ 32"
    using assms by (simp_all add: block_fits_def)
  show "0 < r" using assms by (simp add: block_fits_def)
  show "restart_count r (length es) + 1 < 2 ^ 32" by (rule b(2))
  have le: "i \<le> length es \<Longrightarrow> off r es i \<le> off r es (length es)" for i by simp
  show "i \<le> length es \<Longrightarrow> off r es i < 2 ^ 32" using le b(1) by (meson order_le_less_trans)
  show "i < length es \<Longrightarrow> length (fst (es ! i)) - shared_at r es i + length (snd (es ! i)) < 2 ^ 32"
    using le [of "Suc i"] b(1) by (simp add: off_Suc entry_at_def)
qed

definition key_start :: "nat \<Rightarrow> kv list \<Rightarrow> nat \<Rightarrow> nat" where
  "key_start r es i = off r es i + length (entry_header (shared_at r es i) (es ! i))"

lemma key_start_end:
  "key_start r es i + (length (fst (es ! i)) - shared_at r es i) + length (snd (es ! i)) = off r es (Suc i)"
  by (simp add: key_start_def off_Suc entry_at_def)

lemma data_at:
  assumes "i < length es"
  shows "\<exists>rest. drop (off r es i) (take (off r es (length es)) (block_bytes r es)) = entry_at r es i @ rest"
    "\<exists>rest. drop (key_start r es i) (block_bytes r es) = drop (shared_at r es i) (fst (es ! i)) @ snd (es ! i) @ rest"
    "off r es (length es) \<le> length (block_bytes r es)"
proof -
  obtain rest where rest: "body r es (length es) = body r es i @ entry_at r es i @ rest"
    using body_split [of "Suc i" "length es" r es] assms by auto
  have "take (off r es (length es)) (block_bytes r es) = body r es (length es)" by (simp add: block_bytes_def off_def)
  then show "\<exists>rest. drop (off r es i) (take (off r es (length es)) (block_bytes r es)) = entry_at r es i @ rest"
    by (simp add: rest) (simp add: off_def)
  have "block_bytes r es = (body r es i @ entry_header (shared_at r es i) (es ! i)) @ drop (shared_at r es i) (fst (es ! i))
      @ snd (es ! i) @ rest @ concat (map EncodeFixed32 (restart_list r es)) @ EncodeFixed32 (of_nat (length (restart_list r es)))"
    by (simp add: block_bytes_def rest entry_at_def)
  moreover have "key_start r es i = length (body r es i @ entry_header (shared_at r es i) (es ! i))"
    by (simp add: key_start_def off_def)
  ultimately show "\<exists>rest. drop (key_start r es i) (block_bytes r es) = drop (shared_at r es i) (fst (es ! i)) @ snd (es ! i) @ rest"
    by (metis append_eq_conv_conj)
  show "off r es (length es) \<le> length (block_bytes r es)" by (simp add: block_bytes_def off_def)
qed

lemma DecodeEntry_reads:
  assumes "block_fits r es" "i < length es"
  shows "DecodeEntry (block_bytes r es) (off r es i) (off r es (length es)) =
    Some (of_nat (shared_at r es i), of_nat (length (fst (es ! i)) - shared_at r es i), of_nat (length (snd (es ! i))), key_start r es i)"
proof -
  let ?sh = "shared_at r es i" and ?k = "fst (es ! i)" and ?v = "snd (es ! i)" and ?lim = "off r es (length es)"
  obtain rest where rest: "drop (off r es i) (take ?lim (block_bytes r es)) = entry_at r es i @ rest"
    using data_at(1) [OF assms(2)] by blast
  have le: "off r es i + 3 \<le> ?lim" using off_step [of r es i] assms(2) off_less_iff(2) [of r es "Suc i" "length es"] by linarith
  have nw: "length ?k - ?sh + length ?v < 2 ^ 32" by (rule fits_bounds(5) [OF assms])
  have "?lim - off r es i = length (entry_at r es i @ rest)"
    using arg_cong [OF rest, of length] data_at(3) [OF assms(2)] by simp
  then have lim: "?lim - length (drop ?sh ?k @ ?v @ rest) = key_start r es i"
    using le by (simp add: key_start_def entry_at_def)
  have small: "length (drop ?sh ?k @ ?v @ rest) < 2 ^ 32"
    using \<open>?lim - off r es i = _\<close> fits_bounds(2) [OF assms(1), of "length es"] by (simp add: entry_at_def)
  have "\<not> (of_nat (length (drop ?sh ?k @ ?v @ rest)) :: u32) < of_nat (length ?k - ?sh) + of_nat (length ?v)"
  proof -
    have "unat (of_nat (length (drop ?sh ?k @ ?v @ rest)) :: u32) = length (drop ?sh ?k @ ?v @ rest)"
      by (rule unat_of_nat_lt) (use small in simp)
    moreover have "unat (of_nat (length ?k - ?sh) + of_nat (length ?v) :: u32) = length ?k - ?sh + length ?v"
      using nw by (simp add: unat_of_nat_lt flip: of_nat_add)
    ultimately show ?thesis by (simp add: word_less_nat_alt)
  qed
  then show ?thesis
    unfolding DecodeEntry_varints [OF le data_at(3) [OF assms(2)]] rest entry_at_def entry_header_def
    using lim by simp
qed

lemma restart_read:
  assumes "block_fits r es" "bi_data it = block_bytes r es" "bi_restarts it = of_nat (off r es (length es))"
    "k < restart_count r (length es)"
  shows "GetRestartPoint it (of_nat k) = of_nat (off r es (k * r))"
proof -
  have enc: "take 4 (drop (4 * k) (concat (map EncodeFixed32 rs) @ x)) = EncodeFixed32 (rs ! k)" if "k < length rs" for rs x
    using that
  proof (induction rs arbitrary: k)
    case (Cons a rs)
    then show ?case by (cases k) simp_all
  qed simp
  have k: "unat (of_nat k :: u32) = k" using assms(4) fits_bounds(3) [OF assms(1)] by (simp add: unat_of_nat)
  have n: "unat (of_nat (off r es (length es)) :: u32) = off r es (length es)"
    using fits_bounds(2) [OF assms(1), of "length es"] by (simp add: unat_of_nat)
  have "drop (off r es (length es) + k * 4) (block_bytes r es) =
      drop (4 * k) (concat (map EncodeFixed32 (restart_list r es)) @ EncodeFixed32 (of_nat (length (restart_list r es))))"
    by (simp add: block_bytes_def off_def mult.commute)
  then show ?thesis
    unfolding GetRestartPoint_def DecodeFixed32_def assms(2,3) k n
    using enc [of "restart_list r es"] assms(4)
    by (simp add: restart_list_def EncodeFixed32_def le_word_le_bytes)
qed

section \<open>The iterator\<close>

text \<open>
  An iterator over the block; one that is about to parse entry \<open>i\<close>, one that stands on entry \<open>i\<close>,
  and one that is past the end.
\<close>

definition iter_of :: "nat \<Rightarrow> kv list \<Rightarrow> block_iter \<Rightarrow> bool" where
  "iter_of r es it \<longleftrightarrow> bi_data it = block_bytes r es \<and> bi_restarts it = of_nat (off r es (length es))
     \<and> bi_num_restarts it = of_nat (restart_count r (length es)) \<and> bi_status it = OK"

definition ready :: "nat \<Rightarrow> kv list \<Rightarrow> nat \<Rightarrow> block_iter \<Rightarrow> bool" where
  "ready r es i it \<longleftrightarrow> iter_of r es it \<and> i \<le> length es \<and> fst (bi_value it) + snd (bi_value it) = off r es i
     \<and> (i < length es \<longrightarrow> shared_at r es i \<le> length (bi_key it)
         \<and> take (shared_at r es i) (bi_key it) = take (shared_at r es i) (fst (es ! i)))
     \<and> unat (bi_restart_index it) * r \<le> i \<and> unat (bi_restart_index it) < restart_count r (length es)"

definition stands :: "nat \<Rightarrow> kv list \<Rightarrow> nat \<Rightarrow> block_iter \<Rightarrow> bool" where
  "stands r es i it \<longleftrightarrow> iter_of r es it \<and> i < length es \<and> bi_current it = of_nat (off r es i) \<and> bi_key it = fst (es ! i)
     \<and> bi_value it = (off r es (Suc i) - length (snd (es ! i)), length (snd (es ! i)))
     \<and> unat (bi_restart_index it) * r \<le> i \<and> i \<le> Suc (unat (bi_restart_index it)) * r
     \<and> unat (bi_restart_index it) < restart_count r (length es)"

definition past_end :: "nat \<Rightarrow> kv list \<Rightarrow> block_iter \<Rightarrow> bool" where
  "past_end r es it \<longleftrightarrow> iter_of r es it \<and> \<not> bi_Valid it"

lemma restart_count_bounds:
  assumes "0 < r" "i < n"
  shows "i < restart_count r n * r" "k < restart_count r n \<Longrightarrow> k * r < n"
proof -
  obtain m where m: "n = Suc m" using assms(2) by (cases n) auto
  have "m < Suc (m div r) * r" using assms(1) by (simp add: dividend_less_div_times add.commute)
  then show "i < restart_count r n * r" using m assms(2) by (simp add: restart_count_def)
  assume "k < restart_count r n"
  then have "k \<le> m div r" using m by (simp add: restart_count_def)
  then have "k * r \<le> m div r * r" by simp
  then show "k * r < n" using m div_times_less_eq_dividend [of m r] by linarith
qed

lemma restart_count_pos [simp]: "0 < restart_count r n"
  by (simp add: restart_count_def)

lemma off_unat [simp]:
  "block_fits r es \<Longrightarrow> i \<le> length es \<Longrightarrow> unat (of_nat (off r es i) :: u32) = off r es i"
  using fits_bounds(2) by (simp add: unat_of_nat)

lemma off_word_less:
  assumes "block_fits r es" "i \<le> length es" "j \<le> length es"
  shows "(of_nat (off r es i) :: u32) < of_nat (off r es j) \<longleftrightarrow> i < j"
    "(of_nat (off r es i) :: u32) \<le> of_nat (off r es j) \<longleftrightarrow> i \<le> j"
  using assms by (simp_all add: word_less_nat_alt word_le_nat_alt)

lemma count_unat:
  "block_fits r es \<Longrightarrow> k \<le> restart_count r (length es) \<Longrightarrow> unat (of_nat k :: u32) = k"
  using fits_bounds(3) [of r es] by (simp add: unat_of_nat)

lemma restart_loop:
  assumes "block_fits r es" "iter_of r es it" "i < length es" "bi_current it = of_nat (off r es i)"
  shows "k * r \<le> i \<Longrightarrow> k < restart_count r (length es) \<Longrightarrow>
    \<exists>k'. restart_index_loop it (of_nat k) = of_nat k' \<and> k' * r \<le> i \<and> i \<le> Suc k' * r \<and> k' < restart_count r (length es)"
proof (induction "restart_count r (length es) - k" arbitrary: k)
  case (Suc d)
  let ?m = "restart_count r (length es)"
  have r: "0 < r" using assms(1) by (rule fits_bounds(1))
  have suc: "of_nat k + 1 = (of_nat (Suc k) :: u32)" by simp
  have num: "(of_nat (Suc k) :: u32) < bi_num_restarts it \<longleftrightarrow> Suc k < ?m"
    using Suc.prems(2) assms(2) count_unat [OF assms(1), of "Suc k"] count_unat [OF assms(1), of ?m]
    by (simp add: iter_of_def word_less_nat_alt del: of_nat_Suc)
  show ?case
  proof (cases "Suc k < ?m")
    case False
    have "restart_index_loop it (of_nat k) = of_nat k"
      unfolding restart_index_loop.simps [of it "of_nat k"] suc num using False by simp
    moreover have "i \<le> Suc k * r" using restart_count_bounds(1) [OF r assms(3)] False Suc.prems(2)
      by (metis Suc_lessI le_eq_less_or_eq)
    ultimately show ?thesis using Suc.prems by blast
  next
    case True
    then have "Suc k * r < length es" using restart_count_bounds(2) [OF r assms(3)] by blast
    then have less: "GetRestartPoint it (of_nat (Suc k)) < bi_current it \<longleftrightarrow> Suc k * r < i"
      using restart_read [OF assms(1), of it "Suc k"] True assms off_word_less(1) [OF assms(1), of "Suc k * r" i]
      by (simp add: iter_of_def del: of_nat_Suc mult_Suc)
    show ?thesis
    proof (cases "Suc k * r < i")
      case False
      have "restart_index_loop it (of_nat k) = of_nat k"
        unfolding restart_index_loop.simps [of it "of_nat k"] suc num less using False by simp
      then show ?thesis using Suc.prems False by (metis not_less)
    next
      case more: True
      have "restart_index_loop it (of_nat k) = restart_index_loop it (of_nat (Suc k))"
        unfolding restart_index_loop.simps [of it "of_nat k"] suc num less using True more by simp
      then show ?thesis using Suc.hyps(1) [of "Suc k"] Suc.hyps(2) True more by simp
    qed
  qed
qed simp

lemma key_length: "length (fst (es ! i)) \<le> off r es (Suc i)"
proof (induction i)
  case 0
  show ?case using shared_at_le [of r es 0] by (simp add: off_Suc entry_at_def shared_at_def)
next
  case (Suc i)
  have "shared_at r es (Suc i) \<le> length (fst (es ! i))" using shared_loop_le by (simp add: shared_at_def)
  then show ?case using Suc shared_at_le [of r es "Suc i"] by (simp add: off_Suc [of r es "Suc i"] entry_at_def)
qed

lemma parse_entry:
  assumes f: "block_fits r es" and a: "ready r es i it" and i: "i < length es"
  shows "\<exists>it'. ParseNextKey it = (Ok, it') \<and> stands r es i it'"
proof -
  let ?sh = "shared_at r es i" and ?k = "fst (es ! i)" and ?v = "snd (es ! i)" and ?n = "length es"
  define it1 where "it1 = it\<lparr>bi_current := of_nat (off r es i)\<rparr>"
  have it: "iter_of r es it" "NextEntryOffset it = of_nat (off r es i)"
    using a by (auto simp: ready_def NextEntryOffset_def simp flip: of_nat_add split: prod.splits)
  have it1: "iter_of r es it1" "bi_key it1 = bi_key it" "bi_current it1 = of_nat (off r es i)"
    "bi_data it1 = block_bytes r es" "bi_restarts it1 = of_nat (off r es ?n)" "bi_restart_index it1 = bi_restart_index it"
    using it by (simp_all add: it1_def iter_of_def)
  have kl: "length ?k - ?sh + length ?v < 2 ^ 32" by (rule fits_bounds(5) [OF f i])
  have ends: "off r es (Suc i) \<le> off r es ?n" "off r es ?n < 2 ^ 32" using i fits_bounds(2) [OF f, of ?n] by simp_all
  have shk: "?sh \<le> length (bi_key it)" "take ?sh (bi_key it) = take ?sh ?k" using a i by (simp_all add: ready_def)
  obtain k0 where k0: "bi_restart_index it = of_nat k0" "k0 * r \<le> i" "k0 < restart_count r ?n"
    using a by (auto simp: ready_def intro: that [of "unat (bi_restart_index it)"])
  have sh32: "?sh < 2 ^ 32" using shared_at_le [of r es i] key_length [of es i r] ends by linarith
  obtain rest where rest: "drop (key_start r es i) (block_bytes r es) = drop ?sh ?k @ ?v @ rest"
    using data_at(2) [OF i] by blast
  have within: "key_start r es i + (length ?k - ?sh) \<le> length (block_bytes r es)"
    using key_start_end [of r es i] ends(1) data_at(3) [OF i, of r] by linarith
  have u: "unat (of_nat ?sh :: u32) = ?sh" "unat (of_nat (length ?k - ?sh) :: u32) = length ?k - ?sh"
    "unat (of_nat (length ?v) :: u32) = length ?v"
    using sh32 kl by (simp_all add: unat_of_nat)
  have more: "\<not> bi_restarts it1 \<le> bi_current it1"
    using off_word_less(2) [OF f, of ?n i] i by (simp add: it1)
  have dec: "DecodeEntry (bi_data it1) (unat (bi_current it1)) (unat (bi_restarts it1)) =
      Some (of_nat ?sh, of_nat (length ?k - ?sh), of_nat (length ?v), key_start r es i)"
    using DecodeEntry_reads [OF f i] i by (simp add: it1 off_unat [OF f])
  define it2 where "it2 = it1\<lparr>bi_key := ?k, bi_value := (key_start r es i + (length ?k - ?sh), length ?v)\<rparr>"
  have key: "take ?sh (bi_key it) @ take (length ?k - ?sh) (drop (key_start r es i) (block_bytes r es)) = ?k"
    using shk(2) rest by simp
  have "ParseNextKey it = (Ok, it2\<lparr>bi_restart_index := restart_index_loop it2 (bi_restart_index it2)\<rparr>)"
    unfolding ParseNextKey_def it(2) it1_def [symmetric] Let_def dec
    using more shk(1) within key by (simp add: u it1(2,4) it2_def)
  moreover have "iter_of r es it2" "bi_current it2 = of_nat (off r es i)" using it1 by (simp_all add: it2_def iter_of_def)
  from restart_loop [OF f this(1) i this(2) k0(2,3)] obtain k' where
    k': "restart_index_loop it2 (of_nat k0) = of_nat k'" "k' * r \<le> i" "i \<le> Suc k' * r" "k' < restart_count r ?n"
    by blast
  moreover have "unat (of_nat k' :: u32) = k'" using k'(4) by (intro count_unat [OF f]) simp
  ultimately have "stands r es i (it2\<lparr>bi_restart_index := restart_index_loop it2 (bi_restart_index it2)\<rparr>)"
    using it1 i k0(1) key_start_end [of r es i] by (simp add: stands_def it2_def iter_of_def)
  then show ?thesis using \<open>ParseNextKey it = _\<close> by blast
qed

lemma parse_end:
  assumes "block_fits r es" "ready r es (length es) it"
  shows "\<exists>it'. ParseNextKey it = (Fail, it') \<and> past_end r es it'"
proof -
  have "NextEntryOffset it = of_nat (off r es (length es))"
    using assms(2) by (auto simp: ready_def NextEntryOffset_def simp flip: of_nat_add split: prod.splits)
  then show ?thesis using assms(2) by (auto simp: ParseNextKey_def ready_def past_end_def iter_of_def bi_Valid_def)
qed

lemma stands_ready:
  assumes "stands r es i it"
  shows "ready r es (Suc i) it" "NextEntryOffset it = of_nat (off r es (Suc i))"
proof -
  have v: "length (snd (es ! i)) \<le> off r es (Suc i)" using key_start_end [of r es i] by linarith
  show "ready r es (Suc i) it"
    using assms v shared_loop_le shared_loop_take by (auto simp: stands_def ready_def shared_at_def)
  show "NextEntryOffset it = of_nat (off r es (Suc i))"
    using assms v by (simp add: stands_def NextEntryOffset_def del: of_nat_add, simp)
qed

lemma stands_valid:
  assumes "block_fits r es" "stands r es i it"
  shows "bi_Valid it" "bi_key it = fst (es ! i)" "bi_read_value it = Some (snd (es ! i))"
proof -
  have i: "i < length es" using assms(2) by (simp add: stands_def)
  then show "bi_Valid it"
    using assms off_word_less(1) [OF assms(1), of i "length es"] by (simp add: stands_def iter_of_def bi_Valid_def)
  show "bi_key it = fst (es ! i)" using assms(2) by (simp add: stands_def)
  let ?sh = "shared_at r es i" and ?k = "fst (es ! i)" and ?v = "snd (es ! i)"
  obtain rest where rest: "drop (key_start r es i) (block_bytes r es) = drop ?sh ?k @ ?v @ rest"
    using data_at(2) [OF i] by blast
  have p: "off r es (Suc i) - length ?v = key_start r es i + length (drop ?sh ?k)"
    using key_start_end [of r es i] by simp
  have "drop (off r es (Suc i) - length ?v) (block_bytes r es) = ?v @ rest"
    unfolding p using rest by (metis append_eq_conv_conj drop_drop add.commute)
  moreover have "off r es (Suc i) \<le> length (block_bytes r es)"
    using i data_at(3) [OF i, of r] off_less_iff(2) [of r es "Suc i" "length es"] by linarith
  moreover have "length ?v \<le> off r es (Suc i)" using p key_start_end [of r es i] by linarith
  ultimately show "bi_read_value it = Some ?v"
    using assms(2) by (simp add: stands_def iter_of_def bi_read_value_def)
qed

lemma seek_restart_ready:
  assumes "block_fits r es" "iter_of r es it" "k < restart_count r (length es)"
  shows "ready r es (k * r) (SeekToRestartPoint (of_nat k) it)"
proof -
  have kr: "k * r \<le> length es"
    using restart_count_bounds(2) [of r 0 "length es" k] fits_bounds(1) [OF assms(1)] assms(3)
    by (cases "es = []") (auto simp: restart_count_def)
  have "GetRestartPoint (it\<lparr>bi_key := [], bi_restart_index := of_nat k\<rparr>) (of_nat k) = of_nat (off r es (k * r))"
    using assms(2) by (intro restart_read [OF assms(1) _ _ assms(3)]) (simp_all add: iter_of_def)
  then show ?thesis
    using assms kr count_unat [OF assms(1), of k] by (simp add: SeekToRestartPoint_def ready_def iter_of_def shared_at_def)
qed

lemma new_iterator:
  assumes "block_fits r es"
  shows "\<exists>it. Block_NewIterator (new_Block (block_bytes r es)) = Block_iterator it \<and> past_end r es it"
proof -
  let ?b = "block_bytes r es" and ?m = "restart_count r (length es)"
  note len = fits_bounds(4) [OF assms]
  have "drop (length ?b - 4) ?b = EncodeFixed32 (of_nat ?m)"
    by (simp add: block_bytes_def restart_list_def)
  then have num: "NumRestarts \<lparr>bl_data = ?b, bl_size = length ?b, restart_offset = x\<rparr> = of_nat ?m" for x
    by (simp add: NumRestarts_def)
  have m: "unat (of_nat ?m :: u32) = ?m" by (rule count_unat [OF assms]) simp
  have m1: "unat (1 + of_nat ?m :: u32) = Suc ?m"
    using fits_bounds(3) [OF assms] unat_of_nat_lt [of "Suc ?m", where 'a = 32] by simp
  have "new_Block ?b = \<lparr>bl_data = ?b, bl_size = length ?b, restart_offset = of_nat (off r es (length es))\<rparr>"
    unfolding new_Block_def Let_def using num m m1 len by simp
  moreover have "(of_nat ?m :: u32) \<noteq> 0" using m by (metis restart_count_pos less_irrefl unat_0)
  ultimately show ?thesis
    using len num by (auto simp: Block_NewIterator_def new_Iter_def past_end_def iter_of_def bi_Valid_def)
qed

section \<open>Moves\<close>

lemma last_restart: "iter_of r es it \<Longrightarrow> bi_num_restarts it - 1 = of_nat (restart_count r (length es) - 1)"
  using restart_count_pos [of r "length es"] by (cases "restart_count r (length es)") (auto simp: iter_of_def)

lemma next_entry:
  assumes "block_fits r es" "stands r es i it"
  shows "\<exists>it'. bi_Next it = (Ok, it') \<and> (if Suc i < length es then stands r es (Suc i) it' else past_end r es it')"
proof (cases "Suc i < length es")
  case True
  then show ?thesis using parse_entry [OF assms(1) stands_ready(1) [OF assms(2)]] by (auto simp: bi_Next_def)
next
  case False
  then have "Suc i = length es" using assms(2) by (simp add: stands_def)
  then obtain it' where "ParseNextKey it = (Fail, it')" "past_end r es it'"
    using parse_end [OF assms(1), of it] stands_ready(1) [OF assms(2)] by auto
  then show ?thesis using \<open>Suc i = length es\<close> by (simp add: bi_Next_def)
qed

lemma seek_first:
  assumes "block_fits r es" "iter_of r es it"
  shows "\<exists>it'. bi_SeekToFirst it = (Ok, it') \<and> (if es = [] then past_end r es it' else stands r es 0 it')"
proof -
  have "ready r es 0 (SeekToRestartPoint 0 it)" using seek_restart_ready [OF assms, of 0] by simp
  then show ?thesis
    using parse_entry [OF assms(1), of 0] parse_end [OF assms(1)] by (cases "es = []") (fastforce simp: bi_SeekToFirst_def bi_Next_def)+
qed

lemma scan_to:
  "block_fits r es \<Longrightarrow> ready r es i it \<Longrightarrow> i \<le> j \<Longrightarrow> j < length es \<Longrightarrow> j - i < fuel \<Longrightarrow>
   \<exists>it'. scan_until fuel (of_nat (off r es (Suc j))) it = (Ok, it') \<and> stands r es j it'"
proof (induction fuel arbitrary: i it)
  case (Suc fuel)
  obtain it1 where it1: "ParseNextKey it = (Ok, it1)" "stands r es i it1"
    using parse_entry [OF Suc.prems(1,2)] Suc.prems(3,4) by auto
  have less: "NextEntryOffset it1 < of_nat (off r es (Suc j)) \<longleftrightarrow> i < j"
    using stands_ready(2) [OF it1(2)] off_word_less(1) [OF Suc.prems(1), of "Suc i" "Suc j"] Suc.prems(3,4) by simp
  show ?case
  proof (cases "i < j")
    case True
    then show ?thesis using Suc.IH [OF Suc.prems(1) stands_ready(1) [OF it1(2)]] Suc.prems(4,5) it1(1) less by simp
  next
    case False
    then have "i = j" using Suc.prems(3) by simp
    then show ?thesis using it1 less by simp
  qed
qed simp

lemma seek_last:
  assumes "block_fits r es" "iter_of r es it" "length es < fuel"
  shows "\<exists>it'. bi_SeekToLast fuel it = (Ok, it') \<and> (if es = [] then past_end r es it' else stands r es (length es - 1) it')"
proof -
  let ?m = "restart_count r (length es)"
  note k = last_restart [OF assms(2)]
  have a: "ready r es ((?m - 1) * r) (SeekToRestartPoint (of_nat (?m - 1)) it)"
    by (rule seek_restart_ready [OF assms(1,2)]) simp
  obtain f where f: "fuel = Suc f" using assms(3) by (cases fuel) auto
  show ?thesis
  proof (cases "es = []")
    case True
    then have "ready r es (length es) (SeekToRestartPoint (of_nat (?m - 1)) it)" using a by (simp add: restart_count_def)
    from parse_end [OF assms(1) this] show ?thesis using True by (auto simp: bi_SeekToLast_def k f)
  next
    case False
    have "(?m - 1) * r < length es"
      using restart_count_bounds(2) [of r 0 "length es" "?m - 1"] fits_bounds(1) [OF assms(1)] False by simp
    moreover have "bi_restarts it = of_nat (off r es (Suc (length es - 1)))" using assms(2) False by (simp add: iter_of_def)
    ultimately show ?thesis
      using scan_to [OF assms(1) a, of "length es - 1" fuel] assms(3) False unfolding bi_SeekToLast_def k by auto
  qed
qed

lemma prev_restart_before:
  assumes "block_fits r es" "iter_of r es it" "i < length es"
  shows "k < restart_count r (length es) \<Longrightarrow> prev_restart it (of_nat (off r es i)) k =
    (if i = 0 then None else prev_restart it (of_nat (off r es i)) k)
    \<and> (0 < i \<longrightarrow> (\<exists>k'. prev_restart it (of_nat (off r es i)) k = Some k' \<and> k' * r < i \<and> k' < restart_count r (length es)))"
proof (induction k)
  have read: "GetRestartPoint it (of_nat k) \<ge> of_nat (off r es i) \<longleftrightarrow> i \<le> k * r" if "k < restart_count r (length es)" for k
  proof -
    have "k * r < length es" using restart_count_bounds(2) [OF fits_bounds(1) [OF assms(1)] assms(3) that] .
    then show ?thesis
      using restart_read [OF assms(1) _ _ that, of it] assms off_word_less(2) [OF assms(1), of i "k * r"] by (simp add: iter_of_def)
  qed
  {
    case 0
    show ?case using read [of 0] by auto
  next
    case (Suc k)
    then show ?case using read [of "Suc k"] by (auto simp del: of_nat_Suc mult_Suc)
  }
qed

lemma prev_entry:
  assumes "block_fits r es" "stands r es i it" "length es < fuel"
  shows "\<exists>it'. bi_Prev fuel it = (Ok, it') \<and> (if i = 0 then past_end r es it' else stands r es (i - 1) it')"
proof -
  have it: "iter_of r es it" "i < length es" "bi_current it = of_nat (off r es i)"
    "unat (bi_restart_index it) < restart_count r (length es)"
    using assms(2) by (simp_all add: stands_def)
  note prev = prev_restart_before [OF assms(1) it(1,2,4)]
  show ?thesis
  proof (cases "i = 0")
    case True
    then show ?thesis using prev it by (auto simp: bi_Prev_def Let_def past_end_def iter_of_def bi_Valid_def)
  next
    case False
    then obtain k where k: "prev_restart it (of_nat (off r es i)) (unat (bi_restart_index it)) = Some k" "k * r < i"
        "k < restart_count r (length es)"
      using prev by auto
    have "k * r \<le> i - 1" "Suc (i - 1) = i" using k(2) by auto
    then show ?thesis
      using scan_to [OF assms(1) seek_restart_ready [OF assms(1) it(1) k(3)], of "i - 1" fuel] it(2,3) assms(3) k(1) False
      by (auto simp: bi_Prev_def Let_def)
  qed
qed

section \<open>Seek\<close>

lemma first_key:
  assumes "block_fits r es" "iter_of r es it" "k * r < length es"
  shows "DecodeEntry (bi_data it) (off r es (k * r)) (unat (bi_restarts it)) =
      Some (0, of_nat (length (fst (es ! (k * r)))), of_nat (length (snd (es ! (k * r)))), key_start r es (k * r))"
    "unat (of_nat (length (fst (es ! (k * r)))) :: u32) = length (fst (es ! (k * r)))"
    "key_start r es (k * r) + length (fst (es ! (k * r))) \<le> length (bi_data it)"
    "take (length (fst (es ! (k * r)))) (drop (key_start r es (k * r)) (bi_data it)) = fst (es ! (k * r))"
proof -
  have sh: "shared_at r es (k * r) = 0" by (simp add: shared_at_def)
  show "DecodeEntry (bi_data it) (off r es (k * r)) (unat (bi_restarts it)) =
      Some (0, of_nat (length (fst (es ! (k * r)))), of_nat (length (snd (es ! (k * r)))), key_start r es (k * r))"
    using DecodeEntry_reads [OF assms(1,3)] assms(1,2) sh by (simp add: iter_of_def)
  show "unat (of_nat (length (fst (es ! (k * r)))) :: u32) = length (fst (es ! (k * r)))"
    using fits_bounds(5) [OF assms(1,3)] sh by (simp add: unat_of_nat)
  have "off r es (Suc (k * r)) \<le> off r es (length es)" using assms(3) by simp
  then have "key_start r es (k * r) + length (fst (es ! (k * r))) \<le> length (block_bytes r es)"
    using key_start_end [of r es "k * r"] sh data_at(3) [OF assms(3), of r] by linarith
  then show "key_start r es (k * r) + length (fst (es ! (k * r))) \<le> length (bi_data it)"
    using assms(2) by (simp add: iter_of_def)
  obtain rest where "drop (key_start r es (k * r)) (block_bytes r es) = fst (es ! (k * r)) @ snd (es ! (k * r)) @ rest"
    using data_at(2) [OF assms(3), of r] sh by auto
  then show "take (length (fst (es ! (k * r)))) (drop (key_start r es (k * r)) (bi_data it)) = fst (es ! (k * r))"
    using assms(2) by (simp add: iter_of_def)
qed

lemma search_restart:
  assumes "block_fits r es" "iter_of r es it"
  shows "left \<le> right \<Longrightarrow> right < restart_count r (length es) \<Longrightarrow> right - left < fuel \<Longrightarrow>
    (0 < left \<longrightarrow> cmp (fst (es ! (left * r))) target < 0) \<Longrightarrow>
    \<exists>k. seek_search cmp target fuel (of_nat left) (of_nat right) it = (Ok, of_nat k, it)
      \<and> k < restart_count r (length es) \<and> (0 < k \<longrightarrow> cmp (fst (es ! (k * r))) target < 0)"
proof (induction fuel arbitrary: left right)
  case (Suc fuel)
  let ?m = "restart_count r (length es)"
  define mid where "mid = (left + right + 1) div 2"
  have m: "4 * ?m < 2 ^ 32" using fits_bounds(4) [OF assms(1)] assms(1) by (simp add: block_fits_def)
  have less: "(of_nat left :: u32) < of_nat right \<longleftrightarrow> left < right"
    using Suc.prems(1,2) m by (simp add: word_less_nat_alt unat_of_nat)
  show ?case
  proof (cases "left < right")
    case False
    then show ?thesis using Suc.prems less by (intro exI [of _ left]) simp
  next
    case True
    have mid: "left < mid" "mid \<le> right" using True by (auto simp: mid_def)
    have w: "(of_nat left + of_nat right + 1) div 2 = (of_nat mid :: u32)"
    proof -
      have "unat (of_nat left + of_nat right + 1 :: u32) = left + right + 1"
        using Suc.prems(1,2) m by (simp add: unat_word_ariths unat_of_nat)
      then show ?thesis
        using m mid(2) Suc.prems(2) by (simp add: word_unat_eq_iff unat_div unat_of_nat mid_def del: of_nat_div)
    qed
    have w1: "(of_nat mid - 1 :: u32) = of_nat (mid - 1)" using mid(1) by (cases mid) simp_all
    have km: "mid < ?m" using mid(2) Suc.prems(2) by simp
    have "0 < length es" using km mid(1) by (cases "es = []") (auto simp: restart_count_def)
    then have kr: "mid * r < length es" using restart_count_bounds(2) [OF fits_bounds(1) [OF assms(1)] _ km] by blast
    note key = first_key [OF assms kr]
    have gr: "GetRestartPoint it (of_nat mid) = of_nat (off r es (mid * r))"
      using restart_read [OF assms(1) _ _ km, of it] assms(2) by (simp add: iter_of_def)
    have u: "unat (of_nat (off r es (mid * r)) :: u32) = off r es (mid * r)" using kr by (intro off_unat [OF assms(1)]) simp
    have "seek_search cmp target (Suc fuel) (of_nat left) (of_nat right) it =
        (if cmp (fst (es ! (mid * r))) target < 0 then seek_search cmp target fuel (of_nat mid) (of_nat right) it
         else seek_search cmp target fuel (of_nat left) (of_nat (mid - 1)) it)"
      unfolding seek_search.simps Let_def w w1 gr u key(1) less using True key(2-4) by simp
    then show ?thesis
      using Suc.IH [of mid right] Suc.IH [of left "mid - 1"] Suc.prems mid km
      by (cases "cmp (fst (es ! (mid * r))) target < 0") auto
  qed
qed simp

lemma scan_seek:
  "block_fits r es \<Longrightarrow> ready r es i it \<Longrightarrow> length es - i < fuel \<Longrightarrow> \<forall>j < i. cmp (fst (es ! j)) target < 0 \<Longrightarrow>
   \<exists>it'. seek_scan cmp target fuel it = (Ok, it') \<and>
     ((\<exists>j < length es. stands r es j it' \<and> \<not> cmp (fst (es ! j)) target < 0 \<and> (\<forall>j' < j. cmp (fst (es ! j')) target < 0))
      \<or> past_end r es it' \<and> (\<forall>j < length es. cmp (fst (es ! j)) target < 0))"
proof (induction fuel arbitrary: i it)
  case (Suc fuel)
  have le: "i \<le> length es" using Suc.prems(2) by (simp add: ready_def)
  show ?case
  proof (cases "i = length es")
    case True
    then obtain it' where "ParseNextKey it = (Fail, it')" "past_end r es it'"
      using parse_end [OF Suc.prems(1), of it] Suc.prems(2) by auto
    then show ?thesis using Suc.prems(4) True by auto
  next
    case False
    then have i: "i < length es" using le by simp
    obtain it1 where it1: "ParseNextKey it = (Ok, it1)" "stands r es i it1"
      using parse_entry [OF Suc.prems(1,2) i] by auto
    have key: "bi_key it1 = fst (es ! i)" using it1(2) by (simp add: stands_def)
    show ?thesis
    proof (cases "cmp (fst (es ! i)) target < 0")
      case True
      then have "\<forall>j < Suc i. cmp (fst (es ! j)) target < 0" using Suc.prems(4) by (simp add: less_Suc_eq)
      moreover have "\<not> cmp (bi_key it1) target \<ge> 0" using True key by simp
      ultimately show ?thesis
        using Suc.IH [OF Suc.prems(1) stands_ready(1) [OF it1(2)]] Suc.prems(3) i it1(1) by simp
    next
      case False
      then show ?thesis using it1 key i Suc.prems(4) by auto
    qed
  qed
qed simp

text \<open>The keys below the target come first.\<close>

definition keys_fall :: "(slice \<Rightarrow> slice \<Rightarrow> int) \<Rightarrow> slice \<Rightarrow> kv list \<Rightarrow> bool" where
  "keys_fall cmp target es \<longleftrightarrow>
     (\<forall>i j. i < j \<longrightarrow> j < length es \<longrightarrow> cmp (fst (es ! j)) target < 0 \<longrightarrow> cmp (fst (es ! i)) target < 0)"

lemma seek_key:
  assumes "block_fits r es" "iter_of r es it" "length es < fuel"
    "keys_fall cmp target es"
  shows "\<exists>it'. bi_Seek cmp fuel target it = (Ok, it') \<and>
     ((\<exists>j < length es. stands r es j it' \<and> \<not> cmp (fst (es ! j)) target < 0 \<and> (\<forall>j' < j. cmp (fst (es ! j')) target < 0))
      \<or> past_end r es it' \<and> (\<forall>j < length es. cmp (fst (es ! j)) target < 0))"
proof -
  let ?m = "restart_count r (length es)"
  note num = last_restart [OF assms(2)]
  have "?m - 1 < fuel"
  proof (cases "es = []")
    case False
    then have "?m - 1 \<le> length es - 1" by (simp add: restart_count_def)
    then show ?thesis using assms(3) by simp
  qed (use assms(3) in \<open>simp add: restart_count_def\<close>)
  then have "\<exists>k. seek_search cmp target fuel (of_nat 0) (of_nat (?m - 1)) it = (Ok, of_nat k, it)
      \<and> k < ?m \<and> (0 < k \<longrightarrow> cmp (fst (es ! (k * r))) target < 0)"
    by (intro search_restart [OF assms(1,2)]) simp_all
  then obtain k where k0: "seek_search cmp target fuel (of_nat 0) (of_nat (?m - 1)) it = (Ok, of_nat k, it)" and k: "k < ?m"
      "0 < k \<longrightarrow> cmp (fst (es ! (k * r))) target < 0"
    by blast
  have k1: "seek_search cmp target fuel 0 (of_nat (?m - 1)) it = (Ok, of_nat k, it)" using k0 by (simp only: semiring_1_class.of_nat_0)
  have before: "\<forall>j < k * r. cmp (fst (es ! j)) target < 0"
  proof (intro allI impI)
    fix j assume j: "j < k * r"
    then have "0 < k" by (cases k) auto
    moreover from this have "es \<noteq> []" using k(1) by (auto simp: restart_count_def)
    ultimately have "0 < k" "es \<noteq> []" by simp_all
    then have "k * r < length es"
      using restart_count_bounds(2) [OF fits_bounds(1) [OF assms(1)], of 0 "length es" k] k(1) by simp
    then show "cmp (fst (es ! j)) target < 0" using assms(4) j k(2) \<open>0 < k\<close> unfolding keys_fall_def by blast
  qed
  have "length es - k * r < fuel" using assms(3) by linarith
  from scan_seek [where cmp = cmp and target = target, OF assms(1) seek_restart_ready [OF assms(1,2) k(1)] this before]
  show ?thesis unfolding bi_Seek_def num k1 by simp
qed

section \<open>What a client reads\<close>

text \<open>The entries that a client meets who steps while the iterator is valid.\<close>

fun collect :: "(block_iter \<Rightarrow> status \<times> block_iter) \<Rightarrow> nat \<Rightarrow> block_iter \<Rightarrow> kv list option" where
  "collect step 0 it = None"
| "collect step (Suc n) it =
     (if \<not> bi_Valid it then Some []
      else
        case (bi_read_value it, step it) of
          (Some v, (Ok, it')) \<Rightarrow> map_option (Cons (bi_key it, v)) (collect step n it')
        | _ \<Rightarrow> None)"

lemma collect_end: "past_end r es it \<Longrightarrow> 0 < n \<Longrightarrow> collect step n it = Some []"
  by (cases n) (simp_all add: past_end_def)

lemma collect_step:
  assumes "block_fits r es" "stands r es i it" "step it = (Ok, it')"
  shows "collect step (Suc n) it = map_option (Cons (es ! i)) (collect step n it')"
  using stands_valid [OF assms(1,2)] assms(3) by simp

lemma collect_forward:
  "block_fits r es \<Longrightarrow> stands r es i it \<Longrightarrow> length es - i < n \<Longrightarrow> collect bi_Next n it = Some (drop i es)"
proof (induction n arbitrary: i it)
  case (Suc n)
  have i: "i < length es" using Suc.prems(2) by (simp add: stands_def)
  obtain it' where it': "bi_Next it = (Ok, it')" "if Suc i < length es then stands r es (Suc i) it' else past_end r es it'"
    using next_entry [OF Suc.prems(1,2)] by blast
  have "collect bi_Next n it' = Some (drop (Suc i) es)"
    using Suc.IH [OF Suc.prems(1), of "Suc i" it'] Suc.prems(3) it'(2) i collect_end [of r es it' n]
    by (cases "Suc i < length es") auto
  then show ?case
    using collect_step [where step = bi_Next, OF Suc.prems(1,2) it'(1), of n] Cons_nth_drop_Suc [OF i] by simp
qed simp

lemma collect_backward:
  "block_fits r es \<Longrightarrow> stands r es i it \<Longrightarrow> length es < fuel \<Longrightarrow> Suc i < n \<Longrightarrow>
   collect (bi_Prev fuel) n it = Some (rev (take (Suc i) es))"
proof (induction n arbitrary: i it)
  case (Suc n)
  have i: "i < length es" using Suc.prems(2) by (simp add: stands_def)
  obtain it' where it': "bi_Prev fuel it = (Ok, it')" "if i = 0 then past_end r es it' else stands r es (i - 1) it'"
    using prev_entry [OF Suc.prems(1,2,3)] by blast
  have "collect (bi_Prev fuel) n it' = Some (rev (take i es))"
    using Suc.IH [OF Suc.prems(1), of "i - 1" it'] Suc.prems(3,4) it'(2) collect_end [of r es it' n] by (cases i) auto
  then show ?case
    using collect_step [where step = "bi_Prev fuel", OF Suc.prems(1,2) it'(1), of n] i by (simp add: take_Suc_conv_app_nth)
qed simp

lemma sorted_tail:
  assumes "keys_fall cmp target es"
    "j \<le> length es" "j < length es \<longrightarrow> \<not> cmp (fst (es ! j)) target < 0" "\<forall>j' < j. cmp (fst (es ! j')) target < 0"
  shows "filter (\<lambda>e. \<not> cmp (fst e) target < 0) es = drop j es"
proof -
  have "filter (\<lambda>e. \<not> cmp (fst e) target < 0) (take j es) = []"
    using assms(2,4) by (auto simp: filter_empty_conv in_set_conv_nth) (metis fst_conv)
  moreover have "\<not> cmp (fst e) target < 0" if "e \<in> set (drop j es)" for e
  proof -
    obtain i where "i < length (drop j es)" "e = drop j es ! i" using \<open>e \<in> set (drop j es)\<close> by (metis in_set_conv_nth)
    then have i: "j + i < length es" "e = es ! (j + i)" using assms(2) by simp_all
    then show ?thesis using assms(1) assms(3) unfolding keys_fall_def by (cases i) (auto, metis add_Suc_right less_add_Suc1)
  qed
  then have "filter (\<lambda>e. \<not> cmp (fst e) target < 0) (drop j es) = drop j es" by (simp add: filter_id_conv)
  ultimately show ?thesis by (metis append_Nil append_take_drop_id filter_append)
qed

section \<open>Any bytes\<close>

text \<open>On any contents an entry moves forward, so that every loop ends.\<close>

lemma DecodeEntry_forward:
  assumes "DecodeEntry data p limit = Some (sh, ns, vl, q)" "limit \<le> length data" "limit < 2 ^ 32"
  shows "p + 3 \<le> q" "q + unat (ns + vl) \<le> limit"
proof -
  have l: "p + 3 \<le> limit" using assms(1) by (auto simp: DecodeEntry_def split: if_splits)
  have shorter: "length q < length p" if "GetVarint32Ptr p = Some (v, q)" for p v q
    using that GetVarint_consumes(1) [of p] by (auto simp: GetVarint32_def consumes_def)
  let ?bs = "drop p (take limit data)"
  obtain b1 b2 b3 where b: "GetVarint32Ptr ?bs = Some (sh, b1)" "GetVarint32Ptr b1 = Some (ns, b2)" "GetVarint32Ptr b2 = Some (vl, b3)"
      "\<not> (of_nat (length b3) :: u32) < ns + vl" "q = limit - length b3"
    using assms(1) unfolding DecodeEntry_varints [OF l assms(2)] by (auto split: option.splits if_splits)
  have len: "length b3 + 3 \<le> limit - p"
    using shorter [OF b(1)] shorter [OF b(2)] shorter [OF b(3)] assms(2) by simp
  then show "p + 3 \<le> q" using b(5) l by simp
  have "unat (of_nat (length b3) :: u32) = length b3" using len assms(3) by (intro unat_of_nat_lt) simp
  then have "unat (ns + vl) \<le> length b3" using b(4) by (simp add: word_less_nat_alt not_less)
  then show "q + unat (ns + vl) \<le> limit" using b(5) len by simp
qed

definition sound_iter :: "slice \<Rightarrow> block_iter \<Rightarrow> bool" where
  "sound_iter data it \<longleftrightarrow> bi_data it = data \<and> length data < 2 ^ 32
     \<and> unat (bi_restarts it) + unat (bi_num_restarts it) * 4 + 4 \<le> length data \<and> 0 < unat (bi_num_restarts it)"

lemma sound_new: "length data < 2 ^ 32 \<Longrightarrow> Block_NewIterator (new_Block data) = Block_iterator it \<Longrightarrow> sound_iter data it"
proof -
  assume l: "length data < 2 ^ 32" and it: "Block_NewIterator (new_Block data) = Block_iterator it"
  define num where "num = DecodeFixed32 (drop (length data - 4) data)"
  have num: "NumRestarts \<lparr>bl_data = data, bl_size = length data, restart_offset = x\<rparr> = num" for x
    by (simp add: NumRestarts_def num_def)
  have ok: "4 \<le> length data" "unat num \<le> (length data - 4) div 4" "num \<noteq> 0"
    "it = new_Iter data (of_nat (length data - unat (1 + num) * 4)) num"
    using it num by (auto simp: new_Block_def Block_NewIterator_def Let_def split: if_splits)
  have "unat num + 1 < 2 ^ 32" using ok(2) l by simp
  then have n1: "unat (1 + num) = Suc (unat num)" by (simp add: unat_word_ariths)
  have "unat num * 4 \<le> length data - 4" using ok(2) by (simp add: mult.commute less_eq_div_iff_mult_less_eq)
  then have "unat (of_nat (length data - unat (1 + num) * 4) :: u32) = length data - unat num * 4 - 4"
    using l n1 by (simp add: unat_of_nat)
  then show "sound_iter data it"
    using ok l \<open>unat num * 4 \<le> length data - 4\<close> by (simp add: sound_iter_def new_Iter_def unat_gt_0)
qed

lemma parse_forward:
  assumes "sound_iter data it" "ParseNextKey it = (st, it')"
  shows "st \<noteq> Diverge" "sound_iter data it'"
    "st = Ok \<Longrightarrow> unat (NextEntryOffset it) < unat (NextEntryOffset it') \<and> unat (NextEntryOffset it) < unat (bi_restarts it)
       \<and> unat (NextEntryOffset it') \<le> unat (bi_restarts it)"
    "bi_restarts it' = bi_restarts it" "bi_num_restarts it' = bi_num_restarts it"
proof -
  let ?p = "unat (NextEntryOffset it)" and ?lim = "unat (bi_restarts it)"
  show "st \<noteq> Diverge" "sound_iter data it'" "bi_restarts it' = bi_restarts it" "bi_num_restarts it' = bi_num_restarts it"
    using assms by (auto simp: ParseNextKey_def Let_def CorruptionError_def sound_iter_def split: if_splits option.splits)
  assume "st = Ok"
  then obtain sh ns vl q where d: "\<not> bi_restarts it \<le> NextEntryOffset it" "DecodeEntry data ?p ?lim = Some (sh, ns, vl, q)"
      "bi_value it' = (q + unat ns, unat vl)" "q + unat ns \<le> length data"
    using assms by (auto simp: ParseNextKey_def Let_def sound_iter_def split: if_splits option.splits)
  have lim: "?lim \<le> length data" "?lim < 2 ^ 32" using assms(1) by (auto simp: sound_iter_def)
  note f = DecodeEntry_forward [OF d(2) lim]
  have "NextEntryOffset it' = of_nat q + (ns + vl)" by (simp add: NextEntryOffset_def d(3) add.assoc)
  then have "unat (NextEntryOffset it') = q + unat (ns + vl)"
    using f lim by (simp add: unat_word_ariths(1) [of "of_nat q" "ns + vl"] unat_of_nat)
  then show "?p < unat (NextEntryOffset it') \<and> ?p < ?lim \<and> unat (NextEntryOffset it') \<le> ?lim"
    using f d(1) by (simp add: word_le_nat_alt not_le)
qed

lemma scan_until_ends:
  "sound_iter data it \<Longrightarrow> unat (bi_restarts it) - unat (NextEntryOffset it) < fuel \<Longrightarrow> fst (scan_until fuel bound it) \<noteq> Diverge"
proof (induction fuel arbitrary: it)
  case (Suc fuel)
  obtain st it' where p: "ParseNextKey it = (st, it')" by fastforce
  note f = parse_forward [OF Suc.prems(1) p]
  show ?case
  proof (cases "st = Ok")
    case True
    have "unat (bi_restarts it') - unat (NextEntryOffset it') < fuel" using f(3,4) True Suc.prems(2) by auto
    then show ?thesis using Suc.IH [OF f(2)] p True by simp
  qed (use p f(1) in auto)
qed simp

lemma seek_scan_ends:
  "sound_iter data it \<Longrightarrow> unat (bi_restarts it) - unat (NextEntryOffset it) < fuel \<Longrightarrow> fst (seek_scan cmp target fuel it) \<noteq> Diverge"
proof (induction fuel arbitrary: it)
  case (Suc fuel)
  obtain st it' where p: "ParseNextKey it = (st, it')" by fastforce
  note f = parse_forward [OF Suc.prems(1) p]
  show ?case
  proof (cases "st = Ok")
    case True
    have "unat (bi_restarts it') - unat (NextEntryOffset it') < fuel" using f(3,4) True Suc.prems(2) by auto
    then show ?thesis using Suc.IH [OF f(2)] p True by simp
  qed (use p f(1) in auto)
qed simp

lemma sound_restart: "sound_iter data it \<Longrightarrow> sound_iter data (SeekToRestartPoint k it)"
  by (simp add: sound_iter_def SeekToRestartPoint_def Let_def)

lemma sound_fuel: "sound_iter data it \<Longrightarrow> length data \<le> fuel \<Longrightarrow> unat (bi_restarts it) - n < fuel"
  by (auto simp: sound_iter_def)

lemma search_ends:
  "sound_iter data it \<Longrightarrow> left \<le> right \<Longrightarrow> right < unat (bi_num_restarts it) \<Longrightarrow> right - left < fuel \<Longrightarrow>
   case seek_search cmp target fuel (of_nat left) (of_nat right) it of (st, _, it') \<Rightarrow> st \<noteq> Diverge \<and> sound_iter data it'"
proof (induction fuel arbitrary: left right)
  case (Suc fuel)
  define mid where "mid = (left + right + 1) div 2"
  have n: "right < 2 ^ 30" using Suc.prems(1,3) by (simp add: sound_iter_def)
  have less: "(of_nat left :: u32) < of_nat right \<longleftrightarrow> left < right"
    using Suc.prems(2) n by (simp add: word_less_nat_alt unat_of_nat)
  show ?case
  proof (cases "left < right")
    case False
    then show ?thesis using Suc.prems(1) less by simp
  next
    case True
    have mid: "left < mid" "mid \<le> right" using True by (auto simp: mid_def)
    have w: "(of_nat left + of_nat right + 1) div 2 = (of_nat mid :: u32)"
    proof -
      have "unat (of_nat left + of_nat right + 1 :: u32) = left + right + 1"
        using Suc.prems(2) n by (simp add: unat_word_ariths unat_of_nat)
      then show ?thesis using mid(2) n by (simp add: word_unat_eq_iff unat_div unat_of_nat mid_def del: of_nat_div)
    qed
    have w1: "(of_nat mid - 1 :: u32) = of_nat (mid - 1)" using mid(1) by (cases mid) simp_all
    have c: "sound_iter data (CorruptionError it)" using Suc.prems(1) by (simp add: CorruptionError_def sound_iter_def)
    show ?thesis
      unfolding seek_search.simps Let_def w w1 less
      using True Suc.prems mid c Suc.IH [OF Suc.prems(1), of mid right] Suc.IH [OF Suc.prems(1), of left "mid - 1"]
      by (auto split: option.splits)
  qed
qed simp

section \<open>Properties\<close>


definition three_entries :: "kv list" where
  "three_entries = [([0x61, 0x62], [1]), ([0x61, 0x63], []), ([0x61, 0x63, 0x64], [2, 3])]"

lemma three_bytes: "fst (BlockBuilder_Finish (add_block three_entries (new_BlockBuilder (int 2)))) =
    [0, 2, 1, 0x61, 0x62, 1, 1, 1, 0, 0x63, 0, 3, 2, 0x61, 0x63, 0x64, 2, 3, 0, 0, 0, 0, 10, 0, 0, 0, 2, 0, 0, 0]"
  by code_simp


text \<open>
  C10: In a block of entries in the order of the bytewise comparator, \<open>Seek\<close> ends at the first entry
  at or above the target, by binary search among the restart points: what follows it are exactly the
  entries that are not below the target.
\<close>

theorem block_seek:
  assumes "sorted_wrt (\<lambda>a b. Bytewise_Compare (fst a) (fst b) < 0) es" "0 < r"
    "length (fst (BlockBuilder_Finish (add_block es (new_BlockBuilder (int r))))) < 2 ^ 32" "length es < fuel"
  shows "\<exists>it found. Block_NewIterator (new_Block (fst (BlockBuilder_Finish (add_block es (new_BlockBuilder (int r))))))
        = Block_iterator it
    \<and> bi_Seek Bytewise_Compare fuel target it = (Ok, found) \<and> bi_status found = OK
    \<and> collect bi_Next fuel found = Some (filter (\<lambda>e. \<not> Bytewise_Compare (fst e) target < 0) es)"
proof -
  note b = builder_writes [OF assms(2), of es]
  have f: "block_fits r es" using assms(2,3) b(1) by (simp add: block_fits_def)
  obtain it where it: "Block_NewIterator (new_Block (block_bytes r es)) = Block_iterator it" "iter_of r es it"
    using new_iterator [OF f] by (auto simp: past_end_def)
  have falls: "keys_fall Bytewise_Compare target es"
    unfolding keys_fall_def
  proof (intro allI impI)
    fix i j assume "i < j" "j < length es" "Bytewise_Compare (fst (es ! j)) target < 0"
    then show "Bytewise_Compare (fst (es ! i)) target < 0"
      using assms(1) bytewise.cmp_trans [of "fst (es ! i)" "fst (es ! j)" target] by (auto simp: sorted_wrt_iff_nth_less)
  qed
  obtain x where x: "bi_Seek Bytewise_Compare fuel target it = (Ok, x)"
      "(\<exists>j < length es. stands r es j x \<and> \<not> Bytewise_Compare (fst (es ! j)) target < 0
          \<and> (\<forall>j' < j. Bytewise_Compare (fst (es ! j')) target < 0))
        \<or> past_end r es x \<and> (\<forall>j < length es. Bytewise_Compare (fst (es ! j)) target < 0)"
    using seek_key [OF f it(2) assms(4) falls] by blast
  from x(2) have "bi_status x = OK \<and> collect bi_Next fuel x = Some (filter (\<lambda>e. \<not> Bytewise_Compare (fst e) target < 0) es)"
  proof (elim disjE exE conjE)
    fix j assume j: "j < length es" "stands r es j x" "\<not> Bytewise_Compare (fst (es ! j)) target < 0"
      "\<forall>j' < j. Bytewise_Compare (fst (es ! j')) target < 0"
    have "filter (\<lambda>e. \<not> Bytewise_Compare (fst e) target < 0) es = drop j es"
      using j by (intro sorted_tail [OF falls]) auto
    then show ?thesis using j(2) collect_forward [OF f j(2), of fuel] assms(4) by (auto simp: stands_def iter_of_def)
  next
    assume p: "past_end r es x" "\<forall>j < length es. Bytewise_Compare (fst (es ! j)) target < 0"
    have "filter (\<lambda>e. \<not> Bytewise_Compare (fst e) target < 0) es = []"
      using p(2) by (auto simp: filter_empty_conv in_set_conv_nth) (metis fst_conv)
    then show ?thesis using p(1) collect_end [OF p(1), of fuel] assms(4) by (simp add: past_end_def iter_of_def)
  qed
  then show ?thesis unfolding b using it x(1) by blast
qed

theorem block_seek_witness:
  "\<exists>it found. Block_NewIterator (new_Block [0, 2, 1, 0x61, 0x62, 1, 1, 1, 0, 0x63, 0, 3, 2, 0x61, 0x63, 0x64, 2, 3,
       0, 0, 0, 0, 10, 0, 0, 0, 2, 0, 0, 0]) = Block_iterator it
     \<and> bi_Seek Bytewise_Compare 10 [0x61, 0x63, 0x61] it = (Ok, found)
     \<and> collect bi_Next 10 found = Some [([0x61, 0x63, 0x64], [2, 3])]"
proof -
  have s: "sorted_wrt (\<lambda>a b. Bytewise_Compare (fst a) (fst b) < 0) three_entries"
    by (simp add: three_entries_def Bytewise_Compare_def compare_less)
  have l: "filter (\<lambda>e. \<not> Bytewise_Compare (fst e) [0x61, 0x63, 0x61] < 0) three_entries = [([0x61, 0x63, 0x64], [2, 3])]"
    by (simp add: three_entries_def Bytewise_Compare_def compare_less)
  have "length three_entries < 10" by (simp add: three_entries_def)
  then show ?thesis using block_seek [OF s, of 2 10 "[0x61, 0x63, 0x61]"] unfolding three_bytes l by auto
qed

text \<open>
  C12: On any contents below four gigabytes, however corrupt, no operation of the iterator loops: with
  the size of the block as fuel each returns, or reads out of bounds.
\<close>

theorem block_iterator_ends:
  assumes "Block_NewIterator (new_Block data) = Block_iterator it" "length data < 2 ^ 32" "length data \<le> fuel"
  shows "fst (bi_SeekToFirst it) \<noteq> Diverge \<and> fst (bi_SeekToLast fuel it) \<noteq> Diverge \<and> fst (bi_Seek cmp fuel target it) \<noteq> Diverge
    \<and> (\<forall>it'. sound_iter data it' \<longrightarrow> fst (bi_Next it') \<noteq> Diverge \<and> fst (bi_Prev fuel it') \<noteq> Diverge
        \<and> sound_iter data (snd (bi_Next it')))"
proof -
  have s: "sound_iter data it" by (rule sound_new [OF assms(2,1)])
  have next_ends: "fst (bi_Next it') \<noteq> Diverge \<and> sound_iter data (snd (bi_Next it'))" if "sound_iter data it'" for it'
  proof -
    obtain st it2 where p: "ParseNextKey it' = (st, it2)" by fastforce
    then show ?thesis using parse_forward(1,2) [OF that p] by (simp add: bi_Next_def)
  qed
  have prev: "fst (bi_Prev fuel it') \<noteq> Diverge" if "sound_iter data it'" for it'
    using scan_until_ends [OF sound_restart [OF that] sound_fuel [OF sound_restart [OF that] assms(3)]]
    by (auto simp: bi_Prev_def Let_def split: option.split)
  have "fst (bi_Seek cmp fuel target it) \<noteq> Diverge"
  proof -
    define n where "n = unat (bi_num_restarts it) - 1"
    have n: "n < unat (bi_num_restarts it)" "n < fuel" using s assms(3) by (auto simp: sound_iter_def n_def)
    have "of_nat (Suc n) = bi_num_restarts it" using n(1) by (simp add: n_def del: of_nat_Suc)
    then have "bi_num_restarts it - 1 = of_nat n" by (metis add_diff_cancel_right' of_nat_Suc add.commute)
    then have "case seek_search cmp target fuel 0 (bi_num_restarts it - 1) it of (st, _, it') \<Rightarrow> st \<noteq> Diverge \<and> sound_iter data it'"
      using search_ends [OF s, of 0 n fuel cmp target] n by simp
    then obtain st k it' where k: "seek_search cmp target fuel 0 (bi_num_restarts it - 1) it = (st, k, it')"
        "st \<noteq> Diverge" "sound_iter data it'"
      by (auto split: prod.splits)
    then show ?thesis
      using seek_scan_ends [OF sound_restart [OF k(3)] sound_fuel [OF sound_restart [OF k(3)] assms(3)]]
      by (cases st) (simp_all add: bi_Seek_def)
  qed
  then show ?thesis
    using next_ends prev s sound_restart [OF s]
      scan_until_ends [OF sound_restart [OF s] sound_fuel [OF sound_restart [OF s] assms(3)]]
    by (simp add: bi_SeekToFirst_def bi_SeekToLast_def)
qed

theorem block_iterator_ends_witness:
  "\<exists>it. Block_NewIterator (new_Block [0xff, 0, 0, 0, 0, 1, 0, 0, 0]) = Block_iterator it
     \<and> fst (bi_SeekToLast 9 it) \<noteq> Diverge \<and> fst (bi_Seek Bytewise_Compare 9 [1] it) \<noteq> Diverge"
proof -
  have "Block_NewIterator (new_Block [0xff, 0, 0, 0, 0, 1, 0, 0, 0]) = Block_iterator (new_Iter [0xff, 0, 0, 0, 0, 1, 0, 0, 0] 1 1)"
    by (simp add: new_Block_def Block_NewIterator_def NumRestarts_def DecodeFixed32_def)
  then show ?thesis using block_iterator_ends [of _ _ 9] by fastforce
qed

text \<open>
  The check of an entry adds its two lengths as 32-bit numbers: an entry whose key length is
  \<open>2 ^ 32 - 1\<close> and value length 1 passes it, and the key is read past the end of the block.
\<close>

theorem block_length_wraps:
  "\<exists>it. Block_NewIterator (new_Block [0, 0xff, 0xff, 0xff, 0xff, 0x0f, 1, 0, 0, 0, 0, 1, 0, 0, 0]) = Block_iterator it
     \<and> fst (bi_SeekToFirst it) = Undef"
  by (simp add: new_Block_def Block_NewIterator_def NumRestarts_def DecodeFixed32_def bi_SeekToFirst_def bi_Next_def
      SeekToRestartPoint_def GetRestartPoint_def ParseNextKey_def DecodeEntry_def NextEntryOffset_def new_Iter_def
      GetVarint32Ptr_def GetVarint32PtrFallback_def Let_def)

end
