(* ===== verification/LdbTableFormat.thy ===== *)
theory LdbTableFormat
  imports LdbBlock LdbCrc32c LdbEnv
begin

text \<open>
  Where blocks are in a table and how they are read from its file: block handles, the footer and
  \<open>ReadBlock\<close> of \<open>table/format.cc\<close>, over the interface \<open>RandomAccessFile\<close> of \<open>env.h\<close> and the two
  classes of \<open>util/env_posix.cc\<close> that implement it.
\<close>

section \<open>Random access files\<close>

text \<open>
  \<open>file_read f offset n\<close> returns a status, the bytes, and whether they are in the scratch buffer of
  the caller; \<open>None\<close> is a slice that points outside of the file. Within the file a read succeeds.
\<close>

locale random_access_file =
  fixes file_read :: "'f \<Rightarrow> u64 \<Rightarrow> u64 \<Rightarrow> (ldb_status \<times> slice \<times> bool) option"
    and contents :: "'f \<Rightarrow> slice"
    and works :: "'f \<Rightarrow> bool"
  assumes read_inside: "works f \<Longrightarrow> unat offset + unat n \<le> length (contents f) \<Longrightarrow>
      \<exists>in_scratch. file_read f offset n = Some (OK, take (unat n) (drop (unat offset) (contents f)), in_scratch)"

text \<open>
  A file that is read with \<open>pread\<close>: its bytes, whether it is opened for every read, what \<open>strerror\<close>
  says when that fails, if it does, and from which offset on the device fails and with what text.
\<close>

record pread_file =
  pr_filename :: slice
  temporary_fd :: bool
  open_error :: "slice option"
  pr_bytes :: slice
  pr_bad :: "nat option"
  pr_error :: slice

text \<open>\<open>pread\<close> fails on a negative offset and when nothing can be read before a bad part of the device.\<close>

definition pread :: "pread_file \<Rightarrow> u64 \<Rightarrow> u64 \<Rightarrow> slice option" where
  "pread f n offset =
     (let good = (case pr_bad f of None \<Rightarrow> length (pr_bytes f) | Some b \<Rightarrow> min b (length (pr_bytes f)));
          data = take (unat n) (drop (unat offset) (take good (pr_bytes f))) in
      if sint offset < 0 \<or> data = [] \<and> 0 < unat n \<and> unat offset < length (pr_bytes f) then None else Some data)"

definition PosixRandomAccessFile_Read :: "pread_file \<Rightarrow> u64 \<Rightarrow> u64 \<Rightarrow> (ldb_status \<times> slice \<times> bool) option" where
  "PosixRandomAccessFile_Read f offset n =
     (if temporary_fd f \<and> open_error f \<noteq> None then Some (IOError (pr_filename f) (the (open_error f)), [], True)
      else
        case pread f n offset of
          None \<Rightarrow> Some (IOError (pr_filename f) (pr_error f), [], True)
        | Some data \<Rightarrow> Some (OK, data, True))"

record mmap_file =
  mm_filename :: slice
  mmapped_region :: slice

text \<open>The sum of the offset and the length is a \<open>uint64_t\<close>.\<close>

definition PosixMmapReadableFile_Read :: "mmap_file \<Rightarrow> u64 \<Rightarrow> u64 \<Rightarrow> (ldb_status \<times> slice \<times> bool) option" where
  "PosixMmapReadableFile_Read f offset n =
     (if offset + n > of_nat (length (mmapped_region f))
      then Some (IOError (mm_filename f) (cstr ''Invalid argument''), [], False)
      else if unat offset + unat n > length (mmapped_region f) then None
      else Some (OK, take (unat n) (drop (unat offset) (mmapped_region f)), False))"

definition pread_works :: "pread_file \<Rightarrow> bool" where
  "pread_works f \<longleftrightarrow> \<not> (temporary_fd f \<and> open_error f \<noteq> None) \<and> pr_bad f = None \<and> length (pr_bytes f) < 2 ^ 63"

interpretation posix_pread: random_access_file PosixRandomAccessFile_Read pr_bytes pread_works
proof unfold_locales
  fix f :: pread_file and offset n :: u64
  assume w: "pread_works f" and n: "unat offset + unat n \<le> length (pr_bytes f)"
  then have "unat offset < 2 ^ 63" by (simp add: pread_works_def)
  then have "\<not> sint offset < 0" using sint_of_nat [of offset] by simp
  moreover have "take (unat n) (drop (unat offset) (pr_bytes f)) = [] \<Longrightarrow> \<not> (0 < unat n \<and> unat offset < length (pr_bytes f))"
    by auto
  ultimately have "pread f n offset = Some (take (unat n) (drop (unat offset) (pr_bytes f)))"
    using w by (auto simp: pread_def pread_works_def Let_def)
  then show "\<exists>in_scratch. PosixRandomAccessFile_Read f offset n =
      Some (OK, take (unat n) (drop (unat offset) (pr_bytes f)), in_scratch)"
    using w by (auto simp: PosixRandomAccessFile_Read_def pread_works_def)
qed

interpretation posix_mmap: random_access_file PosixMmapReadableFile_Read mmapped_region
  "\<lambda>f. length (mmapped_region f) < 2 ^ 63"
proof unfold_locales
  fix f :: mmap_file and offset n :: u64
  assume w: "length (mmapped_region f) < 2 ^ 63" and n: "unat offset + unat n \<le> length (mmapped_region f)"
  then have "unat (offset + n) = unat offset + unat n" by (simp add: unat_word_ariths)
  moreover have "unat (of_nat (length (mmapped_region f)) :: u64) = length (mmapped_region f)"
    using w by (simp add: unat_of_nat)
  ultimately have "\<not> offset + n > of_nat (length (mmapped_region f))" using n by (simp add: word_less_nat_alt)
  then show "\<exists>in_scratch. PosixMmapReadableFile_Read f offset n =
      Some (OK, take (unat n) (drop (unat offset) (mmapped_region f)), in_scratch)"
    using n by (intro exI [of _ False]) (simp add: PosixMmapReadableFile_Read_def)
qed

section \<open>Handles and the footer\<close>

record block_handle =
  bh_offset :: u64
  bh_size :: u64

definition new_BlockHandle :: block_handle where
  "new_BlockHandle = \<lparr>bh_offset = NOT 0, bh_size = NOT 0\<rparr>"

definition BlockHandle_EncodeTo :: "block_handle \<Rightarrow> slice \<Rightarrow> slice" where
  "BlockHandle_EncodeTo h dst = PutVarint64 (PutVarint64 dst (bh_offset h)) (bh_size h)"

definition BlockHandle_DecodeFrom :: "block_handle \<Rightarrow> slice \<Rightarrow> ldb_status \<times> block_handle \<times> slice" where
  "BlockHandle_DecodeFrom h input =
     (case GetVarint64 input of
        None \<Rightarrow> (Corruption (cstr ''bad block handle'') [], h, input)
      | Some (ofs, input) \<Rightarrow>
          let h = h\<lparr>bh_offset := ofs\<rparr> in
          (case GetVarint64 input of
             None \<Rightarrow> (Corruption (cstr ''bad block handle'') [], h, input)
           | Some (sz, input) \<Rightarrow> (OK, h\<lparr>bh_size := sz\<rparr>, input)))"

definition kMaxEncodedLength :: nat where
  "kMaxEncodedLength = 10 + 10"

definition kEncodedLength :: nat where
  "kEncodedLength = 2 * kMaxEncodedLength + 8"

definition kTableMagicNumber :: u64 where
  "kTableMagicNumber = 0xdb4775248b80fb57"

record footer =
  metaindex_handle :: block_handle
  index_handle :: block_handle

definition new_Footer :: footer where
  "new_Footer = \<lparr>metaindex_handle = new_BlockHandle, index_handle = new_BlockHandle\<rparr>"

definition resize :: "nat \<Rightarrow> slice \<Rightarrow> slice" where
  "resize n s = take n s @ replicate (n - length s) 0"

definition Footer_EncodeTo :: "footer \<Rightarrow> slice \<Rightarrow> slice" where
  "Footer_EncodeTo f dst =
     (let dst = BlockHandle_EncodeTo (metaindex_handle f) dst;
          dst = BlockHandle_EncodeTo (index_handle f) dst;
          dst = resize (2 * kMaxEncodedLength) dst;
          dst = PutFixed32 dst (ucast (kTableMagicNumber AND 0xffffffff)) in
      PutFixed32 dst (ucast (drop_bit 32 kTableMagicNumber)))"

text \<open>\<open>None\<close> is a read past the end of \<open>input\<close>, which must have the length of a footer.\<close>

definition Footer_DecodeFrom :: "footer \<Rightarrow> slice \<Rightarrow> (ldb_status \<times> footer \<times> slice) option" where
  "Footer_DecodeFrom f input =
     (if length input < kEncodedLength then None
      else
        let magic_lo = DecodeFixed32 (drop (kEncodedLength - 8) input);
            magic_hi = DecodeFixed32 (drop (kEncodedLength - 8 + 4) input);
            magic = push_bit 32 (ucast magic_hi) OR ucast magic_lo in
        if magic \<noteq> kTableMagicNumber
        then Some (Corruption (cstr ''not an sstable (bad magic number)'') [], f, input)
        else
          let (s, h, rest) = BlockHandle_DecodeFrom (metaindex_handle f) input;
              f = f\<lparr>metaindex_handle := h\<rparr> in
          if \<not> ok s then Some (s, f, rest)
          else
            let (s, h, rest) = BlockHandle_DecodeFrom (index_handle f) rest;
                f = f\<lparr>index_handle := h\<rparr> in
            if \<not> ok s then Some (s, f, rest) else Some (s, f, drop kEncodedLength input))"

section \<open>Reading a block\<close>

text \<open>Snappy is not linked into the pods: the functions of \<open>port/port_posix.h\<close> return false.\<close>

definition kNoCompression :: u8 where "kNoCompression = 0"
definition kSnappyCompression :: u8 where "kSnappyCompression = 1"

definition Snappy_Compress :: "slice \<Rightarrow> slice option" where
  "Snappy_Compress input = None"

definition Snappy_GetUncompressedLength :: "slice \<Rightarrow> nat option" where
  "Snappy_GetUncompressedLength input = None"

definition Snappy_Uncompress :: "slice \<Rightarrow> slice option" where
  "Snappy_Uncompress input = None"

definition kBlockTrailerSize :: nat where
  "kBlockTrailerSize = 5"

record block_contents =
  bc_data :: slice
  cachable :: bool
  heap_allocated :: bool

text \<open>\<open>None\<close> is a read past the end of the buffer, whose size is a \<open>size_t\<close> and may have wrapped.\<close>

definition ReadBlock ::
    "('f \<Rightarrow> u64 \<Rightarrow> u64 \<Rightarrow> (ldb_status \<times> slice \<times> bool) option) \<Rightarrow> 'f \<Rightarrow> bool \<Rightarrow> block_handle
     \<Rightarrow> (ldb_status \<times> block_contents) option" where
  "ReadBlock file_read file verify_checksums handle =
     (let result = \<lparr>bc_data = [], cachable = False, heap_allocated = False\<rparr>;
          n = bh_size handle;
          corrupt = \<lambda>msg. Some (Corruption (cstr msg) [], result) in
      case file_read file (bh_offset handle) (n + of_nat kBlockTrailerSize) of
        None \<Rightarrow> None
      | Some (s, contents, in_buf) \<Rightarrow>
          if \<not> ok s then Some (s, result)
          else if of_nat (length contents) \<noteq> n + of_nat kBlockTrailerSize then corrupt ''truncated block read''
          else if length contents < unat n + kBlockTrailerSize then None
          else
            let n = unat n;
                crc = crc_Unmask (DecodeFixed32 (drop (n + 1) contents));
                actual = crc_Value 0 (take (n + 1) contents) in
            if verify_checksums \<and> actual \<noteq> crc then corrupt ''block checksum mismatch''
            else if contents ! n = kNoCompression
            then (if \<not> in_buf
                  then Some (OK, result\<lparr>bc_data := take n contents, heap_allocated := False, cachable := False\<rparr>)
                  else Some (OK, result\<lparr>bc_data := take n contents, heap_allocated := True, cachable := True\<rparr>))
            else if contents ! n = kSnappyCompression
            then (case Snappy_GetUncompressedLength (take n contents) of
                    None \<Rightarrow> corrupt ''corrupted compressed block contents''
                  | Some ulength \<Rightarrow>
                      (case Snappy_Uncompress (take n contents) of
                         None \<Rightarrow> corrupt ''corrupted compressed block contents''
                       | Some ubuf \<Rightarrow> Some (OK, result\<lparr>bc_data := ubuf, heap_allocated := True, cachable := True\<rparr>)))
            else corrupt ''bad block type'')"

section \<open>What is written is read\<close>

lemma GetVarint64_reads_all [simp]: "GetVarint64 (EncodeVarint64 v) = Some (v, [])"
  using GetVarint64_reads [of v "[]"] by simp

lemma handle_bytes: "BlockHandle_EncodeTo h dst = dst @ EncodeVarint64 (bh_offset h) @ EncodeVarint64 (bh_size h)"
  by (simp add: BlockHandle_EncodeTo_def PutVarint64_def)

lemma handle_reads [simp]: "BlockHandle_DecodeFrom h0 (BlockHandle_EncodeTo h [] @ rest) = (OK, h, rest)"
  by (simp add: handle_bytes BlockHandle_DecodeFrom_def)

lemma handle_reads_all [simp]: "BlockHandle_DecodeFrom h0 (BlockHandle_EncodeTo h []) = (OK, h, [])"
  using handle_reads [of h0 h "[]"] by simp

lemma handle_length: "length (BlockHandle_EncodeTo h []) \<le> kMaxEncodedLength"
  using length_varint_bytes_u64 [of "bh_offset h"] length_varint_bytes_u64 [of "bh_size h"]
  by (simp add: handle_bytes EncodeVarint64_eq kMaxEncodedLength_def)

definition magic_bytes :: slice where
  "magic_bytes = [0x57, 0xfb, 0x80, 0x8b, 0x24, 0x75, 0x47, 0xdb]"

definition footer_bytes :: "footer \<Rightarrow> slice" where
  "footer_bytes f = resize (2 * kMaxEncodedLength)
     (BlockHandle_EncodeTo (metaindex_handle f) [] @ BlockHandle_EncodeTo (index_handle f) []) @ magic_bytes"

lemma footer_written: "Footer_EncodeTo f [] = footer_bytes f"
proof -
  have e: "EncodeFixed32 (ucast (kTableMagicNumber AND 0xffffffff)) @ EncodeFixed32 (ucast (drop_bit 32 kTableMagicNumber)) = magic_bytes"
    by code_simp
  show ?thesis
    unfolding Footer_EncodeTo_def footer_bytes_def Let_def PutFixed32_def e [symmetric]
    by (simp add: handle_bytes)
qed

lemma footer_length [simp]: "length (footer_bytes f) = kEncodedLength"
  by (simp add: footer_bytes_def resize_def magic_bytes_def kEncodedLength_def)

lemma footer_reads: "Footer_DecodeFrom f0 (footer_bytes f @ rest) = Some (OK, f, rest)"
proof -
  let ?hs = "BlockHandle_EncodeTo (metaindex_handle f) [] @ BlockHandle_EncodeTo (index_handle f) []"
  have l: "length ?hs \<le> 2 * kMaxEncodedLength"
    using handle_length [of "metaindex_handle f"] handle_length [of "index_handle f"] by simp
  then have b: "footer_bytes f = ?hs @ replicate (2 * kMaxEncodedLength - length ?hs) 0 @ magic_bytes"
    by (simp add: footer_bytes_def resize_def)
  obtain padded where p: "footer_bytes f = padded @ magic_bytes" "length padded = 40"
    by (simp add: footer_bytes_def resize_def kMaxEncodedLength_def)
  have drops: "drop 40 (footer_bytes f @ rest) = magic_bytes @ rest"
    "drop 44 (footer_bytes f @ rest) = drop 4 magic_bytes @ rest" "drop 48 (footer_bytes f @ rest) = rest"
    by (simp_all add: p magic_bytes_def)
  then have kept: "drop kEncodedLength (footer_bytes f @ rest) = rest" by (simp add: kEncodedLength_def kMaxEncodedLength_def)
  have "push_bit 32 (ucast (DecodeFixed32 (drop 4 magic_bytes @ rest))) OR ucast (DecodeFixed32 (magic_bytes @ rest)) = kTableMagicNumber"
    by (simp add: magic_bytes_def DecodeFixed32_def kTableMagicNumber_def)
  then have "Footer_DecodeFrom f0 (footer_bytes f @ rest) =
      (let (s, h, r) = BlockHandle_DecodeFrom (metaindex_handle f0) (footer_bytes f @ rest); f1 = f0\<lparr>metaindex_handle := h\<rparr> in
       if \<not> ok s then Some (s, f1, r)
       else let (s, h, r) = BlockHandle_DecodeFrom (index_handle f1) r; f2 = f1\<lparr>index_handle := h\<rparr> in
         if \<not> ok s then Some (s, f2, r) else Some (s, f2, rest))"
    using drops footer_length [of f] unfolding Footer_DecodeFrom_def kept
    by (simp add: kEncodedLength_def kMaxEncodedLength_def del: drop_append)
  then show ?thesis unfolding b by simp
qed

lemma footer_reads_all [simp]: "Footer_DecodeFrom f0 (footer_bytes f) = Some (OK, f, [])"
  using footer_reads [of f0 f "[]"] by simp

text \<open>A block as the table stores it.\<close>

definition stored :: "slice \<Rightarrow> slice" where
  "stored raw = raw @ [kNoCompression] @ EncodeFixed32 (crc_Mask (crc_Value 0 (raw @ [kNoCompression])))"

lemma stored_length [simp]: "length (stored raw) = length raw + kBlockTrailerSize"
  by (simp add: stored_def kBlockTrailerSize_def)

context random_access_file
begin

lemma ReadBlock_reads:
  assumes "works f" "contents f = pre @ stored raw @ post" "length (contents f) < 2 ^ 63"
    "bh_offset h = of_nat (length pre)" "bh_size h = of_nat (length raw)"
  shows "\<exists>bc. ReadBlock file_read f verify h = Some (OK, bc) \<and> bc_data bc = raw"
proof -
  have l: "length pre + length raw + 5 < 2 ^ 63" using assms(2,3) by (simp add: kBlockTrailerSize_def)
  then have u: "unat (of_nat (length pre) :: u64) = length pre" "unat (of_nat (length raw) :: u64) = length raw"
    "unat (of_nat (length raw) + 5 :: u64) = length raw + 5"
    by (simp_all add: unat_of_nat unat_word_ariths)
  then have "\<exists>b. file_read f (of_nat (length pre)) (of_nat (length raw) + 5) = Some (OK, stored raw, b)"
    using read_inside [OF assms(1), of "of_nat (length pre)" "of_nat (length raw) + 5"] assms(2)
    by (simp add: kBlockTrailerSize_def)
  then obtain b where b: "file_read f (of_nat (length pre)) (of_nat (length raw) + 5) = Some (OK, stored raw, b)" by blast
  have "(of_nat (length raw + 5) :: u64) = of_nat (length raw) + 5" by simp
  moreover have "drop (length raw + 1) (stored raw) = EncodeFixed32 (crc_Mask (crc_Value 0 (raw @ [kNoCompression])))"
    "take (length raw + 1) (stored raw) = raw @ [kNoCompression]" "stored raw ! length raw = kNoCompression"
    "take (length raw) (stored raw) = raw"
    by (simp_all add: stored_def)
  ultimately show ?thesis
    using b u assms(4,5) by (simp add: ReadBlock_def Let_def kBlockTrailerSize_def)
qed

end

text \<open>
  A handle of \<open>2 ^ 64 - 5\<close> bytes makes \<open>ReadBlock\<close> read an empty buffer and then look for the type of
  the block far outside of it.
\<close>

lemma block_size_wraps:
  "ReadBlock PosixMmapReadableFile_Read \<lparr>mm_filename = [], mmapped_region = replicate 48 0\<rparr> False
     \<lparr>bh_offset = 0, bh_size = 0xfffffffffffffffb\<rparr> = None"
  by (simp add: ReadBlock_def PosixMmapReadableFile_Read_def Let_def kBlockTrailerSize_def)

text \<open>The check of \<open>PosixMmapReadableFile\<close> wraps as well: the slice starts before the region.\<close>

lemma mmap_read_wraps:
  "PosixMmapReadableFile_Read \<lparr>mm_filename = [], mmapped_region = replicate 48 0\<rparr> 0xfffffffffffffff0 20 = None"
  by (simp add: PosixMmapReadableFile_Read_def)

end
