(* ===== verification/LdbFilterBlock.thy ===== *)
theory LdbFilterBlock
  imports LdbFormat
begin

text \<open>
  The filter block of a table (\<open>table/filter_block.cc\<close>): one filter for each range of 2048 bytes of the
  file, over the keys of the blocks that start in it; and that a key is found at the block that holds it.
\<close>

section \<open>The builder\<close>

definition kFilterBaseLg :: nat where "kFilterBaseLg = 11"
definition kFilterBase :: u64 where "kFilterBase = push_bit kFilterBaseLg 1"

record filter_block_builder =
  fb_keys :: slice
  fb_start :: "nat list"
  fb_result :: slice
  fb_tmp_keys :: "slice list"
  fb_offsets :: "u32 list"

definition new_FilterBlockBuilder :: filter_block_builder where
  "new_FilterBlockBuilder = \<lparr>fb_keys = [], fb_start = [], fb_result = [], fb_tmp_keys = [], fb_offsets = []\<rparr>"

definition GenerateFilter :: "(slice list \<Rightarrow> slice \<Rightarrow> slice) \<Rightarrow> filter_block_builder \<Rightarrow> filter_block_builder" where
  "GenerateFilter create b =
     (let num_keys = length (fb_start b) in
      if num_keys = 0 then b\<lparr>fb_offsets := fb_offsets b @ [of_nat (length (fb_result b))]\<rparr>
      else
        let start = fb_start b @ [length (fb_keys b)];
            tmp_keys = map (\<lambda>i. take (start ! (i + 1) - start ! i) (drop (start ! i) (fb_keys b))) [0..<num_keys] in
        b\<lparr>fb_offsets := fb_offsets b @ [of_nat (length (fb_result b))], fb_result := create tmp_keys (fb_result b),
          fb_tmp_keys := [], fb_keys := [], fb_start := []\<rparr>)"

lemma GenerateFilter_offsets [simp]: "length (fb_offsets (GenerateFilter create b)) = Suc (length (fb_offsets b))"
  by (simp add: GenerateFilter_def Let_def)

function start_block_loop :: "(slice list \<Rightarrow> slice \<Rightarrow> slice) \<Rightarrow> u64 \<Rightarrow> filter_block_builder \<Rightarrow> filter_block_builder" where
  "start_block_loop create filter_index b =
     (if unat filter_index > length (fb_offsets b)
      then start_block_loop create filter_index (GenerateFilter create b) else b)"
  by pat_completeness auto
termination
  by (relation "measure (\<lambda>(create, filter_index, b). unat filter_index - length (fb_offsets b))") auto

declare start_block_loop.simps [simp del]

definition StartBlock :: "(slice list \<Rightarrow> slice \<Rightarrow> slice) \<Rightarrow> u64 \<Rightarrow> filter_block_builder \<Rightarrow> filter_block_builder" where
  "StartBlock create block_offset b = start_block_loop create (block_offset div kFilterBase) b"

definition AddKey :: "slice \<Rightarrow> filter_block_builder \<Rightarrow> filter_block_builder" where
  "AddKey k b = b\<lparr>fb_start := fb_start b @ [length (fb_keys b)], fb_keys := fb_keys b @ k\<rparr>"

definition FilterBlock_Finish :: "(slice list \<Rightarrow> slice \<Rightarrow> slice) \<Rightarrow> filter_block_builder \<Rightarrow> slice \<times> filter_block_builder" where
  "FilterBlock_Finish create b =
     (let b = (if fb_start b \<noteq> [] then GenerateFilter create b else b);
          array_offset = of_nat (length (fb_result b)) :: u32;
          result = fold (\<lambda>ofs result. PutFixed32 result ofs) (fb_offsets b) (fb_result b);
          result = PutFixed32 result array_offset @ [of_nat kFilterBaseLg] in
      (result, b\<lparr>fb_result := result\<rparr>))"

section \<open>The reader\<close>

text \<open>\<open>fr_offset\<close> is the distance from \<open>data_\<close> to \<open>offset_\<close>; both pointers are null when \<open>fr_data\<close> is.\<close>

record filter_block_reader =
  fr_data :: "slice option"
  fr_offset :: nat
  fr_num :: nat
  fr_base_lg :: u64

definition new_FilterBlockReader :: "slice \<Rightarrow> filter_block_reader" where
  "new_FilterBlockReader contents =
     (let r = \<lparr>fr_data = None, fr_offset = 0, fr_num = 0, fr_base_lg = 0\<rparr>;
          n = length contents in
      if n < 5 then r
      else
        let r = r\<lparr>fr_base_lg := scast (contents ! (n - 1))\<rparr>;
            last_word = DecodeFixed32 (drop (n - 5) contents) in
        if unat last_word > n - 5 then r
        else r\<lparr>fr_data := Some contents, fr_offset := unat last_word, fr_num := (n - 5 - unat last_word) div 4\<rparr>)"

text \<open>\<open>None\<close> is a shift by 64 or more bits, which C leaves undefined.\<close>

definition FilterBlock_KeyMayMatch ::
    "(slice \<Rightarrow> slice \<Rightarrow> bool) \<Rightarrow> filter_block_reader \<Rightarrow> u64 \<Rightarrow> slice \<Rightarrow> bool option" where
  "FilterBlock_KeyMayMatch may_match r block_offset key =
     (if unat (fr_base_lg r) \<ge> 64 then None
      else
        let index = drop_bit (unat (fr_base_lg r)) block_offset in
        if unat index < fr_num r
        then
          let data = the (fr_data r);
              start = DecodeFixed32 (drop (fr_offset r + unat index * 4) data);
              limit = DecodeFixed32 (drop (fr_offset r + unat index * 4 + 4) data) in
          if start \<le> limit \<and> unat limit \<le> fr_offset r
          then Some (may_match key (take (unat (limit - start)) (drop (unat start) data)))
          else if start = limit then Some False
          else Some True
        else Some True)"

section \<open>The filters that a builder holds\<close>

text \<open>
  The builder holds the filters of the groups of keys so far, an empty one for an empty group, and the
  keys of the next group.
\<close>

definition filter_for :: "(slice list \<Rightarrow> slice \<Rightarrow> slice) \<Rightarrow> slice list \<Rightarrow> slice" where
  "filter_for create ks = (if ks = [] then [] else create ks [])"

definition filters :: "(slice list \<Rightarrow> slice \<Rightarrow> slice) \<Rightarrow> slice list list \<Rightarrow> slice" where
  "filters create groups = concat (map (filter_for create) groups)"

definition filter_start :: "(slice list \<Rightarrow> slice \<Rightarrow> slice) \<Rightarrow> slice list list \<Rightarrow> nat \<Rightarrow> nat" where
  "filter_start create groups i = length (filters create (take i groups))"

fun starts_of :: "nat \<Rightarrow> slice list \<Rightarrow> nat list" where
  "starts_of n [] = []"
| "starts_of n (k # ks) = n # starts_of (n + length k) ks"

definition holds :: "(slice list \<Rightarrow> slice \<Rightarrow> slice) \<Rightarrow> filter_block_builder \<Rightarrow> slice list list \<Rightarrow> slice list \<Rightarrow> bool" where
  "holds create b groups ks \<longleftrightarrow> fb_result b = filters create groups
     \<and> fb_offsets b = map (\<lambda>i. of_nat (filter_start create groups i)) [0..<length groups]
     \<and> fb_keys b = concat ks \<and> fb_start b = starts_of 0 ks"

lemma length_starts_of [simp]: "length (starts_of n ks) = length ks"
  by (induction ks arbitrary: n) simp_all

lemma starts_of_snoc: "starts_of n (ks @ [k]) = starts_of n ks @ [n + length (concat ks)]"
  by (induction ks arbitrary: n) simp_all

lemma starts_of_nth: "i < length ks \<Longrightarrow> starts_of n ks ! i = n + length (concat (take i ks))"
  by (induction ks arbitrary: n i) (auto simp: nth_Cons split: nat.splits)

lemma start_of_key:
  assumes "i < length ks"
  shows "(starts_of 0 ks @ [length (concat ks)]) ! i = length (concat (take i ks))"
    "(starts_of 0 ks @ [length (concat ks)]) ! (i + 1) = length (concat (take (Suc i) ks))"
proof -
  show "(starts_of 0 ks @ [length (concat ks)]) ! i = length (concat (take i ks))"
    using assms by (simp add: nth_append starts_of_nth)
  show "(starts_of 0 ks @ [length (concat ks)]) ! (i + 1) = length (concat (take (Suc i) ks))"
    using assms by (cases "Suc i = length ks") (auto simp: nth_append starts_of_nth)
qed

lemma keys_split:
  "map (\<lambda>i. take ((starts_of 0 ks @ [length (concat ks)]) ! (i + 1) - (starts_of 0 ks @ [length (concat ks)]) ! i)
     (drop ((starts_of 0 ks @ [length (concat ks)]) ! i) (concat ks))) [0..<length ks] = ks" (is "map ?f _ = _")
proof -
  have "?f i = ks ! i" if i: "i < length ks" for i
  proof -
    have "concat ks = concat (take i ks) @ ks ! i @ concat (drop (Suc i) ks)"
      using i by (metis concat.simps(2) concat_append id_take_nth_drop)
    moreover have "length (concat (take (Suc i) ks)) - length (concat (take i ks)) = length (ks ! i)"
      using i by (simp add: take_Suc_conv_app_nth)
    ultimately have "take (length (concat (take (Suc i) ks)) - length (concat (take i ks)))
        (drop (length (concat (take i ks))) (concat ks)) = ks ! i"
      by simp
    then show ?thesis unfolding start_of_key [OF i] .
  qed
  then have "map ?f [0..<length ks] = map (\<lambda>i. ks ! i) [0..<length ks]" by (intro map_cong) auto
  then show ?thesis by (simp only: map_nth)
qed

lemma filters_snoc: "filters create (groups @ [ks]) = filters create groups @ filter_for create ks"
  by (simp add: filters_def)

lemma filter_start_append: "i \<le> length groups \<Longrightarrow> filter_start create (groups @ gs) i = filter_start create groups i"
  by (simp add: filter_start_def)

lemma filters_held_new: "holds create new_FilterBlockBuilder [] []"
  by (simp add: holds_def new_FilterBlockBuilder_def filters_def)

lemma filters_held_AddKey: "holds create b groups ks \<Longrightarrow> holds create (AddKey k b) groups (ks @ [k])"
  by (simp add: holds_def AddKey_def starts_of_snoc)

lemma filters_held_offsets: "holds create b groups ks \<Longrightarrow> length (fb_offsets b) = length groups"
  by (simp add: holds_def)

text \<open>What the filter block needs of a policy: it appends, and what it appends does not depend on the rest.\<close>

definition appends_filter :: "(slice list \<Rightarrow> slice \<Rightarrow> slice) \<Rightarrow> bool" where
  "appends_filter create \<longleftrightarrow> (\<forall>ks dst. create ks dst = dst @ create ks [])"

context filter_policy
begin

lemma appends_law: "appends_filter create"
  unfolding appends_filter_def using appends by blast

end

lemma filters_held_Generate:
  assumes "appends_filter create" "holds create b groups ks"
  shows "holds create (GenerateFilter create b) (groups @ [ks]) []"
proof -
  have offs: "map (\<lambda>i. of_nat (filter_start create (groups @ [ks]) i) :: u32) [0..<Suc (length groups)]
      = map (\<lambda>i. of_nat (filter_start create groups i)) [0..<length groups] @ [of_nat (length (filters create groups))]"
    by (simp add: filter_start_append) (simp add: filter_start_def)
  show ?thesis
  proof (cases "ks = []")
    case True
    then show ?thesis
      using assms(2) offs by (simp add: holds_def GenerateFilter_def filters_snoc filter_for_def del: upt_Suc)
  next
    case False
    have st: "fb_start b = starts_of 0 ks" "fb_keys b = concat ks" using assms(2) by (simp_all add: holds_def)
    have "GenerateFilter create b = b\<lparr>fb_offsets := fb_offsets b @ [of_nat (length (fb_result b))],
        fb_result := create ks (fb_result b), fb_tmp_keys := [], fb_keys := [], fb_start := []\<rparr>"
      unfolding GenerateFilter_def Let_def st length_starts_of keys_split using False by simp
    moreover have "create ks (fb_result b) = fb_result b @ filter_for create ks"
      using assms(1) [unfolded appends_filter_def, rule_format, of ks "fb_result b"] False by (simp add: filter_for_def)
    ultimately have "fb_result (GenerateFilter create b) = filters create (groups @ [ks])"
        "fb_offsets (GenerateFilter create b) = map (\<lambda>i. of_nat (filter_start create (groups @ [ks]) i)) [0..<Suc (length groups)]"
        "fb_keys (GenerateFilter create b) = []" "fb_start (GenerateFilter create b) = []"
      unfolding offs using assms(2) by (simp_all add: holds_def filters_snoc)
    then show ?thesis by (simp add: holds_def del: upt_Suc)
  qed
qed

text \<open>The groups after the start of a block: the next group is closed when the block is in another range.\<close>

definition close_groups :: "nat \<Rightarrow> slice list list \<Rightarrow> slice list \<Rightarrow> slice list list" where
  "close_groups n groups ks = (if length groups < n then groups @ [ks] @ replicate (n - length groups - 1) [] else groups)"

lemma filters_held_start_loop:
  assumes "appends_filter create"
  shows "holds create b groups ks \<Longrightarrow>
    holds create (start_block_loop create i b) (close_groups (unat i) groups ks) (if length groups < unat i then [] else ks)"
proof (induction "unat i - length groups" arbitrary: b groups ks)
  case 0
  then show ?case using filters_held_offsets [OF 0(2)] start_block_loop.simps [of create i b] by (simp add: close_groups_def)
next
  case (Suc n)
  have less: "length groups < unat i" using Suc.hyps(2) by simp
  have "start_block_loop create i b = start_block_loop create i (GenerateFilter create b)"
    using filters_held_offsets [OF Suc.prems] less start_block_loop.simps [of create i b] by simp
  moreover have "holds create (start_block_loop create i (GenerateFilter create b))
      (close_groups (unat i) (groups @ [ks]) []) (if length (groups @ [ks]) < unat i then [] else [])"
    using Suc.hyps by (intro Suc.hyps(1) filters_held_Generate [OF assms Suc.prems]) simp
  moreover have "close_groups (unat i) (groups @ [ks]) [] = close_groups (unat i) groups ks"
  proof (cases "unat i = Suc (length groups)")
    case False
    then obtain m where "unat i - length groups - 1 = Suc m" using less by (cases "unat i - length groups - 1") auto
    then show ?thesis using less False by (simp add: close_groups_def)
  qed (simp add: close_groups_def)
  ultimately show ?case using less by simp
qed

lemma base_div: "unat (o' div kFilterBase) = unat o' div 2048"
  by (simp add: kFilterBase_def kFilterBaseLg_def push_bit_eq_mult unat_div)

lemma filters_held_StartBlock:
  assumes "appends_filter create" "holds create b groups ks" "length groups \<le> unat o' div 2048"
  shows "holds create (StartBlock create o' b) (close_groups (unat o' div 2048) groups ks)
      (if length groups < unat o' div 2048 then [] else ks)"
    "length (close_groups (unat o' div 2048) groups ks) = unat o' div 2048"
  using filters_held_start_loop [OF assms(1,2), of "o' div kFilterBase"] assms(3)
  by (simp_all add: StartBlock_def base_div) (simp add: close_groups_def)

section \<open>The block and its reader\<close>

definition filter_block_bytes :: "(slice list \<Rightarrow> slice \<Rightarrow> slice) \<Rightarrow> slice list list \<Rightarrow> slice" where
  "filter_block_bytes create groups = filters create groups
     @ concat (map (\<lambda>i. EncodeFixed32 (of_nat (filter_start create groups i))) [0..<length groups])
     @ EncodeFixed32 (of_nat (length (filters create groups))) @ [11]"

lemma put_offsets: "fold (\<lambda>ofs result. PutFixed32 result ofs) rs result = result @ concat (map EncodeFixed32 rs)"
  by (induction rs arbitrary: result) (simp_all add: PutFixed32_def)

lemma filter_block_written:
  assumes "appends_filter create" "holds create b groups ks"
  shows "fst (FilterBlock_Finish create b) = filter_block_bytes create (if ks = [] then groups else groups @ [ks])"
proof -
  have "fb_start b = [] \<longleftrightarrow> ks = []" using assms(2) by (cases ks) (simp_all add: holds_def)
  then have "holds create (if fb_start b \<noteq> [] then GenerateFilter create b else b) (if ks = [] then groups else groups @ [ks]) []"
    using assms filters_held_Generate [OF assms] by (cases "ks = []") simp_all
  then show ?thesis
    unfolding FilterBlock_Finish_def Let_def put_offsets
    by (simp add: holds_def filter_block_bytes_def PutFixed32_def kFilterBaseLg_def comp_def)
qed

lemma concat_fixed_drop:
  "i < length rs \<Longrightarrow> drop (i * 4) (concat (map EncodeFixed32 rs) @ rest) = EncodeFixed32 (rs ! i) @ concat (map EncodeFixed32 (drop (Suc i) rs)) @ rest"
proof (induction rs arbitrary: i)
  case (Cons r rs)
  then show ?case by (cases i) simp_all
qed simp

lemma length_concat_fixed: "length (concat (map EncodeFixed32 rs)) = length rs * 4"
  by (induction rs) simp_all

lemma filter_start_mono: "i \<le> j \<Longrightarrow> filter_start create groups i \<le> filter_start create groups j"
proof -
  assume "i \<le> j"
  then have "take j groups = take i groups @ drop i (take j groups)" by (metis append_take_drop_id min.absorb1 take_take)
  then show ?thesis unfolding filter_start_def filters_def by (metis concat_append le_add1 length_append map_append)
qed

text \<open>The words at the end of the block: the start of each filter, and where the last one ends.\<close>

lemma filter_words:
  fixes create groups
  defines "data \<equiv> filter_block_bytes create groups" and "n \<equiv> length (filters create groups)"
  assumes "i \<le> length groups"
  shows "DecodeFixed32 (drop (n + i * 4) data) = of_nat (filter_start create groups i)"
    "length data = n + length groups * 4 + 5" "data ! (length data - 1) = 11"
proof -
  define rs where "rs = map (\<lambda>i. of_nat (filter_start create groups i) :: u32) [0..<length groups] @ [of_nat n]"
  have d: "data = filters create groups @ concat (map EncodeFixed32 rs) @ [11]"
    by (simp add: data_def filter_block_bytes_def rs_def comp_def n_def)
  show l: "length data = n + length groups * 4 + 5"
    unfolding d by (simp only: length_append length_concat_fixed) (simp add: rs_def n_def)
  show "data ! (length data - 1) = 11" unfolding d by (simp add: nth_append)
  have "rs ! i = of_nat (filter_start create groups i)"
    using assms(3) by (cases "i = length groups") (auto simp: rs_def nth_append n_def filter_start_def)
  moreover have "drop (n + i * 4) data = drop (i * 4) (concat (map EncodeFixed32 rs) @ [11])"
    unfolding d by (simp add: n_def)
  moreover have "i < length rs" using assms(3) by (simp add: rs_def)
  ultimately show "DecodeFixed32 (drop (n + i * 4) data) = of_nat (filter_start create groups i)"
    by (simp add: concat_fixed_drop del: drop_append)
qed

lemma filter_reader:
  assumes "length (filter_block_bytes create groups) < 2 ^ 32"
  shows "new_FilterBlockReader (filter_block_bytes create groups) =
    \<lparr>fr_data = Some (filter_block_bytes create groups), fr_offset = length (filters create groups),
     fr_num = length groups, fr_base_lg = 11\<rparr>"
proof -
  let ?n = "length (filters create groups)"
  note w = filter_words [of "length groups" groups create, OF order_refl]
  have "unat (of_nat ?n :: u32) = ?n" using w(2) assms by (simp add: unat_of_nat)
  then show ?thesis
    using w by (simp add: new_FilterBlockReader_def Let_def filter_start_def)
qed

lemma filter_block_finds:
  assumes "length (filter_block_bytes create groups) < 2 ^ 32" "unat o' div 2048 < length groups"
    "groups ! (unat o' div 2048) \<noteq> []"
  shows "FilterBlock_KeyMayMatch may_match (new_FilterBlockReader (filter_block_bytes create groups)) o' key =
    Some (may_match key (create (groups ! (unat o' div 2048)) []))"
proof -
  let ?i = "unat o' div 2048" and ?data = "filter_block_bytes create groups" and ?n = "length (filters create groups)"
  let ?s = "filter_start create groups ?i" and ?l = "filter_start create groups (Suc ?i)"
  have idx: "unat (drop_bit (unat (11 :: u64)) o') = ?i" by (simp add: unat_drop_bit)
  have split: "take (Suc ?i) groups = take ?i groups @ [groups ! ?i]" by (rule take_Suc_conv_app_nth [OF assms(2)])
  have l: "?l = ?s + length (filter_for create (groups ! ?i))" unfolding filter_start_def split filters_snoc by simp
  have n: "?l \<le> ?n" using filter_start_mono [of "Suc ?i" "length groups" create groups] assms(2)
    by (simp add: filter_start_def)
  have small: "?n < 2 ^ 32" using filter_words(2) [of "length groups" groups create] assms(1) by simp
  have u: "unat (of_nat ?s :: u32) = ?s" "unat (of_nat ?l :: u32) = ?l"
    by (rule unat_of_nat_lt, use n l small in simp)+
  then have le: "(of_nat ?s :: u32) \<le> of_nat ?l" using l by (simp add: word_le_nat_alt)
  have len: "unat (of_nat ?l - of_nat ?s :: u32) = length (filter_for create (groups ! ?i))"
    using unat_sub [OF le] u l by simp
  have "groups = take ?i groups @ groups ! ?i # drop (Suc ?i) groups" by (rule id_take_nth_drop [OF assms(2)])
  then have "filters create groups = filters create (take ?i groups) @ filter_for create (groups ! ?i)
      @ filters create (drop (Suc ?i) groups)"
    by (metis (no_types) append_Cons append_Nil append_assoc concat_append filters_def filters_snoc map_append)
  then have "take (length (filter_for create (groups ! ?i))) (drop ?s ?data) = filter_for create (groups ! ?i)"
    unfolding filter_block_bytes_def filter_start_def by simp
  moreover have "filter_for create (groups ! ?i) = create (groups ! ?i) []" using assms(3) by (simp add: filter_for_def)
  ultimately have f: "take (unat (of_nat ?l - of_nat ?s :: u32)) (drop ?s ?data) = create (groups ! ?i) []" unfolding len by simp
  have w: "DecodeFixed32 (drop (?n + ?i * 4) ?data) = of_nat ?s" "DecodeFixed32 (drop (?n + ?i * 4 + 4) ?data) = of_nat ?l"
    using filter_words(1) [of ?i groups create] filter_words(1) [of "Suc ?i" groups create] assms(2) by (simp_all add: algebra_simps)
  have lg: "\<not> unat (11 :: u64) \<ge> 64" by simp
  show ?thesis
    unfolding filter_reader [OF assms(1)] FilterBlock_KeyMayMatch_def filter_block_reader.simps Let_def idx option.sel w u f
    using lg le n assms(2) by simp
qed

section \<open>Keys are found\<close>

text \<open>The keys that were added, with the offset of the block they were added for, are in the group of that offset.\<close>

definition covers :: "slice list list \<Rightarrow> slice list \<Rightarrow> (u64 \<times> slice) list \<Rightarrow> bool" where
  "covers groups ks seen \<longleftrightarrow> length (concat (groups @ [ks])) = length seen
     \<and> (\<forall>(ofs, k) \<in> set seen. unat ofs div 2048 \<le> length groups \<and> k \<in> set ((groups @ [ks]) ! (unat ofs div 2048)))"

lemma concat_empty: "concat (replicate n []) = []"
  by (induction n) simp_all

lemma covers_StartBlock:
  assumes "covers groups ks seen"
  shows "covers (close_groups n groups ks) (if length groups < n then [] else ks) seen"
proof (cases "length groups < n")
  case True
  have e: "close_groups n groups ks @ [[]] = (groups @ [ks]) @ replicate (n - length groups - 1) [] @ [[]]"
    using True by (simp add: close_groups_def)
  then have "(close_groups n groups ks @ [[]]) ! i = (groups @ [ks]) ! i" if "i \<le> length groups" for i
    using that by (simp only: nth_append) simp
  moreover have "length (concat (close_groups n groups ks @ [[]])) = length (concat (groups @ [ks]))"
    unfolding e by (simp add: concat_empty)
  ultimately show ?thesis using assms True by (auto simp: covers_def close_groups_def)
qed (use assms in \<open>simp add: close_groups_def\<close>)

lemma covers_AddKey:
  assumes "covers groups ks seen" "unat ofs div 2048 = length groups"
  shows "covers groups (ks @ [k]) (seen @ [(ofs, k)])"
proof -
  have "set ((groups @ [ks]) ! i) \<subseteq> set ((groups @ [ks @ [k]]) ! i)" if "i \<le> length groups" for i
    using that by (cases "i = length groups") (auto simp: nth_append)
  then show ?thesis using assms by (fastforce simp: covers_def)
qed

lemma covers_AddKeys:
  assumes "unat ofs div 2048 = length groups"
  shows "covers groups ks seen \<Longrightarrow> holds create b groups ks \<Longrightarrow>
    \<exists>ks'. covers groups ks' (seen @ map (Pair ofs) added) \<and> holds create (fold AddKey added b) groups ks'"
proof (induction added arbitrary: ks seen b)
  case (Cons k added)
  from Cons.IH [OF covers_AddKey [OF Cons.prems(1) assms, of k] filters_held_AddKey [OF Cons.prems(2), of k]]
  show ?case by simp
qed auto

text \<open>The builder over the blocks of a table: the offset and the keys of each.\<close>

definition filter_run :: "(slice list \<Rightarrow> slice \<Rightarrow> slice) \<Rightarrow> (u64 \<times> slice list) list \<Rightarrow> filter_block_builder \<Rightarrow> filter_block_builder" where
  "filter_run create blocks b = fold (\<lambda>(ofs, keys) b. fold AddKey keys (StartBlock create ofs b)) blocks b"

definition added_keys :: "(u64 \<times> slice list) list \<Rightarrow> (u64 \<times> slice) list" where
  "added_keys blocks = concat (map (\<lambda>(ofs, keys). map (Pair ofs) keys) blocks)"

lemma run_covers:
  assumes "appends_filter create" "sorted_wrt (\<le>) (map fst blocks)"
  shows "\<exists>groups ks. holds create (filter_run create blocks new_FilterBlockBuilder) groups ks
    \<and> covers groups ks (added_keys blocks)
    \<and> length groups = (if blocks = [] then 0 else unat (fst (last blocks)) div 2048)"
  using assms(2)
proof (induction blocks rule: rev_induct)
  case Nil
  show ?case using filters_held_new [of create] by (auto simp: filter_run_def covers_def added_keys_def)
next
  case (snoc x blocks)
  obtain ofs added where x: "x = (ofs, added)" by (cases x)
  let ?b = "filter_run create blocks new_FilterBlockBuilder" and ?n = "unat ofs div 2048"
  obtain groups ks where g: "holds create ?b groups ks" "covers groups ks (added_keys blocks)"
      "length groups = (if blocks = [] then 0 else unat (fst (last blocks)) div 2048)"
    using snoc by (auto simp: sorted_wrt_append)
  have "blocks \<noteq> [] \<Longrightarrow> fst (last blocks) \<le> ofs" using snoc.prems by (simp add: sorted_wrt_append x)
  then have le: "length groups \<le> ?n" using g(3) by (auto simp: word_le_nat_alt div_le_mono)
  note s = filters_held_StartBlock [OF assms(1) g(1) le]
  obtain ks' where "covers (close_groups ?n groups ks) ks' (added_keys blocks @ map (Pair ofs) added)"
      "holds create (fold AddKey added (StartBlock create ofs ?b)) (close_groups ?n groups ks) ks'"
    using covers_AddKeys [OF s(2) [symmetric] covers_StartBlock [OF g(2)] s(1)] by blast
  then show ?case using s(2) by (auto simp: x added_keys_def filter_run_def)
qed

lemma covered_filter:
  assumes "covers groups ks seen" "(ofs, k) \<in> set seen" "gs = (if ks = [] then groups else groups @ [ks])"
    "length (filter_block_bytes create gs) < 2 ^ 32"
  shows "\<exists>keys. k \<in> set keys \<and> length keys \<le> length seen
    \<and> FilterBlock_KeyMayMatch may_match (new_FilterBlockReader (filter_block_bytes create gs)) ofs key = Some (may_match key (create keys []))"
proof -
  let ?i = "unat ofs div 2048"
  have i: "?i \<le> length groups" "k \<in> set ((groups @ [ks]) ! ?i)" using assms(1,2) by (auto simp: covers_def)
  have g: "?i < length gs" "gs ! ?i = (groups @ [ks]) ! ?i"
    using i assms(3) by (auto simp: nth_append split: if_splits)
  have "groups @ [ks] = take ?i (groups @ [ks]) @ (groups @ [ks]) ! ?i # drop (Suc ?i) (groups @ [ks])"
    using i(1) by (intro id_take_nth_drop) simp
  from arg_cong [OF this, of "\<lambda>gs. length (concat gs)"]
  have "length (concat (groups @ [ks])) \<ge> length ((groups @ [ks]) ! ?i)" by (simp only: concat_append concat.simps length_append)
  then have "length (gs ! ?i) \<le> length seen" using assms(1) g(2) by (simp add: covers_def)
  moreover have "gs ! ?i \<noteq> []" "k \<in> set (gs ! ?i)" using i(2) g(2) by auto
  ultimately show ?thesis using filter_block_finds [OF assms(4) g(1)] by blast
qed

text \<open>
  C13: A filter block that is built over the blocks of a table, in the order of their offsets, matches every
  key at the offset of its block: Bloom filters stay without false negatives when they are put into a block.
\<close>

theorem filter_block_matches:
  assumes "sorted_wrt (\<le>) (map fst blocks)" "(ofs, keys) \<in> set blocks" "key \<in> set keys"
    "length (added_keys blocks) * bits_per_key < 2 ^ 60"
  defines "contents \<equiv> fst (FilterBlock_Finish (CreateFilter bits_per_key) (filter_run (CreateFilter bits_per_key) blocks new_FilterBlockBuilder))"
  assumes "length contents < 2 ^ 32"
  shows "FilterBlock_KeyMayMatch KeyMayMatch (new_FilterBlockReader contents) ofs key = Some True"
proof -
  obtain groups ks where g: "holds (CreateFilter bits_per_key) (filter_run (CreateFilter bits_per_key) blocks new_FilterBlockBuilder) groups ks"
      "covers groups ks (added_keys blocks)"
    using run_covers [OF bloom.appends_law assms(1)] by blast
  have s: "(ofs, key) \<in> set (added_keys blocks)" using assms(2,3) by (auto simp: added_keys_def)
  have c: "contents = filter_block_bytes (CreateFilter bits_per_key) (if ks = [] then groups else groups @ [ks])"
    unfolding contents_def by (rule filter_block_written [OF bloom.appends_law g(1)])
  obtain keys' where k: "key \<in> set keys'" "length keys' \<le> length (added_keys blocks)"
      "FilterBlock_KeyMayMatch KeyMayMatch (new_FilterBlockReader contents) ofs key
         = Some (KeyMayMatch key (CreateFilter bits_per_key keys' []))"
    using covered_filter [OF g(2) s refl] assms(6) c by metis
  have "length keys' * bits_per_key < 2 ^ 60" by (rule le_less_trans [OF mult_le_mono1 [OF k(2)] assms(4)])
  then show ?thesis using k bloom.finds [of bits_per_key keys' key] by (simp add: bloom_fits_def)
qed

lemma small_filter_length:
  assumes "length keys * bits_per_key < 64"
  shows "length (CreateFilter bits_per_key keys dst) = length dst + 9"
proof -
  have "unat (of_nat (length keys * bits_per_key) :: u64) = length keys * bits_per_key"
    using assms by (intro unat_of_nat_lt) simp
  then have "(of_nat (length keys) * of_nat bits_per_key :: u64) < 64" using assms by (simp add: word_less_nat_alt)
  then have "CreateFilter bits_per_key keys dst
      = dst @ fold (bloom_add (bloom_k bits_per_key) 64) keys (replicate 8 0) @ [of_nat (bloom_k bits_per_key)]"
    by (simp add: CreateFilter_def Let_def)
  moreover have "length (fold (bloom_add (bloom_k bits_per_key) 64) keys (replicate 8 0)) = 8"
    using fold_add_bits [of 64 "replicate 8 0" "bloom_k bits_per_key" keys] by simp
  ultimately show ?thesis by simp
qed

theorem filter_block_matches_witness:
  "FilterBlock_KeyMayMatch KeyMayMatch (new_FilterBlockReader (fst (FilterBlock_Finish (CreateFilter 10)
     (filter_run (CreateFilter 10) [(0, [[0x62], [0x63]])] new_FilterBlockBuilder)))) 0 [0x62] = Some True"
proof -
  have "length (fst (FilterBlock_Finish (CreateFilter 10)
      (filter_run (CreateFilter 10) [(0, [[0x62], [0x63]])] new_FilterBlockBuilder))) = 18"
    by (simp add: FilterBlock_Finish_def filter_run_def StartBlock_def start_block_loop.simps AddKey_def Let_def
        new_FilterBlockBuilder_def GenerateFilter_def PutFixed32_def small_filter_length)
  then show ?thesis
    by (intro filter_block_matches [where keys = "[[0x62], [0x63]]"]) (simp_all add: added_keys_def)
qed

text \<open>A reader of a corrupt block shifts by what its last byte says.\<close>

lemma filter_base_unchecked: "FilterBlock_KeyMayMatch m (new_FilterBlockReader [0, 0, 0, 0, 64]) ofs key = None"
  by (simp add: new_FilterBlockReader_def FilterBlock_KeyMayMatch_def DecodeFixed32_def)

end
