(* ===== verification/LdbTable.thy ===== *)
theory LdbTable
  imports LdbTableFormat LdbFilterBlock
begin

text \<open>
  Tables: the builder of \<open>table/table_builder.cc\<close> and the reader of \<open>table/table.cc\<close>, over the virtual
  functions of block iterators (\<open>table/iterator.cc\<close>), files and a block cache.
\<close>

section \<open>Objects with virtual functions\<close>

text \<open>
  A comparator, a filter policy and a cache are records of their functions; a comparator has its address,
  since the code compares pointers to it.
\<close>

record comparator_obj =
  co_address :: u64
  co_Compare :: "slice \<Rightarrow> slice \<Rightarrow> int"
  co_FindShortestSeparator :: "slice \<Rightarrow> slice \<Rightarrow> slice"
  co_FindShortSuccessor :: "slice \<Rightarrow> slice"

record filter_policy_obj =
  fp_Name :: slice
  fp_CreateFilter :: "slice list \<Rightarrow> slice \<Rightarrow> slice"
  fp_KeyMayMatch :: "slice \<Rightarrow> slice \<Rightarrow> bool"

record options =
  opt_comparator :: comparator_obj
  opt_paranoid_checks :: bool
  opt_block_size :: nat
  opt_block_restart_interval :: int
  opt_compression :: u8
  opt_filter_policy :: "filter_policy_obj option"

record read_options =
  verify_checksums :: bool
  fill_cache :: bool

text \<open>A cache of blocks; \<open>None\<close> is undefined behaviour in it.\<close>

record ('c, 'h) cache_obj =
  ca_Lookup :: "slice \<Rightarrow> 'c \<Rightarrow> ('h option \<times> 'c) option"
  ca_Value :: "'h \<Rightarrow> 'c \<Rightarrow> block option"
  ca_Insert :: "slice \<Rightarrow> block \<Rightarrow> u64 \<Rightarrow> 'c \<Rightarrow> ('h \<times> 'c) option"
  ca_Release :: "'h \<Rightarrow> 'c \<Rightarrow> 'c option"
  ca_NewId :: "'c \<Rightarrow> u64 \<times> 'c"

section \<open>Iterators of blocks\<close>

text \<open>
  The fuel is the size of the block, which is enough for every loop (\<open>block_iterator_ends\<close>). \<open>None\<close> is
  a read past the end of the block.
\<close>

definition it_fuel :: "block_iter \<Rightarrow> nat" where
  "it_fuel b = length (bi_data b) + 1"

definition stepped :: "status \<times> block_iter \<Rightarrow> block_iterator option" where
  "stepped r = (case r of (st, b) \<Rightarrow> if st = Ok then Some (Block_iterator b) else None)"

fun it_Valid :: "block_iterator \<Rightarrow> bool" where
  "it_Valid (Block_iterator b) = bi_Valid b"
| "it_Valid _ = False"

fun it_Seek :: "(slice \<Rightarrow> slice \<Rightarrow> int) \<Rightarrow> slice \<Rightarrow> block_iterator \<Rightarrow> block_iterator option" where
  "it_Seek cmp target (Block_iterator b) = stepped (bi_Seek cmp (it_fuel b) target b)"
| "it_Seek cmp target it = Some it"

fun it_SeekToFirst :: "block_iterator \<Rightarrow> block_iterator option" where
  "it_SeekToFirst (Block_iterator b) = stepped (bi_SeekToFirst b)"
| "it_SeekToFirst it = Some it"

fun it_SeekToLast :: "block_iterator \<Rightarrow> block_iterator option" where
  "it_SeekToLast (Block_iterator b) = stepped (bi_SeekToLast (it_fuel b) b)"
| "it_SeekToLast it = Some it"

text \<open>The functions that an empty iterator only asserts not to be called are undefined on it.\<close>

fun it_Next :: "block_iterator \<Rightarrow> block_iterator option" where
  "it_Next (Block_iterator b) = stepped (bi_Next b)"
| "it_Next _ = None"

fun it_Prev :: "block_iterator \<Rightarrow> block_iterator option" where
  "it_Prev (Block_iterator b) = stepped (bi_Prev (it_fuel b) b)"
| "it_Prev _ = None"

fun it_key :: "block_iterator \<Rightarrow> slice option" where
  "it_key (Block_iterator b) = Some (bi_key b)"
| "it_key _ = None"

fun it_value :: "block_iterator \<Rightarrow> slice option" where
  "it_value (Block_iterator b) = bi_read_value b"
| "it_value _ = None"

fun it_status :: "block_iterator \<Rightarrow> ldb_status" where
  "it_status (Block_iterator b) = bi_status b"
| "it_status (Error_iterator s) = s"
| "it_status Empty_iterator = OK"

section \<open>The builder\<close>

record 'f table_builder =
  tb_options :: options
  tb_index_block_options :: options
  tb_file :: 'f
  tb_offset :: u64
  tb_status :: ldb_status
  tb_data_block :: block_builder
  tb_index_block :: block_builder
  tb_last_key :: slice
  tb_num_entries :: u64
  tb_closed :: bool
  tb_filter_block :: "(filter_policy_obj \<times> filter_block_builder) option"
  tb_pending_index_entry :: bool
  tb_pending_handle :: block_handle
  tb_compressed_output :: slice

definition tb_ok :: "'f table_builder \<Rightarrow> bool" where
  "tb_ok b = ok (tb_status b)"

text \<open>A filter block builder keeps its policy, also when the options change.\<close>

definition on_filter ::
    "((slice list \<Rightarrow> slice \<Rightarrow> slice) \<Rightarrow> filter_block_builder \<Rightarrow> filter_block_builder)
     \<Rightarrow> (filter_policy_obj \<times> filter_block_builder) option \<Rightarrow> (filter_policy_obj \<times> filter_block_builder) option" where
  "on_filter f = map_option (\<lambda>(p, fb). (p, f (fp_CreateFilter p) fb))"

definition new_TableBuilder :: "options \<Rightarrow> 'f \<Rightarrow> 'f table_builder" where
  "new_TableBuilder opts file =
     \<lparr>tb_options = opts, tb_index_block_options = opts\<lparr>opt_block_restart_interval := 1\<rparr>, tb_file = file, tb_offset = 0,
      tb_status = OK, tb_data_block = new_BlockBuilder (opt_block_restart_interval opts), tb_index_block = new_BlockBuilder 1,
      tb_last_key = [], tb_num_entries = 0, tb_closed = False,
      tb_filter_block = (case opt_filter_policy opts of None \<Rightarrow> None
        | Some p \<Rightarrow> Some (p, StartBlock (fp_CreateFilter p) 0 new_FilterBlockBuilder)),
      tb_pending_index_entry = False, tb_pending_handle = new_BlockHandle, tb_compressed_output = []\<rparr>"

text \<open>The block builders point to the options of the table builder and so see the new ones.\<close>

definition ChangeOptions :: "options \<Rightarrow> 'f table_builder \<Rightarrow> ldb_status \<times> 'f table_builder" where
  "ChangeOptions opts b =
     (if co_address (opt_comparator opts) \<noteq> co_address (opt_comparator (tb_options b))
      then (InvalidArgument (cstr ''changing comparator while building table'') [], b)
      else (OK, b\<lparr>tb_options := opts, tb_index_block_options := opts\<lparr>opt_block_restart_interval := 1\<rparr>,
        tb_data_block := (tb_data_block b)\<lparr>bb_restart_interval := opt_block_restart_interval opts\<rparr>\<rparr>))"

definition WriteRawBlock ::
    "('f \<Rightarrow> slice \<Rightarrow> ldb_status \<times> 'f) \<Rightarrow> slice \<Rightarrow> u8 \<Rightarrow> 'f table_builder \<Rightarrow> block_handle \<times> 'f table_builder" where
  "WriteRawBlock app contents type b =
     (let handle = \<lparr>bh_offset = tb_offset b, bh_size = of_nat (length contents)\<rparr>;
          (s, file) = app (tb_file b) contents;
          b = b\<lparr>tb_status := s, tb_file := file\<rparr> in
      if \<not> ok s then (handle, b)
      else
        let crc = Extend 0 (crc_Value 0 contents) [type];
            trailer = [type] @ EncodeFixed32 (crc_Mask crc);
            (s, file) = app (tb_file b) trailer;
            b = b\<lparr>tb_status := s, tb_file := file\<rparr> in
        (handle, if ok s then b\<lparr>tb_offset := tb_offset b + of_nat (length contents + kBlockTrailerSize)\<rparr> else b))"

text \<open>A block is stored as it is when Snappy is not there or does not save an eighth of it.\<close>

definition WriteBlock ::
    "('f \<Rightarrow> slice \<Rightarrow> ldb_status \<times> 'f) \<Rightarrow> block_builder \<Rightarrow> 'f table_builder \<Rightarrow> block_builder \<times> block_handle \<times> 'f table_builder" where
  "WriteBlock app block b =
     (let (raw, block) = BlockBuilder_Finish block;
          type = opt_compression (tb_options b);
          (contents, type) =
            (if type = kNoCompression then (raw, type)
             else if type = kSnappyCompression
             then (case Snappy_Compress raw of
                     Some compressed \<Rightarrow>
                       if length compressed < length raw - length raw div 8 then (compressed, type) else (raw, kNoCompression)
                   | None \<Rightarrow> (raw, kNoCompression))
             else ([], type));
          (handle, b) = WriteRawBlock app contents type b in
      (BlockBuilder_Reset block, handle, b\<lparr>tb_compressed_output := []\<rparr>))"

definition TableBuilder_Flush ::
    "('f \<Rightarrow> slice \<Rightarrow> ldb_status \<times> 'f) \<Rightarrow> ('f \<Rightarrow> ldb_status \<times> 'f) \<Rightarrow> 'f table_builder \<Rightarrow> 'f table_builder" where
  "TableBuilder_Flush app fl b =
     (if \<not> tb_ok b then b
      else if bb_buffer (tb_data_block b) = [] then b
      else
        let (block, handle, b) = WriteBlock app (tb_data_block b) b;
            b = b\<lparr>tb_data_block := block, tb_pending_handle := handle\<rparr>;
            b = (if tb_ok b
                 then (case fl (tb_file b) of (s, file) \<Rightarrow> b\<lparr>tb_pending_index_entry := True, tb_status := s, tb_file := file\<rparr>)
                 else b) in
        b\<lparr>tb_filter_block := on_filter (\<lambda>create. StartBlock create (tb_offset b)) (tb_filter_block b)\<rparr>)"

definition add_index_entry :: "slice \<Rightarrow> 'f table_builder \<Rightarrow> 'f table_builder" where
  "add_index_entry key b =
     (let handle_encoding = BlockHandle_EncodeTo (tb_pending_handle b) [] in
      b\<lparr>tb_last_key := key, tb_index_block := BlockBuilder_Add key handle_encoding (tb_index_block b),
        tb_pending_index_entry := False\<rparr>)"

definition TableBuilder_Add ::
    "('f \<Rightarrow> slice \<Rightarrow> ldb_status \<times> 'f) \<Rightarrow> ('f \<Rightarrow> ldb_status \<times> 'f) \<Rightarrow> slice \<Rightarrow> slice \<Rightarrow> 'f table_builder \<Rightarrow> 'f table_builder" where
  "TableBuilder_Add app fl key value b =
     (if \<not> tb_ok b then b
      else
        let b = (if tb_pending_index_entry b
                 then add_index_entry (co_FindShortestSeparator (opt_comparator (tb_options b)) (tb_last_key b) key) b else b);
            b = b\<lparr>tb_filter_block := on_filter (\<lambda>_. AddKey key) (tb_filter_block b)\<rparr>;
            b = b\<lparr>tb_last_key := key, tb_num_entries := tb_num_entries b + 1,
                  tb_data_block := BlockBuilder_Add key value (tb_data_block b)\<rparr> in
        if CurrentSizeEstimate (tb_data_block b) \<ge> opt_block_size (tb_options b) then TableBuilder_Flush app fl b else b)"

text \<open>The steps of \<open>Finish\<close>: the filter block, the metaindex block, the index block, the footer.\<close>

definition finish_filter :: "('f \<Rightarrow> slice \<Rightarrow> ldb_status \<times> 'f) \<Rightarrow> 'f table_builder \<Rightarrow> block_handle \<times> 'f table_builder" where
  "finish_filter app b =
     (if \<not> tb_ok b then (new_BlockHandle, b)
      else
        case tb_filter_block b of
          None \<Rightarrow> (new_BlockHandle, b)
        | Some (p, fb) \<Rightarrow>
            (let (contents, fb) = FilterBlock_Finish (fp_CreateFilter p) fb in
             WriteRawBlock app contents kNoCompression (b\<lparr>tb_filter_block := Some (p, fb)\<rparr>)))"

text \<open>The name of the filter is that of the policy in the options, which must not have been removed.\<close>

definition filter_key :: "filter_policy_obj \<Rightarrow> slice" where
  "filter_key p = cstr ''filter.'' @ fp_Name p"

definition finish_metaindex ::
    "('f \<Rightarrow> slice \<Rightarrow> ldb_status \<times> 'f) \<Rightarrow> block_handle \<Rightarrow> 'f table_builder \<Rightarrow> block_handle \<times> 'f table_builder" where
  "finish_metaindex app filter_block_handle b =
     (if \<not> tb_ok b then (new_BlockHandle, b)
      else
        let meta_index_block = new_BlockBuilder (opt_block_restart_interval (tb_options b));
            meta_index_block =
              (case (tb_filter_block b, opt_filter_policy (tb_options b)) of
                 (Some _, Some p) \<Rightarrow> BlockBuilder_Add (filter_key p) (BlockHandle_EncodeTo filter_block_handle []) meta_index_block
               | _ \<Rightarrow> meta_index_block);
            (_, handle, b) = WriteBlock app meta_index_block b in
        (handle, b))"

definition finish_index :: "('f \<Rightarrow> slice \<Rightarrow> ldb_status \<times> 'f) \<Rightarrow> 'f table_builder \<Rightarrow> block_handle \<times> 'f table_builder" where
  "finish_index app b =
     (if \<not> tb_ok b then (new_BlockHandle, b)
      else
        let b = (if tb_pending_index_entry b
                 then add_index_entry (co_FindShortSuccessor (opt_comparator (tb_options b)) (tb_last_key b)) b else b);
            (block, handle, b) = WriteBlock app (tb_index_block b) b in
        (handle, b\<lparr>tb_index_block := block\<rparr>))"

definition TableBuilder_Finish ::
    "('f \<Rightarrow> slice \<Rightarrow> ldb_status \<times> 'f) \<Rightarrow> ('f \<Rightarrow> ldb_status \<times> 'f) \<Rightarrow> 'f table_builder \<Rightarrow> ldb_status \<times> 'f table_builder" where
  "TableBuilder_Finish app fl b =
     (let b = TableBuilder_Flush app fl b;
          b = b\<lparr>tb_closed := True\<rparr>;
          (filter_block_handle, b) = finish_filter app b;
          (metaindex_block_handle, b) = finish_metaindex app filter_block_handle b;
          (index_block_handle, b) = finish_index app b;
          b = (if tb_ok b
               then
                 let footer_encoding = Footer_EncodeTo \<lparr>metaindex_handle = metaindex_block_handle, index_handle = index_block_handle\<rparr> [];
                     (s, file) = app (tb_file b) footer_encoding;
                     b = b\<lparr>tb_status := s, tb_file := file\<rparr> in
                 if ok s then b\<lparr>tb_offset := tb_offset b + of_nat (length footer_encoding)\<rparr> else b
               else b) in
      (tb_status b, b))"

definition TableBuilder_Abandon :: "'f table_builder \<Rightarrow> 'f table_builder" where
  "TableBuilder_Abandon b = b\<lparr>tb_closed := True\<rparr>"

definition NumEntries :: "'f table_builder \<Rightarrow> u64" where
  "NumEntries b = tb_num_entries b"

definition FileSize :: "'f table_builder \<Rightarrow> u64" where
  "FileSize b = tb_offset b"

section \<open>The reader\<close>

type_synonym 'f ra_read = "'f \<Rightarrow> u64 \<Rightarrow> u64 \<Rightarrow> (ldb_status \<times> slice \<times> bool) option"

record 'f table =
  ta_options :: options
  ta_file :: 'f
  ta_cache_id :: u64
  ta_filter :: "filter_block_reader option"
  ta_metaindex_handle :: block_handle
  ta_index_block :: block

definition ReadFilter :: "'f ra_read \<Rightarrow> slice \<Rightarrow> 'f table \<Rightarrow> 'f table option" where
  "ReadFilter read filter_handle_value t =
     (let (s, filter_handle, v) = BlockHandle_DecodeFrom new_BlockHandle filter_handle_value in
      if \<not> ok s then Some t
      else
        case ReadBlock read (ta_file t) (opt_paranoid_checks (ta_options t)) filter_handle of
          None \<Rightarrow> None
        | Some (s, contents) \<Rightarrow>
            if \<not> ok s then Some t else Some (t\<lparr>ta_filter := Some (new_FilterBlockReader (bc_data contents))\<rparr>))"

definition ReadMeta :: "'f ra_read \<Rightarrow> footer \<Rightarrow> 'f table \<Rightarrow> 'f table option" where
  "ReadMeta read foot t =
     (case opt_filter_policy (ta_options t) of
        None \<Rightarrow> Some t
      | Some p \<Rightarrow>
          (case ReadBlock read (ta_file t) (opt_paranoid_checks (ta_options t)) (metaindex_handle foot) of
             None \<Rightarrow> None
           | Some (s, contents) \<Rightarrow>
               if \<not> ok s then Some t
               else
                 let meta = new_Block (bc_data contents); key = filter_key p in
                 (case it_Seek Bytewise_Compare key (Block_NewIterator meta) of
                    None \<Rightarrow> None
                  | Some iter \<Rightarrow>
                      if it_Valid iter \<and> it_key iter = Some key
                      then (case it_value iter of None \<Rightarrow> None | Some v \<Rightarrow> ReadFilter read v t)
                      else Some t)))"

text \<open>The identifier of the table in the cache is taken from the cache when there is one.\<close>

definition Table_Open ::
    "'f ra_read \<Rightarrow> ('c, 'h) cache_obj option \<Rightarrow> options \<Rightarrow> 'f \<Rightarrow> u64 \<Rightarrow> 'c \<Rightarrow> (ldb_status \<times> 'f table option \<times> 'c) option" where
  "Table_Open read cache opts file sz c =
     (if unat sz < kEncodedLength then Some (Corruption (cstr ''file is too short to be an sstable'') [], None, c)
      else
        case read file (sz - of_nat kEncodedLength) (of_nat kEncodedLength) of
          None \<Rightarrow> None
        | Some (s, footer_input, _) \<Rightarrow>
            if \<not> ok s then Some (s, None, c)
            else
              case Footer_DecodeFrom new_Footer footer_input of
                None \<Rightarrow> None
              | Some (s, foot, _) \<Rightarrow>
                  if \<not> ok s then Some (s, None, c)
                  else
                    case ReadBlock read file (opt_paranoid_checks opts) (index_handle foot) of
                      None \<Rightarrow> None
                    | Some (s, contents) \<Rightarrow>
                        if \<not> ok s then Some (s, None, c)
                        else
                          let (cid, c) = (case cache of None \<Rightarrow> (0, c) | Some ca \<Rightarrow> ca_NewId ca c);
                              t = \<lparr>ta_options = opts, ta_file = file, ta_cache_id = cid, ta_filter = None,
                                   ta_metaindex_handle = metaindex_handle foot, ta_index_block = new_Block (bc_data contents)\<rparr> in
                          (case ReadMeta read foot t of None \<Rightarrow> None | Some t \<Rightarrow> Some (s, Some t, c)))"

text \<open>What the destructor of an iterator does with its block.\<close>

datatype 'h cleanup = DeleteBlock | ReleaseBlock 'h | NoCleanup

definition cache_key :: "'f table \<Rightarrow> block_handle \<Rightarrow> slice" where
  "cache_key t handle = EncodeFixed64 (ta_cache_id t) @ EncodeFixed64 (bh_offset handle)"

text \<open>The block behind a handle, from the cache if it is there.\<close>

definition find_block ::
    "'f ra_read \<Rightarrow> ('c, 'h) cache_obj option \<Rightarrow> read_options \<Rightarrow> 'f table \<Rightarrow> block_handle \<Rightarrow> 'c
     \<Rightarrow> (ldb_status \<times> (block \<times> 'h option) option \<times> 'c) option" where
  "find_block read cache ro t handle c =
     (let read_it = ReadBlock read (ta_file t) (verify_checksums ro) handle in
      case cache of
        None \<Rightarrow>
          (case read_it of None \<Rightarrow> None
           | Some (s, contents) \<Rightarrow> Some (s, if ok s then Some (new_Block (bc_data contents), None) else None, c))
      | Some ca \<Rightarrow>
          (let key = cache_key t handle in
           case ca_Lookup ca key c of
             None \<Rightarrow> None
           | Some (Some h, c) \<Rightarrow> (case ca_Value ca h c of None \<Rightarrow> None | Some block \<Rightarrow> Some (OK, Some (block, Some h), c))
           | Some (None, c) \<Rightarrow>
               (case read_it of None \<Rightarrow> None
                | Some (s, contents) \<Rightarrow>
                    if \<not> ok s then Some (s, None, c)
                    else
                      let block = new_Block (bc_data contents) in
                      if cachable contents \<and> fill_cache ro
                      then (case ca_Insert ca key block (of_nat (bl_size block)) c of None \<Rightarrow> None
                            | Some (h, c) \<Rightarrow> Some (s, Some (block, Some h), c))
                      else Some (s, Some (block, None), c))))"

definition BlockReader ::
    "'f ra_read \<Rightarrow> ('c, 'h) cache_obj option \<Rightarrow> read_options \<Rightarrow> 'f table \<Rightarrow> slice \<Rightarrow> 'c
     \<Rightarrow> (block_iterator \<times> 'h cleanup \<times> 'c) option" where
  "BlockReader read cache ro t index_value c =
     (let (s, handle, input) = BlockHandle_DecodeFrom new_BlockHandle index_value in
      if \<not> ok s then Some (Error_iterator s, NoCleanup, c)
      else
        case find_block read cache ro t handle c of
          None \<Rightarrow> None
        | Some (s, None, c) \<Rightarrow> Some (Error_iterator s, NoCleanup, c)
        | Some (s, Some (block, cache_handle), c) \<Rightarrow>
            Some (Block_NewIterator block, (case cache_handle of None \<Rightarrow> DeleteBlock | Some h \<Rightarrow> ReleaseBlock h), c))"

definition delete_iterator :: "('c, 'h) cache_obj option \<Rightarrow> 'h cleanup \<Rightarrow> 'c \<Rightarrow> 'c option" where
  "delete_iterator cache cl c =
     (case (cache, cl) of (Some ca, ReleaseBlock h) \<Rightarrow> ca_Release ca h c | _ \<Rightarrow> Some c)"

text \<open>The filter lets a block through; \<open>None\<close> as for the filter.\<close>

definition filter_passes :: "'f table \<Rightarrow> slice \<Rightarrow> slice \<Rightarrow> bool option" where
  "filter_passes t handle_value k =
     (case (ta_filter t, opt_filter_policy (ta_options t), BlockHandle_DecodeFrom new_BlockHandle handle_value) of
        (Some fr, Some p, (s, handle, _)) \<Rightarrow>
          if ok s then FilterBlock_KeyMayMatch (fp_KeyMayMatch p) fr (bh_offset handle) k else Some True
      | _ \<Rightarrow> Some True)"

definition InternalGet ::
    "'f ra_read \<Rightarrow> ('c, 'h) cache_obj option \<Rightarrow> read_options \<Rightarrow> 'f table \<Rightarrow> slice \<Rightarrow> (slice \<Rightarrow> slice \<Rightarrow> 'a \<Rightarrow> 'a) \<Rightarrow> 'a \<Rightarrow> 'c
     \<Rightarrow> (ldb_status \<times> 'a \<times> 'c) option" where
  "InternalGet read cache ro t k saver arg c =
     (let cmp = co_Compare (opt_comparator (ta_options t)) in
      case it_Seek cmp k (Block_NewIterator (ta_index_block t)) of
        None \<Rightarrow> None
      | Some iiter \<Rightarrow>
          if \<not> it_Valid iiter then Some (it_status iiter, arg, c)
          else
            case it_value iiter of
              None \<Rightarrow> None
            | Some handle_value \<Rightarrow>
                (case filter_passes t handle_value k of
                   None \<Rightarrow> None
                 | Some False \<Rightarrow> Some (it_status iiter, arg, c)
                 | Some True \<Rightarrow>
                     (case BlockReader read cache ro t handle_value c of
                        None \<Rightarrow> None
                      | Some (block_iter, cl, c) \<Rightarrow>
                          (case it_Seek cmp k block_iter of
                             None \<Rightarrow> None
                           | Some block_iter \<Rightarrow>
                               (case (if it_Valid block_iter
                                      then (case (it_key block_iter, it_value block_iter) of
                                              (Some key, Some v) \<Rightarrow> Some (saver key v arg) | _ \<Rightarrow> None)
                                      else Some arg) of
                                  None \<Rightarrow> None
                                | Some arg \<Rightarrow>
                                    (let s = it_status block_iter in
                                     map_option (\<lambda>c. (if ok s then it_status iiter else s, arg, c)) (delete_iterator cache cl c)))))))"

definition ApproximateOffsetOf :: "'f table \<Rightarrow> slice \<Rightarrow> u64 option" where
  "ApproximateOffsetOf t key =
     (case it_Seek (co_Compare (opt_comparator (ta_options t))) key (Block_NewIterator (ta_index_block t)) of
        None \<Rightarrow> None
      | Some index_iter \<Rightarrow>
          if it_Valid index_iter
          then
            (case it_value index_iter of None \<Rightarrow> None
             | Some input \<Rightarrow>
                 (let (s, handle, _) = BlockHandle_DecodeFrom new_BlockHandle input in
                  Some (if ok s then bh_offset handle else bh_offset (ta_metaindex_handle t))))
          else Some (bh_offset (ta_metaindex_handle t)))"

end
