(* ===== verification/LdbTableBuild.thy ===== *)
theory LdbTableBuild
  imports LdbTable LdbBlockProps
begin

text \<open>The layout of a table file, and that the builder writes it whenever it reports success.\<close>

section \<open>The layout\<close>

text \<open>
  A table holds blocks of entries, \<open>r\<close> entries to a restart point. The data of the blocks stand in order;
  the handle of a block says where.
\<close>

definition data_part :: "nat \<Rightarrow> kv list list \<Rightarrow> slice" where
  "data_part r bss = concat (map (\<lambda>b. stored (block_bytes r b)) bss)"

definition handle_of :: "nat \<Rightarrow> kv list list \<Rightarrow> nat \<Rightarrow> block_handle" where
  "handle_of r bss i = \<lparr>bh_offset = of_nat (length (data_part r (take i bss))), bh_size = of_nat (length (block_bytes r (bss ! i)))\<rparr>"

abbreviation first_key :: "kv list \<Rightarrow> slice" where "first_key b \<equiv> fst (hd b)"
abbreviation last_key :: "kv list \<Rightarrow> slice" where "last_key b \<equiv> fst (last b)"

text \<open>The index entry of a block that another one follows, and that of the last block.\<close>

definition inner_entry :: "(slice \<Rightarrow> slice \<Rightarrow> slice) \<Rightarrow> nat \<Rightarrow> kv list list \<Rightarrow> nat \<Rightarrow> kv" where
  "inner_entry sep r bss i = (sep (last_key (bss ! i)) (first_key (bss ! Suc i)), BlockHandle_EncodeTo (handle_of r bss i) [])"

definition inner_entries :: "(slice \<Rightarrow> slice \<Rightarrow> slice) \<Rightarrow> nat \<Rightarrow> kv list list \<Rightarrow> kv list" where
  "inner_entries sep r bss = map (inner_entry sep r bss) [0..<length bss - 1]"

definition index_entries :: "(slice \<Rightarrow> slice \<Rightarrow> slice) \<Rightarrow> (slice \<Rightarrow> slice) \<Rightarrow> nat \<Rightarrow> kv list list \<Rightarrow> kv list" where
  "index_entries sep succ r bss = inner_entries sep r bss @
     (if bss = [] then [] else [(succ (last_key (last bss)), BlockHandle_EncodeTo (handle_of r bss (length bss - 1)) [])])"

text \<open>The offsets and keys that the filter block is built from; the last block may be empty.\<close>

definition filter_blocks :: "nat \<Rightarrow> kv list list \<Rightarrow> (u64 \<times> slice list) list" where
  "filter_blocks r bss = map (\<lambda>i. (of_nat (length (data_part r (take i bss))), map fst (bss ! i))) [0..<length bss]"

definition filter_contents :: "filter_policy_obj \<Rightarrow> nat \<Rightarrow> kv list list \<Rightarrow> slice" where
  "filter_contents p r bss = fst (FilterBlock_Finish (fp_CreateFilter p)
     (filter_run (fp_CreateFilter p) (filter_blocks r (bss @ [[]])) new_FilterBlockBuilder))"

definition filter_part :: "filter_policy_obj option \<Rightarrow> nat \<Rightarrow> kv list list \<Rightarrow> slice" where
  "filter_part pol r bss = (case pol of None \<Rightarrow> [] | Some p \<Rightarrow> stored (filter_contents p r bss))"

definition meta_entries :: "filter_policy_obj option \<Rightarrow> nat \<Rightarrow> kv list list \<Rightarrow> kv list" where
  "meta_entries pol r bss = (case pol of None \<Rightarrow> []
     | Some p \<Rightarrow> [(filter_key p, BlockHandle_EncodeTo \<lparr>bh_offset = of_nat (length (data_part r bss)),
                    bh_size = of_nat (length (filter_contents p r bss))\<rparr> [])])"

definition table_footer :: "(slice \<Rightarrow> slice \<Rightarrow> slice) \<Rightarrow> (slice \<Rightarrow> slice) \<Rightarrow> filter_policy_obj option \<Rightarrow> nat \<Rightarrow> kv list list \<Rightarrow> footer" where
  "table_footer sep succ pol r bss =
     (let before = length (data_part r bss @ filter_part pol r bss); meta = block_bytes r (meta_entries pol r bss) in
      \<lparr>metaindex_handle = \<lparr>bh_offset = of_nat before, bh_size = of_nat (length meta)\<rparr>,
       index_handle = \<lparr>bh_offset = of_nat (before + length (stored meta)),
         bh_size = of_nat (length (block_bytes 1 (index_entries sep succ r bss)))\<rparr>\<rparr>)"

definition table_bytes :: "(slice \<Rightarrow> slice \<Rightarrow> slice) \<Rightarrow> (slice \<Rightarrow> slice) \<Rightarrow> filter_policy_obj option \<Rightarrow> nat \<Rightarrow> kv list list \<Rightarrow> slice" where
  "table_bytes sep succ pol r bss = data_part r bss @ filter_part pol r bss
     @ stored (block_bytes r (meta_entries pol r bss)) @ stored (block_bytes 1 (index_entries sep succ r bss))
     @ footer_bytes (table_footer sep succ pol r bss)"

lemma data_part_append: "data_part r (bss @ bss') = data_part r bss @ data_part r bss'"
  by (simp add: data_part_def)

lemma handle_of_append: "i < length bss \<Longrightarrow> handle_of r (bss @ bss') i = handle_of r bss i"
  by (simp add: handle_of_def nth_append)

lemma inner_entry_append: "Suc i < length bss \<Longrightarrow> inner_entry sep r (bss @ bss') i = inner_entry sep r bss i"
  by (simp add: inner_entry_def handle_of_append nth_append)

lemma inner_entries_snoc:
  assumes "bss \<noteq> []"
  shows "inner_entries sep r (bss @ [b]) = inner_entries sep r bss @ [inner_entry sep r (bss @ [b]) (length bss - 1)]"
proof -
  obtain n where n: "length bss = Suc n" using assms by (cases "length bss") auto
  have "map (inner_entry sep r (bss @ [b])) [0..<n] = map (inner_entry sep r bss) [0..<n]"
    using n by (intro map_cong) (simp_all add: inner_entry_append)
  then show ?thesis by (simp add: inner_entries_def n)
qed

text \<open>A block that grows at its end keeps its first key.\<close>

lemma inner_entries_grow:
  assumes "b \<noteq> []"
  shows "inner_entries sep r (bss @ [b @ [e]]) = inner_entries sep r (bss @ [b])"
proof -
  have "inner_entry sep r (bss @ [b @ [e]]) i = inner_entry sep r (bss @ [b]) i" if "i < length bss" for i
    using that assms by (cases "Suc i = length bss") (auto simp: inner_entry_def handle_of_append nth_append hd_append)
  then show ?thesis by (simp add: inner_entries_def)
qed

lemma filter_blocks_snoc:
  "filter_blocks r (bss @ [b]) = filter_blocks r bss @ [(of_nat (length (data_part r bss)), map fst b)]"
proof -
  have "map (\<lambda>i. (of_nat (length (data_part r (take i (bss @ [b])))) :: u64, map fst ((bss @ [b]) ! i))) [0..<length bss]
      = map (\<lambda>i. (of_nat (length (data_part r (take i bss))), map fst (bss ! i))) [0..<length bss]"
    by (intro map_cong) (simp_all add: nth_append)
  then show ?thesis by (simp add: filter_blocks_def)
qed

section \<open>What a builder holds\<close>

text \<open>
  A working builder for the options \<open>opts\<close> has written the blocks \<open>bss\<close>, and holds the entries \<open>cur\<close> of the
  next one. The index entry of the last block is pending while \<open>cur\<close> is empty.
\<close>

definition interval :: "options \<Rightarrow> nat" where
  "interval opts = nat (opt_block_restart_interval opts)"

definition proper :: "options \<Rightarrow> bool" where
  "proper opts \<longleftrightarrow> 1 \<le> opt_block_restart_interval opts \<and> opt_compression opts \<in> {kNoCompression, kSnappyCompression}"

definition opt_sep :: "options \<Rightarrow> slice \<Rightarrow> slice \<Rightarrow> slice" where
  "opt_sep opts = co_FindShortestSeparator (opt_comparator opts)"

definition opt_succ :: "options \<Rightarrow> slice \<Rightarrow> slice" where
  "opt_succ opts = co_FindShortSuccessor (opt_comparator opts)"

definition current_blocks :: "kv list list \<Rightarrow> kv list \<Rightarrow> kv list list" where
  "current_blocks bss cur = (if cur = [] then bss else bss @ [cur])"

definition filter_state :: "options \<Rightarrow> kv list list \<Rightarrow> kv list \<Rightarrow> (filter_policy_obj \<times> filter_block_builder) option" where
  "filter_state opts bss cur = map_option (\<lambda>p. (p, filter_run (fp_CreateFilter p) (filter_blocks (interval opts) (bss @ [cur]))
     new_FilterBlockBuilder)) (opt_filter_policy opts)"

definition builder_holds :: "('f \<Rightarrow> slice) \<Rightarrow> options \<Rightarrow> kv list list \<Rightarrow> kv list \<Rightarrow> 'f table_builder \<Rightarrow> bool" where
  "builder_holds written opts bss cur b \<longleftrightarrow>
     tb_options b = opts \<and> tb_ok b \<and> [] \<notin> set bss
     \<and> written (tb_file b) = data_part (interval opts) bss
     \<and> tb_offset b = of_nat (length (data_part (interval opts) bss))
     \<and> tb_data_block b = add_block cur (new_BlockBuilder (opt_block_restart_interval opts))
     \<and> tb_index_block b = add_block (inner_entries (opt_sep opts) (interval opts) (current_blocks bss cur)) (new_BlockBuilder 1)
     \<and> (current_blocks bss cur \<noteq> [] \<longrightarrow> tb_last_key b = last_key (last (current_blocks bss cur)))
     \<and> tb_pending_index_entry b = (cur = [] \<and> bss \<noteq> [])
     \<and> (bss \<noteq> [] \<longrightarrow> tb_pending_handle b = handle_of (interval opts) bss (length bss - 1))
     \<and> tb_filter_block b = filter_state opts bss cur"

lemma int_interval: "proper opts \<Longrightarrow> int (interval opts) = opt_block_restart_interval opts" "proper opts \<Longrightarrow> 0 < interval opts"
  by (simp_all add: interval_def proper_def)

lemma add_block_snoc: "add_block (es @ [(k, v)]) b = BlockBuilder_Add k v (add_block es b)"
  by (simp add: add_block_def)

lemma filter_run_start: "filter_run create (bs @ [(o', [])]) b = StartBlock create o' (filter_run create bs b)"
  by (simp add: filter_run_def)

lemma filter_run_key: "filter_run create (bs @ [(o', ks @ [k])]) b = AddKey k (filter_run create (bs @ [(o', ks)]) b)"
  by (simp add: filter_run_def)

lemma filter_state_key: "filter_state opts bss (cur @ [(k, v)]) = on_filter (\<lambda>_. AddKey k) (filter_state opts bss cur)"
  by (cases "opt_filter_policy opts") (simp_all add: filter_state_def on_filter_def filter_blocks_snoc filter_run_key)

lemma filter_state_block:
  "filter_state opts (bss @ [cur]) [] =
   on_filter (\<lambda>create. StartBlock create (of_nat (length (data_part (interval opts) (bss @ [cur]))))) (filter_state opts bss cur)"
  using filter_blocks_snoc [of "interval opts" "bss @ [cur]" "[]"]
  by (cases "opt_filter_policy opts") (simp_all add: filter_state_def on_filter_def filter_run_start)

context writable_file
begin

lemma append_ok:
  assumes "file_append f d = (s, f')" "ok s"
  shows "written f' = written f @ d"
proof -
  obtain k where k: "written f' = written f @ take k d" "length d \<le> k" using append_grows [OF assms(1)] assms(2) by blast
  then have "take k d = d" by simp
  with k(1) show ?thesis by simp
qed

text \<open>A raw block is written with its trailer, or the builder stops.\<close>

lemma WriteRawBlock_writes:
  assumes "WriteRawBlock file_append contents kNoCompression b = (h, b')" "tb_ok b'"
    "tb_offset b = of_nat (length (written (tb_file b)))"
  shows "\<exists>f' s. b' = b\<lparr>tb_file := f', tb_status := s, tb_offset := of_nat (length (written f'))\<rparr> \<and> ok s
      \<and> written f' = written (tb_file b) @ stored contents"
    "h = \<lparr>bh_offset = of_nat (length (written (tb_file b))), bh_size = of_nat (length contents)\<rparr>"
proof -
  obtain s1 f1 where a1: "file_append (tb_file b) contents = (s1, f1)" by fastforce
  have s1: "ok s1" using assms(1,2) a1 by (auto simp: WriteRawBlock_def tb_ok_def Let_def split: if_splits)
  let ?trailer = "kNoCompression # EncodeFixed32 (crc_Mask (Extend 0 (crc_Value 0 contents) [kNoCompression]))"
  obtain s2 f2 where a2: "file_append f1 ?trailer = (s2, f2)" by fastforce
  have s2: "ok s2" using assms(1,2) a1 s1 a2 by (auto simp: WriteRawBlock_def tb_ok_def Let_def split: if_splits)
  have "Extend 0 (crc_Value 0 contents) [kNoCompression] = crc_Value 0 (contents @ [kNoCompression])"
    by (simp add: crc_Value_def Extend_append [of 0 0 0 contents "[kNoCompression]" 0])
  then have w: "written f2 = written (tb_file b) @ stored contents"
    using append_ok [OF a1 s1] append_ok [OF a2 s2] by (simp add: stored_def)
  have b': "b' = b\<lparr>tb_status := s2, tb_file := f2, tb_offset := tb_offset b + of_nat (length contents + kBlockTrailerSize)\<rparr>"
    and h: "h = \<lparr>bh_offset = tb_offset b, bh_size = of_nat (length contents)\<rparr>"
    using assms(1) a1 s1 a2 s2 by (auto simp: WriteRawBlock_def Let_def)
  show "h = \<lparr>bh_offset = of_nat (length (written (tb_file b))), bh_size = of_nat (length contents)\<rparr>" using h assms(3) by simp
  show "\<exists>f' s. b' = b\<lparr>tb_file := f', tb_status := s, tb_offset := of_nat (length (written f'))\<rparr> \<and> ok s
      \<and> written f' = written (tb_file b) @ stored contents"
    unfolding b' using w assms(3) s2 by (intro exI [of _ f2] exI [of _ s2]) (simp add: s2)
qed

lemma WriteBlock_writes:
  assumes "WriteBlock file_append (add_block es (new_BlockBuilder (int r))) b = (block, h, b')" "tb_ok b'" "proper (tb_options b)" "0 < r"
    "tb_offset b = of_nat (length (written (tb_file b)))"
  shows "\<exists>f' s. b' = b\<lparr>tb_file := f', tb_status := s, tb_offset := of_nat (length (written f')), tb_compressed_output := []\<rparr>
      \<and> ok s \<and> written f' = written (tb_file b) @ stored (block_bytes r es)"
    "h = \<lparr>bh_offset = of_nat (length (written (tb_file b))), bh_size = of_nat (length (block_bytes r es))\<rparr>"
    "block = new_BlockBuilder (int r)"
proof -
  let ?block = "add_block es (new_BlockBuilder (int r))"
  have raw: "fst (BlockBuilder_Finish ?block) = block_bytes r es" by (rule builder_writes [OF assms(4)])
  have "bb_restart_interval (snd (BlockBuilder_Finish ?block)) = int r"
    by (simp add: BlockBuilder_Finish_def Let_def builder_state [OF assms(4)])
  then have reset: "BlockBuilder_Reset (snd (BlockBuilder_Finish ?block)) = new_BlockBuilder (int r)"
    by (simp add: BlockBuilder_Reset_def new_BlockBuilder_def)
  obtain h0 b0 where w: "WriteRawBlock file_append (block_bytes r es) kNoCompression b = (h0, b0)" by fastforce
  have e: "block = new_BlockBuilder (int r)" "h = h0" "b' = b0\<lparr>tb_compressed_output := []\<rparr>"
    using assms(1,3) raw reset w
    by (auto simp: WriteBlock_def Let_def proper_def Snappy_Compress_def kSnappyCompression_def kNoCompression_def split: prod.splits)
  then have o0: "tb_ok b0" using assms(2) by (simp add: tb_ok_def)
  note r = WriteRawBlock_writes [OF w o0 assms(5)]
  show "block = new_BlockBuilder (int r)" by (rule e)
  show "h = \<lparr>bh_offset = of_nat (length (written (tb_file b))), bh_size = of_nat (length (block_bytes r es))\<rparr>" using e r by simp
  obtain f' s where f': "b0 = b\<lparr>tb_file := f', tb_status := s, tb_offset := of_nat (length (written f'))\<rparr>" "ok s"
      "written f' = written (tb_file b) @ stored (block_bytes r es)"
    using r(1) by blast
  show "\<exists>f' s. b' = b\<lparr>tb_file := f', tb_status := s, tb_offset := of_nat (length (written f')), tb_compressed_output := []\<rparr>
      \<and> ok s \<and> written f' = written (tb_file b) @ stored (block_bytes r es)"
    unfolding e(3) f'(1) using f'(2,3) by (intro exI [of _ f'] exI [of _ s]) simp
qed

section \<open>The steps of the builder\<close>

lemma buffer_empty: "0 < r \<Longrightarrow> bb_buffer (add_block es (new_BlockBuilder (int r))) = [] \<longleftrightarrow> es = []"
  using off_less_iff(1) [of r es 0 "length es"] by (auto simp: builder_state off_def)

lemma holds_new:
  assumes "written file = []" "proper opts"
  shows "builder_holds written opts [] [] (new_TableBuilder opts file)"
  using assms int_interval [OF assms(2)]
  by (cases "opt_filter_policy opts")
    (simp_all add: builder_holds_def new_TableBuilder_def tb_ok_def data_part_def add_block_def inner_entries_def
      current_blocks_def filter_state_def filter_blocks_def filter_run_def)

lemma flush_holds:
  assumes "builder_holds written opts bss cur b" "proper opts" "tb_ok (TableBuilder_Flush file_append file_flush b)"
  shows "builder_holds written opts (current_blocks bss cur) [] (TableBuilder_Flush file_append file_flush b)"
proof (cases "cur = []")
  case True
  then have "bb_buffer (tb_data_block b) = []" using assms(1) by (simp add: builder_holds_def add_block_def new_BlockBuilder_def)
  then show ?thesis using assms(1) True by (simp add: TableBuilder_Flush_def current_blocks_def)
next
  case False
  note h = assms(1) [unfolded builder_holds_def] and r = int_interval [OF assms(2)]
  let ?r = "interval opts"
  have d: "tb_data_block b = add_block cur (new_BlockBuilder (int ?r))" using h r by simp
  have ne: "bb_buffer (tb_data_block b) \<noteq> []" using buffer_empty [OF r(2)] False by (simp add: d)
  obtain block hd b1 where w: "WriteBlock file_append (tb_data_block b) b = (block, hd, b1)" by (metis prod_cases3)
  obtain s f where fl: "file_flush (tb_file b1) = (s, f)" by fastforce
  have e: "TableBuilder_Flush file_append file_flush b =
      (let b2 = b1\<lparr>tb_data_block := block, tb_pending_handle := hd\<rparr>;
           b2 = (if tb_ok b2 then b2\<lparr>tb_pending_index_entry := True, tb_status := s, tb_file := f\<rparr> else b2) in
       b2\<lparr>tb_filter_block := on_filter (\<lambda>create. StartBlock create (tb_offset b2)) (tb_filter_block b2)\<rparr>)"
    using h ne w fl by (simp add: TableBuilder_Flush_def Let_def)
  then have o1: "tb_ok b1" "ok s" using assms(3) by (auto simp: tb_ok_def Let_def split: if_splits)
  have p: "proper (tb_options b)" "tb_offset b = of_nat (length (written (tb_file b)))" using h assms(2) by simp_all
  note wb = WriteBlock_writes [OF w [unfolded d] o1(1) p(1) r(2) p(2)]
  obtain f1 s1 where b1: "b1 = b\<lparr>tb_file := f1, tb_status := s1, tb_offset := of_nat (length (written f1)), tb_compressed_output := []\<rparr>"
      "ok s1" "written f1 = written (tb_file b) @ stored (block_bytes ?r cur)"
    using wb(1) by blast
  have wf: "written f = written f1" using flush_keeps [OF fl] b1(1) by simp
  have dp: "written f1 = data_part ?r (bss @ [cur])" using b1(3) h by (simp add: data_part_append) (simp add: data_part_def)
  have hd: "hd = handle_of ?r (bss @ [cur]) (length bss)" using wb(2) h by (simp add: handle_of_def)
  have fs: "on_filter (\<lambda>create. StartBlock create (of_nat (length (written f1)))) (tb_filter_block b) = filter_state opts (bss @ [cur]) []"
    using h dp by (simp add: filter_state_block)
  have fin: "TableBuilder_Flush file_append file_flush b = b1\<lparr>tb_data_block := block, tb_pending_handle := hd, tb_pending_index_entry := True,
      tb_status := s, tb_file := f, tb_filter_block := filter_state opts (bss @ [cur]) []\<rparr>"
    unfolding e using o1(1) b1(1,2) fs by (simp add: tb_ok_def Let_def)
  show ?thesis unfolding fin b1(1) builder_holds_def
    using h False wf dp hd wb(3) o1(2) r by (simp add: current_blocks_def tb_ok_def add_block_def)
qed

lemma index_entry_added:
  assumes "builder_holds written opts bss [] b" "bss \<noteq> []"
  shows "BlockBuilder_Add (opt_sep opts (tb_last_key b) k) (BlockHandle_EncodeTo (tb_pending_handle b) []) (tb_index_block b)
    = add_block (inner_entries (opt_sep opts) (interval opts) (bss @ [[(k, v)]])) (new_BlockBuilder 1)"
proof -
  obtain n where n: "length bss = Suc n" using assms(2) by (cases "length bss") auto
  have "last bss = bss ! n" using n assms(2) by (simp add: last_conv_nth)
  then have "inner_entry (opt_sep opts) (interval opts) (bss @ [[(k, v)]]) (length bss - 1)
      = (opt_sep opts (tb_last_key b) k, BlockHandle_EncodeTo (tb_pending_handle b) [])"
    using assms n by (simp add: inner_entry_def builder_holds_def current_blocks_def handle_of_append nth_append)
  then show ?thesis
    unfolding inner_entries_snoc [OF assms(2)] using assms by (simp add: add_block_snoc builder_holds_def current_blocks_def)
qed

lemma add_holds:
  assumes "builder_holds written opts bss cur b" "proper opts" "tb_ok (TableBuilder_Add file_append file_flush k v b)"
  shows "\<exists>bss' cur'. builder_holds written opts bss' cur' (TableBuilder_Add file_append file_flush k v b)
    \<and> concat bss' @ cur' = concat bss @ cur @ [(k, v)]"
proof -
  note h = assms(1) [unfolded builder_holds_def]
  define b1 where "b1 = (if tb_pending_index_entry b
      then add_index_entry (co_FindShortestSeparator (opt_comparator (tb_options b)) (tb_last_key b) k) b else b)"
  define b2 where "b2 = b1\<lparr>tb_filter_block := on_filter (\<lambda>_. AddKey k) (tb_filter_block b1), tb_last_key := k,
      tb_num_entries := tb_num_entries b1 + 1, tb_data_block := BlockBuilder_Add k v (tb_data_block b1)\<rparr>"
  have e: "TableBuilder_Add file_append file_flush k v b =
      (if CurrentSizeEstimate (tb_data_block b2) \<ge> opt_block_size (tb_options b2) then TableBuilder_Flush file_append file_flush b2 else b2)"
    using h by (simp add: TableBuilder_Add_def Let_def b1_def b2_def)
  have b1: "tb_index_block b1 = add_block (inner_entries (opt_sep opts) (interval opts) (current_blocks bss (cur @ [(k, v)]))) (new_BlockBuilder 1)"
    "b1 = b\<lparr>tb_index_block := tb_index_block b1, tb_last_key := tb_last_key b1, tb_pending_index_entry := False\<rparr>"
  proof -
    have "opt_sep opts = co_FindShortestSeparator (opt_comparator (tb_options b))" using h by (simp add: opt_sep_def)
    then show "b1 = b\<lparr>tb_index_block := tb_index_block b1, tb_last_key := tb_last_key b1, tb_pending_index_entry := False\<rparr>"
      by (simp add: b1_def add_index_entry_def Let_def)
    consider "cur = []" "bss \<noteq> []" | "cur \<noteq> []" | "cur = []" "bss = []" by blast
    then show "tb_index_block b1 = add_block (inner_entries (opt_sep opts) (interval opts) (current_blocks bss (cur @ [(k, v)]))) (new_BlockBuilder 1)"
    proof cases
      case 1
      then show ?thesis using h index_entry_added [of opts bss b k v] assms(1)
        by (simp add: b1_def add_index_entry_def Let_def current_blocks_def opt_sep_def)
    next
      case 2
      then show ?thesis using h inner_entries_grow [OF 2, of "opt_sep opts" "interval opts" bss "(k, v)"]
        by (simp add: b1_def current_blocks_def)
    next
      case 3
      then show ?thesis using h by (simp add: b1_def current_blocks_def inner_entries_def)
    qed
  qed
  have eq: "b2 = b\<lparr>tb_index_block := tb_index_block b1, tb_pending_index_entry := False, tb_filter_block := on_filter (\<lambda>_. AddKey k) (tb_filter_block b),
      tb_last_key := k, tb_num_entries := tb_num_entries b + 1, tb_data_block := BlockBuilder_Add k v (tb_data_block b)\<rparr>"
    unfolding b2_def by (subst b1(2), subst (3) b1(2), subst (4) b1(2), subst (5) b1(2)) simp
  have b2: "builder_holds written opts bss (cur @ [(k, v)]) b2"
    using h b1(1) unfolding eq builder_holds_def
    by (simp add: add_block_snoc filter_state_key current_blocks_def tb_ok_def)
  show ?thesis
  proof (cases "CurrentSizeEstimate (tb_data_block b2) \<ge> opt_block_size (tb_options b2)")
    case True
    then show ?thesis
      using flush_holds [OF b2 assms(2)] assms(3) e by (intro exI [of _ "bss @ [cur @ [(k, v)]]"] exI [of _ "[]"]) (simp add: current_blocks_def)
  next
    case False
    then show ?thesis using b2 e by (intro exI [of _ bss] exI [of _ "cur @ [(k, v)]"]) simp
  qed
qed

lemma flush_stops: "\<not> tb_ok b \<Longrightarrow> TableBuilder_Flush app fl b = b" "\<not> tb_ok b \<Longrightarrow> TableBuilder_Add app fl k v b = b"
  by (simp_all add: TableBuilder_Flush_def TableBuilder_Add_def)

end

text \<open>A client that adds entries.\<close>

definition add_entries ::
    "('f \<Rightarrow> slice \<Rightarrow> ldb_status \<times> 'f) \<Rightarrow> ('f \<Rightarrow> ldb_status \<times> 'f) \<Rightarrow> kv list \<Rightarrow> 'f table_builder \<Rightarrow> 'f table_builder" where
  "add_entries app fl es b = fold (\<lambda>(k, v). TableBuilder_Add app fl k v) es b"

context writable_file
begin

lemma add_entries_holds:
  assumes "proper opts" "written file = []"
  shows "tb_ok (add_entries file_append file_flush es (new_TableBuilder opts file)) \<Longrightarrow>
    \<exists>bss cur. builder_holds written opts bss cur (add_entries file_append file_flush es (new_TableBuilder opts file))
      \<and> concat bss @ cur = es"
proof (induction es rule: rev_induct)
  case Nil
  then show ?case using holds_new [OF assms(2,1)] by (auto simp: add_entries_def)
next
  case (snoc e es)
  obtain k v where e: "e = (k, v)" by (cases e)
  let ?b = "add_entries file_append file_flush es (new_TableBuilder opts file)"
  have a: "add_entries file_append file_flush (es @ [e]) (new_TableBuilder opts file) = TableBuilder_Add file_append file_flush k v ?b"
    by (simp add: add_entries_def e)
  have "tb_ok ?b" using snoc.prems flush_stops(2) unfolding a by metis
  then obtain bss cur where h: "builder_holds written opts bss cur ?b" "concat bss @ cur = es" using snoc.IH by blast
  obtain bss' cur' where "builder_holds written opts bss' cur' (TableBuilder_Add file_append file_flush k v ?b)"
      "concat bss' @ cur' = concat bss @ cur @ [(k, v)]"
    using add_holds [OF h(1) assms(1) snoc.prems [unfolded a]] by blast
  then show ?case unfolding a using h(2) e by (intro exI [of _ bss'] exI [of _ cur']) simp
qed

section \<open>The end of the table\<close>

lemma finish_filter_writes:
  assumes "builder_holds written opts bss [] b" "finish_filter file_append b = (h, b')" "tb_ok b'"
  shows "\<exists>f s o' fb. b' = b\<lparr>tb_file := f, tb_status := s, tb_offset := o', tb_filter_block := fb\<rparr> \<and> ok s
      \<and> written f = data_part (interval opts) bss @ filter_part (opt_filter_policy opts) (interval opts) bss
      \<and> o' = of_nat (length (written f)) \<and> (fb = None \<longleftrightarrow> opt_filter_policy opts = None)"
    "\<And>p. opt_filter_policy opts = Some p \<Longrightarrow> h = \<lparr>bh_offset = of_nat (length (data_part (interval opts) bss)),
        bh_size = of_nat (length (filter_contents p (interval opts) bss))\<rparr>"
proof -
  note h = assms(1) [unfolded builder_holds_def]
  have all: "(\<exists>f s o' fb. b' = b\<lparr>tb_file := f, tb_status := s, tb_offset := o', tb_filter_block := fb\<rparr> \<and> ok s
      \<and> written f = data_part (interval opts) bss @ filter_part (opt_filter_policy opts) (interval opts) bss
      \<and> o' = of_nat (length (written f)) \<and> (fb = None \<longleftrightarrow> opt_filter_policy opts = None))
    \<and> (\<forall>p. opt_filter_policy opts = Some p \<longrightarrow> h = \<lparr>bh_offset = of_nat (length (data_part (interval opts) bss)),
        bh_size = of_nat (length (filter_contents p (interval opts) bss))\<rparr>)"
  proof (cases "opt_filter_policy opts")
    case None
    then have "b' = b" using assms(2) h by (simp add: finish_filter_def filter_state_def)
    then show ?thesis
      using h None by (intro conjI exI [of _ "tb_file b"] exI [of _ "tb_status b"] exI [of _ "tb_offset b"] exI [of _ "tb_filter_block b"])
        (simp_all add: tb_ok_def filter_part_def filter_state_def)
  next
    case (Some p)
    define fb where "fb = filter_run (fp_CreateFilter p) (filter_blocks (interval opts) (bss @ [[]])) new_FilterBlockBuilder"
    obtain fb' where fb': "FilterBlock_Finish (fp_CreateFilter p) fb = (filter_contents p (interval opts) bss, fb')"
      unfolding filter_contents_def fb_def by (metis prod.collapse)
    define b0 where "b0 = b\<lparr>tb_filter_block := Some (p, fb')\<rparr>"
    have w: "WriteRawBlock file_append (filter_contents p (interval opts) bss) kNoCompression b0 = (h, b')"
      using assms(2) h Some fb' by (simp add: finish_filter_def filter_state_def fb_def b0_def)
    have "tb_offset b0 = of_nat (length (written (tb_file b0)))" using h by (simp add: b0_def)
    note wr = WriteRawBlock_writes [OF w assms(3) this]
    obtain f s where "b' = b0\<lparr>tb_file := f, tb_status := s, tb_offset := of_nat (length (written f))\<rparr>" "ok s"
      "written f = written (tb_file b0) @ stored (filter_contents p (interval opts) bss)"
      using wr(1) by blast
    moreover note wr(2)
    ultimately show ?thesis
      using h Some by (intro conjI exI [of _ f] exI [of _ s] exI [of _ "tb_offset b'"] exI [of _ "Some (p, fb')"])
        (simp_all add: filter_part_def b0_def)
  qed
  then show "\<exists>f s o' fb. b' = b\<lparr>tb_file := f, tb_status := s, tb_offset := o', tb_filter_block := fb\<rparr> \<and> ok s
      \<and> written f = data_part (interval opts) bss @ filter_part (opt_filter_policy opts) (interval opts) bss
      \<and> o' = of_nat (length (written f)) \<and> (fb = None \<longleftrightarrow> opt_filter_policy opts = None)" by blast
  show "\<And>p. opt_filter_policy opts = Some p \<Longrightarrow> h = \<lparr>bh_offset = of_nat (length (data_part (interval opts) bss)),
        bh_size = of_nat (length (filter_contents p (interval opts) bss))\<rparr>" using all by blast
qed

lemma finish_metaindex_writes:
  assumes "finish_metaindex file_append hf b = (h, b')" "tb_ok b'" "tb_options b = opts" "proper opts"
    "tb_offset b = of_nat (length (written (tb_file b)))" "tb_filter_block b = None \<longleftrightarrow> opt_filter_policy opts = None"
    "\<And>p. opt_filter_policy opts = Some p \<Longrightarrow> hf = \<lparr>bh_offset = of_nat (length (data_part (interval opts) bss)),
        bh_size = of_nat (length (filter_contents p (interval opts) bss))\<rparr>"
  shows "\<exists>f s. b' = b\<lparr>tb_file := f, tb_status := s, tb_offset := of_nat (length (written f)), tb_compressed_output := []\<rparr> \<and> ok s
      \<and> written f = written (tb_file b) @ stored (block_bytes (interval opts) (meta_entries (opt_filter_policy opts) (interval opts) bss))
      \<and> h = \<lparr>bh_offset = of_nat (length (written (tb_file b))),
             bh_size = of_nat (length (block_bytes (interval opts) (meta_entries (opt_filter_policy opts) (interval opts) bss)))\<rparr>"
proof -
  let ?es = "meta_entries (opt_filter_policy opts) (interval opts) bss"
  note r = int_interval [OF assms(4)]
  have okb: "tb_ok b" using assms(1,2) by (auto simp: finish_metaindex_def split: if_splits)
  have "(case (tb_filter_block b, opt_filter_policy opts) of
       (Some _, Some p) \<Rightarrow> BlockBuilder_Add (filter_key p) (BlockHandle_EncodeTo hf []) (new_BlockBuilder (opt_block_restart_interval opts))
     | _ \<Rightarrow> new_BlockBuilder (opt_block_restart_interval opts)) = add_block ?es (new_BlockBuilder (int (interval opts)))"
    using assms(6,7) r by (cases "opt_filter_policy opts"; cases "tb_filter_block b") (simp_all add: meta_entries_def add_block_def)
  then obtain block where w: "WriteBlock file_append (add_block ?es (new_BlockBuilder (int (interval opts)))) b = (block, h, b')"
    using assms(1,3) okb by (auto simp: finish_metaindex_def Let_def split: prod.splits)
  have p: "proper (tb_options b)" using assms(3,4) by simp
  from WriteBlock_writes [OF w assms(2) p r(2) assms(5)] show ?thesis by blast
qed

lemma finish_index_writes:
  assumes "finish_index file_append b = (h, b')" "tb_ok b'" "tb_options b = opts" "proper opts"
    "tb_offset b = of_nat (length (written (tb_file b)))"
    "tb_index_block b = add_block (inner_entries (opt_sep opts) (interval opts) bss) (new_BlockBuilder 1)"
    "tb_pending_index_entry b \<longleftrightarrow> bss \<noteq> []" "bss \<noteq> [] \<longrightarrow> tb_last_key b = last_key (last bss)"
    "bss \<noteq> [] \<longrightarrow> tb_pending_handle b = handle_of (interval opts) bss (length bss - 1)"
  shows "tb_offset b' = of_nat (length (written (tb_file b')))
    \<and> written (tb_file b') = written (tb_file b) @ stored (block_bytes 1 (index_entries (opt_sep opts) (opt_succ opts) (interval opts) bss))
    \<and> h = \<lparr>bh_offset = of_nat (length (written (tb_file b))),
           bh_size = of_nat (length (block_bytes 1 (index_entries (opt_sep opts) (opt_succ opts) (interval opts) bss)))\<rparr>"
proof -
  let ?es = "index_entries (opt_sep opts) (opt_succ opts) (interval opts) bss"
  have okb: "tb_ok b" using assms(1,2) by (auto simp: finish_index_def split: if_splits)
  define b1 where "b1 = (if tb_pending_index_entry b
      then add_index_entry (co_FindShortSuccessor (opt_comparator (tb_options b)) (tb_last_key b)) b else b)"
  have b1: "tb_index_block b1 = add_block ?es (new_BlockBuilder (int 1))" "tb_options b1 = opts" "tb_file b1 = tb_file b" "tb_offset b1 = tb_offset b"
    using assms(3,6,7,8,9) by (auto simp: b1_def add_index_entry_def Let_def index_entries_def add_block_snoc opt_succ_def add_block_def)
  obtain block b2 where w: "WriteBlock file_append (add_block ?es (new_BlockBuilder (int 1))) b1 = (block, h, b2)" "b' = b2\<lparr>tb_index_block := block\<rparr>"
    using assms(1) okb b1(1) unfolding finish_index_def b1_def [symmetric] by (auto simp: Let_def b1_def [symmetric] split: prod.splits)
  have o2: "tb_ok b2" "proper (tb_options b1)" "tb_offset b1 = of_nat (length (written (tb_file b1)))" "(0 :: nat) < 1"
    using assms(2,4,5) w(2) b1 by (simp_all add: tb_ok_def)
  note wb = WriteBlock_writes [OF w(1) o2(1,2,4,3)]
  then show ?thesis using w(2) b1 by auto
qed

theorem table_written:
  assumes "builder_holds written opts bss cur b" "proper opts" "ok (fst (TableBuilder_Finish file_append file_flush b))"
  shows "written (tb_file (snd (TableBuilder_Finish file_append file_flush b)))
      = table_bytes (opt_sep opts) (opt_succ opts) (opt_filter_policy opts) (interval opts) (current_blocks bss cur)"
    "FileSize (snd (TableBuilder_Finish file_append file_flush b))
      = of_nat (length (written (tb_file (snd (TableBuilder_Finish file_append file_flush b)))))"
proof -
  define b0 where "b0 = TableBuilder_Flush file_append file_flush b"
  define b1 where "b1 = b0\<lparr>tb_closed := True\<rparr>"
  obtain hf b2 where b2: "finish_filter file_append b1 = (hf, b2)" by fastforce
  obtain hm b3 where b3: "finish_metaindex file_append hf b2 = (hm, b3)" by fastforce
  obtain hi b4 where b4: "finish_index file_append b3 = (hi, b4)" by fastforce
  let ?foot = "\<lparr>metaindex_handle = hm, index_handle = hi\<rparr>"
  obtain s f where ap: "file_append (tb_file b4) (Footer_EncodeTo ?foot []) = (s, f)" by fastforce
  have e: "TableBuilder_Finish file_append file_flush b =
      (let b5 = (if tb_ok b4 then (let b5 = b4\<lparr>tb_status := s, tb_file := f\<rparr> in
           if ok s then b5\<lparr>tb_offset := tb_offset b4 + of_nat (length (Footer_EncodeTo ?foot []))\<rparr> else b5) else b4) in (tb_status b5, b5))"
    using b2 b3 b4 ap by (simp add: TableBuilder_Finish_def b0_def [symmetric] b1_def [symmetric] Let_def)
  have o4: "tb_ok b4" "ok s" using assms(3) unfolding e by (auto simp: tb_ok_def Let_def split: if_splits)
  then have fin: "tb_file (snd (TableBuilder_Finish file_append file_flush b)) = f"
      "FileSize (snd (TableBuilder_Finish file_append file_flush b)) = tb_offset b4 + of_nat (length (Footer_EncodeTo ?foot []))"
    unfolding e by (simp_all add: Let_def FileSize_def)
  have o3: "tb_ok b3" using b4 o4(1) by (auto simp: finish_index_def split: if_splits)
  have o2: "tb_ok b2" using b3 o3 by (auto simp: finish_metaindex_def split: if_splits)
  have o1: "tb_ok b0" using b2 o2 by (auto simp: finish_filter_def b1_def tb_ok_def split: if_splits)
  let ?bss = "current_blocks bss cur" and ?r = "interval opts"
  have h1: "builder_holds written opts ?bss [] b1"
    using flush_holds [OF assms(1,2) o1 [unfolded b0_def]] by (simp add: b1_def b0_def builder_holds_def tb_ok_def)
  note h = h1 [unfolded builder_holds_def]
  note f2 = finish_filter_writes [OF h1 b2 o2]
  obtain fa sa oa fb where b2': "b2 = b1\<lparr>tb_file := fa, tb_status := sa, tb_offset := oa, tb_filter_block := fb\<rparr>" "ok sa"
      "written fa = data_part ?r ?bss @ filter_part (opt_filter_policy opts) ?r ?bss" "oa = of_nat (length (written fa))"
      "fb = None \<longleftrightarrow> opt_filter_policy opts = None"
    using f2(1) by (elim exE conjE) metis
  let ?meta = "block_bytes ?r (meta_entries (opt_filter_policy opts) ?r ?bss)"
  have "tb_options b2 = opts" "tb_offset b2 = of_nat (length (written (tb_file b2)))"
      "tb_filter_block b2 = None \<longleftrightarrow> opt_filter_policy opts = None"
    using b2' h by simp_all
  from finish_metaindex_writes [OF b3 o3 this(1) assms(2) this(2,3) f2(2)]
  obtain fm sm where b3': "b3 = b2\<lparr>tb_file := fm, tb_status := sm, tb_offset := of_nat (length (written fm)), tb_compressed_output := []\<rparr>"
      "written fm = written fa @ stored ?meta"
      "hm = \<lparr>bh_offset = of_nat (length (written fa)), bh_size = of_nat (length ?meta)\<rparr>"
    using b2'(1) by auto
  have "tb_options b3 = opts" "tb_offset b3 = of_nat (length (written (tb_file b3)))"
      "tb_index_block b3 = add_block (inner_entries (opt_sep opts) ?r ?bss) (new_BlockBuilder 1)"
      "tb_pending_index_entry b3 \<longleftrightarrow> ?bss \<noteq> []" "?bss \<noteq> [] \<longrightarrow> tb_last_key b3 = last_key (last ?bss)"
      "?bss \<noteq> [] \<longrightarrow> tb_pending_handle b3 = handle_of ?r ?bss (length ?bss - 1)"
    using h unfolding b3'(1) b2'(1) by (simp_all add: current_blocks_def)
  note f4 = finish_index_writes [OF b4 o4(1) this(1) assms(2) this(2-6)]
  have "?foot = table_footer (opt_sep opts) (opt_succ opts) (opt_filter_policy opts) ?r ?bss"
    using f4 b3' b2' by (simp add: table_footer_def Let_def add.assoc)
  then have "written f = table_bytes (opt_sep opts) (opt_succ opts) (opt_filter_policy opts) ?r ?bss"
    using append_ok [OF ap o4(2)] f4 b3'(1,2) b2'(3) by (simp add: table_bytes_def footer_written)
  then show "written (tb_file (snd (TableBuilder_Finish file_append file_flush b)))
      = table_bytes (opt_sep opts) (opt_succ opts) (opt_filter_policy opts) ?r ?bss"
    unfolding fin .
  show "FileSize (snd (TableBuilder_Finish file_append file_flush b))
      = of_nat (length (written (tb_file (snd (TableBuilder_Finish file_append file_flush b)))))"
    unfolding fin using append_ok [OF ap o4(2)] f4 by simp
qed

end

section \<open>Over the files of \<open>env_posix.cc\<close>\<close>

definition build_table :: "options \<Rightarrow> kv list \<Rightarrow> posix_file \<Rightarrow> ldb_status \<times> posix_file table_builder" where
  "build_table opts es file = TableBuilder_Finish PosixWritableFile_Append PosixWritableFile_Flush
     (add_entries PosixWritableFile_Append PosixWritableFile_Flush es (new_TableBuilder opts file))"

lemma finish_stops: "\<not> tb_ok b \<Longrightarrow> \<not> ok (fst (TableBuilder_Finish app fl b))"
  by (simp add: TableBuilder_Finish_def TableBuilder_Flush_def finish_filter_def finish_metaindex_def finish_index_def tb_ok_def)

lemma build_layout:
  assumes "proper opts" "stream_bytes (stream file) = []" "ok (fst (build_table opts es file))"
  shows "\<exists>bss. concat bss = es \<and> [] \<notin> set bss
    \<and> stream_bytes (stream (tb_file (snd (build_table opts es file))))
        = table_bytes (opt_sep opts) (opt_succ opts) (opt_filter_policy opts) (interval opts) bss
    \<and> FileSize (snd (build_table opts es file)) = of_nat (length (stream_bytes (stream (tb_file (snd (build_table opts es file))))))"
proof -
  let ?b = "add_entries PosixWritableFile_Append PosixWritableFile_Flush es (new_TableBuilder opts file)"
  have "tb_ok ?b" using assms(3) finish_stops unfolding build_table_def by blast
  then obtain bss cur where h: "builder_holds (\<lambda>f. stream_bytes (stream f)) opts bss cur ?b" "concat bss @ cur = es"
    using posix_writable.add_entries_holds [OF assms(1,2)] by blast
  note w = posix_writable.table_written [OF h(1) assms(1) assms(3) [unfolded build_table_def]]
  have "concat (current_blocks bss cur) = es" "[] \<notin> set (current_blocks bss cur)"
    using h by (auto simp: current_blocks_def builder_holds_def)
  then show ?thesis using w unfolding build_table_def by blast
qed

text \<open>
  C9: Whenever the builder reports success, the file holds the table of the entries that were added: their
  blocks in order, each with its checksum, the filter block, the metaindex, an index with a separator
  and a handle for every block, and the footer that points to them; \<open>FileSize\<close> is the size of the file.
\<close>

theorem table_layout:
  assumes "proper opts" "stream_bytes (stream file) = []" "ok (fst (build_table opts es file))"
  shows "\<exists>bss. concat bss = es \<and> [] \<notin> set bss
    \<and> stream_bytes (stream (tb_file (snd (build_table opts es file))))
        = table_bytes (opt_sep opts) (opt_succ opts) (opt_filter_policy opts) (interval opts) bss
    \<and> FileSize (snd (build_table opts es file)) = of_nat (length (stream_bytes (stream (tb_file (snd (build_table opts es file))))))"
  by (rule build_layout [OF assms])

definition small_options :: options where
  "small_options = \<lparr>opt_comparator = \<lparr>co_address = 1, co_Compare = Bytewise_Compare,
       co_FindShortestSeparator = Bytewise_FindShortestSeparator, co_FindShortSuccessor = Bytewise_FindShortSuccessor\<rparr>,
     opt_paranoid_checks = True, opt_block_size = 1, opt_block_restart_interval = 16, opt_compression = 0, opt_filter_policy = None\<rparr>"

definition empty_file :: posix_file where
  "empty_file = \<lparr>filename = [], stream = \<lparr>stream_bytes = [], stream_pos = 0, stream_room = 1000, bad_sector = None,
     end_of_file = False, error_text = []\<rparr>\<rparr>"

lemma small_table_runs:
  "case build_table small_options [([0x61], [1])] empty_file of (s, b) \<Rightarrow>
     ok s \<and> length (stream_bytes (stream (tb_file b))) = 98"
  by code_simp

lemma small_table:
  "ok (fst (build_table small_options [([0x61], [1])] empty_file))"
  "length (stream_bytes (stream (tb_file (snd (build_table small_options [([0x61], [1])] empty_file))))) = 98"
  using small_table_runs by (simp_all split: prod.splits)

lemma small_proper: "proper small_options" "stream_bytes (stream empty_file) = []"
  by (simp_all add: proper_def small_options_def kNoCompression_def empty_file_def)

theorem table_layout_witness:
  "\<exists>bss. concat bss = [([0x61], [1])]
    \<and> stream_bytes (stream (tb_file (snd (build_table small_options [([0x61], [1])] empty_file))))
        = table_bytes Bytewise_FindShortestSeparator Bytewise_FindShortSuccessor None 16 bss"
proof -
  have "opt_sep small_options = Bytewise_FindShortestSeparator" "opt_succ small_options = Bytewise_FindShortSuccessor"
    "opt_filter_policy small_options = None" "interval small_options = 16"
    by (simp_all add: small_options_def opt_sep_def opt_succ_def interval_def)
  then show ?thesis using table_layout [OF small_proper small_table(1)] by auto
qed

end
