(* ===== verification/Spec2Isabelle.thy ===== *)
theory Spec2Isabelle
  imports PbEncodeTotal PbDecProps PbDecodeProps PbRelease FBase64Props LdbFormat LdbLogProps LdbDbProps LdbBlockProps LdbTableBuild
begin

text \<open>
  The C and C++ code that the FIT Studkurator application runs on its data, under
  \<open>src/FIT_Studkurator/Pods\<close>. The application is an iOS program in Swift that keeps its data in
  Firebase; the code with logic of its own in C and C++ is in three pods, which this development
  models and proves correct.

  \<^item> nanopb (\<open>nanopb/pb.h\<close>, \<open>pb_common.c\<close>, \<open>pb_encode.c\<close>, \<open>pb_decode.c\<close>): Protocol Buffers for the
    Firebase clients, driven by arrays of field descriptors, over callback streams and raw structs.
  \<^item> \<open>fbase64.c\<close> of FirebaseDatabase: base-64 for its web socket handshake.
  \<^item> LevelDB (\<open>leveldb-library\<close>): the store of the offline cache. Modelled are the layers that fix
    its formats and orders (coding, CRC-32C, hash and Bloom filter, comparators, internal keys,
    status, files), the write-ahead log, the memory table on its skip list and arena, write batches, blocks of tables,
    and of the database itself the write path, lookups at a snapshot and the replay of a log.

  Configuration. The pods build for 64-bit little-endian iOS: \<open>PB_FIELD_32BIT\<close> and
  \<open>PB_ENABLE_MALLOC\<close> are set, \<open>PB_WITHOUT_64BIT\<close> and \<open>PB_BUFFER_ONLY\<close> are not; LevelDB has no SSE,
  so that \<open>AcceleratedCRC32C\<close> returns 0, and \<open>char\<close> is signed.

  Theories and code.

  \<^item> \<open>Prelude\<close>: words, outcomes of a call (\<open>Ok\<close>, \<open>Fail\<close>, \<open>Diverge\<close> when the fuel is used up,
    \<open>Undef\<close> where C leaves the behaviour undefined), little-endian bytes, flat memory. \<open>Varint\<close>:
    base-128 numbers, shared by nanopb and LevelDB.
  \<^item> \<open>PbTypes\<close>: \<open>pb.h\<close>. \<open>PbCommon\<close>, \<open>PbCommonProps\<close>: the field iterator of \<open>pb_common.c\<close>.
  \<^item> \<open>PbOstream\<close>, \<open>PbEncPrim\<close>, \<open>PbEncode\<close>: \<open>pb_encode.c\<close>, streams, values and messages.
    \<open>PbWire\<close>, \<open>PbEncodeSpec\<close>, \<open>PbEncodeProps\<close>, \<open>PbEncodeTotal\<close>: the wire message that a struct
    stands for, that the encoder writes it, and that it returns.
  \<^item> \<open>PbIstream\<close>, \<open>PbDecPrim\<close>, \<open>PbDecode\<close>: \<open>pb_decode.c\<close>, streams and wire-level readers, then
    static, pointer, callback and extension fields, defaults, \<open>pb_decode\<close> and its variants, and
    \<open>pb_release\<close>, over a world of memory and heap blocks. \<open>PbDecProps\<close>: the readers.
    \<open>PbRegion\<close>, \<open>PbDecodeSafe\<close>, \<open>PbDecodeLoop\<close>: the region that descriptors may write and that
    the decoder stays in it and ends. \<open>PbDecodeTrip\<close>, \<open>PbDecodeProps\<close>: what it decodes.
    \<open>PbMem\<close>, \<open>PbRelease\<close>: what \<open>pb_release\<close> frees. \<open>PbDecodeBugs\<close>: inputs on which the code
    goes wrong.
  \<^item> \<open>FBase64\<close>, \<open>FBase64Spec\<close>, \<open>FBase64Props\<close>: \<open>fbase64.c\<close> and RFC 1521.
  \<^item> \<open>LdbCoding\<close>: \<open>util/coding.cc\<close>, \<open>coding.h\<close>. \<open>LdbCrc32c\<close>: \<open>util/crc32c.cc\<close>, with its four
    tables and the division bit by bit that they stand for. \<open>LdbBloom\<close>: \<open>util/hash.cc\<close>,
    \<open>util/bloom.cc\<close> and the filter policy interface. \<open>LdbComparator\<close>: \<open>slice.h\<close>,
    \<open>util/comparator.cc\<close> and the comparator interface. \<open>LdbFormat\<close>: \<open>db/dbformat.cc\<close>,
    \<open>dbformat.h\<close>, a comparator and a filter policy built on those of the user.
  \<^item> \<open>LdbStatus\<close>: \<open>util/status.cc\<close>. \<open>LdbEnv\<close>: the file interfaces of \<open>env.h\<close> and the sequential and
    writable files of \<open>util/env_posix.cc\<close>. \<open>LdbLog\<close>: \<open>db/log_writer.cc\<close>, \<open>db/log_reader.cc\<close>;
    \<open>LdbLogWrite\<close>, \<open>LdbLogProps\<close>: the layout of a log, and writer and reader against it.

  \<^item> \<open>LdbSkipList\<close>, \<open>LdbSkipListProps\<close>: \<open>db/skiplist.h\<close>, \<open>util/random.h\<close>, and the sorted list that a
    skip list represents. \<open>LdbMemTable\<close>: \<open>db/memtable.cc\<close>, and the entries that a table holds.
    \<open>LdbArena\<close>: \<open>util/arena.cc\<close> and the memory of a table. \<open>LdbBatch\<close>: \<open>db/write_batch.cc\<close>, and the
    map that updates leave in a table.
  \<^item> \<open>LdbDb\<close>: of \<open>db/db_impl.cc\<close> the queue of writers and their groups, \<open>Write\<close>, \<open>MakeRoomForWrite\<close>, \<open>Get\<close>
    and \<open>RecoverLogFile\<close>; other threads are the operations \<open>op_wait\<close>, \<open>op_delay\<close> and \<open>op_schedule\<close>.
    \<open>LdbDbProps\<close>: the runs of a database as a step relation, what is committed in them, what
    snapshots see, and what is left of them after a crash.
  \<^item> \<open>LdbBlock\<close>: \<open>table/block_builder.cc\<close>, \<open>table/block.cc\<close>; \<open>LdbBlockProps\<close>: the layout of a block, and
    builder and iterator against it. \<open>LdbTableFormat\<close>: \<open>table/format.cc\<close> and the random access files of
    \<open>env_posix.cc\<close>. \<open>LdbFilterBlock\<close>: \<open>table/filter_block.cc\<close>. \<open>LdbTable\<close>: \<open>table/table_builder.cc\<close>,
    \<open>table/table.cc\<close> and the virtual functions of \<open>table/iterator.cc\<close>; \<open>LdbTableBuild\<close>: the layout of a
    table, and that the builder writes it.

  How the model reads. A C function is a definition with the same name; loops and blocks of a
  function that need a name are definitions of their own, and the map in \<open>PROJECT.json\<close> gives their
  lines. State is passed and returned: a stream with its error message, an iterator, memory, the
  heap, a file. Errors are values. Function pointers are opaque words, and what they do is a
  parameter; user callbacks are under the contracts \<open>callbacks_conform\<close> and \<open>callbacks_ok\<close>. A read
  callback sees the state and the count only. The choice of \<open>malloc\<close> is a parameter. A submessage
  substream is a copy, as in C, so that after a failure the parent keeps its old state; a failing
  callback leaves its buffer untouched. Memory is total: reads of freed blocks are not tracked,
  while freeing and reallocating something that is no block is \<open>Undef\<close>. In LevelDB a \<open>Slice\<close> is its
  bytes, and a pointer into a buffer with a limit is the bytes that remain. The Bloom filter's
  \<open>bits_per_key * 0.69\<close> is taken exactly. The contents of a stream of the C library are its bytes,
  its position, the room left and where it fails.

  Interfaces. \<open>comparator\<close> (interpreted for the bytewise comparator, and for internal keys over any
  other comparator), \<open>filter_policy\<close> (the Bloom filter, and the internal policy over any other),
  \<open>weak_order\<close> (the order of a skip list's keys: any comparator, and the entries of a memory table),
  \<open>sequential_file\<close> and \<open>writable_file\<close> (the files of \<open>env_posix.cc\<close>), and the stream contracts
  of nanopb. Clients are proved against the interface, and the properties state the result for the
  code's own providers.

  Fuel. \<open>pb_encode\<close> returns with the nesting depth of its descriptors plus one; \<open>pb_decode\<close> with
  the bytes of the stream plus the nesting depth; \<open>ReadRecord\<close> with one more than the bytes left
  in the file; a search of a skip list with its nodes times its levels. Each bound is a theorem.
  \<open>MakeRoomForWrite\<close> may wait for ever, and its fuel is the number of its turns. All other loops are total.

  Not modelled. The iOS application and the Objective-C pods; in LevelDB the cache, version edits and file names (the plan, in this order), and
  compactions, their scheduling and system calls (the rest of \<open>db_impl.cc\<close>, \<open>version_set.cc\<close>, most of
  \<open>env_posix.cc\<close>), which are concurrency and input/output. The atomic accesses of the skip list, by
  which readers run beside the writer, are plain ones.
\<close>

end
